(* ===== verification/Shell_Prelude.thy ===== *)
theory Shell_Prelude
  imports Main "HOL-Library.Char_ord" "HOL-Library.Multiset"
begin

text \<open>
  Shared vocabulary of the development.  A C string is a \<^typ>\<open>string\<close> holding the bytes
  before the terminating NUL.  This theory collects the pieces of the C library the shell
  calls (character classes, bounded copies, \<open>strtol\<close>, \<open>strstr\<close>, \<open>fgets\<close>), the faults that stand
  for undefined behaviour, and the generic list lemmas the component theories share.
\<close>

named_theorems text_simps "printing and reading back numbers and lines"
named_theorems keeps "what an operation leaves as it is"

section \<open>Faults\<close>

text \<open>
  Where the C code would write outside an array or overflow a signed integer, the model returns a
  fault.
\<close>

datatype fault = Array_Overflow | Int_Overflow

fun bind_fault :: "fault + 'a \<Rightarrow> ('a \<Rightarrow> fault + 'b) \<Rightarrow> fault + 'b" where
  "bind_fault (Inl e) f = Inl e"
| "bind_fault (Inr x) f = f x"

lemma bind_fault_Inr: "bind_fault m f = Inr y \<longleftrightarrow> (\<exists>x. m = Inr x \<and> f x = Inr y)"
  by (cases m) simp_all

section \<open>Characters and bounded buffers\<close>

type_synonym cstring = string

text \<open>The character class of \<open>isspace\<close> in the C locale: blank and 9 to 13.\<close>

definition c_isspace :: "char \<Rightarrow> bool" where
  "c_isspace c \<longleftrightarrow> c = CHR '' '' \<or> (9 \<le> (of_char c :: nat) \<and> (of_char c :: nat) \<le> 13)"

definition c_isdigit :: "char \<Rightarrow> bool" where
  "c_isdigit c \<longleftrightarrow> 48 \<le> (of_char c :: nat) \<and> (of_char c :: nat) \<le> 57"

definition digit_val :: "char \<Rightarrow> int" where
  "digit_val c = int (of_char c) - 48"

lemma c_isdigit_of_char: "c_isdigit c \<Longrightarrow> 0 \<le> digit_val c \<and> digit_val c \<le> 9"
  by (auto simp: c_isdigit_def digit_val_def)

text \<open>\<open>snprintf(buf, n, "%s", s)\<close> into a buffer of \<open>n\<close> bytes.\<close>

definition snprintf_str :: "nat \<Rightarrow> cstring \<Rightarrow> cstring" where
  "snprintf_str n s = take (n - 1) s"

lemma length_snprintf_str [simp]: "0 < n \<Longrightarrow> length (snprintf_str n s) < n"
  by (auto simp: snprintf_str_def)

lemma snprintf_str_id: "length s < n \<Longrightarrow> snprintf_str n s = s"
  by (simp add: snprintf_str_def)

text \<open>\<open>strncat(buf, s, sizeof(buf) - strlen(buf) - 1)\<close> with \<open>sizeof(buf) = n\<close>.\<close>

definition strncat_fit :: "nat \<Rightarrow> cstring \<Rightarrow> cstring \<Rightarrow> cstring" where
  "strncat_fit n buf s = buf @ take (n - length buf - 1) s"

lemma length_strncat_fit: "length buf < n \<Longrightarrow> length (strncat_fit n buf s) < n"
  by (auto simp: strncat_fit_def)

section \<open>Decimal conversion\<close>

text \<open>\<open>%d\<close>, \<open>%ld\<close> and \<open>%lld\<close>.\<close>

fun dec_nat :: "nat \<Rightarrow> cstring" where
  "dec_nat n = (if n < 10 then [char_of (48 + n)] else dec_nat (n div 10) @ [char_of (48 + n mod 10)])"

declare dec_nat.simps [simp del]

definition c_dec :: "int \<Rightarrow> cstring" where
  "c_dec i = (if i < 0 then CHR ''-'' # dec_nat (nat (- i)) else dec_nat (nat i))"

text \<open>The digits read by \<open>strtol\<close> in base 10, and the text they leave.\<close>

fun read_digits :: "int \<Rightarrow> cstring \<Rightarrow> int \<times> cstring" where
  "read_digits acc [] = (acc, [])"
| "read_digits acc (c # cs) =
     (if c_isdigit c then read_digits (10 * acc + digit_val c) cs else (acc, c # cs))"

lemma read_digits_digit:
  assumes "n < 10"
  shows "read_digits acc (char_of (48 + n) # rest) = read_digits (10 * acc + int n) rest"
proof -
  have "of_char (char_of (48 + n)) = 48 + n" using assms by (simp add: of_char_of)
  then show ?thesis using assms by (simp add: c_isdigit_def digit_val_def)
qed

lemma read_digits_dec_nat:
  "read_digits acc (dec_nat n @ rest) =
     read_digits (acc * 10 ^ length (dec_nat n) + int n) rest"
proof (induction n arbitrary: acc rest rule: dec_nat.induct)
  case (1 n)
  show ?case
  proof (cases "n < 10")
    case True
    then show ?thesis
      using read_digits_digit[OF True, of acc rest]
      by (simp only: dec_nat.simps[of n]) (simp del: read_digits.simps add: mult.commute)
  next
    case False
    have n: "int n = 10 * int (n div 10) + int (n mod 10)"
      by (metis mult_div_mod_eq of_nat_add of_nat_mult of_nat_numeral)
    have "read_digits acc (dec_nat n @ rest) =
        read_digits (acc * 10 ^ length (dec_nat (n div 10)) + int (n div 10))
          (char_of (48 + n mod 10) # rest)"
      using False 1[OF False] by (simp only: dec_nat.simps[of n]) simp
    also have "\<dots> = read_digits (10 * (acc * 10 ^ length (dec_nat (n div 10)) + int (n div 10))
        + int (n mod 10)) rest"
      by (rule read_digits_digit) simp
    also have "10 * (acc * 10 ^ length (dec_nat (n div 10)) + int (n div 10)) + int (n mod 10)
        = acc * 10 ^ length (dec_nat n) + int n"
      using False n by (simp only: dec_nat.simps[of n]) (simp add: algebra_simps)
    finally show ?thesis .
  qed
qed

text \<open>
  \<open>strtol(s, &end, 10)\<close>: leading white space, an optional sign, digits; the value saturates at
  the ends of a 64-bit \<open>long\<close>, and when there are no digits the value is 0 and \<open>end\<close> is \<open>s\<close>.
\<close>

definition LONG_MAX :: int where "LONG_MAX = 2 ^ 63 - 1"
definition LONG_MIN :: int where "LONG_MIN = - (2 ^ 63)"

definition strtol :: "cstring \<Rightarrow> int \<times> cstring" where
  "strtol s =
     (let s1 = dropWhile c_isspace s;
          neg = (s1 \<noteq> [] \<and> hd s1 = CHR ''-'');
          s2 = (if s1 \<noteq> [] \<and> (hd s1 = CHR ''-'' \<or> hd s1 = CHR ''+'') then tl s1 else s1)
      in if s2 = [] \<or> \<not> c_isdigit (hd s2) then (0, s)
         else let (v, rest) = read_digits 0 s2
              in (max LONG_MIN (min LONG_MAX (if neg then - v else v)), rest))"

lemma strtol_range: "LONG_MIN \<le> fst (strtol s) \<and> fst (strtol s) \<le> LONG_MAX"
  by (auto simp: strtol_def Let_def LONG_MIN_def LONG_MAX_def split: prod.splits)

text \<open>The conversion \<open>(int)v\<close> of a \<open>long\<close>: two's complement wrap-around to 32 bits.\<close>

definition to_int :: "int \<Rightarrow> int" where
  "to_int v = (v + 2 ^ 31) mod 2 ^ 32 - 2 ^ 31"

lemma to_int_id: "- (2 ^ 31) \<le> v \<Longrightarrow> v < 2 ^ 31 \<Longrightarrow> to_int v = v"
  by (simp add: to_int_def)

lemma to_int_range: "- (2 ^ 31) \<le> to_int v \<and> to_int v < 2 ^ 31"
proof -
  have "0 \<le> (v + 2 ^ 31) mod 2 ^ 32" and "(v + 2 ^ 31) mod 2 ^ 32 < (2 :: int) ^ 32"
    by simp_all
  then show ?thesis unfolding to_int_def by simp
qed

lemma hd_dec_nat_digit: "dec_nat n \<noteq> [] \<and> c_isdigit (hd (dec_nat n))"
proof (induction n rule: dec_nat.induct)
  case (1 n)
  have "c_isdigit (char_of (48 + m))" if "m < 10" for m :: nat
    using that by (simp add: c_isdigit_def of_char_of)
  with 1 show ?case by (subst (1 2) dec_nat.simps) (simp add: hd_append)
qed

lemma digit_not_space_sign:
  "c_isdigit c \<Longrightarrow> \<not> c_isspace c \<and> c \<noteq> CHR ''-'' \<and> c \<noteq> CHR ''+''"
  by (auto simp: c_isdigit_def c_isspace_def)

lemma strtol_dec_nat:
  assumes "int n \<le> LONG_MAX" and "rest = [] \<or> \<not> c_isdigit (hd rest)"
  shows "strtol (dec_nat n @ rest) = (int n, rest)"
proof -
  obtain c cs where d: "dec_nat n = c # cs" "c_isdigit c"
    using hd_dec_nat_digit[of n] by (cases "dec_nat n") auto
  have "read_digits 0 (dec_nat n @ rest) = (int n, rest)"
    using assms(2) by (subst read_digits_dec_nat) (cases rest; simp)
  moreover have "dropWhile c_isspace (dec_nat n @ rest) = dec_nat n @ rest"
    using d digit_not_space_sign[OF d(2)] by simp
  moreover have "max LONG_MIN (min LONG_MAX (int n)) = int n"
    using assms(1) by (simp add: LONG_MIN_def)
  ultimately show ?thesis
    using d digit_not_space_sign[OF d(2)] by (simp add: strtol_def Let_def)
qed

lemma c_dec_nonneg: "0 \<le> i \<Longrightarrow> c_dec i = dec_nat (nat i)"
  by (simp add: c_dec_def)

lemma dec_nat_digits: "\<forall>c \<in> set (dec_nat n). c_isdigit c"
proof (induction n rule: dec_nat.induct)
  case (1 n)
  have "c_isdigit (char_of (48 + m))" if "m < 10" for m :: nat
    using that by (simp add: c_isdigit_def of_char_of)
  with 1 show ?case by (subst dec_nat.simps) auto
qed

text \<open>The conversion \<open>%lld\<close> of \<open>sscanf\<close>: \<open>None\<close> when there is no number.\<close>

definition scan_lld :: "cstring \<Rightarrow> (int \<times> cstring) option" where
  "scan_lld s =
     (let s1 = dropWhile c_isspace s;
          neg = (s1 \<noteq> [] \<and> hd s1 = CHR ''-'');
          s2 = (if s1 \<noteq> [] \<and> (hd s1 = CHR ''-'' \<or> hd s1 = CHR ''+'') then tl s1 else s1)
      in if s2 = [] \<or> \<not> c_isdigit (hd s2) then None
         else let (v, rest) = read_digits 0 s2
              in Some (max LONG_MIN (min LONG_MAX (if neg then - v else v)), rest))"

lemma scan_lld_c_dec [text_simps]:
  assumes "LONG_MIN \<le> i" "i \<le> LONG_MAX" "rest = [] \<or> \<not> c_isdigit (hd rest)"
  shows "scan_lld (c_dec i @ rest) = Some (i, rest)"
proof -
  let ?n = "nat (if i < 0 then - i else i)"
  obtain c cs where d: "dec_nat ?n = c # cs" "c_isdigit c"
    using hd_dec_nat_digit[of ?n] by (cases "dec_nat ?n") auto
  have r: "read_digits 0 (c # cs @ rest) = (int ?n, rest)"
    using read_digits_dec_nat[of 0 ?n rest] assms(3) d(1) by (cases rest) simp_all
  have i: "max LONG_MIN (min LONG_MAX i) = i" using assms(1,2) by simp
  show ?thesis
  proof (cases "i < 0")
    case True
    moreover have "\<not> c_isspace CHR ''-''" by (simp add: c_isspace_def)
    ultimately show ?thesis using d r i by (simp add: scan_lld_def c_dec_def Let_def)
  next
    case False
    with d r i digit_not_space_sign[OF d(2)] show ?thesis
      by (simp add: scan_lld_def c_dec_def Let_def)
  qed
qed

section \<open>Searching and reading lines\<close>

text \<open>\<open>strstr(s, p) != NULL\<close>.\<close>

fun strstr :: "cstring \<Rightarrow> cstring \<Rightarrow> bool" where
  "strstr [] p \<longleftrightarrow> p = []"
| "strstr (c # s) p \<longleftrightarrow> take (length p) (c # s) = p \<or> strstr s p"

lemma strstr_iff: "strstr s p \<longleftrightarrow> (\<exists>a b. s = a @ p @ b)"
proof (induction s)
  case (Cons c s)
  show ?case
  proof
    assume "strstr (c # s) p"
    then consider "take (length p) (c # s) = p" | "strstr s p" by auto
    then show "\<exists>a b. c # s = a @ p @ b"
    proof cases
      case 1
      then have "c # s = [] @ p @ drop (length p) (c # s)" by (metis append_Nil append_take_drop_id)
      then show ?thesis by blast
    next
      case 2
      then show ?thesis using Cons by (metis append_Cons)
    qed
  next
    assume "\<exists>a b. c # s = a @ p @ b"
    then obtain a b where ab: "c # s = a @ p @ b" by blast
    show "strstr (c # s) p"
    proof (cases a)
      case Nil
      then have "take (length p) (c # s) = p" using ab by (metis append_Nil append_eq_conv_conj)
      then show ?thesis by simp
    next
      case (Cons x xs)
      then show ?thesis using ab Cons.IH by auto
    qed
  qed
qed auto

text \<open>
  \<open>fgets\<close> with room for \<open>n\<close> characters: up to and including the next newline, at most \<open>n\<close>.  The
  texts read this way hold no NUL.
\<close>

fun fgets_take :: "nat \<Rightarrow> cstring \<Rightarrow> cstring \<times> cstring" where
  "fgets_take 0 s = ([], s)"
| "fgets_take (Suc n) [] = ([], [])"
| "fgets_take (Suc n) (c # s) =
     (if c = CHR 0x0A then ([c], s)
      else case fgets_take n s of (l, r) \<Rightarrow> (c # l, r))"

lemma fgets_take_append: "fst (fgets_take n s) @ snd (fgets_take n s) = s"
  by (induction n s rule: fgets_take.induct) (auto split: prod.split)

lemma length_fgets_take: "length (fst (fgets_take n s)) \<le> n"
  by (induction n s rule: fgets_take.induct) (auto split: prod.split)

lemma fgets_take_less: "s \<noteq> [] \<Longrightarrow> 0 < n \<Longrightarrow> length (snd (fgets_take n s)) < length s"
proof -
  assume "s \<noteq> []" "0 < n"
  then have "fst (fgets_take n s) \<noteq> []"
    by (cases n; cases s) (auto split: prod.split)
  then show ?thesis
    by (metis fgets_take_append length_append length_greater_0_conv less_add_same_cancel2)
qed

function fgets_lines :: "nat \<Rightarrow> cstring \<Rightarrow> cstring list" where
  "fgets_lines n s =
     (if s = [] \<or> n = 0 then []
      else fst (fgets_take n s) # fgets_lines n (snd (fgets_take n s)))"
  by auto
termination by (relation "measure (\<lambda>(n, s). length s)") (auto simp: fgets_take_less)

declare fgets_lines.simps [simp del]

lemma concat_fgets_lines: "0 < n \<Longrightarrow> concat (fgets_lines n s) = s"
proof (induction n s rule: fgets_lines.induct)
  case (1 n s)
  then show ?case by (subst fgets_lines.simps) (auto simp: fgets_take_append)
qed

lemma fgets_take_line:
  "CHR 0x0A \<notin> set l \<Longrightarrow> length l < n \<Longrightarrow> fgets_take n (l @ CHR 0x0A # rest) = (l @ [CHR 0x0A], rest)"
proof (induction l arbitrary: n)
  case Nil
  then show ?case by (cases n) simp_all
next
  case (Cons c l)
  then show ?case by (cases n) auto
qed

lemma fgets_lines_line [text_simps]:
  "CHR 0x0A \<notin> set l \<Longrightarrow> length l < n \<Longrightarrow>
   fgets_lines n (l @ CHR 0x0A # rest) = (l @ [CHR 0x0A]) # fgets_lines n rest"
  by (subst fgets_lines.simps) (auto simp: fgets_take_line)

lemma fgets_lines_Nil [simp]: "fgets_lines n [] = []"
  by (subst fgets_lines.simps) simp

section \<open>qsort\<close>

text \<open>
  \<open>qsort\<close> with a comparison function, as insertion sort.  When the comparison is a total order on
  the elements, every sorting algorithm gives this list (\<open>qsort_unique\<close>).
\<close>

fun qsort_insert :: "('a \<Rightarrow> 'a \<Rightarrow> int) \<Rightarrow> 'a \<Rightarrow> 'a list \<Rightarrow> 'a list" where
  "qsort_insert cmp x [] = [x]"
| "qsort_insert cmp x (y # ys) = (if cmp x y \<le> 0 then x # y # ys else y # qsort_insert cmp x ys)"

definition qsort :: "('a \<Rightarrow> 'a \<Rightarrow> int) \<Rightarrow> 'a list \<Rightarrow> 'a list" where
  "qsort cmp xs = foldr (qsort_insert cmp) xs []"

definition total_order_by :: "('a \<Rightarrow> 'a \<Rightarrow> int) \<Rightarrow> 'a set \<Rightarrow> bool" where
  "total_order_by cmp A \<longleftrightarrow>
     (\<forall>x \<in> A. \<forall>y \<in> A. cmp x y \<le> 0 \<or> cmp y x \<le> 0) \<and>
     (\<forall>x \<in> A. \<forall>y \<in> A. cmp x y \<le> 0 \<and> cmp y x \<le> 0 \<longrightarrow> x = y) \<and>
     (\<forall>x \<in> A. \<forall>y \<in> A. \<forall>z \<in> A. cmp x y \<le> 0 \<and> cmp y z \<le> 0 \<longrightarrow> cmp x z \<le> 0)"

lemma total_order_byD:
  assumes "total_order_by cmp A"
  shows "x \<in> A \<Longrightarrow> y \<in> A \<Longrightarrow> cmp x y \<le> 0 \<or> cmp y x \<le> 0"
    and "x \<in> A \<Longrightarrow> y \<in> A \<Longrightarrow> cmp x y \<le> 0 \<Longrightarrow> cmp y x \<le> 0 \<Longrightarrow> x = y"
    and "x \<in> A \<Longrightarrow> y \<in> A \<Longrightarrow> z \<in> A \<Longrightarrow> cmp x y \<le> 0 \<Longrightarrow> cmp y z \<le> 0 \<Longrightarrow> cmp x z \<le> 0"
  using assms unfolding total_order_by_def by blast+

lemma total_order_by_subset:
  assumes "total_order_by cmp B" "A \<subseteq> B"
  shows "total_order_by cmp A"
  using total_order_byD[OF assms(1)] assms(2) unfolding total_order_by_def by (meson subsetD)

lemma total_order_by_keys:
  fixes f p :: "'a \<Rightarrow> int"
  assumes le: "\<And>x y. x \<in> A \<Longrightarrow> y \<in> A \<Longrightarrow> cmp x y \<le> 0 \<longleftrightarrow> f x < f y \<or> f x = f y \<and> p x \<le> p y"
    and inj: "inj_on p A"
  shows "total_order_by cmp A"
proof -
  have "cmp x y \<le> 0 \<or> cmp y x \<le> 0" if "x \<in> A" "y \<in> A" for x y
    unfolding le[OF that] le[OF that(2,1)] by linarith
  moreover have "x = y" if "x \<in> A" "y \<in> A" "cmp x y \<le> 0" "cmp y x \<le> 0" for x y
  proof -
    have "p x = p y" using that(3,4) unfolding le[OF that(1,2)] le[OF that(2,1)] by linarith
    then show ?thesis using inj that(1,2) by (simp add: inj_on_eq_iff)
  qed
  moreover have "cmp x z \<le> 0" if "x \<in> A" "y \<in> A" "z \<in> A" "cmp x y \<le> 0" "cmp y z \<le> 0" for x y z
    using that(4,5) unfolding le[OF that(1,2)] le[OF that(2,3)] le[OF that(1,3)] by linarith
  ultimately show ?thesis unfolding total_order_by_def by blast
qed

lemma mset_qsort_insert: "mset (qsort_insert cmp x ys) = add_mset x (mset ys)"
  by (induction ys) auto

lemma mset_qsort [simp]: "mset (qsort cmp xs) = mset xs"
  by (induction xs) (simp_all add: qsort_def mset_qsort_insert)

lemma set_qsort [simp]: "set (qsort cmp xs) = set xs"
  using mset_qsort[of cmp xs] by (rule mset_eq_setD)

lemma sorted_qsort_insert:
  assumes "total_order_by cmp (insert x (set ys))" "sorted_wrt (\<lambda>a b. cmp a b \<le> 0) ys"
  shows "sorted_wrt (\<lambda>a b. cmp a b \<le> 0) (qsort_insert cmp x ys)"
  using assms
proof (induction ys)
  case (Cons y ys)
  have t: "total_order_by cmp (insert x (set ys))"
    using Cons.prems(1) by (rule total_order_by_subset) auto
  have set: "set (qsort_insert cmp x ys) = insert x (set ys)"
    using mset_qsort_insert[of cmp x ys] by (metis set_mset_add_mset_insert set_mset_mset)
  show ?case
  proof (cases "cmp x y \<le> 0")
    case True
    have "cmp x z \<le> 0" if "z \<in> set ys" for z
    proof -
      have "cmp y z \<le> 0" using Cons.prems(2) that by simp
      with True show ?thesis
        using total_order_byD(3)[OF Cons.prems(1), of x y z] that by simp
    qed
    with True Cons.prems(2) show ?thesis by simp
  next
    case False
    then have "cmp y x \<le> 0" using total_order_byD(1)[OF Cons.prems(1), of x y] by simp
    with False Cons t set show ?thesis by simp
  qed
qed simp

lemma sorted_qsort:
  "total_order_by cmp (set xs) \<Longrightarrow> sorted_wrt (\<lambda>a b. cmp a b \<le> 0) (qsort cmp xs)"
proof (induction xs)
  case (Cons x xs)
  have "qsort cmp (x # xs) = qsort_insert cmp x (qsort cmp xs)" by (simp add: qsort_def)
  moreover have "total_order_by cmp (set xs)"
    using Cons.prems by (rule total_order_by_subset) auto
  ultimately show ?case
    using Cons sorted_qsort_insert[of cmp x "qsort cmp xs"] by simp
qed (simp add: qsort_def)

lemma qsort_unique:
  assumes "total_order_by cmp (set xs)" "sorted_wrt (\<lambda>a b. cmp a b \<le> 0) ys" "mset ys = mset xs"
  shows "ys = qsort cmp xs"
proof -
  have "sorted_wrt (\<lambda>a b. cmp a b \<le> 0) zs \<Longrightarrow> sorted_wrt (\<lambda>a b. cmp a b \<le> 0) zs' \<Longrightarrow>
      mset zs = mset zs' \<Longrightarrow> total_order_by cmp (set zs) \<Longrightarrow> zs = zs'" for zs zs'
  proof (induction zs arbitrary: zs')
    case (Cons z zs)
    then obtain z' ws where w: "zs' = z' # ws" by (cases zs') auto
    have e: "set (z # zs) = set (z' # ws)" using Cons.prems(3) unfolding w by (rule mset_eq_setD)
    have "z = z'"
    proof (rule ccontr)
      assume "z \<noteq> z'"
      then have "z \<in> set ws" "z' \<in> set zs" using e by auto
      then have "cmp z' z \<le> 0" "cmp z z' \<le> 0" using Cons.prems(1,2) by (simp_all add: w)
      then show False
        using total_order_byD(2)[OF Cons.prems(4), of z z'] \<open>z \<noteq> z'\<close> \<open>z' \<in> set zs\<close> by simp
    qed
    moreover have "zs = ws"
    proof (rule Cons.IH)
      show "total_order_by cmp (set zs)" using Cons.prems(4) by (rule total_order_by_subset) auto
    qed (use Cons.prems(1-3) \<open>z = z'\<close> in \<open>simp_all add: w\<close>)
    ultimately show ?case by (simp add: w)
  qed simp
  moreover have "total_order_by cmp (set ys)" using assms(1) mset_eq_setD[OF assms(3)] by simp
  ultimately show ?thesis using assms sorted_qsort[OF assms(1)] by simp
qed

section \<open>First occurrences\<close>

definition firsts :: "'a list \<Rightarrow> 'a list" where
  "firsts xs = fold (\<lambda>x ys. if x \<in> set ys then ys else ys @ [x]) xs []"

lemma firsts_Nil [simp]: "firsts [] = []"
  by (simp add: firsts_def)

lemma firsts_snoc [simp]:
  "firsts (xs @ [x]) = (if x \<in> set xs then firsts xs else firsts xs @ [x])"
  and set_firsts [simp]: "set (firsts xs) = set xs"
proof -
  have s: "set (fold (\<lambda>x ys. if x \<in> set ys then ys else ys @ [x]) xs ys) = set ys \<union> set xs"
    for xs ys :: "'a list"
    by (induction xs arbitrary: ys) auto
  show t: "set (firsts xs) = set xs" for xs :: "'a list" by (simp add: firsts_def s)
  show "firsts (xs @ [x]) = (if x \<in> set xs then firsts xs else firsts xs @ [x])"
    using t[of xs] by (simp add: firsts_def)
qed

lemma distinct_firsts [simp]: "distinct (firsts xs)"
  by (induction xs rule: rev_induct) auto

lemma length_firsts_append: "length (firsts xs) \<le> length (firsts (xs @ ys))"
proof (induction ys rule: rev_induct)
  case (snoc y ys)
  then show ?case by (simp flip: append_assoc)
qed simp

section \<open>Array idioms\<close>

text \<open>A loop that changes the first element satisfying a condition and stops there.\<close>

fun upd_first :: "('a \<Rightarrow> bool) \<Rightarrow> ('a \<Rightarrow> 'a) \<Rightarrow> 'a list \<Rightarrow> 'a list" where
  "upd_first P f [] = []"
| "upd_first P f (x # xs) = (if P x then f x # xs else x # upd_first P f xs)"

lemma length_upd_first [simp]: "length (upd_first P f xs) = length xs"
  by (induction xs) auto

lemma upd_first_none: "\<not> list_ex P xs \<Longrightarrow> upd_first P f xs = xs"
  by (induction xs) auto

lemma map_upd_first_id: "(\<And>x. P x \<Longrightarrow> g (f x) = g x) \<Longrightarrow> map g (upd_first P f xs) = map g xs"
  by (induction xs) auto

lemma upd_first_split:
  assumes "list_ex P xs"
  obtains us x vs where "xs = us @ x # vs" "P x" "\<forall>u \<in> set us. \<not> P u"
    "upd_first P f xs = us @ f x # vs"
  using assms
proof (induction xs arbitrary: thesis)
  case (Cons y ys)
  show ?case
  proof (cases "P y")
    case True
    with Cons.prems(1)[of "[]" y ys] show ?thesis by simp
  next
    case False
    with Cons.prems(2) have "list_ex P ys" by simp
    from Cons.IH[OF _ this] obtain us x vs where "ys = us @ x # vs" "P x" "\<forall>u \<in> set us. \<not> P u"
      "upd_first P f ys = us @ f x # vs" by metis
    with False Cons.prems(1)[of "y # us" x vs] show ?thesis by simp
  qed
qed simp

text \<open>
  \<open>a[i] = a[n - 1]; n--\<close> at the first element satisfying a condition: the last element moves
  into the gap.
\<close>

definition swap_remove :: "nat \<Rightarrow> 'a list \<Rightarrow> 'a list" where
  "swap_remove i xs = butlast (xs[i := last xs])"

fun swap_remove_first :: "('a \<Rightarrow> bool) \<Rightarrow> 'a list \<Rightarrow> 'a list" where
  "swap_remove_first P [] = []"
| "swap_remove_first P (x # xs) =
     (if P x then swap_remove 0 (x # xs) else x # swap_remove_first P xs)"

lemma mset_swap_remove_0: "mset (swap_remove 0 (x # xs)) = mset xs"
  by (cases xs rule: rev_cases) (auto simp: swap_remove_def)

lemma swap_remove_first_none: "\<not> list_ex P xs \<Longrightarrow> swap_remove_first P xs = xs"
  by (induction xs) auto

lemma swap_remove_first_split:
  assumes "list_ex P xs"
  obtains us x vs where "xs = us @ x # vs" "P x" "\<forall>u \<in> set us. \<not> P u"
    "mset (swap_remove_first P xs) = mset (us @ vs)"
  using assms
proof (induction xs arbitrary: thesis)
  case (Cons y ys)
  show ?case
  proof (cases "P y")
    case True
    with Cons.prems(1)[of "[]" y ys] show ?thesis by (simp add: mset_swap_remove_0)
  next
    case False
    with Cons.prems(2) have "list_ex P ys" by simp
    from Cons.IH[OF _ this] obtain us x vs where "ys = us @ x # vs" "P x" "\<forall>u \<in> set us. \<not> P u"
      "mset (swap_remove_first P ys) = mset (us @ vs)" by metis
    with False Cons.prems(1)[of "y # us" x vs] show ?thesis by simp
  qed
qed simp

lemma swap_remove_first_nth:
  assumes "i < length xs" and "P (xs ! i)" and "\<forall>k < i. \<not> P (xs ! k)"
  shows "swap_remove_first P xs = swap_remove i xs"
  using assms
proof (induction xs arbitrary: i)
  case (Cons y ys)
  show ?case
  proof (cases i)
    case 0
    with Cons.prems show ?thesis by simp
  next
    case (Suc k)
    moreover have "\<not> P y" using Cons.prems(3) Suc by auto
    moreover have "swap_remove_first P ys = swap_remove k ys"
      using Cons.prems Suc by (intro Cons.IH) auto
    ultimately show ?thesis using Cons.prems(1) by (auto simp: swap_remove_def)
  qed
qed simp

lemma find_split: "P x \<Longrightarrow> \<forall>u \<in> set us. \<not> P u \<Longrightarrow> find P (us @ x # vs) = Some x"
  by (induction us) auto

lemma find_None_list_ex: "find P xs = None \<longleftrightarrow> \<not> list_ex P xs"
  by (auto simp: find_None_iff list_ex_iff)

lemma take_min_length [simp]: "take (min (length xs) n) xs = take n xs"
  by (simp add: min_def)

lemma distinct_append_subset:
  "distinct (xs @ ys @ zs) \<Longrightarrow> set ys' \<subseteq> set ys \<Longrightarrow> distinct ys' \<Longrightarrow> distinct (xs @ ys' @ zs)"
  by auto

end
