(* ===== verification/Lexer.thy ===== *)
theory Lexer
  imports Shell_Prelude
begin

text \<open>
  The lexer, \<open>c-shell/src/lexer.c\<close>.  A line is the list of its characters before the NUL;
  the position \<open>*pos\<close> is represented by the suffix of the line that is still to be read, so
  \<open>line[*pos]\<close> is the head of that suffix and \<open>line[*pos] == 0\<close> is the empty suffix.  The
  word under construction is the list of the characters written so far; the C buffer has
  1024 bytes, and a write outside of it is the outcome \<open>Lex_Overflow\<close>.
\<close>

section \<open>Tokens\<close>

datatype Token_type = OP_PIPE | OP_AMP | OP_SEMI | OP_LT | OP_GT | OP_GTGT | WORD

record token =
  tok_type :: Token_type
  tok_value :: cstring

text \<open>The global token list; \<open>next\<close> links are the list structure.\<close>

definition free_tokens :: "token list \<Rightarrow> token list" where
  "free_tokens Token = []"

definition add_token :: "Token_type \<Rightarrow> cstring \<Rightarrow> token list \<Rightarrow> token list" where
  "add_token ty v Token = Token @ [\<lparr>tok_type = ty, tok_value = v\<rparr>]"

section \<open>Character tests\<close>

definition is_space :: "char \<Rightarrow> bool" where
  "is_space c \<longleftrightarrow> c = CHR '' '' \<or> c = CHR 0x09 \<or> c = CHR 0x0A \<or> c = CHR 0x0D"

definition is_special :: "char \<Rightarrow> bool" where
  "is_special c \<longleftrightarrow> c = CHR ''|'' \<or> c = CHR ''&'' \<or> c = CHR ''>'' \<or> c = CHR ''<'' \<or> c = CHR '';''"

abbreviation DQUOTE :: char where "DQUOTE \<equiv> CHR 0x22"
abbreviation SQUOTE :: char where "SQUOTE \<equiv> CHR 0x27"
abbreviation BSLASH :: char where "BSLASH \<equiv> CHR 0x5C"

section \<open>Quoting\<close>

datatype 'a lex_res = Lex_Ok 'a | Lex_Fail | Lex_Overflow

definition WORD_BUF :: nat where
  "WORD_BUF = 1024"

text \<open>\<open>word[(*word_pos)++] = c\<close>.\<close>

definition put_char :: "cstring \<Rightarrow> char \<Rightarrow> cstring lex_res" where
  "put_char word c = (if length word < WORD_BUF then Lex_Ok (word @ [c]) else Lex_Overflow)"

fun lex_bind :: "'a lex_res \<Rightarrow> ('a \<Rightarrow> 'b lex_res) \<Rightarrow> 'b lex_res" where
  "lex_bind (Lex_Ok a) f = f a"
| "lex_bind Lex_Fail f = Lex_Fail"
| "lex_bind Lex_Overflow f = Lex_Overflow"

lemma lex_bind_Ok_iff [simp]:
  "lex_bind m f = Lex_Ok b \<longleftrightarrow> (\<exists>a. m = Lex_Ok a \<and> f a = Lex_Ok b)"
  by (cases m) auto

lemma lex_bind_Overflow_iff [simp]:
  "lex_bind m f = Lex_Overflow \<longleftrightarrow> m = Lex_Overflow \<or> (\<exists>a. m = Lex_Ok a \<and> f a = Lex_Overflow)"
  by (cases m) auto

lemma lex_bind_cong [fundef_cong]:
  assumes "m = m'" and "\<And>a. m' = Lex_Ok a \<Longrightarrow> f a = g a"
  shows "lex_bind m f = lex_bind m' g"
  using assms by (cases m') auto

text \<open>
  Each of the three routines is entered with \<open>*pos\<close> on the quoting character, which its first
  statement skips.
\<close>

fun backslash_quote :: "cstring \<Rightarrow> cstring \<Rightarrow> (cstring \<times> cstring) lex_res" where
  "backslash_quote (q # c # rest) word = lex_bind (put_char word c) (\<lambda>w. Lex_Ok (rest, w))"
| "backslash_quote _ word = Lex_Fail"

fun double_quote_loop :: "cstring \<Rightarrow> cstring \<Rightarrow> (cstring \<times> cstring) lex_res" where
  "double_quote_loop [] word = Lex_Fail"
| "double_quote_loop (c # cs) word =
     (if c = DQUOTE then Lex_Ok (cs, word)
      else if c = BSLASH then
        (case cs of
           [] \<Rightarrow> Lex_Fail
         | d # ds \<Rightarrow>
             if d = DQUOTE then lex_bind (put_char word DQUOTE) (double_quote_loop ds)
             else if d = BSLASH then lex_bind (put_char word BSLASH) (double_quote_loop ds)
             else lex_bind (put_char word BSLASH)
                    (\<lambda>w. lex_bind (put_char w d) (double_quote_loop ds)))
      else lex_bind (put_char word c) (double_quote_loop cs))"

definition double_quote :: "cstring \<Rightarrow> cstring \<Rightarrow> (cstring \<times> cstring) lex_res" where
  "double_quote line word = double_quote_loop (tl line) word"

fun single_quote_loop :: "cstring \<Rightarrow> cstring \<Rightarrow> (cstring \<times> cstring) lex_res" where
  "single_quote_loop [] word = Lex_Fail"
| "single_quote_loop (c # cs) word =
     (if c = SQUOTE then Lex_Ok (cs, word)
      else lex_bind (put_char word c) (single_quote_loop cs))"

definition single_quote :: "cstring \<Rightarrow> cstring \<Rightarrow> (cstring \<times> cstring) lex_res" where
  "single_quote line word = single_quote_loop (tl line) word"

text \<open>
  What a successful routine leaves: the unread suffix is shorter, and the word grew by at
  most the number of characters read.
\<close>

lemma put_char_Ok_iff: "put_char word c = Lex_Ok w \<longleftrightarrow> length word < WORD_BUF \<and> w = word @ [c]"
  by (auto simp: put_char_def)

lemma backslash_quote_Ok:
  "backslash_quote line word = Lex_Ok (rest, w) \<Longrightarrow>
     length rest < length line \<and> length w + length rest < length word + length line"
  by (cases "(line, word)" rule: backslash_quote.cases) (auto simp: put_char_Ok_iff)

lemma double_quote_loop_Ok:
  "double_quote_loop cs word = Lex_Ok (rest, w) \<Longrightarrow>
     length rest < length cs \<and> length w + length rest < length word + length cs"
  by (induction cs word arbitrary: rest w rule: double_quote_loop.induct)
     (fastforce simp: put_char_Ok_iff split: if_splits list.splits)+

lemma double_quote_Ok:
  "double_quote line word = Lex_Ok (rest, w) \<Longrightarrow>
     length rest < length line \<and> length w + length rest < length word + length line"
  unfolding double_quote_def by (cases line) (auto dest: double_quote_loop_Ok)

lemma single_quote_loop_Ok:
  "single_quote_loop cs word = Lex_Ok (rest, w) \<Longrightarrow>
     length rest < length cs \<and> length w + length rest < length word + length cs"
  by (induction cs arbitrary: word rest w)
     (fastforce simp: put_char_Ok_iff split: if_splits)+

lemma single_quote_Ok:
  "single_quote line word = Lex_Ok (rest, w) \<Longrightarrow>
     length rest < length line \<and> length w + length rest < length word + length line"
  unfolding single_quote_def by (cases line) (auto dest: single_quote_loop_Ok)

lemmas quote_Ok = backslash_quote_Ok double_quote_Ok single_quote_Ok

section \<open>The main loop\<close>

text \<open>One iteration of the inner loop of \<open>lexing\<close>, which assembles a word.\<close>

definition word_step :: "cstring \<Rightarrow> cstring \<Rightarrow> (cstring \<times> cstring) lex_res" where
  "word_step line word =
     (if hd line = BSLASH then backslash_quote line word
      else if hd line = DQUOTE then double_quote line word
      else if hd line = SQUOTE then single_quote line word
      else lex_bind (put_char word (hd line)) (\<lambda>w. Lex_Ok (tl line, w)))"

lemma word_step_Ok:
  "word_step line word = Lex_Ok (rest, w) \<Longrightarrow> line \<noteq> [] \<Longrightarrow>
     length rest < length line \<and> length w + length rest \<le> length word + length line"
  unfolding word_step_def
  by (auto simp: put_char_Ok_iff split: if_splits dest: quote_Ok)

definition word_end :: "cstring \<Rightarrow> bool" where
  "word_end line \<longleftrightarrow> line = [] \<or> is_space (hd line) \<or> is_special (hd line)"

function word_loop :: "cstring \<Rightarrow> cstring \<Rightarrow> (cstring \<times> cstring) lex_res" where
  "word_loop line word =
     (if word_end line then Lex_Ok (line, word)
      else lex_bind (word_step line word) (\<lambda>(rest, w). word_loop rest w))"
  by pat_completeness auto
termination
  by (relation "measure (length \<circ> fst)") (auto simp: word_end_def dest: word_step_Ok)

declare word_loop.simps [simp del]

lemma word_loop_end [simp]: "word_end line \<Longrightarrow> word_loop line word = Lex_Ok (line, word)"
  by (simp add: word_loop.simps)

lemma word_loop_step:
  "\<not> word_end line \<Longrightarrow>
     word_loop line word = lex_bind (word_step line word) (\<lambda>(rest, w). word_loop rest w)"
  by (subst word_loop.simps) simp

text \<open>The word is terminated by \<open>word[word_pos] = 0\<close>, a write at index \<open>length word\<close>.\<close>

definition lex_word :: "cstring \<Rightarrow> (cstring \<times> cstring) lex_res" where
  "lex_word line =
     lex_bind (word_loop line [])
       (\<lambda>(rest, word). if length word < WORD_BUF then Lex_Ok (rest, word) else Lex_Overflow)"

lemma word_loop_le:
  "word_loop line word = Lex_Ok (rest, w) \<Longrightarrow>
     length rest \<le> length line \<and> length w + length rest \<le> length word + length line"
proof (induction line word arbitrary: rest w rule: word_loop.induct)
  case (1 line word)
  show ?case
  proof (cases "word_end line")
    case False
    with "1.prems" obtain rest' w'
      where s: "word_step line word = Lex_Ok (rest', w')"
        and l: "word_loop rest' w' = Lex_Ok (rest, w)"
      by (auto simp: word_loop_step)
    from False have "line \<noteq> []" by (simp add: word_end_def)
    then show ?thesis
      using "1.IH"[OF False s refl l] word_step_Ok[OF s] by linarith
  qed (use "1.prems" in simp)
qed

lemma lex_word_less:
  assumes "lex_word line = Lex_Ok (rest, w)" and "\<not> word_end line"
  shows "length rest < length line"
proof -
  from assms obtain rest' w' where "word_step line [] = Lex_Ok (rest', w')"
    and "word_loop rest' w' = Lex_Ok (rest, w)"
    by (auto simp: lex_word_def word_loop_step split: if_splits)
  moreover have "line \<noteq> []" using assms(2) by (simp add: word_end_def)
  ultimately show ?thesis by (auto dest!: word_step_Ok word_loop_le)
qed

text \<open>
  \<open>lexing\<close> returns its result (1 or 0), the token list and what it printed; \<open>None\<close> is a write
  outside of \<open>word\<close>.  On failure the tokens found so far stay in the global list.
\<close>

type_synonym lexing_result = "(int \<times> token list \<times> cstring) option"

definition lex_error :: cstring where
  "lex_error = ''cshell: invalid syntax'' @ [CHR 0x0A]"

function lexing_loop :: "cstring \<Rightarrow> token list \<Rightarrow> lexing_result" where
  "lexing_loop [] Token = Some (1, Token, [])"
| "lexing_loop (c # cs) Token =
     (if c = CHR '' '' \<or> c = CHR 0x09 \<or> c = CHR 0x0A \<or> c = CHR 0x0D then lexing_loop cs Token
      else if c = CHR ''|'' then lexing_loop cs (add_token OP_PIPE ''|'' Token)
      else if c = CHR ''&'' then lexing_loop cs (add_token OP_AMP ''&'' Token)
      else if c = CHR '';'' then lexing_loop cs (add_token OP_SEMI '';'' Token)
      else if c = CHR ''<'' then lexing_loop cs (add_token OP_LT ''<'' Token)
      else if c = CHR ''>'' then
        (if cs \<noteq> [] \<and> hd cs = CHR ''>''
         then lexing_loop (tl cs) (add_token OP_GTGT ''>>'' Token)
         else lexing_loop cs (add_token OP_GT ''>'' Token))
      else (case lex_word (c # cs) of
              Lex_Ok (rest, word) \<Rightarrow> lexing_loop rest (add_token WORD word Token)
            | Lex_Fail \<Rightarrow> Some (0, Token, lex_error)
            | Lex_Overflow \<Rightarrow> None))"
  by pat_completeness auto
termination
proof (relation "measure (length \<circ> fst)", goal_cases)
  case (9 c cs Token res rest word)
  then show ?case
    using lex_word_less[of "c # cs" rest word]
    by (auto simp: word_end_def is_space_def is_special_def)
qed auto

definition lexing :: "cstring \<Rightarrow> token list \<Rightarrow> lexing_result" where
  "lexing line Token = lexing_loop line Token"

section \<open>No write outside the word buffer\<close>

lemma put_char_not_Overflow: "length word < WORD_BUF \<Longrightarrow> put_char word c = Lex_Ok (word @ [c])"
  by (simp add: put_char_def)

lemma double_quote_loop_safe:
  "length word + length cs \<le> WORD_BUF \<Longrightarrow> double_quote_loop cs word \<noteq> Lex_Overflow"
  by (induction cs word rule: double_quote_loop.induct)
     (auto simp: put_char_not_Overflow split: list.splits)

lemma single_quote_loop_safe:
  "length word + length cs \<le> WORD_BUF \<Longrightarrow> single_quote_loop cs word \<noteq> Lex_Overflow"
  by (induction cs arbitrary: word) (auto simp: put_char_not_Overflow)

lemma backslash_quote_safe:
  "length word + length line \<le> WORD_BUF \<Longrightarrow> backslash_quote line word \<noteq> Lex_Overflow"
  by (cases "(line, word)" rule: backslash_quote.cases) (auto simp: put_char_not_Overflow)

lemma word_step_safe:
  "length word + length line \<le> WORD_BUF \<Longrightarrow> line \<noteq> [] \<Longrightarrow> word_step line word \<noteq> Lex_Overflow"
  by (cases line)
     (auto simp: word_step_def double_quote_def single_quote_def put_char_not_Overflow
       double_quote_loop_safe single_quote_loop_safe backslash_quote_safe)

lemma word_loop_safe:
  "length word + length line \<le> WORD_BUF \<Longrightarrow> word_loop line word \<noteq> Lex_Overflow"
proof (induction line word rule: word_loop.induct)
  case (1 line word)
  show ?case
  proof (cases "word_end line")
    case False
    then have ne: "line \<noteq> []" by (simp add: word_end_def)
    have "word_loop rest w \<noteq> Lex_Overflow" if s: "word_step line word = Lex_Ok (rest, w)" for rest w
      using "1.IH"[OF False s refl] word_step_Ok[OF s ne] "1.prems" by linarith
    with False ne "1.prems" show ?thesis
      by (auto simp: word_loop_step word_step_safe)
  qed simp
qed

lemma lex_word_safe: "length line < WORD_BUF \<Longrightarrow> lex_word line \<noteq> Lex_Overflow"
  using word_loop_safe[of "[]" line] by (auto simp: lex_word_def dest!: word_loop_le)

section \<open>Quotes are closed\<close>

text \<open>The reference: an automaton that only tracks the quoting state at each character.\<close>

datatype qstate = Plain | Esc | DQ | DQEsc | SQ

fun qstep :: "qstate \<Rightarrow> char \<Rightarrow> qstate" where
  "qstep Plain c = (if c = BSLASH then Esc else if c = DQUOTE then DQ
                    else if c = SQUOTE then SQ else Plain)"
| "qstep Esc c = Plain"
| "qstep DQ c = (if c = DQUOTE then Plain else if c = BSLASH then DQEsc else DQ)"
| "qstep DQEsc c = DQ"
| "qstep SQ c = (if c = SQUOTE then Plain else SQ)"

definition quotes_closed :: "cstring \<Rightarrow> bool" where
  "quotes_closed line \<longleftrightarrow> foldl qstep Plain line = Plain"

text \<open>
  \<open>tracks q res\<close> relates the automaton's final state \<open>q\<close> on a line to the result of a routine
  on that line: a routine that succeeds stops where the automaton is back in \<open>Plain\<close>, and one
  that fails does so because the automaton ends inside a quotation.
\<close>

definition tracks :: "qstate \<Rightarrow> (cstring \<times> cstring) lex_res \<Rightarrow> bool" where
  "tracks q res \<longleftrightarrow>
     (case res of
        Lex_Ok (rest, w) \<Rightarrow> q = foldl qstep Plain rest
      | Lex_Fail \<Rightarrow> q \<noteq> Plain
      | Lex_Overflow \<Rightarrow> True)"

lemma tracks_simps [simp]:
  "tracks q (Lex_Ok (rest, w)) \<longleftrightarrow> q = foldl qstep Plain rest"
  "tracks q Lex_Fail \<longleftrightarrow> q \<noteq> Plain"
  "tracks q Lex_Overflow"
  by (simp_all add: tracks_def)

lemma tracks_put:
  "(\<And>w. tracks q (f w)) \<Longrightarrow> tracks q (lex_bind (put_char w c) f)"
  by (simp add: put_char_def)

lemma double_quote_loop_tracks: "tracks (foldl qstep DQ cs) (double_quote_loop cs word)"
proof (induction cs arbitrary: word rule: induct_list012)
  case (3 c d ds)
  consider (close) "c = DQUOTE" | (esc) "c = BSLASH" | (plain) "c \<noteq> DQUOTE" "c \<noteq> BSLASH"
    by blast
  then show ?case
  proof cases
    case esc
    then show ?thesis by (simp add: 3 tracks_put)
  next
    case plain
    then have "double_quote_loop (c # d # ds) word
        = lex_bind (put_char word c) (double_quote_loop (d # ds))"
      and "qstep DQ c = DQ" by (simp_all del: double_quote_loop.simps add: double_quote_loop.simps(2)[of c])
    then show ?thesis using "3.IH"(2) by (simp del: double_quote_loop.simps add: tracks_put)
  qed simp
qed (auto intro!: tracks_put)

lemma single_quote_loop_tracks: "tracks (foldl qstep SQ cs) (single_quote_loop cs word)"
  by (induction cs arbitrary: word) (auto intro!: tracks_put)

lemma backslash_quote_tracks:
  "hd line = BSLASH \<Longrightarrow> line \<noteq> [] \<Longrightarrow> tracks (foldl qstep Plain line) (backslash_quote line word)"
  by (cases "(line, word)" rule: backslash_quote.cases) (auto intro!: tracks_put)

lemma word_step_tracks:
  "line \<noteq> [] \<Longrightarrow> tracks (foldl qstep Plain line) (word_step line word)"
  using double_quote_loop_tracks[of "tl line" word] single_quote_loop_tracks[of "tl line" word]
    backslash_quote_tracks[of line word]
  by (cases line)
     (simp_all add: word_step_def double_quote_def single_quote_def tracks_put)

lemma word_loop_tracks: "tracks (foldl qstep Plain line) (word_loop line word)"
proof (induction line word rule: word_loop.induct)
  case (1 line word)
  show ?case
  proof (cases "word_end line")
    case False
    then have "tracks (foldl qstep Plain line) (word_step line word)"
      by (auto simp: word_end_def intro: word_step_tracks)
    with 1 False show ?thesis
      by (cases "word_step line word") (auto simp: word_loop_step)
  qed simp
qed

lemma lex_word_tracks: "tracks (foldl qstep Plain line) (lex_word line)"
  using word_loop_tracks[of line "[]"]
  by (cases "word_loop line []") (auto simp: lex_word_def)

section \<open>Totality of the lexer\<close>

declare lexing_loop.simps(2) [simp del]

lemma lexing_loop_word:
  "\<not> is_space c \<Longrightarrow> \<not> is_special c \<Longrightarrow>
     lexing_loop (c # cs) Token =
       (case lex_word (c # cs) of
          Lex_Ok (rest, word) \<Rightarrow> lexing_loop rest (add_token WORD word Token)
        | Lex_Fail \<Rightarrow> Some (0, Token, lex_error)
        | Lex_Overflow \<Rightarrow> None)"
  by (simp add: lexing_loop.simps(2) is_space_def is_special_def)

lemma lexing_loop_chars [simp]:
  "lexing_loop (CHR '' '' # cs) Token = lexing_loop cs Token"
  "lexing_loop (CHR 0x09 # cs) Token = lexing_loop cs Token"
  "lexing_loop (CHR 0x0A # cs) Token = lexing_loop cs Token"
  "lexing_loop (CHR 0x0D # cs) Token = lexing_loop cs Token"
  "lexing_loop (CHR ''|'' # cs) Token = lexing_loop cs (add_token OP_PIPE ''|'' Token)"
  "lexing_loop (CHR ''&'' # cs) Token = lexing_loop cs (add_token OP_AMP ''&'' Token)"
  "lexing_loop (CHR '';'' # cs) Token = lexing_loop cs (add_token OP_SEMI '';'' Token)"
  "lexing_loop (CHR ''<'' # cs) Token = lexing_loop cs (add_token OP_LT ''<'' Token)"
  "lexing_loop (CHR ''>'' # CHR ''>'' # cs) Token = lexing_loop cs (add_token OP_GTGT ''>>'' Token)"
  by (simp_all add: lexing_loop.simps(2))

lemma lexing_loop_gt [simp]:
  "\<not> (cs \<noteq> [] \<and> hd cs = CHR ''>'') \<Longrightarrow>
     lexing_loop (CHR ''>'' # cs) Token = lexing_loop cs (add_token OP_GT ''>'' Token)"
  by (subst lexing_loop.simps(2)) auto

text \<open>Blanks and operators advance the automaton without leaving \<open>Plain\<close>.\<close>

lemma lexing_loop_sep:
  assumes "is_space c \<or> is_special c"
  obtains rest ts where "lexing_loop (c # cs) Token = lexing_loop rest ts"
    and "length rest \<le> length cs" and "quotes_closed rest = quotes_closed (c # cs)"
proof (cases "c = CHR ''>'' \<and> cs \<noteq> [] \<and> hd cs = CHR ''>''")
  case True
  then show ?thesis
    by (intro that[of "tl cs" "add_token OP_GTGT ''>>'' Token"])
       (auto simp: quotes_closed_def neq_Nil_conv)
next
  case False
  with assms have "\<exists>ts. lexing_loop (c # cs) Token = lexing_loop cs ts"
    by (auto simp: is_space_def is_special_def)
  moreover have "qstep Plain c = Plain"
    using assms by (auto simp: is_space_def is_special_def)
  ultimately show ?thesis
    by (auto simp: quotes_closed_def simp del: qstep.simps intro: that)
qed

lemma lex_word_quotes:
  "lex_word line = Lex_Ok (rest, w) \<Longrightarrow> quotes_closed rest = quotes_closed line"
  "lex_word line = Lex_Fail \<Longrightarrow> \<not> quotes_closed line"
  using lex_word_tracks[of line] by (simp_all add: quotes_closed_def)

lemma lexing_loop_total:
  "length line < WORD_BUF \<Longrightarrow>
     \<exists>ts. lexing_loop line Token =
            Some (if quotes_closed line then (1, ts, []) else (0, ts, lex_error))"
proof (induction line arbitrary: Token rule: length_induct)
  case (1 line)
  then have IH: "\<exists>ts. lexing_loop rest T =
      Some (if quotes_closed rest then (1, ts, []) else (0, ts, lex_error))"
    if "length rest < length line" for rest T
    using that by auto
  show ?case
  proof (cases line)
    case (Cons c cs)
    show ?thesis
    proof (cases "is_space c \<or> is_special c")
      case True
      then obtain rest ts where "lexing_loop (c # cs) Token = lexing_loop rest ts"
        and "length rest \<le> length cs" and "quotes_closed rest = quotes_closed (c # cs)"
        by (rule lexing_loop_sep)
      with IH[of rest ts] Cons show ?thesis by simp
    next
      case False
      then have we: "\<not> word_end line" by (simp add: Cons word_end_def)
      show ?thesis
      proof (cases "lex_word line")
        case (Lex_Ok x)
        then obtain rest w where ok: "lex_word line = Lex_Ok (rest, w)" by (cases x) auto
        with IH[OF lex_word_less[OF ok we], of "add_token WORD w Token"] False Cons
        show ?thesis using lex_word_quotes(1)[OF ok] ok by (simp add: lexing_loop_word)
      next
        case Lex_Fail
        with False Cons show ?thesis
          by (simp add: lexing_loop_word lex_word_quotes(2)[OF Lex_Fail, unfolded Cons])
      next
        case Lex_Overflow
        with lex_word_safe "1.prems" show ?thesis by blast
      qed
    qed
  qed (simp add: quotes_closed_def)
qed

section \<open>Printing tokens back\<close>

fun escape :: "cstring \<Rightarrow> cstring" where
  "escape [] = []"
| "escape (c # cs) =
     (if c = DQUOTE \<or> c = BSLASH then BSLASH # c # escape cs else c # escape cs)"

definition render_token :: "token \<Rightarrow> cstring" where
  "render_token t = (if tok_type t = WORD then DQUOTE # escape (tok_value t) @ [DQUOTE]
                     else tok_value t)"

definition render :: "token list \<Rightarrow> cstring" where
  "render ts = concat (map (\<lambda>t. render_token t @ '' '') ts)"

fun op_text :: "Token_type \<Rightarrow> cstring" where
  "op_text OP_PIPE = ''|''"
| "op_text OP_AMP = ''&''"
| "op_text OP_SEMI = '';''"
| "op_text OP_LT = ''<''"
| "op_text OP_GT = ''>''"
| "op_text OP_GTGT = ''>>''"
| "op_text WORD = []"

definition wf_token :: "token \<Rightarrow> bool" where
  "wf_token t \<longleftrightarrow> (if tok_type t = WORD then length (tok_value t) < WORD_BUF
                  else tok_value t = op_text (tok_type t))"

lemma double_quote_loop_escape:
  "length word + length v \<le> WORD_BUF \<Longrightarrow>
     double_quote_loop (escape v @ DQUOTE # rest) word = Lex_Ok (rest, word @ v)"
  by (induction v arbitrary: word) (auto simp: put_char_not_Overflow)

lemma lex_word_rendered:
  assumes "length v < WORD_BUF"
  shows "lex_word (DQUOTE # escape v @ DQUOTE # CHR '' '' # rest) = Lex_Ok (CHR '' '' # rest, v)"
  using assms double_quote_loop_escape[of "[]" v "CHR '' '' # rest"]
  by (simp add: lex_word_def word_loop_step word_end_def word_step_def double_quote_def
      is_space_def is_special_def)

lemma lexing_loop_render_token:
  assumes "wf_token t"
  shows "lexing_loop (render_token t @ CHR '' '' # rest) Token = lexing_loop rest (Token @ [t])"
proof (cases t)
  case (fields ty v)
  show ?thesis
  proof (cases "ty = WORD")
    case True
    with assms fields show ?thesis
      by (simp add: render_token_def wf_token_def lexing_loop_word lex_word_rendered
          is_space_def is_special_def add_token_def)
  next
    case False
    with assms fields have "v = op_text ty" by (simp add: wf_token_def)
    with False fields show ?thesis
      by (cases ty) (simp_all add: render_token_def add_token_def)
  qed
qed

lemma lexing_loop_render:
  "\<forall>t \<in> set ts. wf_token t \<Longrightarrow> lexing_loop (render ts) Token = Some (1, Token @ ts, [])"
proof (induction ts arbitrary: Token)
  case (Cons t ts)
  then show ?case
    using lexing_loop_render_token[of t "render ts" Token] by (simp add: render_def)
qed (simp add: render_def)

lemma lex_word_fits: "lex_word line = Lex_Ok (rest, w) \<Longrightarrow> length w < WORD_BUF"
  by (auto simp: lex_word_def split: if_splits)

text \<open>What is left to lex after one token, or after a blank.\<close>

lemma lexing_loop_step:
  assumes "is_space c \<or> is_special c"
  obtains rest t where "lexing_loop (c # cs) Token = lexing_loop rest (Token @ t)"
    and "length rest \<le> length cs" and "\<forall>u \<in> set t. wf_token u"
proof (cases "c = CHR ''>'' \<and> cs \<noteq> [] \<and> hd cs = CHR ''>''")
  case True
  then show ?thesis
    by (intro that[of "tl cs" "[\<lparr>tok_type = OP_GTGT, tok_value = ''>>''\<rparr>]"])
       (auto simp: neq_Nil_conv add_token_def wf_token_def)
next
  case False
  with assms have "(\<exists>ty. lexing_loop (c # cs) Token = lexing_loop cs (add_token ty (op_text ty) Token) \<and> ty \<noteq> WORD) \<or>
      lexing_loop (c # cs) Token = lexing_loop cs Token"
    by (auto simp: is_space_def is_special_def intro: exI[of _ OP_PIPE] exI[of _ OP_AMP] exI[of _ OP_SEMI]
        exI[of _ OP_LT] exI[of _ OP_GT])
  then consider ty where "lexing_loop (c # cs) Token = lexing_loop cs (add_token ty (op_text ty) Token)" "ty \<noteq> WORD"
    | "lexing_loop (c # cs) Token = lexing_loop cs Token" by blast
  then show ?thesis
  proof cases
    case (1 ty)
    then show ?thesis
      by (intro that[of cs "[\<lparr>tok_type = ty, tok_value = op_text ty\<rparr>]"]) (simp_all add: add_token_def wf_token_def)
  next
    case 2
    then show ?thesis by (intro that[of cs "[]"]) simp_all
  qed
qed

lemma lexing_loop_wf:
  "lexing_loop line Token = Some (r, ts, msg) \<Longrightarrow> \<forall>t \<in> set Token. wf_token t \<Longrightarrow> \<forall>t \<in> set ts. wf_token t"
proof (induction line arbitrary: Token rule: length_induct)
  case (1 line)
  show ?case
  proof (cases line)
    case Nil
    with 1 show ?thesis by simp
  next
    case (Cons c cs)
    show ?thesis
    proof (cases "is_space c \<or> is_special c")
      case True
      then obtain rest t where l: "lexing_loop (c # cs) Token = lexing_loop rest (Token @ t)"
        "length rest \<le> length cs" "\<forall>u \<in> set t. wf_token u" by (rule lexing_loop_step)
      then have "\<forall>u \<in> set (Token @ t). wf_token u" using 1(3) by auto
      moreover have "lexing_loop rest (Token @ t) = Some (r, ts, msg)" using 1(2) l(1) Cons by simp
      moreover have "length rest < length line" using l(2) Cons by simp
      ultimately show ?thesis using 1(1) by blast
    next
      case False
      then have we: "\<not> word_end line" by (simp add: Cons word_end_def)
      show ?thesis
      proof (cases "lex_word line")
        case (Lex_Ok x)
        obtain rest w where x: "x = (rest, w)" by (cases x)
        have "lexing_loop rest (add_token WORD w Token) = Some (r, ts, msg)"
          using 1(2) False Cons Lex_Ok x by (simp add: lexing_loop_word)
        moreover have "\<forall>u \<in> set (add_token WORD w Token). wf_token u"
          using 1(3) lex_word_fits[of line rest w] Lex_Ok x by (simp add: add_token_def wf_token_def)
        moreover have "length rest < length line" using lex_word_less[of line rest w] Lex_Ok x we by simp
        ultimately show ?thesis using 1(1) by blast
      next
        case Lex_Fail
        with 1 False Cons show ?thesis by (simp add: lexing_loop_word)
      next
        case Lex_Overflow
        with 1 False Cons show ?thesis by (simp add: lexing_loop_word)
      qed
    qed
  qed
qed

section \<open>Properties\<close>

text \<open>
  C25.  Every line that fits the 1024-byte input buffer is lexed without a write outside of the
  word buffer, and \<open>lexing\<close> returns 1 exactly when every quotation and escape of the line is
  closed; otherwise it prints the syntax error and returns 0.
\<close>

theorem lexing_total:
  assumes "length line < WORD_BUF"
  shows "\<exists>ts. lexing line Token =
           Some (if quotes_closed line then (1, ts, []) else (0, ts, lex_error))"
  unfolding lexing_def using assms by (rule lexing_loop_total)

theorem lexing_total_witness:
  "length ''echo 'a b' c'' < WORD_BUF \<and> quotes_closed ''echo 'a b' c'' \<and>
   (\<exists>ts. lexing ''echo 'a b' c'' [] = Some (1, ts, []))"
proof -
  have h: "length ''echo 'a b' c'' < WORD_BUF" by (simp add: WORD_BUF_def)
  moreover have "quotes_closed ''echo 'a b' c''" by (simp add: quotes_closed_def)
  ultimately show ?thesis using lexing_total[OF h, of "[]"] by simp
qed

text \<open>
  C13.  Printing tokens and lexing the result gives the tokens back: words are quoted and
  escaped so that every character survives, operators are printed as they are written.
\<close>

theorem lexing_render:
  assumes "\<forall>t \<in> set ts. wf_token t"
  shows "lexing (render ts) [] = Some (1, ts, [])"
  unfolding lexing_def using lexing_loop_render[OF assms, of "[]"] by simp

theorem lexing_render_witness:
  "lexing (render [\<lparr>tok_type = WORD, tok_value = ''a b''\<rparr>, \<lparr>tok_type = OP_GTGT, tok_value = ''>>''\<rparr>,
                   \<lparr>tok_type = WORD, tok_value = [BSLASH, DQUOTE]\<rparr>]) [] =
   Some (1, [\<lparr>tok_type = WORD, tok_value = ''a b''\<rparr>, \<lparr>tok_type = OP_GTGT, tok_value = ''>>''\<rparr>,
             \<lparr>tok_type = WORD, tok_value = [BSLASH, DQUOTE]\<rparr>], [])"
  by (rule lexing_render) (simp add: wf_token_def WORD_BUF_def)

text \<open>
  C26.  The type of tokens: whatever line is lexed, and whether or not it is accepted, every token has
  the text of its operator, or is a word that fits the word buffer with its terminator.
\<close>

theorem lexing_tokens_wf:
  assumes "lexing line [] = Some (r, ts, msg)"
  shows "\<forall>t \<in> set ts. wf_token t"
  using assms lexing_loop_wf unfolding lexing_def by fastforce

theorem lexing_tokens_wf_witness:
  "lexing ''a>> b;'' [] = Some (1, [\<lparr>tok_type = WORD, tok_value = ''a''\<rparr>, \<lparr>tok_type = OP_GTGT, tok_value = ''>>''\<rparr>,
     \<lparr>tok_type = WORD, tok_value = ''b''\<rparr>, \<lparr>tok_type = OP_SEMI, tok_value = '';''\<rparr>], []) \<and>
   list_all wf_token [\<lparr>tok_type = WORD, tok_value = ''a''\<rparr>, \<lparr>tok_type = OP_GTGT, tok_value = ''>>''\<rparr>,
     \<lparr>tok_type = WORD, tok_value = ''b''\<rparr>, \<lparr>tok_type = OP_SEMI, tok_value = '';''\<rparr>]"
proof
  show lexed: "lexing ''a>> b;'' [] = Some (1, [\<lparr>tok_type = WORD, tok_value = ''a''\<rparr>, \<lparr>tok_type = OP_GTGT, tok_value = ''>>''\<rparr>,
     \<lparr>tok_type = WORD, tok_value = ''b''\<rparr>, \<lparr>tok_type = OP_SEMI, tok_value = '';''\<rparr>], [])"
    by code_simp
  show "list_all wf_token [\<lparr>tok_type = WORD, tok_value = ''a''\<rparr>, \<lparr>tok_type = OP_GTGT, tok_value = ''>>''\<rparr>,
     \<lparr>tok_type = WORD, tok_value = ''b''\<rparr>, \<lparr>tok_type = OP_SEMI, tok_value = '';''\<rparr>]"
    using lexing_tokens_wf[OF lexed] by (simp only: list_all_iff)
qed

end
