(* ===== verification/Parser.thy ===== *)
theory Parser
  imports Lexer
begin

text \<open>
  The syntax check, \<open>c-shell/src/parser.c\<close>.  The global \<open>current\<close> is the suffix of the token
  list still to be read; each routine returns its result and the \<open>current\<close> it leaves.  The
  grammar the routines implement is stated separately as inductive predicates over the
  token types, and the two are proved equivalent.
\<close>

section \<open>The routines\<close>

fun parse_arg :: "token list \<Rightarrow> bool \<times> token list"
  and parse_cmd :: "token list \<Rightarrow> bool \<times> token list"
  and parse_tgt :: "token list \<Rightarrow> bool \<times> token list"
  and parse_bg :: "token list \<Rightarrow> bool \<times> token list" where
  "parse_arg [] = (True, [])"
| "parse_arg (t # ts) =
     (if tok_type t = WORD then parse_arg ts
      else if tok_type t = OP_LT then parse_tgt ts
      else if tok_type t = OP_GT then parse_tgt ts
      else if tok_type t = OP_GTGT then parse_tgt ts
      else if tok_type t = OP_PIPE then parse_cmd ts
      else if tok_type t = OP_SEMI then parse_cmd ts
      else if tok_type t = OP_AMP then parse_bg ts
      else (False, t # ts))"
| "parse_cmd [] = (False, [])"
| "parse_cmd (t # ts) = (if tok_type t = WORD then parse_arg ts else (False, t # ts))"
| "parse_tgt [] = (False, [])"
| "parse_tgt (t # ts) = (if tok_type t = WORD then parse_arg ts else (False, t # ts))"
| "parse_bg [] = (True, [])"
| "parse_bg (t # ts) = (if tok_type t = WORD then parse_arg ts else (False, t # ts))"

fun parse_line :: "token list \<Rightarrow> bool \<times> token list" where
  "parse_line [] = (True, [])"
| "parse_line (t # ts) = (if tok_type t = WORD then parse_arg ts else (False, t # ts))"

definition parsing :: "token list \<Rightarrow> bool" where
  "parsing Token = (case parse_line Token of (ok, current) \<Rightarrow> ok \<and> current = [])"

section \<open>The grammar\<close>

text \<open>
  A command is a word followed by words and redirections; a pipeline is a non-empty list of
  commands separated by \<open>|\<close>; a sequence is a non-empty list of pipelines separated by \<open>;\<close> or
  \<open>&\<close>; a line is empty, or a sequence with an optional trailing \<open>&\<close>.
\<close>

abbreviation redirections :: "Token_type set" where
  "redirections \<equiv> {OP_LT, OP_GT, OP_GTGT}"

inductive g_command :: "Token_type list \<Rightarrow> bool" where
  name: "g_command [WORD]"
| arg: "g_command c \<Longrightarrow> g_command (c @ [WORD])"
| redirect: "g_command c \<Longrightarrow> r \<in> redirections \<Longrightarrow> g_command (c @ [r, WORD])"

inductive g_pipeline :: "Token_type list \<Rightarrow> bool" where
  single: "g_command c \<Longrightarrow> g_pipeline c"
| pipe: "g_pipeline p \<Longrightarrow> g_command c \<Longrightarrow> g_pipeline (p @ OP_PIPE # c)"

inductive g_sequence :: "Token_type list \<Rightarrow> bool" where
  single: "g_pipeline p \<Longrightarrow> g_sequence p"
| more: "g_sequence s \<Longrightarrow> sep \<in> {OP_SEMI, OP_AMP} \<Longrightarrow> g_pipeline p \<Longrightarrow> g_sequence (s @ sep # p)"

inductive g_line :: "Token_type list \<Rightarrow> bool" where
  empty: "g_line []"
| sequence: "g_sequence s \<Longrightarrow> g_line s"
| background: "g_sequence s \<Longrightarrow> g_line (s @ [OP_AMP])"

text \<open>A sequence can be extended by a word, a redirection, or a separator and a word.\<close>

lemma g_pipeline_arg: "g_pipeline p \<Longrightarrow> g_pipeline (p @ [WORD])"
  by (induction rule: g_pipeline.cases) (auto intro: g_pipeline.intros g_command.intros)

lemma g_pipeline_redirect:
  assumes "g_pipeline p" and "r \<in> redirections"
  shows "g_pipeline (p @ [r, WORD])"
  using assms(1)
proof cases
  case single
  with assms(2) show ?thesis by (blast intro: g_pipeline.single g_command.redirect)
next
  case (pipe p' c)
  have "g_command (c @ [r, WORD])"
    using pipe(3) assms(2) by (rule g_command.redirect)
  from g_pipeline.pipe[OF pipe(2) this] pipe(1) show ?thesis by simp
qed

lemma g_sequence_pipeline:
  assumes "g_sequence s" and "\<And>p. g_pipeline p \<Longrightarrow> g_pipeline (p @ ext)"
  shows "g_sequence (s @ ext)"
  using assms(1)
proof cases
  case single
  then show ?thesis by (intro g_sequence.single assms(2))
next
  case (more s' sep p)
  from g_sequence.more[OF more(2,3) assms(2)[OF more(4)]] more(1) show ?thesis by simp
qed

lemma g_sequence_arg: "g_sequence s \<Longrightarrow> g_sequence (s @ [WORD])"
  by (rule g_sequence_pipeline) (simp_all add: g_pipeline_arg)

lemma g_sequence_redirect: "g_sequence s \<Longrightarrow> r \<in> redirections \<Longrightarrow> g_sequence (s @ [r, WORD])"
  by (rule g_sequence_pipeline) (simp_all add: g_pipeline_redirect)

lemma g_sequence_pipe: "g_sequence s \<Longrightarrow> g_sequence (s @ [OP_PIPE, WORD])"
  using g_pipeline.pipe[OF _ g_command.name] by (intro g_sequence_pipeline) simp_all

lemma g_sequence_sep: "g_sequence s \<Longrightarrow> sep \<in> {OP_SEMI, OP_AMP} \<Longrightarrow> g_sequence (s @ [sep, WORD])"
  by (intro g_sequence.more g_pipeline.single g_command.name)

lemmas g_sequence_extend = g_sequence_arg g_sequence_redirect g_sequence_pipe g_sequence_sep

section \<open>Equivalence\<close>

abbreviation types :: "token list \<Rightarrow> Token_type list" where
  "types ts \<equiv> map tok_type ts"

definition accepts :: "bool \<times> token list \<Rightarrow> bool" where
  "accepts r \<longleftrightarrow> fst r \<and> snd r = []"

lemma accepts_simps [simp]: "accepts (b, ts) \<longleftrightarrow> b \<and> ts = []"
  by (simp add: accepts_def)

text \<open>Soundness: what is accepted after a sequence completes it to a line.\<close>

lemma parse_sound:
  "g_sequence s \<Longrightarrow> accepts (parse_arg ts) \<Longrightarrow> g_line (s @ types ts)"
proof (induction ts arbitrary: s rule: length_induct)
  case (1 ts)
  have step: "g_line (s @ types ts)"
    if "ts = pre @ rest" "pre \<noteq> []" "g_sequence (s @ types pre)" "accepts (parse_arg rest)"
    for pre rest
    using "1.IH"[rule_format, of rest "s @ types pre"] that by simp
  show ?case
  proof (cases ts)
    case Nil
    with "1.prems" show ?thesis by (auto intro: g_line.sequence)
  next
    case (Cons t us)
    show ?thesis
    proof (cases "tok_type t = WORD")
      case True
      with Cons "1.prems" show ?thesis
        by (intro step[of "[t]" us]) (auto intro: g_sequence_extend)
    next
      case False
      show ?thesis
      proof (cases us)
        case Nil
        with Cons False "1.prems" show ?thesis
          by (cases "tok_type t") (auto intro: g_line.background)
      next
        case (Cons u vs)
        with \<open>ts = t # us\<close> False "1.prems" show ?thesis
          by (intro step[of "[t, u]" vs]) (cases "tok_type t"; auto split: if_splits intro: g_sequence_extend)+
      qed
    qed
  qed
qed

text \<open>Completeness: reading a phrase of the grammar leaves the parser in \<open>parse_arg\<close>.\<close>

definition reads :: "(token list \<Rightarrow> bool \<times> token list) \<Rightarrow> Token_type list \<Rightarrow> bool" where
  "reads f tys \<longleftrightarrow> (\<forall>ts rest. types ts = tys \<longrightarrow> f (ts @ rest) = parse_arg rest)"

lemma reads_append:
  assumes "reads f c" and "reads parse_arg d"
  shows "reads f (c @ d)"
  using assms unfolding reads_def by (metis append_assoc map_eq_append_conv)

lemma reads_Cons:
  "reads f (ty # tys) \<longleftrightarrow>
     (\<forall>t ts rest. tok_type t = ty \<longrightarrow> types ts = tys \<longrightarrow> f (t # ts @ rest) = parse_arg rest)"
  unfolding reads_def by (force simp: map_eq_Cons_conv)

lemma reads_arg_word [simp]: "reads parse_arg [WORD]" "reads parse_cmd [WORD]"
  by (simp_all add: reads_Cons)

lemma reads_arg_redirect: "r \<in> redirections \<Longrightarrow> reads parse_arg [r, WORD]"
  by (auto simp: reads_Cons map_eq_Cons_conv)

lemma g_command_reads: "g_command c \<Longrightarrow> reads parse_cmd c"
  by (induction rule: g_command.induct) (auto intro: reads_append reads_arg_redirect)

lemma parse_bg_parse_cmd: "ts \<noteq> [] \<Longrightarrow> parse_bg ts = parse_cmd ts"
  by (cases ts) simp_all

lemma reads_arg_sep:
  assumes "reads parse_cmd p" and "p \<noteq> []" and "sep \<in> {OP_PIPE, OP_SEMI, OP_AMP}"
  shows "reads parse_arg (sep # p)"
proof -
  have "parse_bg (ts @ rest) = parse_cmd (ts @ rest)" if "types ts = p" for ts rest
    using that assms(2) by (auto intro!: parse_bg_parse_cmd)
  with assms(1,3) show ?thesis by (auto simp: reads_Cons reads_def)
qed

lemma g_command_nonempty: "g_command c \<Longrightarrow> c \<noteq> []"
  by (induction rule: g_command.induct) auto

lemma g_pipeline_nonempty: "g_pipeline p \<Longrightarrow> p \<noteq> []"
  by (induction rule: g_pipeline.induct) (auto dest: g_command_nonempty)

lemma g_sequence_nonempty: "g_sequence s \<Longrightarrow> s \<noteq> []"
  by (induction rule: g_sequence.induct) (auto dest: g_pipeline_nonempty)

lemma g_pipeline_reads: "g_pipeline p \<Longrightarrow> reads parse_cmd p"
  by (induction rule: g_pipeline.induct)
     (auto intro: g_command_reads intro!: reads_append[OF _ reads_arg_sep] dest: g_command_nonempty)

lemma g_sequence_reads: "g_sequence s \<Longrightarrow> reads parse_cmd s"
  by (induction rule: g_sequence.induct)
     (auto intro: g_pipeline_reads intro!: reads_append[OF _ reads_arg_sep] dest: g_pipeline_nonempty)

lemma parse_line_parse_cmd: "ts \<noteq> [] \<Longrightarrow> parse_line ts = parse_cmd ts"
  by (cases ts) simp_all

lemma parse_complete:
  assumes "g_sequence (types ts)"
  shows "parse_line (ts @ rest) = parse_arg rest"
proof -
  have "ts \<noteq> []" using g_sequence_nonempty[OF assms] by auto
  then show ?thesis
    using g_sequence_reads[OF assms] by (simp add: parse_line_parse_cmd reads_def)
qed

lemma parsing_accepts: "parsing ts \<longleftrightarrow> accepts (parse_line ts)"
  by (simp add: parsing_def accepts_def split: prod.split)

lemma parsing_sound:
  assumes "parsing ts"
  shows "g_line (types ts)"
proof (cases ts)
  case (Cons t us)
  with assms have "tok_type t = WORD" and "accepts (parse_arg us)"
    by (auto simp: parsing_accepts split: if_splits)
  with Cons show ?thesis
    using parse_sound[of "[WORD]" us] g_sequence.single[OF g_pipeline.single[OF g_command.name]]
    by simp
qed (simp add: g_line.empty)

lemma parsing_complete:
  assumes "g_line (types ts)"
  shows "parsing ts"
  using assms
proof cases
  case sequence
  then show ?thesis using parse_complete[of ts "[]"] by (simp add: parsing_accepts)
next
  case (background s)
  then obtain us t where "ts = us @ [t]" "types us = s" "tok_type t = OP_AMP"
    by (auto simp: map_eq_append_conv)
  with background show ?thesis using parse_complete[of us "[t]"] by (simp add: parsing_accepts)
qed (simp add: parsing_accepts)

section \<open>Properties\<close>

text \<open>
  C11.  The recursive-descent routines accept exactly the lines of the grammar, and accept only
  when every token has been consumed.
\<close>

theorem parsing_iff_grammar: "parsing ts \<longleftrightarrow> g_line (types ts)"
  using parsing_sound parsing_complete by blast

end
