(* ===== verification/Redirect.thy ===== *)
theory Redirect
  imports Parser
begin

text \<open>
  Command-line analysis in \<open>c-shell/src/command.c\<close>: input and output redirection and the
  division of a pipeline into stages.  Arrays of 100 pointers are lists whose length is the
  C counter; a store beyond the array is the fault \<open>Array_Overflow\<close>.  A routine that returns
  0 yields \<open>None\<close>.
\<close>

section \<open>Data\<close>

definition ARR :: nat where
  "ARR = 100"

record output_file =
  of_name :: cstring
  of_append :: bool

record pipeline_stage =
  st_argv :: "cstring list"
  st_input_files :: "cstring list"
  st_output_files :: "output_file list"
  st_output_fds :: "int list"
  st_output_pipe :: "int \<times> int"
  st_output_writer :: int
  st_input_fd :: int
  st_input_writer :: int
  st_setup_failed :: bool

section \<open>Input redirection\<close>

text \<open>\<open>argv[*argc] = NULL; return 1\<close>.\<close>

definition terminate_argv ::
    "cstring list \<Rightarrow> cstring list \<Rightarrow> fault + (cstring list \<times> cstring list) option" where
  "terminate_argv argv files =
     (if length argv < ARR then Inr (Some (argv, files)) else Inl Array_Overflow)"

fun input_loop :: "token list \<Rightarrow> cstring list \<Rightarrow> cstring list \<Rightarrow>
    fault + (cstring list \<times> cstring list) option" where
  "input_loop [] argv files = terminate_argv argv files"
| "input_loop (t # ts) argv files =
     (if tok_value t = '';'' \<or> tok_value t = ''&'' then terminate_argv argv files
      else if tok_value t = ''<'' then
        (case ts of
           [] \<Rightarrow> Inr None
         | u # us \<Rightarrow>
             if tok_type u \<noteq> WORD then Inr None
             else if length files < ARR then input_loop us argv (files @ [tok_value u])
             else Inl Array_Overflow)
      else if length argv < ARR then input_loop ts (argv @ [tok_value t]) files
      else Inl Array_Overflow)"

definition parse_input_redirect :: "token list \<Rightarrow> fault + (cstring list \<times> cstring list) option" where
  "parse_input_redirect current = input_loop current [] []"

section \<open>Output redirection\<close>

text \<open>
  The arguments are compacted in place: \<open>i\<close> reads and \<open>new_argc\<close> writes the same array.
\<close>

function output_loop :: "cstring list \<Rightarrow> nat \<Rightarrow> nat \<Rightarrow> output_file list \<Rightarrow>
    fault + (cstring list \<times> output_file list) option" where
  "output_loop argv i new_argc files =
     (if i < length argv then
        (if argv ! i = ''>'' \<or> argv ! i = ''>>'' then
           (let append = (argv ! i = ''>>'') in
            if length argv \<le> i + 1 then Inr None
            else if length files < ARR then
              output_loop argv (i + 2) new_argc
                (files @ [\<lparr>of_name = argv ! (i + 1), of_append = append\<rparr>])
            else Inl Array_Overflow)
         else output_loop (argv[new_argc := argv ! i]) (i + 1) (new_argc + 1) files)
      else Inr (Some (take new_argc argv, files)))"
  by pat_completeness auto
termination
  by (relation "measure (\<lambda>(argv, i, n, files). length argv - i)") auto

declare output_loop.simps [simp del]

definition parse_output_redirection :: "cstring list \<Rightarrow>
    fault + (cstring list \<times> output_file list) option" where
  "parse_output_redirection argv = output_loop argv 0 0 []"

section \<open>Pipelines\<close>

fun has_pipeline :: "token list \<Rightarrow> bool" where
  "has_pipeline [] = False"
| "has_pipeline (t # ts) =
     (if tok_type t = OP_SEMI \<or> tok_type t = OP_AMP then False
      else if tok_type t = OP_PIPE then True
      else has_pipeline ts)"

text \<open>The stage is the tokens from \<open>start\<close> up to, not including, \<open>end\<close>.\<close>

fun stage_loop :: "token list \<Rightarrow> cstring list \<Rightarrow> cstring list \<Rightarrow>
    fault + (cstring list \<times> cstring list) option" where
  "stage_loop [] raw_argv files = terminate_argv raw_argv files"
| "stage_loop (t # ts) raw_argv files =
     (if tok_value t = ''<'' then
        (case ts of
           [] \<Rightarrow> Inr None
         | u # us \<Rightarrow>
             if tok_type u \<noteq> WORD then Inr None
             else if length files < ARR then stage_loop us raw_argv (files @ [tok_value u])
             else Inl Array_Overflow)
      else if length raw_argv < ARR then stage_loop ts (raw_argv @ [tok_value t]) files
      else Inl Array_Overflow)"

definition fresh_stage ::
    "cstring list \<Rightarrow> cstring list \<Rightarrow> output_file list \<Rightarrow> pipeline_stage" where
  "fresh_stage argv ins outs =
     \<lparr>st_argv = argv, st_input_files = ins, st_output_files = outs, st_output_fds = [],
      st_output_pipe = (-1, -1), st_output_writer = -1, st_input_fd = -1,
      st_input_writer = -1, st_setup_failed = False\<rparr>"

definition parse_pipeline_stage :: "token list \<Rightarrow> fault + pipeline_stage option" where
  "parse_pipeline_stage seg =
     (case stage_loop seg [] [] of
        Inl f \<Rightarrow> Inl f
      | Inr None \<Rightarrow> Inr None
      | Inr (Some (raw_argv, ins)) \<Rightarrow>
          (case parse_output_redirection raw_argv of
             Inl f \<Rightarrow> Inl f
           | Inr None \<Rightarrow> Inr None
           | Inr (Some (argv, outs)) \<Rightarrow>
               if 0 < length argv then Inr (Some (fresh_stage argv ins outs)) else Inr None))"

fun count_stages :: "token list \<Rightarrow> nat \<Rightarrow> nat" where
  "count_stages [] cnt = cnt"
| "count_stages (t # ts) cnt =
     (if tok_type t = OP_SEMI \<or> tok_type t = OP_AMP then cnt
      else if tok_type t = OP_PIPE then count_stages ts (cnt + 1)
      else count_stages ts cnt)"

text \<open>\<open>seg\<close> holds the tokens from \<open>start\<close> to \<open>cursor\<close>, \<open>result\<close> the stages filled in.\<close>

fun pipeline_loop :: "token list \<Rightarrow> token list \<Rightarrow> pipeline_stage list \<Rightarrow>
    fault + pipeline_stage list option" where
  "pipeline_loop [] seg result =
     (case parse_pipeline_stage seg of
        Inl f \<Rightarrow> Inl f
      | Inr None \<Rightarrow> Inr None
      | Inr (Some st) \<Rightarrow> Inr (Some (result @ [st])))"
| "pipeline_loop (t # ts) seg result =
     (if tok_type t = OP_SEMI \<or> tok_type t = OP_AMP then
        (case parse_pipeline_stage seg of
           Inl f \<Rightarrow> Inl f
         | Inr None \<Rightarrow> Inr None
         | Inr (Some st) \<Rightarrow> Inr (Some (result @ [st])))
      else if tok_type t = OP_PIPE then
        (case parse_pipeline_stage seg of
           Inl f \<Rightarrow> Inl f
         | Inr None \<Rightarrow> Inr None
         | Inr (Some st) \<Rightarrow> pipeline_loop ts [] (result @ [st]))
      else pipeline_loop ts (seg @ [t]) result)"

text \<open>\<open>calloc_ok\<close> is whether the allocation of the stage array succeeds.\<close>

definition parse_pipeline :: "bool \<Rightarrow> token list \<Rightarrow>
    fault + (pipeline_stage list \<times> nat) option" where
  "parse_pipeline calloc_ok current =
     (let cnt = count_stages current 1 in
      if \<not> calloc_ok then Inr None
      else case pipeline_loop current [] [] of
             Inl f \<Rightarrow> Inl f
           | Inr None \<Rightarrow> Inr None
           | Inr (Some stages) \<Rightarrow> Inr (Some (stages, cnt)))"

section \<open>In-place compaction computes the reference split\<close>

fun redir_spec :: "cstring list \<Rightarrow> (cstring list \<times> output_file list) option" where
  "redir_spec [] = Some ([], [])"
| "redir_spec (a # rest) =
     (if a = ''>'' \<or> a = ''>>'' then
        (case rest of
           [] \<Rightarrow> None
         | f # fs \<Rightarrow> map_option (\<lambda>(argv, outs). (argv, \<lparr>of_name = f, of_append = (a = ''>>'')\<rparr> # outs))
                      (redir_spec fs))
      else map_option (\<lambda>(argv, outs). (a # argv, outs)) (redir_spec rest))"

lemma output_loop_correct:
  "i \<le> length argv \<Longrightarrow> n \<le> i \<Longrightarrow> 2 * length files \<le> i \<Longrightarrow> length argv \<le> ARR \<Longrightarrow>
     output_loop argv i n files =
       Inr (map_option (\<lambda>(rest, outs). (take n argv @ rest, files @ outs))
              (redir_spec (drop i argv)))"
proof (induction argv i n files rule: output_loop.induct)
  case (1 argv i n files)
  show ?case
  proof (cases "i < length argv")
    case True
    then have d: "drop i argv = argv ! i # drop (Suc i) argv"
      by (rule Cons_nth_drop_Suc [symmetric])
    show ?thesis
    proof (cases "argv ! i = ''>'' \<or> argv ! i = ''>>''")
      case True
      show ?thesis
      proof (cases "Suc i < length argv")
        case last: True
        then have "drop (Suc i) argv = argv ! Suc i # drop (i + 2) argv"
          by (simp add: Cons_nth_drop_Suc [symmetric])
        moreover have "length files < ARR" using 1(4-6) last by linarith
        ultimately show ?thesis
          using "1.IH"(1)[OF \<open>i < length argv\<close> True refl] "1.prems" last True d
          by (subst output_loop.simps) (simp add: Let_def option.map_comp comp_def case_prod_unfold)
      next
        case False
        with True d \<open>i < length argv\<close> show ?thesis by (subst output_loop.simps) (simp add: Let_def)
      qed
    next
      case False
      have "take (Suc n) (argv[n := argv ! i]) = take n argv @ [argv ! i]"
        using True "1.prems"(2) by (simp add: take_Suc_conv_app_nth)
      moreover have "drop (Suc i) (argv[n := argv ! i]) = drop (Suc i) argv"
        using "1.prems"(2) by simp
      ultimately show ?thesis
        using "1.IH"(2)[OF True False] "1.prems" True False d
        by (subst output_loop.simps) (simp add: option.map_comp comp_def case_prod_unfold)
    qed
  next
    case False
    with "1.prems" show ?thesis by (subst output_loop.simps) simp
  qed
qed

lemma parse_output_redirection_spec:
  "length argv \<le> ARR \<Longrightarrow> parse_output_redirection argv = Inr (redir_spec argv)"
  using output_loop_correct[of 0 argv 0 "[]"]
  by (simp add: parse_output_redirection_def option.map_ident case_prod_unfold)

section \<open>What a grammatical command is split into\<close>

text \<open>
  The routines compare token texts, not token types.  They agree with the token types on
  tokens whose words are not spelled like an operator.
\<close>

definition plain_token :: "token \<Rightarrow> bool" where
  "plain_token t \<longleftrightarrow>
     (if tok_type t = WORD then tok_value t \<notin> set (map op_text [OP_AMP, OP_SEMI, OP_LT, OP_GT, OP_GTGT])
      else tok_value t = op_text (tok_type t))"

text \<open>The arguments, input files and output files of a command, read off the token types.\<close>

fun cmd_argv :: "token list \<Rightarrow> cstring list" where
  "cmd_argv [] = []"
| "cmd_argv (t # ts) =
     (if tok_type t = WORD then tok_value t # cmd_argv ts else cmd_argv (tl ts))"

fun cmd_inputs :: "token list \<Rightarrow> cstring list" where
  "cmd_inputs (t # u # ts) =
     (if tok_type t = WORD then cmd_inputs (u # ts)
      else if tok_type t = OP_LT then tok_value u # cmd_inputs ts
      else cmd_inputs ts)"
| "cmd_inputs _ = []"

fun cmd_outputs :: "token list \<Rightarrow> output_file list" where
  "cmd_outputs (t # u # ts) =
     (if tok_type t = WORD then cmd_outputs (u # ts)
      else if tok_type t = OP_LT then cmd_outputs ts
      else \<lparr>of_name = tok_value u, of_append = (tok_type t = OP_GTGT)\<rparr> # cmd_outputs ts)"
| "cmd_outputs _ = []"

text \<open>The words left after input redirection: output redirections are still in place.\<close>

fun raw_argv :: "token list \<Rightarrow> cstring list" where
  "raw_argv [] = []"
| "raw_argv (t # ts) =
     (if tok_type t = OP_LT then raw_argv (tl ts) else tok_value t # raw_argv ts)"

text \<open>The arguments of a grammatical command, checked from the front.\<close>

fun args_ok :: "token list \<Rightarrow> bool" where
  "args_ok [] = True"
| "args_ok (t # ts) =
     (if tok_type t = WORD then args_ok ts
      else tok_type t \<in> redirections \<and> ts \<noteq> [] \<and> tok_type (hd ts) = WORD \<and> args_ok (tl ts))"

lemma args_ok_append: "args_ok ts \<Longrightarrow> args_ok us \<Longrightarrow> args_ok (ts @ us)"
  by (induction ts rule: args_ok.induct) auto

lemma g_command_args_ok: "g_command tys \<Longrightarrow> types ts = tys \<Longrightarrow> args_ok ts"
  by (induction arbitrary: ts rule: g_command.induct)
     (auto simp: map_eq_append_conv map_eq_Cons_conv intro!: args_ok_append)

lemma g_command_first: "g_command tys \<Longrightarrow> hd tys = WORD"
  by (induction rule: g_command.induct) (auto simp: hd_append dest: g_command_nonempty)

lemma plain_token_op: "plain_token t \<Longrightarrow> tok_type t \<noteq> WORD \<Longrightarrow> tok_value t = op_text (tok_type t)"
  by (simp add: plain_token_def)

lemma plain_token_lt: "plain_token t \<Longrightarrow> tok_value t = ''<'' \<longleftrightarrow> tok_type t = OP_LT"
  by (cases "tok_type t") (auto simp: plain_token_def)

lemma plain_token_gt: "plain_token t \<Longrightarrow> tok_value t = ''>'' \<longleftrightarrow> tok_type t = OP_GT"
  by (cases "tok_type t") (auto simp: plain_token_def)

lemma plain_token_gtgt: "plain_token t \<Longrightarrow> tok_value t = ''>>'' \<longleftrightarrow> tok_type t = OP_GTGT"
  by (cases "tok_type t") (auto simp: plain_token_def)

lemma plain_token_end:
  "plain_token t \<Longrightarrow> tok_value t = '';'' \<or> tok_value t = ''&'' \<longleftrightarrow> tok_type t \<in> {OP_SEMI, OP_AMP}"
  by (cases "tok_type t") (auto simp: plain_token_def)

lemmas plain_token_texts = plain_token_lt plain_token_gt plain_token_gtgt

lemma cmd_inputs_word: "tok_type t = WORD \<Longrightarrow> cmd_inputs (t # ts) = cmd_inputs ts"
  by (cases ts) simp_all

lemma args_ok_not_input:
  assumes "args_ok (t # ts)" and "tok_type t \<noteq> OP_LT"
  shows "args_ok ts" and "cmd_inputs (t # ts) = cmd_inputs ts"
  using assms by (cases ts; auto simp: cmd_inputs_word split: if_splits)+

lemma stage_loop_args:
  "args_ok ts \<Longrightarrow> \<forall>t \<in> set ts. plain_token t \<Longrightarrow> length argv \<le> ARR \<Longrightarrow> length files \<le> ARR \<Longrightarrow>
     stage_loop ts argv files =
       (if length argv + length (raw_argv ts) < ARR \<and> length files + length (cmd_inputs ts) \<le> ARR
        then Inr (Some (argv @ raw_argv ts, files @ cmd_inputs ts)) else Inl Array_Overflow)"
proof (induction ts argv files rule: stage_loop.induct)
  case (2 t ts argv files)
  show ?case
  proof (cases "tok_type t = OP_LT")
    case True
    with "2.prems" obtain u us where ts: "ts = u # us" by (cases ts) auto
    with True 2 show ?thesis by (auto simp: plain_token_texts)
  next
    case False
    with 2 args_ok_not_input[OF "2.prems"(1) False] show ?thesis
      by (auto simp: plain_token_texts)
  qed
qed (simp add: terminate_argv_def)

lemma redir_spec_args:
  "args_ok ts \<Longrightarrow> \<forall>t \<in> set ts. plain_token t \<Longrightarrow>
     redir_spec (raw_argv ts) = Some (cmd_argv ts, cmd_outputs ts)"
proof (induction ts rule: args_ok.induct)
  case (2 t ts)
  show ?case
  proof (cases "tok_type t = WORD")
    case True
    moreover have "cmd_outputs (t # ts) = cmd_outputs ts" using True by (cases ts) simp_all
    ultimately show ?thesis using 2 by (simp add: plain_token_texts)
  next
    case False
    with "2.prems" obtain u us where ts: "ts = u # us" "tok_type u = WORD" by (cases ts) auto
    with False 2 show ?thesis by (cases "tok_type t") (auto simp: plain_token_texts)
  qed
qed simp

definition within_limits :: "token list \<Rightarrow> bool" where
  "within_limits ts \<longleftrightarrow> length (raw_argv ts) < ARR \<and> length (cmd_inputs ts) \<le> ARR"

definition stage_of :: "token list \<Rightarrow> pipeline_stage" where
  "stage_of ts = fresh_stage (cmd_argv ts) (cmd_inputs ts) (cmd_outputs ts)"

lemma parse_pipeline_stage_command:
  assumes "g_command (types ts)" and "\<forall>t \<in> set ts. plain_token t"
  shows "parse_pipeline_stage ts =
    (if within_limits ts then Inr (Some (stage_of ts)) else Inl Array_Overflow)"
proof -
  have ok: "args_ok ts" using assms(1) by (auto intro: g_command_args_ok)
  have "hd (types ts) = WORD" "ts \<noteq> []"
    using g_command_first[OF assms(1)] g_command_nonempty[OF assms(1)] by auto
  then have "cmd_argv ts \<noteq> []" by (cases ts) auto
  then show ?thesis
    using stage_loop_args[OF ok assms(2), of "[]" "[]"] redir_spec_args[OF ok assms(2)]
    by (simp add: parse_pipeline_stage_def parse_output_redirection_spec within_limits_def stage_of_def)
qed

text \<open>Outside of pipelines the same split is made up to the first \<open>;\<close> or \<open>&\<close>.\<close>

lemma input_loop_stage_loop:
  "\<forall>t \<in> set ts. plain_token t \<and> tok_type t \<notin> {OP_SEMI, OP_AMP} \<Longrightarrow>
   rest = [] \<or> plain_token (hd rest) \<and> tok_type (hd rest) \<in> {OP_SEMI, OP_AMP} \<Longrightarrow>
     args_ok ts \<Longrightarrow> input_loop (ts @ rest) argv files = stage_loop ts argv files"
proof (induction ts argv files rule: stage_loop.induct)
  case (1 argv files)
  then show ?case by (cases rest) (auto simp: plain_token_end)
next
  case (2 t ts argv files)
  then have ne: "tok_value t \<noteq> '';''" "tok_value t \<noteq> ''&''"
    using plain_token_end[of t] by auto
  show ?case
  proof (cases "tok_type t = OP_LT")
    case True
    with "2.prems" obtain u us where ts: "ts = u # us" "tok_type u = WORD" by (cases ts) auto
    with True 2 ne show ?thesis by (auto simp: plain_token_texts)
  next
    case False
    with 2 ne args_ok_not_input[OF "2.prems"(3) False] show ?thesis
      by (auto simp: plain_token_texts)
  qed
qed

fun split_pipes :: "token list \<Rightarrow> token list list" where
  "split_pipes [] = [[]]"
| "split_pipes (t # ts) =
     (if tok_type t = OP_PIPE then [] # split_pipes ts
      else (t # hd (split_pipes ts)) # tl (split_pipes ts))"

lemma split_pipes_nonempty [simp]: "split_pipes ts \<noteq> []"
  by (cases ts) auto

lemma split_pipes_none: "OP_PIPE \<notin> set (types ts) \<Longrightarrow> split_pipes ts = [ts]"
  by (induction ts) auto

lemma split_pipes_subset: "seg \<in> set (split_pipes ts) \<Longrightarrow> set seg \<subseteq> set ts"
proof (induction ts arbitrary: seg)
  case (Cons t ts)
  obtain s ss where s: "split_pipes ts = s # ss" by (cases "split_pipes ts") auto
  show ?case using Cons.prems Cons.IH by (cases "tok_type t = OP_PIPE") (auto simp: s, blast+)
qed simp

lemma split_pipes_append:
  "tok_type t = OP_PIPE \<Longrightarrow> split_pipes (us @ t # vs) = split_pipes us @ split_pipes vs"
  by (induction us) (auto simp: hd_append tl_append split: list.split)

lemma g_command_no_pipe: "g_command c \<Longrightarrow> set c \<inter> {OP_PIPE, OP_SEMI, OP_AMP} = {}"
  by (induction rule: g_command.induct) auto

lemma g_pipeline_no_sep: "g_pipeline p \<Longrightarrow> set p \<inter> {OP_SEMI, OP_AMP} = {}"
  by (induction rule: g_pipeline.induct) (auto dest: g_command_no_pipe)

lemma g_pipeline_split:
  "g_pipeline p \<Longrightarrow> types ts = p \<Longrightarrow> \<forall>seg \<in> set (split_pipes ts). g_command (types seg)"
proof (induction arbitrary: ts rule: g_pipeline.induct)
  case (single c)
  moreover from single have "split_pipes ts = [ts]"
    by (intro split_pipes_none) (auto dest: g_command_no_pipe)
  ultimately show ?case by simp
next
  case (pipe p c)
  then obtain us t vs where ts: "ts = us @ t # vs" "types us = p" "tok_type t = OP_PIPE" "types vs = c"
    by (auto simp: map_eq_append_conv map_eq_Cons_conv)
  moreover have "split_pipes vs = [vs]"
    using pipe(2) ts(4) by (intro split_pipes_none) (auto dest: g_command_no_pipe)
  ultimately show ?case using pipe by (auto simp: split_pipes_append)
qed

text \<open>The loop of \<open>parse_pipeline\<close> cuts the tokens at the pipes.\<close>

abbreviation at_end :: "token list \<Rightarrow> bool" where
  "at_end rest \<equiv> rest = [] \<or> tok_type (hd rest) \<in> {OP_SEMI, OP_AMP}"

lemma pipeline_loop_split:
  "\<forall>t \<in> set ts. tok_type t \<notin> {OP_SEMI, OP_AMP} \<Longrightarrow> at_end rest \<Longrightarrow>
   segs = (seg @ hd (split_pipes ts)) # tl (split_pipes ts) \<Longrightarrow>
   \<forall>s \<in> set segs. parse_pipeline_stage s = Inr (Some (f s)) \<Longrightarrow>
     pipeline_loop (ts @ rest) seg result = Inr (Some (result @ map f segs))"
proof (induction ts arbitrary: seg result segs)
  case Nil
  then show ?case by (cases rest) auto
next
  case (Cons t ts)
  show ?case
  proof (cases "tok_type t = OP_PIPE")
    case True
    with Cons.prems have "parse_pipeline_stage seg = Inr (Some (f seg))" by simp
    with True Cons.prems Cons.IH[OF _ _ refl, of "[]" "result @ [f seg]"] show ?thesis by simp
  next
    case False
    with Cons.prems Cons.IH[of segs "seg @ [t]" result] show ?thesis by simp
  qed
qed

lemma count_stages_split:
  "\<forall>t \<in> set ts. tok_type t \<notin> {OP_SEMI, OP_AMP} \<Longrightarrow> at_end rest \<Longrightarrow>
     count_stages (ts @ rest) (Suc n) = n + length (split_pipes ts)"
proof (induction ts arbitrary: n)
  case Nil
  then show ?case by (cases rest) auto
next
  case (Cons t ts)
  then show ?case
    by (cases "split_pipes ts") (auto dest: Cons.IH[of "Suc n"])
qed

lemma parse_input_redirect_command:
  assumes "g_command (types ts)" and "\<forall>t \<in> set ts. plain_token t"
    and "rest = [] \<or> plain_token (hd rest) \<and> tok_type (hd rest) \<in> {OP_SEMI, OP_AMP}"
  shows "parse_input_redirect (ts @ rest) =
      (if within_limits ts then Inr (Some (raw_argv ts, cmd_inputs ts)) else Inl Array_Overflow)"
    and "within_limits ts \<Longrightarrow>
      parse_output_redirection (raw_argv ts) = Inr (Some (cmd_argv ts, cmd_outputs ts))"
proof -
  have ok: "args_ok ts" using assms(1) by (auto intro: g_command_args_ok)
  have "\<forall>t \<in> set ts. plain_token t \<and> tok_type t \<notin> {OP_SEMI, OP_AMP}"
    using assms(2) g_command_no_pipe[OF assms(1)] by force
  then show "parse_input_redirect (ts @ rest) =
      (if within_limits ts then Inr (Some (raw_argv ts, cmd_inputs ts)) else Inl Array_Overflow)"
    unfolding parse_input_redirect_def
    using input_loop_stage_loop[OF _ assms(3) ok] stage_loop_args[OF ok assms(2), of "[]" "[]"]
    by (simp add: within_limits_def)
  show "parse_output_redirection (raw_argv ts) = Inr (Some (cmd_argv ts, cmd_outputs ts))"
    if "within_limits ts"
    using that redir_spec_args[OF ok assms(2)] by (simp add: parse_output_redirection_spec within_limits_def)
qed

lemma parse_pipeline_grammar:
  assumes "g_pipeline (types ts)" and "\<forall>t \<in> set ts. plain_token t" and "at_end rest"
    and "\<forall>seg \<in> set (split_pipes ts). within_limits seg"
  shows "parse_pipeline True (ts @ rest) =
           Inr (Some (map stage_of (split_pipes ts), length (split_pipes ts)))"
proof -
  have plain: "\<forall>t \<in> set seg. plain_token t" if "seg \<in> set (split_pipes ts)" for seg
    using split_pipes_subset[OF that] assms(2) by blast
  have "\<forall>s \<in> set (split_pipes ts). parse_pipeline_stage s = Inr (Some (stage_of s))"
    using g_pipeline_split[OF assms(1) refl] assms(4) plain
    by (auto simp: parse_pipeline_stage_command)
  moreover have "\<forall>t \<in> set ts. tok_type t \<notin> {OP_SEMI, OP_AMP}"
    using g_pipeline_no_sep[OF assms(1)] by force
  ultimately show ?thesis
    using pipeline_loop_split[OF _ assms(3), of ts "split_pipes ts" "[]" stage_of "[]"]
      count_stages_split[OF _ assms(3), of ts 0]
    by (simp add: parse_pipeline_def)
qed

section \<open>Properties\<close>

text \<open>
  The in-place compaction of \<open>parse_output_redirection\<close>, which reads and writes the same
  array, computes the functional split into arguments and output files: the arguments and the
  redirections keep their order, \<open>>>\<close> sets the append flag, and the result is 0 exactly when a
  redirection operator is last.
\<close>

theorem parse_output_redirection_correct:
  assumes "length argv \<le> ARR"
  shows "parse_output_redirection argv = Inr (redir_spec argv)"
  using assms by (rule parse_output_redirection_spec)

theorem parse_output_redirection_correct_witness:
  "length [''sort'', ''>'', ''a'', ''-r'', ''>>'', ''b''] \<le> ARR \<and>
   parse_output_redirection [''sort'', ''>'', ''a'', ''-r'', ''>>'', ''b''] =
     Inr (Some ([''sort'', ''-r''],
       [\<lparr>of_name = ''a'', of_append = False\<rparr>, \<lparr>of_name = ''b'', of_append = True\<rparr>]))"
proof -
  have h: "length [''sort'', ''>'', ''a'', ''-r'', ''>>'', ''b''] \<le> ARR" by (simp add: ARR_def)
  show ?thesis using h parse_output_redirection_correct[OF h] by simp
qed

text \<open>
  A grammatical command whose words are not spelled like operators is split by token type:
  the words become the arguments, the targets of \<open><\<close> the input files and the targets of \<open>>\<close> and
  \<open>>>\<close> the output files.  The stores stay inside the 100-entry arrays exactly when fewer than
  100 words and output redirections and at most 100 input files occur; beyond that the code
  writes past the arrays.
\<close>

theorem command_split:
  assumes "g_command (types ts)" and "\<forall>t \<in> set ts. plain_token t"
    and "rest = [] \<or> plain_token (hd rest) \<and> tok_type (hd rest) \<in> {OP_SEMI, OP_AMP}"
  shows "case parse_input_redirect (ts @ rest) of
           Inl f \<Rightarrow> \<not> within_limits ts
         | Inr None \<Rightarrow> False
         | Inr (Some (raw, ins)) \<Rightarrow>
             within_limits ts \<and> ins = cmd_inputs ts \<and>
             parse_output_redirection raw = Inr (Some (cmd_argv ts, cmd_outputs ts))"
  using parse_input_redirect_command[OF assms] by (simp split: if_splits)

abbreviation word_tok :: "cstring \<Rightarrow> token" where
  "word_tok v \<equiv> \<lparr>tok_type = WORD, tok_value = v\<rparr>"

abbreviation op_tok :: "Token_type \<Rightarrow> token" where
  "op_tok ty \<equiv> \<lparr>tok_type = ty, tok_value = op_text ty\<rparr>"

lemma g_command_example: "g_command [WORD, OP_LT, WORD, WORD, OP_GTGT, WORD]"
  using g_command.redirect[OF g_command.arg[OF g_command.redirect[OF g_command.name, of OP_LT]],
      of OP_GTGT] by simp

theorem command_split_witness:
  "case parse_input_redirect ([word_tok ''grep'', op_tok OP_LT, word_tok ''in'', word_tok ''-v'', op_tok OP_GTGT,
       word_tok ''out''] @ [op_tok OP_SEMI, word_tok ''ls'']) of
     Inl f \<Rightarrow> False
   | Inr None \<Rightarrow> False
   | Inr (Some (raw, ins)) \<Rightarrow> ins = [''in''] \<and>
       parse_output_redirection raw =
         Inr (Some ([''grep'', ''-v''], [\<lparr>of_name = ''out'', of_append = True\<rparr>]))"
proof -
  let ?ts = "[word_tok ''grep'', op_tok OP_LT, word_tok ''in'', word_tok ''-v'', op_tok OP_GTGT, word_tok ''out'']"
  have "g_command (types ?ts)" using g_command_example by simp
  moreover have "\<forall>t \<in> set ?ts. plain_token t" by (simp add: plain_token_def)
  moreover have "[op_tok OP_SEMI, word_tok ''ls''] = [] \<or> plain_token (hd [op_tok OP_SEMI, word_tok ''ls'']) \<and>
      tok_type (hd [op_tok OP_SEMI, word_tok ''ls'']) \<in> {OP_SEMI, OP_AMP}"
    by (simp add: plain_token_def)
  ultimately have "case parse_input_redirect (?ts @ [op_tok OP_SEMI, word_tok ''ls'']) of
      Inl f \<Rightarrow> \<not> within_limits ?ts
    | Inr None \<Rightarrow> False
    | Inr (Some (raw, ins)) \<Rightarrow> within_limits ?ts \<and> ins = cmd_inputs ?ts \<and>
        parse_output_redirection raw = Inr (Some (cmd_argv ?ts, cmd_outputs ?ts))"
    by (rule command_split)
  moreover have "within_limits ?ts" by (simp add: within_limits_def ARR_def)
  ultimately show ?thesis by (auto split: sum.splits option.splits prod.splits)
qed

text \<open>
  A grammatical pipeline is divided at its pipes into one stage per command, in order, and
  \<open>stage_count\<close> is the number of stages; scanning stops at the \<open>;\<close> or \<open>&\<close> that ends it.
\<close>

theorem parse_pipeline_splits:
  assumes "g_pipeline (types ts)" and "\<forall>t \<in> set ts. plain_token t" and "at_end rest"
    and "\<forall>seg \<in> set (split_pipes ts). within_limits seg"
  shows "parse_pipeline True (ts @ rest) =
           Inr (Some (map stage_of (split_pipes ts), length (split_pipes ts)))"
  using assms by (rule parse_pipeline_grammar)


theorem parse_pipeline_splits_witness:
  "parse_pipeline True ([word_tok ''ls'', op_tok OP_PIPE, word_tok ''wc'', op_tok OP_GT, word_tok ''n''] @ [op_tok OP_AMP]) =
     Inr (Some ([fresh_stage [''ls''] [] [],
                 fresh_stage [''wc''] [] [\<lparr>of_name = ''n'', of_append = False\<rparr>]], 2))"
proof -
  let ?ts = "[word_tok ''ls'', op_tok OP_PIPE, word_tok ''wc'', op_tok OP_GT, word_tok ''n'']"
  have "g_pipeline (types ?ts)"
    using g_pipeline.pipe[OF g_pipeline.single[OF g_command.name]
        g_command.redirect[OF g_command.name, of OP_GT]] by simp
  moreover have "\<forall>t \<in> set ?ts. plain_token t" by (simp add: plain_token_def)
  moreover have "at_end [op_tok OP_AMP]" by simp
  moreover have "\<forall>seg \<in> set (split_pipes ?ts). within_limits seg"
    by (simp add: within_limits_def ARR_def)
  ultimately have "parse_pipeline True (?ts @ [op_tok OP_AMP]) =
      Inr (Some (map stage_of (split_pipes ?ts), length (split_pipes ?ts)))"
    by (rule parse_pipeline_splits)
  then show ?thesis by (simp add: stage_of_def)
qed

section \<open>Where the text comparison and the array size show\<close>

text \<open>
  A quoted operator is lexed as a word, but the executor recognises operators by their text and
  redirects.
\<close>

theorem quoted_operator_redirects:
  "\<exists>ts. lexing ''cat '<' f'' [] = Some (1, ts, []) \<and> types ts = [WORD, WORD, WORD] \<and>
        parse_input_redirect ts = Inr (Some ([''cat''], [''f'']))"
proof -
  have "lexing ''cat '<' f'' [] = Some (1, [word_tok ''cat'', word_tok ''<'', word_tok ''f''], [])"
    by code_simp
  then show ?thesis by (simp add: parse_input_redirect_def terminate_argv_def ARR_def)
qed

lemma input_loop_words:
  "\<forall>v \<in> set vs. plain_token (word_tok v) \<Longrightarrow> length argv \<le> ARR \<Longrightarrow>
     input_loop (map word_tok vs) argv files =
       (if length argv + length vs < ARR then Inr (Some (argv @ vs, files)) else Inl Array_Overflow)"
  by (induction vs arbitrary: argv) (auto simp: terminate_argv_def plain_token_def)

lemma parsing_words: "parsing (map word_tok vs)"
proof -
  have "parse_arg (map word_tok us) = (True, [])" for us by (induction us) simp_all
  then show ?thesis by (cases vs) (simp_all add: parsing_def)
qed

text \<open>
  A line of 100 words fits the input buffer and passes the lexer and the parser; collecting its
  arguments writes past \<open>argv[100]\<close>.
\<close>

theorem argument_overflow:
  "let ts = map word_tok (replicate 100 ''a'')
   in length (render ts) < WORD_BUF \<and> lexing (render ts) [] = Some (1, ts, []) \<and> parsing ts \<and>
      parse_input_redirect ts = Inl Array_Overflow"
proof -
  let ?ts = "map word_tok (replicate 100 ''a'')"
  have "length (render ?ts) < WORD_BUF"
    by (simp add: render_def render_token_def length_concat WORD_BUF_def sum_list_replicate)
  moreover have "lexing (render ?ts) [] = Some (1, ?ts, [])"
    unfolding lexing_def
    by (subst lexing_loop_render) (simp_all add: wf_token_def WORD_BUF_def)
  moreover have "parse_input_redirect ?ts = Inl Array_Overflow"
    unfolding parse_input_redirect_def
    by (subst input_loop_words) (simp_all add: plain_token_def ARR_def)
  ultimately show ?thesis using parsing_words unfolding Let_def by blast
qed

end
