(* ===== verification/Jobs.thy ===== *)
theory Jobs
  imports Shell_Prelude
begin

text \<open>
  The job table, \<open>c-shell/src/background.c\<close>.  The slots \<open>jobs[0 .. job_count - 1]\<close> are a list and
  \<open>job_count\<close> is its length; likewise \<open>procs\<close> and \<open>proc_count\<close> of a job.  The self-pipe is the
  list of notifications written and not yet read, \<open>err_out\<close> is the text written to \<open>stderr\<close>.
  SIGCHLD is blocked in every operation below except \<open>drain_background_notifications\<close>, so each
  is one step with respect to the handler; the handler is given the pairs that its
  \<open>waitpid\<close> loop reports.
\<close>

section \<open>State\<close>

definition MAX_JOBS :: nat where "MAX_JOBS = 100"
definition MAX_PROCS :: nat where "MAX_PROCS = 100"
definition MAX_ACTIVITY_PROCS :: nat where "MAX_ACTIVITY_PROCS = 100"

datatype proc_state = PROC_RUNNING | PROC_STOPPED

record proc_info =
  pi_pid :: int
  pi_name :: cstring
  pi_state :: proc_state
  pi_exited :: bool

record background_job =
  job_number :: int
  bj_pgid :: int
  bj_procs :: "proc_info list"
  remaining :: int
  active :: bool
  bj_cmdline :: cstring

record notification =
  notif_pid :: int
  exited_normally :: bool

record job_table =
  jobs :: "background_job list"
  next_job_number :: int
  notification_pipe :: "notification list"
  err_out :: cstring

text \<open>\<open>init_background\<close>: the table is empty and the pipe holds nothing.\<close>

definition init_background :: job_table where
  "init_background = \<lparr>jobs = [], next_job_number = 1, notification_pipe = [], err_out = []\<rparr>"

abbreviation NL :: cstring where "NL \<equiv> [CHR 0x0A]"

section \<open>The SIGCHLD handler\<close>

datatype wstatus = WExited int | WSignaled int | WStopped int | WContinued

fun WIFEXITED :: "wstatus \<Rightarrow> bool" where
  "WIFEXITED (WExited c) = True" | "WIFEXITED _ = False"

fun WIFSIGNALED :: "wstatus \<Rightarrow> bool" where
  "WIFSIGNALED (WSignaled s) = True" | "WIFSIGNALED _ = False"

fun WIFSTOPPED :: "wstatus \<Rightarrow> bool" where
  "WIFSTOPPED (WStopped s) = True" | "WIFSTOPPED _ = False"

fun WIFCONTINUED :: "wstatus \<Rightarrow> bool" where
  "WIFCONTINUED WContinued = True" | "WIFCONTINUED _ = False"

definition proc_matches :: "int \<Rightarrow> proc_info \<Rightarrow> bool" where
  "proc_matches pid p \<longleftrightarrow> \<not> (pi_exited p \<or> pi_pid p \<noteq> pid)"

definition job_matches :: "int \<Rightarrow> background_job \<Rightarrow> bool" where
  "job_matches pid j \<longleftrightarrow> active j \<and> list_ex (proc_matches pid) (bj_procs j)"

definition proc_event :: "wstatus \<Rightarrow> proc_info \<Rightarrow> proc_info" where
  "proc_event st p =
     (if WIFSTOPPED st then p\<lparr>pi_state := PROC_STOPPED\<rparr>
      else if WIFCONTINUED st then p\<lparr>pi_state := PROC_RUNNING\<rparr>
      else if WIFEXITED st \<or> WIFSIGNALED st then p\<lparr>pi_exited := True\<rparr>
      else p)"

definition job_event :: "int \<Rightarrow> wstatus \<Rightarrow> background_job \<Rightarrow> background_job" where
  "job_event pid st j =
     (let j' = j\<lparr>bj_procs := upd_first (proc_matches pid) (proc_event st) (bj_procs j)\<rparr>
      in if WIFEXITED st \<or> WIFSIGNALED st then j'\<lparr>remaining := remaining j - 1\<rparr> else j')"

definition job_notification :: "wstatus \<Rightarrow> background_job \<Rightarrow> notification list" where
  "job_notification st j =
     (if (WIFEXITED st \<or> WIFSIGNALED st) \<and> remaining j = 0
      then [\<lparr>notif_pid = pi_pid (hd (bj_procs j)), exited_normally = WIFEXITED st\<rparr>]
      else [])"

definition reap_event :: "int \<times> wstatus \<Rightarrow> job_table \<Rightarrow> job_table" where
  "reap_event ev T =
     (case ev of (pid, st) \<Rightarrow>
        case find (job_matches pid) (jobs T) of
          None \<Rightarrow> T
        | Some j \<Rightarrow>
            T\<lparr>jobs := upd_first (job_matches pid) (job_event pid st) (jobs T),
              notification_pipe := notification_pipe T @ job_notification st (job_event pid st j)\<rparr>)"

definition sigchld_handler :: "(int \<times> wstatus) list \<Rightarrow> job_table \<Rightarrow> job_table" where
  "sigchld_handler events T = fold reap_event events T"

section \<open>Registration\<close>

definition new_procs :: "proc_state \<Rightarrow> int list \<Rightarrow> cstring list \<Rightarrow> nat \<Rightarrow> proc_info list" where
  "new_procs st pids names proc_count =
     map (\<lambda>i. \<lparr>pi_pid = pids ! i, pi_name = snprintf_str 64 (names ! i), pi_state = st,
              pi_exited = False\<rparr>) [0 ..< proc_count]"

definition new_job :: "proc_state \<Rightarrow> int \<Rightarrow> int \<Rightarrow> int list \<Rightarrow> cstring list \<Rightarrow> nat \<Rightarrow>
    cstring option \<Rightarrow> background_job" where
  "new_job st number pgid pids names proc_count cmdline =
     (let n = (if proc_count > MAX_PROCS then MAX_PROCS else proc_count)
      in \<lparr>job_number = number, bj_pgid = pgid, bj_procs = new_procs st pids names n,
          remaining = int n, active = True,
          bj_cmdline = snprintf_str 256 (case cmdline of None \<Rightarrow> [] | Some c \<Rightarrow> c)\<rparr>)"

definition register_background_job :: "int \<Rightarrow> int list \<Rightarrow> cstring list \<Rightarrow> nat \<Rightarrow> cstring option \<Rightarrow>
    job_table \<Rightarrow> job_table" where
  "register_background_job pgid pids names proc_count cmdline T =
     (if MAX_JOBS \<le> length (jobs T)
      then T\<lparr>err_out := err_out T @ ''cshell: job table full'' @ NL\<rparr>
      else let job = new_job PROC_RUNNING (next_job_number T) pgid pids names proc_count cmdline
           in T\<lparr>jobs := jobs T @ [job], next_job_number := next_job_number T + 1,
                err_out := err_out T @ ''['' @ c_dec (job_number job) @ ''] '' @ c_dec pgid @ NL\<rparr>)"

definition register_stopped_job :: "int \<Rightarrow> int list \<Rightarrow> cstring list \<Rightarrow> nat \<Rightarrow> cstring option \<Rightarrow>
    job_table \<Rightarrow> job_table" where
  "register_stopped_job pgid pids names proc_count cmdline T =
     (if MAX_JOBS \<le> length (jobs T)
      then T\<lparr>err_out := err_out T @ ''cshell: job table full'' @ NL\<rparr>
      else let job = new_job PROC_STOPPED (next_job_number T) pgid pids names proc_count cmdline
           in T\<lparr>jobs := jobs T @ [job], next_job_number := next_job_number T + 1,
                err_out := err_out T @ NL @ ''['' @ c_dec (job_number job) @ ''] + Stopped ''
                             @ bj_cmdline job @ NL\<rparr>)"

section \<open>Completion notices\<close>

definition leader_is :: "int \<Rightarrow> background_job \<Rightarrow> bool" where
  "leader_is pid j \<longleftrightarrow> active j \<and> bj_procs j \<noteq> [] \<and> pi_pid (hd (bj_procs j)) = pid"

definition completion_message :: "notification \<Rightarrow> background_job \<Rightarrow> cstring" where
  "completion_message n j =
     pi_name (hd (bj_procs j)) @ '' with pid '' @ c_dec (notif_pid n) @ '' ''
       @ (if exited_normally n then ''exited normally'' else ''exited abnormally'') @ NL"

definition drain_one :: "notification \<Rightarrow> job_table \<Rightarrow> job_table" where
  "drain_one n T =
     (case find (leader_is (notif_pid n)) (jobs T) of
        None \<Rightarrow> T
      | Some j \<Rightarrow>
          T\<lparr>jobs := swap_remove_first (leader_is (notif_pid n)) (jobs T),
            err_out := err_out T @ completion_message n j\<rparr>)"

fun drain_loop :: "notification list \<Rightarrow> job_table \<Rightarrow> job_table" where
  "drain_loop [] T = T"
| "drain_loop (n # ns) T = drain_loop ns (drain_one n (T\<lparr>notification_pipe := ns\<rparr>))"

definition drain_background_notifications :: "job_table \<Rightarrow> job_table" where
  "drain_background_notifications T = drain_loop (notification_pipe T) T"

section \<open>Queries and updates\<close>

record activity_proc =
  ap_pid :: int
  ap_name :: cstring
  ap_stopped :: bool

record activity_job =
  aj_job_number :: int
  aj_pgid :: int
  aj_procs :: "activity_proc list"
  aj_cmdline :: cstring

definition activity_of_proc :: "proc_info \<Rightarrow> activity_proc" where
  "activity_of_proc p = \<lparr>ap_pid = pi_pid p, ap_name = snprintf_str 64 (pi_name p),
                         ap_stopped = (pi_state p = PROC_STOPPED)\<rparr>"

fun activity_procs :: "proc_info list \<Rightarrow> activity_proc list \<Rightarrow> activity_proc list" where
  "activity_procs [] dst = dst"
| "activity_procs (p # ps) dst =
     (if length dst < MAX_ACTIVITY_PROCS then
        (if pi_exited p then activity_procs ps dst
         else activity_procs ps (dst @ [activity_of_proc p]))
      else dst)"

fun activities_loop :: "background_job list \<Rightarrow> nat \<Rightarrow> activity_job list \<Rightarrow> activity_job list" where
  "activities_loop [] max_jobs out = out"
| "activities_loop (j # js) max_jobs out =
     (if length out < max_jobs then
        (if \<not> active j then activities_loop js max_jobs out
         else activities_loop js max_jobs
                (out @ [\<lparr>aj_job_number = job_number j, aj_pgid = bj_pgid j,
                         aj_procs = activity_procs (bj_procs j) [],
                         aj_cmdline = snprintf_str 256 (bj_cmdline j)\<rparr>]))
      else out)"

definition get_activities :: "job_table \<Rightarrow> nat \<Rightarrow> activity_job list" where
  "get_activities T max_jobs = activities_loop (jobs T) max_jobs []"

definition has_number :: "int \<Rightarrow> background_job \<Rightarrow> bool" where
  "has_number n j \<longleftrightarrow> active j \<and> job_number j = n"

definition set_states :: "proc_state \<Rightarrow> background_job \<Rightarrow> background_job" where
  "set_states st j =
     j\<lparr>bj_procs := map (\<lambda>p. if \<not> pi_exited p then p\<lparr>pi_state := st\<rparr> else p) (bj_procs j)\<rparr>"

text \<open>The results are the \<open>found\<close> flags of the C functions.\<close>

definition mark_job_running :: "int \<Rightarrow> job_table \<Rightarrow> bool \<times> job_table" where
  "mark_job_running n T =
     (list_ex (has_number n) (jobs T),
      T\<lparr>jobs := upd_first (has_number n) (set_states PROC_RUNNING) (jobs T)\<rparr>)"

definition mark_job_stopped :: "int \<Rightarrow> job_table \<Rightarrow> bool \<times> job_table" where
  "mark_job_stopped n T =
     (list_ex (has_number n) (jobs T),
      T\<lparr>jobs := upd_first (has_number n) (set_states PROC_STOPPED) (jobs T)\<rparr>)"

definition remove_job_by_number :: "int \<Rightarrow> job_table \<Rightarrow> bool \<times> job_table" where
  "remove_job_by_number n T =
     (list_ex (has_number n) (jobs T), T\<lparr>jobs := swap_remove_first (has_number n) (jobs T)\<rparr>)"

definition set_job_cmdline :: "int \<Rightarrow> cstring \<Rightarrow> job_table \<Rightarrow> job_table" where
  "set_job_cmdline pgid cmdline T =
     T\<lparr>jobs := upd_first (\<lambda>j. active j \<and> bj_pgid j = pgid)
                 (\<lambda>j. j\<lparr>bj_cmdline := snprintf_str 256 cmdline\<rparr>) (jobs T)\<rparr>"

section \<open>The table invariant\<close>

abbreviation is_exit :: "wstatus \<Rightarrow> bool" where
  "is_exit st \<equiv> WIFEXITED st \<or> WIFSIGNALED st"

definition live :: "background_job \<Rightarrow> int list" where
  "live j = map pi_pid (filter (\<lambda>p. \<not> pi_exited p) (bj_procs j))"

definition leader :: "background_job \<Rightarrow> int" where
  "leader j = pi_pid (hd (bj_procs j))"

definition wf_job :: "background_job \<Rightarrow> bool" where
  "wf_job j \<longleftrightarrow> active j \<and> bj_procs j \<noteq> [] \<and> length (bj_procs j) \<le> MAX_PROCS \<and>
     remaining j = int (length (live j)) \<and>
     length (bj_cmdline j) < 256 \<and> (\<forall>s \<in> set (map pi_name (bj_procs j)). length s < 64)"

text \<open>
  Jobs are well formed and within the table; job numbers are distinct and below the next one;
  no live process occurs twice; process group leaders differ; and a job has no process left
  exactly when a notification for its leader is waiting in the pipe.
\<close>

definition wf_jobs :: "background_job list \<Rightarrow> int \<Rightarrow> notification list \<Rightarrow> bool" where
  "wf_jobs js nx pipe \<longleftrightarrow>
     length js \<le> MAX_JOBS \<and> (\<forall>j \<in> set js. wf_job j) \<and>
     distinct (map job_number js) \<and> (\<forall>j \<in> set js. 1 \<le> job_number j \<and> job_number j < nx) \<and>
     distinct (concat (map live js)) \<and> distinct (map leader js) \<and>
     (\<forall>j \<in> set js. remaining j = 0 \<longleftrightarrow> leader j \<in> notif_pid ` set pipe)"

definition wf_table :: "job_table \<Rightarrow> bool" where
  "wf_table T \<longleftrightarrow> 1 \<le> next_job_number T \<and> wf_jobs (jobs T) (next_job_number T) (notification_pipe T)"

lemma mset_concat_live:
  "mset (concat (map live js)) = (\<Sum>j \<in># mset js. mset (live j))"
  by (induction js) simp_all

lemma wf_jobs_mset:
  assumes "mset js = mset js'"
  shows "wf_jobs js nx pipe \<longleftrightarrow> wf_jobs js' nx pipe"
proof -
  have "distinct (concat (map live js)) \<longleftrightarrow> distinct (concat (map live js'))"
    by (rule mset_eq_imp_distinct_iff) (simp add: mset_concat_live assms)
  moreover have "distinct (map f js) \<longleftrightarrow> distinct (map f js')" for f :: "background_job \<Rightarrow> int"
    by (rule mset_eq_imp_distinct_iff) (simp add: assms)
  ultimately show ?thesis
    unfolding wf_jobs_def using mset_eq_setD[OF assms] mset_eq_length[OF assms] by simp
qed

lemma wf_jobs_remove: "wf_jobs (us @ x # vs) nx pipe \<Longrightarrow> wf_jobs (us @ vs) nx pipe"
  unfolding wf_jobs_def by auto

lemma wf_jobs_swap_remove:
  assumes "wf_jobs js nx pipe"
  shows "wf_jobs (swap_remove_first P js) nx pipe"
proof (cases "list_ex P js")
  case True
  then obtain us x vs where "js = us @ x # vs" "mset (swap_remove_first P js) = mset (us @ vs)"
    by (rule swap_remove_first_split)
  with assms show ?thesis by (metis wf_jobs_mset wf_jobs_remove)
qed (use assms in \<open>simp add: swap_remove_first_none\<close>)

text \<open>
  Replacing one job by one with the same identity, no new live process, and a matching change of
  the pipe, keeps the invariant.
\<close>

lemma wf_jobs_replace:
  assumes wf: "wf_jobs (us @ x # vs) nx pipe"
    and y: "wf_job y" "job_number y = job_number x" "leader y = leader x"
    and l: "set (live y) \<subseteq> set (live x)" "distinct (live y)"
    and p: "remaining y = 0 \<longleftrightarrow> leader x \<in> notif_pid ` set pipe'"
      "notif_pid ` set pipe' - {leader x} = notif_pid ` set pipe - {leader x}"
  shows "wf_jobs (us @ y # vs) nx pipe'"
  unfolding wf_jobs_def
proof (intro conjI)
  have "distinct (concat (map live us) @ live x @ concat (map live vs))"
    using wf by (simp add: wf_jobs_def)
  then have "distinct (concat (map live us) @ live y @ concat (map live vs))"
    using l distinct_append_subset by blast
  then show "distinct (concat (map live (us @ y # vs)))" by simp
  have "leader x \<notin> leader ` set us" "leader x \<notin> leader ` set vs"
    using wf by (simp_all add: wf_jobs_def)
  then have lead: "leader j \<noteq> leader x" if "j \<in> set us \<union> set vs" for j
    using that by (metis Un_iff image_eqI)
  have "remaining j = 0 \<longleftrightarrow> leader j \<in> notif_pid ` set pipe'" if j: "j \<in> set us \<union> set vs" for j
  proof -
    have "remaining j = 0 \<longleftrightarrow> leader j \<in> notif_pid ` set pipe"
      using j wf by (simp add: wf_jobs_def)
    with lead[OF j] p(2) show ?thesis by blast
  qed
  with p(1) y(3) show "\<forall>j \<in> set (us @ y # vs). remaining j = 0 \<longleftrightarrow> leader j \<in> notif_pid ` set pipe'"
    by simp
qed (use wf y in \<open>simp_all add: wf_jobs_def\<close>)

lemma wf_jobs_same:
  assumes "wf_jobs (us @ x # vs) nx pipe"
    and "wf_job y" "job_number y = job_number x" "leader y = leader x" "live y = live x"
  shows "wf_jobs (us @ y # vs) nx pipe"
proof (rule wf_jobs_replace[OF assms(1-4)])
  have "wf_job x" using assms(1) by (simp add: wf_jobs_def)
  with assms(2,5) have "remaining y = remaining x" by (simp add: wf_job_def)
  with assms(1) show "remaining y = 0 \<longleftrightarrow> leader x \<in> notif_pid ` set pipe"
    by (simp add: wf_jobs_def)
qed (use assms in \<open>simp_all add: wf_jobs_def\<close>)

lemma wf_jobs_upd_first:
  assumes "wf_jobs js nx pipe"
    and "\<And>j. wf_job j \<Longrightarrow> P j \<Longrightarrow>
      wf_job (f j) \<and> job_number (f j) = job_number j \<and> leader (f j) = leader j \<and> live (f j) = live j"
  shows "wf_jobs (upd_first P f js) nx pipe"
proof (cases "list_ex P js")
  case True
  then obtain us x vs where js: "js = us @ x # vs" "P x" "upd_first P f js = us @ f x # vs"
    by (rule upd_first_split)
  moreover have "wf_job x" using assms(1) js(1) by (auto simp: wf_jobs_def)
  ultimately show ?thesis using wf_jobs_same[of us x vs nx pipe "f x"] assms(1) assms(2)[of x] by simp
qed (use assms in \<open>simp add: upd_first_none\<close>)

subsection \<open>The operations on one job\<close>

lemma set_states_simps [simp]:
  "job_number (set_states st j) = job_number j" "active (set_states st j) = active j"
  "remaining (set_states st j) = remaining j"
  "live (set_states st j) = live j" "bj_pgid (set_states st j) = bj_pgid j"
  "bj_cmdline (set_states st j) = bj_cmdline j"
proof -
  have "map pi_pid (filter (\<lambda>p. \<not> pi_exited p)
      (map (\<lambda>p. if \<not> pi_exited p then p\<lparr>pi_state := st\<rparr> else p) ps)) =
    map pi_pid (filter (\<lambda>p. \<not> pi_exited p) ps)" for ps
    by (induction ps) auto
  then show "live (set_states st j) = live j" by (simp add: live_def set_states_def)
qed (simp_all add: set_states_def)

lemma set_states_leader [simp]: "bj_procs j \<noteq> [] \<Longrightarrow> leader (set_states st j) = leader j"
  by (simp add: leader_def set_states_def hd_map)

lemma wf_job_procs: "wf_job j \<Longrightarrow> bj_procs j \<noteq> []"
  by (simp add: wf_job_def)

lemma set_states_procs [simp]:
  "map pi_name (bj_procs (set_states st j)) = map pi_name (bj_procs j)"
  "length (bj_procs (set_states st j)) = length (bj_procs j)"
  "bj_procs (set_states st j) = [] \<longleftrightarrow> bj_procs j = []"
  by (simp_all add: set_states_def)

lemma set_states_wf: "wf_job j \<Longrightarrow> wf_job (set_states st j)"
  by (simp add: wf_job_def del: set_map)

lemma proc_event_simps [simp]:
  "pi_pid (proc_event st p) = pi_pid p" "pi_name (proc_event st p) = pi_name p"
  "pi_exited (proc_event st p) \<longleftrightarrow> pi_exited p \<or> is_exit st"
  by (cases st; simp add: proc_event_def)+

lemma job_event_simps [simp]:
  "job_number (job_event pid st j) = job_number j" "active (job_event pid st j) = active j"
  "bj_pgid (job_event pid st j) = bj_pgid j" "bj_cmdline (job_event pid st j) = bj_cmdline j"
  "bj_procs (job_event pid st j) = upd_first (proc_matches pid) (proc_event st) (bj_procs j)"
  "remaining (job_event pid st j) = (if is_exit st then remaining j - 1 else remaining j)"
  by (simp_all add: job_event_def Let_def)

lemma upd_first_Nil_iff [simp]: "upd_first P f xs = [] \<longleftrightarrow> xs = []"
  by (cases xs) auto

lemma job_event_leader [simp]: "leader (job_event pid st j) = leader j"
  by (cases "bj_procs j") (auto simp: leader_def)

lemma live_job_event:
  assumes "list_ex (proc_matches pid) (bj_procs j)"
  obtains a b where "live j = a @ pid # b"
    "live (job_event pid st j) = (if is_exit st then a @ b else a @ pid # b)"
proof -
  from assms obtain us p vs where s: "bj_procs j = us @ p # vs" "proc_matches pid p"
    "upd_first (proc_matches pid) (proc_event st) (bj_procs j) = us @ proc_event st p # vs"
    by (rule upd_first_split)
  let ?l = "\<lambda>ps. map pi_pid (filter (\<lambda>p. \<not> pi_exited p) ps)"
  have "live j = ?l us @ pid # ?l vs"
    using s(1,2) by (simp add: live_def proc_matches_def)
  moreover have "live (job_event pid st j) =
      (if is_exit st then ?l us @ ?l vs else ?l us @ pid # ?l vs)"
    using s by (auto simp: live_def proc_matches_def)
  ultimately show ?thesis by (rule that)
qed

lemma job_event_wf:
  assumes "wf_job j" and "job_matches pid j"
  shows "wf_job (job_event pid st j)"
proof -
  from assms(2) have "list_ex (proc_matches pid) (bj_procs j)" by (simp add: job_matches_def)
  then obtain a b where "live j = a @ pid # b"
    "live (job_event pid st j) = (if is_exit st then a @ b else a @ pid # b)"
    by (rule live_job_event)
  moreover have "map pi_name (bj_procs (job_event pid st j)) = map pi_name (bj_procs j)"
    by (simp add: map_upd_first_id)
  ultimately show ?thesis using assms unfolding wf_job_def by (simp del: set_map job_event_simps(5)) simp
qed

lemma new_procs_names: "s \<in> set (map pi_name (new_procs st pids names n)) \<Longrightarrow> length s < 64"
  by (auto simp: new_procs_def)

lemma new_procs_simps [simp]:
  "length (new_procs st pids names n) = n"
  "n \<le> length pids \<Longrightarrow> map pi_pid (new_procs st pids names n) = take n pids"
  "filter (\<lambda>p. \<not> pi_exited p) (new_procs st pids names n) = new_procs st pids names n"
  by (auto simp: new_procs_def comp_def filter_id_conv intro!: nth_equalityI)

subsection \<open>Every operation keeps the invariant\<close>

lemma reap_event_split:
  assumes "list_ex (job_matches pid) (jobs T)"
  obtains us x vs where "jobs T = us @ x # vs" "job_matches pid x"
    "\<forall>u \<in> set us. \<not> job_matches pid u"
    "reap_event (pid, st) T =
       T\<lparr>jobs := us @ job_event pid st x # vs,
         notification_pipe := notification_pipe T @ job_notification st (job_event pid st x)\<rparr>"
proof -
  from assms obtain us x vs where "jobs T = us @ x # vs" "job_matches pid x"
    "\<forall>u \<in> set us. \<not> job_matches pid u"
    "upd_first (job_matches pid) (job_event pid st) (jobs T) = us @ job_event pid st x # vs"
    by (rule upd_first_split)
  then show ?thesis by (intro that) (simp_all add: reap_event_def find_split)
qed

lemma reap_event_none: "\<not> list_ex (job_matches pid) (jobs T) \<Longrightarrow> reap_event (pid, st) T = T"
  by (simp add: reap_event_def flip: find_None_list_ex)

lemma wf_jobs_event:
  assumes "wf_jobs (us @ x # vs) nx pipe" and "job_matches pid x"
  shows "wf_jobs (us @ job_event pid st x # vs) nx (pipe @ job_notification st (job_event pid st x))"
proof -
  let ?y = "job_event pid st x"
  from assms(2) have "list_ex (proc_matches pid) (bj_procs x)" by (simp add: job_matches_def)
  then obtain a b where l: "live x = a @ pid # b"
    "live ?y = (if is_exit st then a @ b else a @ pid # b)" by (rule live_job_event)
  have wfx: "wf_job x" using assms(1) by (simp add: wf_jobs_def)
  have rx: "remaining x \<noteq> 0" using wfx l(1) by (simp add: wf_job_def)
  then have nx: "leader x \<notin> notif_pid ` set pipe" using assms(1) by (simp add: wf_jobs_def)
  have n: "notif_pid ` set (job_notification st ?y) =
      (if is_exit st \<and> remaining ?y = 0 then {leader x} else {})"
    using job_event_leader[of pid st x] by (simp add: job_notification_def leader_def)
  show ?thesis
  proof (rule wf_jobs_replace[OF assms(1)])
    show "wf_job ?y" using wfx assms(2) by (rule job_event_wf)
    have "distinct (live x)" using assms(1) by (simp add: wf_jobs_def)
    then show "distinct (live ?y)" by (simp add: l split: if_splits)
    show "set (live ?y) \<subseteq> set (live x)" by (auto simp: l split: if_splits)
    show "remaining ?y = 0 \<longleftrightarrow>
        leader x \<in> notif_pid ` set (pipe @ job_notification st ?y)"
      using n nx rx by (simp add: image_Un)
    show "notif_pid ` set (pipe @ job_notification st ?y) - {leader x} =
        notif_pid ` set pipe - {leader x}"
      using n by (simp add: image_Un)
  qed simp_all
qed

lemma reap_event_wf: "wf_table T \<Longrightarrow> wf_table (reap_event (pid, st) T)"
proof (cases "list_ex (job_matches pid) (jobs T)")
  case True
  assume wf: "wf_table T"
  from True obtain us x vs where j: "jobs T = us @ x # vs" "job_matches pid x"
    and e: "reap_event (pid, st) T =
       T\<lparr>jobs := us @ job_event pid st x # vs,
         notification_pipe := notification_pipe T @ job_notification st (job_event pid st x)\<rparr>"
    by (rule reap_event_split)
  show ?thesis using wf wf_jobs_event[OF _ j(2)] by (simp add: e wf_table_def j(1))
qed (simp add: reap_event_none)

lemma sigchld_handler_wf: "wf_table T \<Longrightarrow> wf_table (sigchld_handler events T)"
  unfolding sigchld_handler_def
  by (induction events arbitrary: T) (auto simp: reap_event_wf)

definition fresh_pids :: "int list \<Rightarrow> job_table \<Rightarrow> bool" where
  "fresh_pids pids T \<longleftrightarrow> distinct pids \<and>
     set pids \<inter> (set (concat (map live (jobs T))) \<union> leader ` set (jobs T) \<union>
                  notif_pid ` set (notification_pipe T)) = {}"

lemma new_job_simps [simp]:
  "job_number (new_job st num pgid pids names n cmd) = num"
  "active (new_job st num pgid pids names n cmd)"
  "remaining (new_job st num pgid pids names n cmd) = int (min n MAX_PROCS)"
  "bj_procs (new_job st num pgid pids names n cmd) = new_procs st pids names (min n MAX_PROCS)"
  by (simp_all add: new_job_def Let_def min_def)

lemma new_job_live:
  "live (new_job st num pgid pids names (length pids) cmd) = take MAX_PROCS pids"
  by (simp add: live_def)

lemma new_job_leader:
  assumes "pids \<noteq> []"
  shows "leader (new_job st num pgid pids names (length pids) cmd) = hd pids"
proof -
  let ?ps = "new_procs st pids names (min (length pids) MAX_PROCS)"
  have "map pi_pid ?ps = take MAX_PROCS pids" by simp
  moreover have "?ps \<noteq> []" using assms by (simp add: MAX_PROCS_def flip: length_greater_0_conv)
  ultimately have "pi_pid (hd ?ps) = hd (take MAX_PROCS pids)" by (metis hd_map)
  then show ?thesis using assms by (simp add: leader_def MAX_PROCS_def)
qed

lemma new_job_wf:
  assumes "pids \<noteq> []"
  shows "wf_job (new_job st num pgid pids names (length pids) cmd)"
proof -
  have "length (bj_cmdline (new_job st num pgid pids names (length pids) cmd)) < 256"
    by (simp add: new_job_def Let_def)
  moreover have "new_procs st pids names (min (length pids) MAX_PROCS) \<noteq> []"
    using assms by (simp add: MAX_PROCS_def flip: length_greater_0_conv)
  ultimately show ?thesis
    unfolding wf_job_def using new_procs_names by (simp add: new_job_live del: set_map)
qed

lemma wf_jobs_append:
  assumes "wf_jobs js nx pipe" and "1 \<le> nx" and "length js < MAX_JOBS"
    and "wf_job j" "job_number j = nx" "live j \<noteq> []"
    and "set (live j) \<inter> set (concat (map live js)) = {}" "distinct (live j)"
    and "leader j \<notin> leader ` set js" "leader j \<notin> notif_pid ` set pipe"
  shows "wf_jobs (js @ [j]) (nx + 1) pipe"
  using assms unfolding wf_jobs_def by (auto simp: wf_job_def)

lemma register_wf:
  assumes "wf_table T" and "pids \<noteq> []" and "fresh_pids pids T"
    and "length (jobs T) < MAX_JOBS"
  shows "wf_jobs (jobs T @ [new_job st (next_job_number T) pgid pids names (length pids) cmd])
           (next_job_number T + 1) (notification_pipe T)"
proof -
  have "hd pids \<in> set pids" using assms(2) by simp
  then have "hd pids \<notin> leader ` set (jobs T)" "hd pids \<notin> notif_pid ` set (notification_pipe T)"
    using assms(3) by (auto simp: fresh_pids_def)
  moreover have "set (take MAX_PROCS pids) \<inter> set (concat (map live (jobs T))) = {}"
    using assms(3) by (auto simp: fresh_pids_def dest: in_set_takeD)
  moreover have "take MAX_PROCS pids \<noteq> []" using assms(2) by (simp add: MAX_PROCS_def)
  moreover have "distinct (take MAX_PROCS pids)" using assms(3) by (simp add: fresh_pids_def)
  ultimately show ?thesis
    using assms by (intro wf_jobs_append) (simp_all add: wf_table_def new_job_wf new_job_live new_job_leader)
qed

lemma register_background_job_wf:
  "wf_table T \<Longrightarrow> pids \<noteq> [] \<Longrightarrow> fresh_pids pids T \<Longrightarrow>
     wf_table (register_background_job pgid pids names (length pids) cmd T)"
  using register_wf by (auto simp: register_background_job_def wf_table_def Let_def)

lemma register_stopped_job_wf:
  "wf_table T \<Longrightarrow> pids \<noteq> [] \<Longrightarrow> fresh_pids pids T \<Longrightarrow>
     wf_table (register_stopped_job pgid pids names (length pids) cmd T)"
  using register_wf by (auto simp: register_stopped_job_def wf_table_def Let_def)

lemma mark_wf:
  assumes "wf_table T"
  shows "wf_table (snd (mark_job_running n T))" and "wf_table (snd (mark_job_stopped n T))"
proof -
  have "wf_jobs (upd_first (has_number n) (set_states st) (jobs T)) (next_job_number T)
      (notification_pipe T)" for st
    using assms by (intro wf_jobs_upd_first) (simp_all add: wf_table_def set_states_wf wf_job_procs)
  then show "wf_table (snd (mark_job_running n T))" and "wf_table (snd (mark_job_stopped n T))"
    using assms by (simp_all add: wf_table_def mark_job_running_def mark_job_stopped_def)
qed

lemma remove_wf: "wf_table T \<Longrightarrow> wf_table (snd (remove_job_by_number n T))"
  by (simp add: wf_table_def remove_job_by_number_def wf_jobs_swap_remove)

lemma set_job_cmdline_wf:
  assumes "wf_table T"
  shows "wf_table (set_job_cmdline pgid c T)"
proof -
  have "wf_jobs (upd_first (\<lambda>j. active j \<and> bj_pgid j = pgid) (\<lambda>j. j\<lparr>bj_cmdline := c'\<rparr>) (jobs T))
      (next_job_number T) (notification_pipe T)" if "length c' < 256" for c'
    using assms
    by (intro wf_jobs_upd_first) (simp_all add: wf_table_def wf_job_def live_def leader_def that)
  then show ?thesis using assms by (simp add: wf_table_def set_job_cmdline_def)
qed

subsection \<open>Draining the pipe\<close>

lemma wf_jobs_drop_notification:
  assumes "wf_jobs js nx (n # ns)" and "\<forall>j \<in> set js. leader j \<noteq> notif_pid n"
  shows "wf_jobs js nx ns"
  using assms by (simp add: wf_jobs_def)

lemma leader_is_leader: "wf_job j \<Longrightarrow> leader_is pid j \<longleftrightarrow> leader j = pid"
  by (auto simp: leader_is_def leader_def wf_job_def)

lemma drain_one_split:
  assumes "wf_jobs (jobs T) nx (n # ns)"
  obtains (gone) "\<forall>j \<in> set (jobs T). leader j \<noteq> notif_pid n" "drain_one n T = T"
  | (removed) us x vs where "jobs T = us @ x # vs" "leader x = notif_pid n" "remaining x = 0"
      "mset (jobs (drain_one n T)) = mset (us @ vs)"
      "err_out (drain_one n T) = err_out T @ completion_message n x"
      "notification_pipe (drain_one n T) = notification_pipe T"
      "next_job_number (drain_one n T) = next_job_number T"
proof (cases "list_ex (leader_is (notif_pid n)) (jobs T)")
  case True
  then obtain us x vs where s: "jobs T = us @ x # vs" "leader_is (notif_pid n) x"
    "\<forall>u \<in> set us. \<not> leader_is (notif_pid n) u"
    "mset (swap_remove_first (leader_is (notif_pid n)) (jobs T)) = mset (us @ vs)"
    by (rule swap_remove_first_split)
  have "drain_one n T = T\<lparr>jobs := swap_remove_first (leader_is (notif_pid n)) (jobs T),
      err_out := err_out T @ completion_message n x\<rparr>"
    using s(1-3) by (simp add: drain_one_def find_split)
  moreover have wfx: "wf_job x" using assms s(1) by (simp add: wf_jobs_def)
  moreover from wfx s(2) have l: "leader x = notif_pid n" by (simp add: leader_is_leader)
  moreover have "remaining x = 0" using assms s(1) l by (simp add: wf_jobs_def)
  ultimately show ?thesis using s by (intro removed) simp_all
next
  case False
  then have "\<forall>j \<in> set (jobs T). leader j \<noteq> notif_pid n"
    using assms by (auto simp: wf_jobs_def list_ex_iff leader_is_leader)
  then show ?thesis using False by (intro gone) (simp_all add: drain_one_def flip: find_None_list_ex)
qed

lemma drain_one_wf:
  assumes "wf_jobs (jobs T) nx (n # ns)"
  shows "wf_jobs (jobs (drain_one n T)) nx ns"
  using assms
proof (cases rule: drain_one_split)
  case gone
  with assms show ?thesis by (simp add: wf_jobs_drop_notification)
next
  case (removed us x vs)
  have wf: "wf_jobs (us @ vs) nx (n # ns)"
    using assms removed(1) wf_jobs_remove by metis
  have "leader x \<notin> leader ` set us \<union> leader ` set vs"
    using assms removed(1) by (simp add: wf_jobs_def)
  then have "\<forall>j \<in> set (us @ vs). leader j \<noteq> notif_pid n"
    unfolding removed(2)[symmetric] by (metis UnCI UnE image_eqI set_append)
  then show ?thesis
    using wf_jobs_drop_notification[OF wf] wf_jobs_mset[OF removed(4)] by blast
qed

lemma drain_one_unfinished:
  assumes "wf_jobs (jobs T) nx (n # ns)"
  shows "filter_mset (\<lambda>j. remaining j \<noteq> 0) (mset (jobs (drain_one n T))) =
         filter_mset (\<lambda>j. remaining j \<noteq> 0) (mset (jobs T))"
  using assms by (cases rule: drain_one_split) simp_all

lemma drain_one_fields [simp]:
  "next_job_number (drain_one n T) = next_job_number T"
  "notification_pipe (drain_one n T) = notification_pipe T"
  by (simp_all add: drain_one_def split: option.split)

lemma drain_loop_correct:
  "wf_table T \<Longrightarrow> notification_pipe T = ns \<Longrightarrow>
     wf_table (drain_loop ns T) \<and> notification_pipe (drain_loop ns T) = [] \<and>
     filter_mset (\<lambda>j. remaining j \<noteq> 0) (mset (jobs (drain_loop ns T))) =
       filter_mset (\<lambda>j. remaining j \<noteq> 0) (mset (jobs T))"
proof (induction ns arbitrary: T)
  case (Cons n ns)
  let ?T = "T\<lparr>notification_pipe := ns\<rparr>"
  have wf: "wf_jobs (jobs ?T) (next_job_number T) (n # ns)"
    using Cons.prems by (simp add: wf_table_def)
  have "wf_table (drain_one n ?T)"
    using drain_one_wf[OF wf] Cons.prems by (simp add: wf_table_def)
  then show ?case using Cons.IH[of "drain_one n ?T"] drain_one_unfinished[OF wf] by simp
qed simp

lemma drain_unfinished:
  assumes "wf_table T"
  shows "mset (jobs (drain_background_notifications T)) =
         filter_mset (\<lambda>j. remaining j \<noteq> 0) (mset (jobs T))"
proof -
  let ?D = "drain_background_notifications T"
  have D: "wf_table ?D" "notification_pipe ?D = []"
    "filter_mset (\<lambda>j. remaining j \<noteq> 0) (mset (jobs ?D)) =
       filter_mset (\<lambda>j. remaining j \<noteq> 0) (mset (jobs T))"
    using drain_loop_correct[OF assms refl] by (simp_all add: drain_background_notifications_def)
  then have "\<forall>j \<in># mset (jobs ?D). remaining j \<noteq> 0"
    by (simp add: wf_table_def wf_jobs_def)
  then have "filter_mset (\<lambda>j. remaining j \<noteq> 0) (mset (jobs ?D)) = mset (jobs ?D)"
    by (simp add: filter_mset_eq_conv)
  with D(3) show ?thesis by simp
qed

lemma drain_wf:
  "wf_table T \<Longrightarrow> wf_table (drain_background_notifications T)"
  "wf_table T \<Longrightarrow> notification_pipe (drain_background_notifications T) = []"
  using drain_loop_correct[of T] by (simp_all add: drain_background_notifications_def)

section \<open>Executions\<close>

text \<open>
  The table as a transition system: the shell's operations and the handler in any order.  The
  kernel hands out process ids that belong to no live process and no job whose end has not
  been reported.
\<close>

inductive job_step :: "job_table \<Rightarrow> job_table \<Rightarrow> bool" where
  background: "pids \<noteq> [] \<Longrightarrow> fresh_pids pids T \<Longrightarrow>
     job_step T (register_background_job pgid pids names (length pids) cmd T)"
| stopped: "pids \<noteq> [] \<Longrightarrow> fresh_pids pids T \<Longrightarrow>
     job_step T (register_stopped_job pgid pids names (length pids) cmd T)"
| handler: "job_step T (sigchld_handler events T)"
| drain: "job_step T (drain_background_notifications T)"
| mark_running: "job_step T (snd (mark_job_running n T))"
| mark_stopped: "job_step T (snd (mark_job_stopped n T))"
| remove: "job_step T (snd (remove_job_by_number n T))"
| cmdline: "job_step T (set_job_cmdline pgid c T)"

inductive_cases job_step_cases: "job_step T T'"

inductive job_reachable :: "job_table \<Rightarrow> bool" where
  init: "job_reachable init_background"
| step: "job_reachable T \<Longrightarrow> job_step T T' \<Longrightarrow> job_reachable T'"

lemma job_step_wf: "job_step T T' \<Longrightarrow> wf_table T \<Longrightarrow> wf_table T'"
  by (induction rule: job_step.induct)
     (simp_all add: register_background_job_wf register_stopped_job_wf sigchld_handler_wf drain_wf
       mark_wf remove_wf set_job_cmdline_wf)

lemma init_background_wf: "wf_table init_background"
  by (simp add: init_background_def wf_table_def wf_jobs_def)

lemma job_reachable_wf: "job_reachable T \<Longrightarrow> wf_table T"
  by (induction rule: job_reachable.induct) (auto intro: init_background_wf job_step_wf)

section \<open>The table as a map from job numbers\<close>

text \<open>
  What the rest of the shell sees of a job: its process group, its live processes with a flag
  for the stopped ones, and its command line.
\<close>

type_synonym job_view = "int \<times> (int \<times> bool) list \<times> cstring"

definition view_of :: "background_job \<Rightarrow> job_view" where
  "view_of j = (bj_pgid j,
     map (\<lambda>p. (pi_pid p, pi_state p = PROC_STOPPED)) (filter (\<lambda>p. \<not> pi_exited p) (bj_procs j)),
     bj_cmdline j)"

definition view :: "job_table \<Rightarrow> int \<Rightarrow> job_view option" where
  "view T = map_of (map (\<lambda>j. (job_number j, view_of j)) (jobs T))"

definition view_states :: "bool \<Rightarrow> job_view \<Rightarrow> job_view" where
  "view_states b v = (case v of (pgid, ps, cmd) \<Rightarrow> (pgid, map (\<lambda>(pid, _). (pid, b)) ps, cmd))"

lemma view_Some:
  assumes "wf_table T" and "j \<in> set (jobs T)"
  shows "view T (job_number j) = Some (view_of j)"
  unfolding view_def
proof (rule map_of_is_SomeI)
  show "distinct (map fst (map (\<lambda>j. (job_number j, view_of j)) (jobs T)))"
    using assms(1) by (simp add: wf_table_def wf_jobs_def comp_def)
qed (use assms(2) in simp)

lemma view_None: "view T n = None \<longleftrightarrow> n \<notin> job_number ` set (jobs T)"
  by (force simp: view_def map_of_eq_None_iff)

lemma view_eqI:
  assumes "wf_table T"
    and "\<And>j. j \<in> set (jobs T) \<Longrightarrow> m (job_number j) = Some (view_of j)"
    and "\<And>n. n \<notin> job_number ` set (jobs T) \<Longrightarrow> m n = None"
  shows "view T = m"
proof
  fix n
  show "view T n = m n"
  proof (cases "n \<in> job_number ` set (jobs T)")
    case True
    then obtain j where "j \<in> set (jobs T)" "n = job_number j" by blast
    with assms(2) view_Some[OF assms(1)] show ?thesis by simp
  next
    case False
    with assms(3) view_None show ?thesis by metis
  qed
qed

lemma has_number_iff: "wf_table T \<Longrightarrow> j \<in> set (jobs T) \<Longrightarrow> has_number n j \<longleftrightarrow> job_number j = n"
  by (auto simp: wf_table_def wf_jobs_def wf_job_def has_number_def)

lemma found_iff:
  assumes "wf_table T"
  shows "list_ex (has_number n) (jobs T) \<longleftrightarrow> view T n \<noteq> None"
  using has_number_iff[OF assms] by (auto simp: view_None list_ex_iff)

lemma others_differ:
  assumes "wf_table T" "jobs T = us @ x # vs"
  shows "\<forall>j \<in> set us \<union> set vs. job_number j \<noteq> job_number x"
proof -
  have "job_number x \<notin> job_number ` set us" "job_number x \<notin> job_number ` set vs"
    using assms by (simp_all add: wf_table_def wf_jobs_def)
  then show ?thesis by (metis Un_iff image_eqI)
qed

lemma set_remove:
  assumes "wf_table T"
  shows "set (jobs (snd (remove_job_by_number n T))) = {j \<in> set (jobs T). job_number j \<noteq> n}"
proof (cases "list_ex (has_number n) (jobs T)")
  case True
  then obtain us x vs where s: "jobs T = us @ x # vs" "has_number n x"
    "mset (swap_remove_first (has_number n) (jobs T)) = mset (us @ vs)"
    by (rule swap_remove_first_split)
  have "set (swap_remove_first (has_number n) (jobs T)) = set us \<union> set vs"
    using mset_eq_setD[OF s(3)] by simp
  moreover have "job_number x = n" using s(2) by (simp add: has_number_def)
  ultimately show ?thesis
    using others_differ[OF assms s(1)] unfolding remove_job_by_number_def
    by (simp add: s(1)) blast
next
  case False
  then show ?thesis
    using has_number_iff[OF assms]
    by (auto simp: remove_job_by_number_def swap_remove_first_none list_ex_iff)
qed

lemma set_upd_first_number:
  assumes "wf_table T"
  shows "set (upd_first (has_number n) f (jobs T)) =
    (\<lambda>j. if job_number j = n then f j else j) ` set (jobs T)" (is "_ = ?g ` _")
proof (cases "list_ex (has_number n) (jobs T)")
  case True
  then obtain us x vs where s: "jobs T = us @ x # vs" "has_number n x"
    "upd_first (has_number n) f (jobs T) = us @ f x # vs"
    by (rule upd_first_split)
  have x: "job_number x = n" using s(2) by (simp add: has_number_def)
  have "?g j = j" if "j \<in> set us \<union> set vs" for j
    using that others_differ[OF assms s(1)] x by simp
  then have "?g ` (set us \<union> set vs) = set us \<union> set vs" by force
  moreover have "?g ` set (jobs T) = insert (f x) (?g ` (set us \<union> set vs))"
    unfolding s(1) using x by (simp only: set_append list.set image_Un image_insert simp_thms if_True) blast
  ultimately show ?thesis unfolding s(3) by simp
next
  case False
  then have "\<forall>j \<in> set (jobs T). job_number j \<noteq> n"
    using has_number_iff[OF assms] by (auto simp: list_ex_iff)
  then have "?g ` set (jobs T) = set (jobs T)" by force
  moreover have "upd_first (has_number n) f (jobs T) = jobs T" using False by (rule upd_first_none)
  ultimately show ?thesis by simp
qed

lemma view_of_set_states: "view_of (set_states st j) = view_states (st = PROC_STOPPED) (view_of j)"
proof -
  have "map (\<lambda>p. (pi_pid p, pi_state p = PROC_STOPPED)) (filter (\<lambda>p. \<not> pi_exited p)
          (map (\<lambda>p. if \<not> pi_exited p then p\<lparr>pi_state := st\<rparr> else p) ps)) =
        map (\<lambda>p. (pi_pid p, st = PROC_STOPPED)) (filter (\<lambda>p. \<not> pi_exited p) ps)" for ps
    by (induction ps) auto
  then show ?thesis by (simp add: view_of_def view_states_def set_states_def comp_def)
qed


lemma view_remove:
  assumes "wf_table T"
  shows "view (snd (remove_job_by_number n T)) = (view T)(n := None)"
proof (rule view_eqI)
  let ?T = "snd (remove_job_by_number n T)"
  show "wf_table ?T" using assms by (rule remove_wf)
  show "((view T)(n := None)) (job_number j) = Some (view_of j)" if "j \<in> set (jobs ?T)" for j
    using that view_Some[OF assms] by (simp add: set_remove[OF assms])
  show "((view T)(n := None)) m = None" if "m \<notin> job_number ` set (jobs ?T)" for m
  proof (cases "m = n")
    case False
    with that have "m \<notin> job_number ` set (jobs T)" by (auto simp: set_remove[OF assms])
    with False show ?thesis by (simp add: view_None)
  qed simp
qed

lemma view_upd_number:
  assumes "wf_table T" and T': "wf_table T'"
    and js: "jobs T' = upd_first (has_number n) (set_states st) (jobs T)"
  shows "view T' = (view T)(n := map_option (view_states (st = PROC_STOPPED)) (view T n))"
    (is "_ = ?m")
proof (rule view_eqI[OF T'])
  have number: "job_number (set_states st j) = job_number j" for j by (simp add: set_states_def)
  note s = set_upd_first_number[OF assms(1), of n "set_states st", folded js]
  show "?m (job_number j) = Some (view_of j)" if j: "j \<in> set (jobs T')" for j
  proof -
    from j s obtain i where i: "i \<in> set (jobs T)"
      "j = (if job_number i = n then set_states st i else i)" by auto
    from view_Some[OF assms(1) i(1)] show ?thesis
      by (cases "job_number i = n") (simp_all add: i(2) number view_of_set_states)
  qed
  have "job_number ` set (jobs T') = job_number ` set (jobs T)"
    unfolding s image_image by (intro image_cong refl) (simp add: number)
  then show "?m m = None" if "m \<notin> job_number ` set (jobs T')" for m
    using that view_None[of T m] by auto
qed

lemma view_mark_running:
  assumes "wf_table T"
  shows "view (snd (mark_job_running n T)) =
    (view T)(n := map_option (view_states False) (view T n))"
  using view_upd_number[OF assms mark_wf(1)[OF assms, of n], where st = PROC_RUNNING and n = n]
  by (simp add: mark_job_running_def)

lemma view_mark_stopped:
  assumes "wf_table T"
  shows "view (snd (mark_job_stopped n T)) =
    (view T)(n := map_option (view_states True) (view T n))"
  using view_upd_number[OF assms mark_wf(2)[OF assms, of n], where st = PROC_STOPPED and n = n]
  by (simp add: mark_job_stopped_def)

subsection \<open>The snapshot taken by get-activities\<close>

definition activity_of :: "background_job \<Rightarrow> activity_job" where
  "activity_of j = \<lparr>aj_job_number = job_number j, aj_pgid = bj_pgid j,
     aj_procs = map activity_of_proc (filter (\<lambda>p. \<not> pi_exited p) (bj_procs j)),
     aj_cmdline = bj_cmdline j\<rparr>"

definition activity_view :: "activity_job \<Rightarrow> job_view" where
  "activity_view a = (aj_pgid a, map (\<lambda>p. (ap_pid p, ap_stopped p)) (aj_procs a), aj_cmdline a)"

lemma activity_procs_eq:
  "length dst + length ps \<le> MAX_ACTIVITY_PROCS \<Longrightarrow>
   activity_procs ps dst = dst @ map activity_of_proc (filter (\<lambda>p. \<not> pi_exited p) ps)"
  by (induction ps dst rule: activity_procs.induct) auto

lemma activities_loop_eq:
  assumes "length out + length js \<le> m" and "\<forall>j \<in> set js. wf_job j"
  shows "activities_loop js m out = out @ map activity_of js"
  using assms
proof (induction js m out rule: activities_loop.induct)
  case (2 j js m out)
  have "wf_job j" using 2(4) by simp
  then have "activity_procs (bj_procs j) [] = aj_procs (activity_of j)" "active j"
    "snprintf_str 256 (bj_cmdline j) = bj_cmdline j"
    by (simp_all add: wf_job_def activity_procs_eq activity_of_def MAX_PROCS_def
        MAX_ACTIVITY_PROCS_def snprintf_str_id)
  with 2 show ?case by (simp add: activity_of_def)
qed simp

lemma get_activities_all:
  assumes "wf_table T"
  shows "get_activities T 100 = map activity_of (jobs T)"
  using assms activities_loop_eq[of "[]" "jobs T" 100]
  by (simp add: get_activities_def wf_table_def wf_jobs_def MAX_JOBS_def)

lemma activity_view_of: "activity_view (activity_of j) = view_of j"
  by (simp add: activity_view_def activity_of_def view_of_def activity_of_proc_def comp_def)


subsection \<open>Events and registrations on the view\<close>

definition event_view :: "int \<Rightarrow> wstatus \<Rightarrow> job_view \<Rightarrow> job_view" where
  "event_view pid st v =
     (case v of (pgid, ps, cmd) \<Rightarrow>
        (pgid, if WIFEXITED st \<or> WIFSIGNALED st then filter (\<lambda>q. fst q \<noteq> pid) ps
               else map (\<lambda>q. (fst q, if fst q = pid then WIFSTOPPED st else snd q)) ps, cmd))"

definition live_view :: "proc_info list \<Rightarrow> (int \<times> bool) list" where
  "live_view ps = map (\<lambda>p. (pi_pid p, pi_state p = PROC_STOPPED)) (filter (\<lambda>p. \<not> pi_exited p) ps)"

lemma live_view_simps [simp]:
  "live_view [] = []"
  "live_view (p # ps) = (if pi_exited p then live_view ps
     else (pi_pid p, pi_state p = PROC_STOPPED) # live_view ps)"
  by (simp_all add: live_view_def)

lemma fst_live_view: "map fst (live_view ps) = map pi_pid (filter (\<lambda>p. \<not> pi_exited p) ps)"
  by (simp add: live_view_def comp_def)

lemma view_of_live: "view_of j = (bj_pgid j, live_view (bj_procs j), bj_cmdline j)"
  by (simp add: view_of_def live_view_def)

lemma live_live_view: "live j = map fst (live_view (bj_procs j))"
  by (simp add: live_def fst_live_view)

lemma event_absent:
  assumes "pid \<notin> fst ` set ps"
  shows "event_view pid st (g, ps, c) = (g, ps, c)"
proof -
  have "filter (\<lambda>q. fst q \<noteq> pid) ps = ps" using assms by (intro filter_True) force
  moreover have "map (\<lambda>q. (fst q, if fst q = pid then WIFSTOPPED st else snd q)) ps = ps"
    using assms by (intro map_idI) force
  ultimately show ?thesis by (simp add: event_view_def)
qed

lemma live_view_event:
  assumes "distinct (map fst (live_view ps))"
  shows "event_view pid st (g, live_view ps, c) =
         (g, live_view (upd_first (proc_matches pid) (proc_event st) ps), c)"
  using assms
proof (induction ps)
  case (Cons p ps)
  show ?case
  proof (cases "proc_matches pid p")
    case True
    then have "event_view pid st (g, live_view ps, c) = (g, live_view ps, c)"
      using Cons.prems by (intro event_absent) (simp add: proc_matches_def)
    with True show ?thesis
      by (cases st) (simp_all add: event_view_def proc_matches_def proc_event_def)
  next
    case False
    have "distinct (map fst (live_view ps))" using Cons.prems by (simp split: if_splits)
    with False Cons.IH show ?thesis
      by (auto simp: event_view_def proc_matches_def split: if_splits)
  qed
qed (simp add: event_view_def)

lemma view_of_event:
  assumes "distinct (live j)"
  shows "view_of (job_event pid st j) = event_view pid st (view_of j)"
  using live_view_event[of "bj_procs j" pid st "bj_pgid j" "bj_cmdline j"] assms
  by (simp add: view_of_live job_event_def Let_def live_live_view)

lemma job_matches_live: "wf_job j \<Longrightarrow> job_matches pid j \<longleftrightarrow> pid \<in> set (live j)"
  by (auto simp: job_matches_def wf_job_def live_def list_ex_iff proc_matches_def)

lemma view_of_absent: "pid \<notin> set (live j) \<Longrightarrow> event_view pid st (view_of j) = view_of j"
  by (simp add: view_of_live live_live_view event_absent)


lemma live_disjoint:
  assumes "wf_table T" "jobs T = us @ x # vs" "pid \<in> set (live x)" "j \<in> set us \<union> set vs"
  shows "pid \<notin> set (live j)"
proof -
  have "distinct (concat (map live us) @ live x @ concat (map live vs))"
    using assms(1,2) by (simp add: wf_table_def wf_jobs_def)
  then have "pid \<notin> set (concat (map live us))" "pid \<notin> set (concat (map live vs))"
    using assms(3) by auto
  with assms(4) show ?thesis by auto
qed

lemma view_reap_event:
  assumes "wf_table T"
  shows "view (reap_event (pid, st) T) = (\<lambda>n. map_option (event_view pid st) (view T n))"
    (is "_ = ?m")
proof (cases "list_ex (job_matches pid) (jobs T)")
  case True
  then obtain us x vs where s: "jobs T = us @ x # vs" "job_matches pid x"
    and e: "reap_event (pid, st) T =
       T\<lparr>jobs := us @ job_event pid st x # vs,
         notification_pipe := notification_pipe T @ job_notification st (job_event pid st x)\<rparr>"
    by (rule reap_event_split)
  have wfx: "wf_job x" "distinct (live x)"
    using assms s(1) by (simp_all add: wf_table_def wf_jobs_def)
  then have px: "pid \<in> set (live x)" using s(2) by (simp add: job_matches_live)
  have js: "set (jobs (reap_event (pid, st) T)) = insert (job_event pid st x) (set us \<union> set vs)"
    by (simp add: e)
  show ?thesis
  proof (rule view_eqI[OF reap_event_wf[OF assms]])
    show "?m (job_number j) = Some (view_of j)" if "j \<in> set (jobs (reap_event (pid, st) T))" for j
    proof (cases "j = job_event pid st x")
      case True
      then show ?thesis
        using view_Some[OF assms, of x] s(1) view_of_event[OF wfx(2)] by simp
    next
      case False
      with that js have j: "j \<in> set us \<union> set vs" by blast
      then have "view T (job_number j) = Some (view_of j)"
        using s(1) by (intro view_Some[OF assms]) auto
      then show ?thesis
        using view_of_absent[OF live_disjoint[OF assms s(1) px j]] by simp
    qed
    show "?m n = None" if "n \<notin> job_number ` set (jobs (reap_event (pid, st) T))" for n
      using that view_None[of T n] unfolding js s(1) by auto
  qed
next
  case False
  have "?m = view T"
  proof (rule view_eqI[OF assms, symmetric])
    show "?m (job_number j) = Some (view_of j)" if "j \<in> set (jobs T)" for j
    proof -
      have "wf_job j" using assms that by (simp add: wf_table_def wf_jobs_def)
      then have "pid \<notin> set (live j)"
        using False that job_matches_live by (auto simp: list_ex_iff)
      then show ?thesis using view_Some[OF assms that] by (simp add: view_of_absent)
    qed
  qed (simp add: view_None)
  with False show ?thesis by (simp add: reap_event_none)
qed

lemma view_new_job:
  assumes "wf_table T" "wf_table T'" "jobs T' = jobs T @ [j]" "job_number j = next_job_number T"
  shows "view T' = (view T)(next_job_number T \<mapsto> view_of j)"
proof (rule view_eqI[OF assms(2)])
  show "((view T)(next_job_number T \<mapsto> view_of j)) (job_number i) = Some (view_of i)"
    if "i \<in> set (jobs T')" for i
  proof (cases "i \<in> set (jobs T)")
    case True
    then have "job_number i < next_job_number T"
      using assms(1) by (simp add: wf_table_def wf_jobs_def)
    with view_Some[OF assms(1) True] show ?thesis by simp
  qed (use that assms(3,4) in simp)
  show "((view T)(next_job_number T \<mapsto> view_of j)) n = None"
    if "n \<notin> job_number ` set (jobs T')" for n
    using that assms(3,4) view_None[of T n] by simp
qed

lemma new_procs_view:
  assumes "n \<le> length pids"
  shows "live_view (new_procs st pids names n) = map (\<lambda>p. (p, st = PROC_STOPPED)) (take n pids)"
proof -
  have "map (\<lambda>p. (pi_pid p, pi_state p = PROC_STOPPED)) (new_procs st pids names n) =
        map (\<lambda>p. (p, st = PROC_STOPPED)) (map pi_pid (new_procs st pids names n))"
    by (simp add: new_procs_def)
  then show ?thesis using assms by (simp add: live_view_def)
qed

lemma view_of_new_job:
  "view_of (new_job st num pgid pids names (length pids) cmd) =
     (pgid, map (\<lambda>p. (p, st = PROC_STOPPED)) (take MAX_PROCS pids),
      snprintf_str 256 (case cmd of None \<Rightarrow> [] | Some c \<Rightarrow> c))"
proof -
  have "bj_pgid (new_job st num pgid pids names (length pids) cmd) = pgid"
    "bj_cmdline (new_job st num pgid pids names (length pids) cmd) =
       snprintf_str 256 (case cmd of None \<Rightarrow> [] | Some c \<Rightarrow> c)"
    by (simp_all add: new_job_def Let_def)
  then show ?thesis by (simp add: view_of_live new_procs_view)
qed

lemma view_drain:
  assumes "wf_table T"
  shows "view (drain_background_notifications T) =
    (\<lambda>n. case view T n of Some (g, [], c) \<Rightarrow> None | v \<Rightarrow> v)" (is "_ = ?m")
proof (rule view_eqI[OF drain_wf(1)[OF assms]])
  have js: "set (jobs (drain_background_notifications T)) = {j \<in> set (jobs T). remaining j \<noteq> 0}"
    using arg_cong[OF drain_unfinished[OF assms], of set_mset] by simp
  have rem: "remaining j = 0 \<longleftrightarrow> live_view (bj_procs j) = []" if "j \<in> set (jobs T)" for j
    using assms that by (simp add: wf_table_def wf_jobs_def wf_job_def live_live_view)
  show "?m (job_number j) = Some (view_of j)"
    if "j \<in> set (jobs (drain_background_notifications T))" for j
    using that rem[of j] view_Some[OF assms, of j]
    by (simp add: js view_of_live split: list.split)
  show "?m n = None" if n: "n \<notin> job_number ` set (jobs (drain_background_notifications T))" for n
  proof (cases "view T n")
    case (Some v)
    then obtain j where j: "j \<in> set (jobs T)" "job_number j = n" using view_None[of T n] by auto
    with n have "remaining j = 0" by (auto simp: js)
    with rem[OF j(1)] view_Some[OF assms j(1)] j(2) show ?thesis by (simp add: view_of_live)
  qed simp
qed


section \<open>Refinement of a map of jobs\<close>

text \<open>
  What the table promises, without slots, counters and pipe: a partial map from job numbers to
  jobs and the next number.  A job is started under a new number while fewer than
  \<open>MAX_JOBS\<close> exist; status changes of a process change the job that owns it; reporting removes
  exactly the jobs with no process left.
\<close>

type_synonym job_map = "int \<Rightarrow> job_view option"

definition spec_event :: "int \<times> wstatus \<Rightarrow> job_map \<Rightarrow> job_map" where
  "spec_event ev m = (\<lambda>n. map_option (event_view (fst ev) (snd ev)) (m n))"

definition spec_report :: "job_map \<Rightarrow> job_map" where
  "spec_report m = (\<lambda>n. case m n of Some (g, [], c) \<Rightarrow> None | v \<Rightarrow> v)"

inductive job_spec :: "job_map \<times> int \<Rightarrow> job_map \<times> int \<Rightarrow> bool" where
  start: "card (dom m) < MAX_JOBS \<Longrightarrow> m nx = None \<Longrightarrow> pids \<noteq> [] \<Longrightarrow> distinct pids \<Longrightarrow>
     (\<forall>n g ps c. m n = Some (g, ps, c) \<longrightarrow> set pids \<inter> fst ` set ps = {}) \<Longrightarrow>
     job_spec (m, nx) (m(nx \<mapsto> (pgid, map (\<lambda>p. (p, b)) pids, cmd)), nx + 1)"
| full: "card (dom m) = MAX_JOBS \<Longrightarrow> job_spec (m, nx) (m, nx)"
| events: "job_spec (m, nx) (fold spec_event evs m, nx)"
| report: "job_spec (m, nx) (spec_report m, nx)"
| mark: "job_spec (m, nx) (m(n := map_option (view_states b) (m n)), nx)"
| forget: "job_spec (m, nx) (m(n := None), nx)"
| rename: "m n = Some (pgid, ps, cmd) \<Longrightarrow>
     job_spec (m, nx) (m(n \<mapsto> (pgid, ps, cmd')), nx)"
| no_rename: "(\<forall>n ps cmd. m n \<noteq> Some (pgid, ps, cmd)) \<Longrightarrow> job_spec (m, nx) (m, nx)"

lemma view_handler:
  "wf_table T \<Longrightarrow> view (sigchld_handler evs T) = fold spec_event evs (view T)"
  unfolding sigchld_handler_def
proof (induction evs arbitrary: T)
  case (Cons ev evs)
  obtain pid st where ev: "ev = (pid, st)" by fastforce
  show ?case
    using Cons.IH[OF reap_event_wf[OF Cons.prems, of pid st]] view_reap_event[OF Cons.prems]
    by (simp add: ev spec_event_def)
qed simp

lemma handler_keeps_number [simp]: "next_job_number (sigchld_handler evs T) = next_job_number T"
proof -
  have "next_job_number (reap_event ev T) = next_job_number T" for ev T
    by (auto simp: reap_event_def split: prod.split option.split)
  then show ?thesis
    unfolding sigchld_handler_def by (induction evs arbitrary: T) simp_all
qed

lemma drain_keeps_number [simp]:
  "next_job_number (drain_background_notifications T) = next_job_number T"
proof -
  have "next_job_number (drain_loop ns T) = next_job_number T" for ns
    by (induction ns T rule: drain_loop.induct) simp_all
  then show ?thesis by (simp add: drain_background_notifications_def)
qed

lemma card_dom_view:
  assumes "wf_table T"
  shows "card (dom (view T)) = length (jobs T)"
proof -
  have "dom (view T) = set (map job_number (jobs T))" using view_None by (auto simp: dom_def)
  moreover have "distinct (map job_number (jobs T))"
    using assms by (simp add: wf_table_def wf_jobs_def)
  ultimately show ?thesis using distinct_card[of "map job_number (jobs T)"] by simp
qed

lemma view_live:
  assumes "wf_table T" "view T n = Some (g, ps, c)"
  shows "fst ` set ps \<subseteq> set (concat (map live (jobs T)))"
proof -
  obtain j where j: "j \<in> set (jobs T)" "job_number j = n"
    using view_None[of T n] assms(2) by auto
  then have "ps = live_view (bj_procs j)"
    using view_Some[OF assms(1) j(1)] assms(2) by (simp add: view_of_live)
  then have "set (live j) = fst ` set ps" by (simp add: live_live_view)
  with j(1) show ?thesis by auto
qed

lemma view_next: "wf_table T \<Longrightarrow> view T (next_job_number T) = None"
  by (auto simp: view_None wf_table_def wf_jobs_def)

lemma spec_start:
  assumes wf: "wf_table T" "wf_table T'" and pids: "pids \<noteq> []" "fresh_pids pids T"
    and js: "length (jobs T) < MAX_JOBS"
      "jobs T' = jobs T @ [new_job st (next_job_number T) pgid pids names (length pids) cmd]"
      "next_job_number T' = next_job_number T + 1"
  shows "job_spec (view T, next_job_number T) (view T', next_job_number T')"
proof -
  let ?pids = "take MAX_PROCS pids"
  have "set ?pids \<inter> fst ` set ps = {}" if "view T n = Some (g, ps, c)" for n g ps c
    using view_live[OF wf(1) that] pids(2) by (auto simp: fresh_pids_def dest!: in_set_takeD)
  moreover have "?pids \<noteq> []" "distinct ?pids"
    using pids by (simp_all add: MAX_PROCS_def fresh_pids_def)
  moreover have "view T' = (view T)(next_job_number T \<mapsto>
      (pgid, map (\<lambda>p. (p, st = PROC_STOPPED)) ?pids,
       snprintf_str 256 (case cmd of None \<Rightarrow> [] | Some c \<Rightarrow> c)))"
    using view_new_job[OF wf js(2)] by (simp add: view_of_new_job)
  ultimately show ?thesis
    using js(1,3) card_dom_view[OF wf(1)] view_next[OF wf(1)]
    by (simp only:) (rule job_spec.start, simp, assumption+, blast)
qed

lemma spec_full:
  "wf_table T \<Longrightarrow> MAX_JOBS \<le> length (jobs T) \<Longrightarrow> jobs T' = jobs T \<Longrightarrow>
   next_job_number T' = next_job_number T \<Longrightarrow>
   job_spec (view T, next_job_number T) (view T', next_job_number T')"
  using card_dom_view[of T] job_spec.full[of "view T"]
  by (simp add: view_def wf_table_def wf_jobs_def)


lemma spec_rename:
  assumes "wf_table T"
  shows "job_spec (view T, next_job_number T)
    (view (set_job_cmdline pgid c T), next_job_number (set_job_cmdline pgid c T))"
proof (cases "list_ex (\<lambda>j. active j \<and> bj_pgid j = pgid) (jobs T)")
  case True
  let ?f = "\<lambda>j. j\<lparr>bj_cmdline := snprintf_str 256 c\<rparr>"
  from True obtain us x vs where s: "jobs T = us @ x # vs" "active x \<and> bj_pgid x = pgid"
    "upd_first (\<lambda>j. active j \<and> bj_pgid j = pgid) ?f (jobs T) = us @ ?f x # vs"
    by (rule upd_first_split)
  have js: "jobs (set_job_cmdline pgid c T) = us @ ?f x # vs"
    using s(3) by (simp add: set_job_cmdline_def)
  have "view (set_job_cmdline pgid c T) =
      (view T)(job_number x \<mapsto> (pgid, live_view (bj_procs x), snprintf_str 256 c))" (is "_ = ?m")
  proof (rule view_eqI[OF set_job_cmdline_wf[OF assms]])
    show "?m (job_number j) = Some (view_of j)"
      if "j \<in> set (jobs (set_job_cmdline pgid c T))" for j
    proof (cases "j = ?f x")
      case False
      with that js have j: "j \<in> set us \<union> set vs" by auto
      then have "job_number j \<noteq> job_number x" using others_differ[OF assms s(1)] by blast
      then show ?thesis using j view_Some[OF assms, of j] s(1) by auto
    qed (use s(2) in \<open>simp add: view_of_live\<close>)
    show "?m n = None" if "n \<notin> job_number ` set (jobs (set_job_cmdline pgid c T))" for n
      using that view_None[of T n] unfolding js s(1) by auto
  qed
  moreover have "view T (job_number x) = Some (pgid, live_view (bj_procs x), bj_cmdline x)"
    using view_Some[OF assms, of x] s(1,2) by (simp add: view_of_live)
  ultimately show ?thesis
    using job_spec.rename[of "view T"] by (simp add: set_job_cmdline_def)
next
  case False
  have "view T n \<noteq> Some (pgid, ps, cmd)" for n ps cmd
  proof
    assume v: "view T n = Some (pgid, ps, cmd)"
    then obtain j where j: "j \<in> set (jobs T)" "job_number j = n" using view_None[of T n] by auto
    then have "bj_pgid j = pgid" using view_Some[OF assms j(1)] v by (simp add: view_of_live)
    moreover have "active j" using assms j(1) by (simp add: wf_table_def wf_jobs_def wf_job_def)
    ultimately show False using False j(1) by (simp add: list_ex_iff)
  qed
  moreover have "set_job_cmdline pgid c T = T"
    using False by (simp add: set_job_cmdline_def upd_first_none)
  ultimately show ?thesis using job_spec.no_rename[of "view T" pgid] by simp
qed

lemma spec_register:
  assumes "wf_table T" "pids \<noteq> []" "fresh_pids pids T"
  shows "job_spec (view T, next_job_number T)
     (view (register_background_job pgid pids names (length pids) cmd T),
      next_job_number (register_background_job pgid pids names (length pids) cmd T))"
    and "job_spec (view T, next_job_number T)
     (view (register_stopped_job pgid pids names (length pids) cmd T),
      next_job_number (register_stopped_job pgid pids names (length pids) cmd T))"
proof -
  let ?B = "register_background_job pgid pids names (length pids) cmd T"
  let ?S = "register_stopped_job pgid pids names (length pids) cmd T"
  have wf: "wf_table ?B" "wf_table ?S"
    using assms by (simp_all add: register_background_job_wf register_stopped_job_wf)
  show "job_spec (view T, next_job_number T) (view ?B, next_job_number ?B)"
  proof (cases "MAX_JOBS \<le> length (jobs T)")
    case False
    then show ?thesis
      by (intro spec_start[OF assms(1) wf(1) assms(2,3)])
         (simp_all add: register_background_job_def Let_def)
  qed (intro spec_full[OF assms(1)], simp_all add: register_background_job_def)
  show "job_spec (view T, next_job_number T) (view ?S, next_job_number ?S)"
  proof (cases "MAX_JOBS \<le> length (jobs T)")
    case False
    then show ?thesis
      by (intro spec_start[OF assms(1) wf(2) assms(2,3)])
         (simp_all add: register_stopped_job_def Let_def)
  qed (intro spec_full[OF assms(1)], simp_all add: register_stopped_job_def)
qed

lemma updates_keep_number [simp]:
  "next_job_number (snd (mark_job_running n T)) = next_job_number T"
  "next_job_number (snd (mark_job_stopped n T)) = next_job_number T"
  "next_job_number (snd (remove_job_by_number n T)) = next_job_number T"
  by (simp_all add: mark_job_running_def mark_job_stopped_def remove_job_by_number_def)

lemma spec_step:
  assumes "job_step T T'" and "wf_table T"
  shows "job_spec (view T, next_job_number T) (view T', next_job_number T')"
  using assms
proof (induction rule: job_step.induct)
  case (handler T events)
  then show ?case by (simp add: view_handler job_spec.events)
next
  case (drain T)
  then show ?case using job_spec.report[of "view T"] by (simp add: view_drain spec_report_def)
next
  case (mark_running T n)
  show ?case unfolding view_mark_running[OF mark_running] updates_keep_number
    by (rule job_spec.mark)
next
  case (mark_stopped T n)
  show ?case unfolding view_mark_stopped[OF mark_stopped] updates_keep_number
    by (rule job_spec.mark)
next
  case (remove T n)
  show ?case unfolding view_remove[OF remove] updates_keep_number
    by (rule job_spec.forget)
qed (auto intro: spec_register spec_rename)


section \<open>Reports\<close>

text \<open>A job's end is notified once.\<close>

lemma reap_event_pipe:
  assumes "wf_table T" "distinct (map notif_pid (notification_pipe T))"
  shows "distinct (map notif_pid (notification_pipe (reap_event (pid, st) T)))"
proof (cases "list_ex (job_matches pid) (jobs T)")
  case True
  then obtain us x vs where s: "jobs T = us @ x # vs" "job_matches pid x"
    and e: "reap_event (pid, st) T =
       T\<lparr>jobs := us @ job_event pid st x # vs,
         notification_pipe := notification_pipe T @ job_notification st (job_event pid st x)\<rparr>"
    by (rule reap_event_split)
  have wfx: "wf_job x" using assms(1) s(1) by (simp add: wf_table_def wf_jobs_def)
  then have "live x \<noteq> []" using s(2) by (auto simp: job_matches_live)
  then have "remaining x \<noteq> 0" using wfx by (simp add: wf_job_def)
  then have "leader x \<notin> notif_pid ` set (notification_pipe T)"
    using assms(1) s(1) by (simp add: wf_table_def wf_jobs_def)
  then show ?thesis
    using assms(2) job_event_leader[of pid st x] by (simp add: e job_notification_def leader_def)
qed (simp add: reap_event_none assms(2))

lemma handler_pipe:
  "wf_table T \<Longrightarrow> distinct (map notif_pid (notification_pipe T)) \<Longrightarrow>
   distinct (map notif_pid (notification_pipe (sigchld_handler evs T)))"
  unfolding sigchld_handler_def
  by (induction evs arbitrary: T) (auto simp: reap_event_wf reap_event_pipe)

lemma job_step_pipe:
  "job_step T T' \<Longrightarrow> wf_table T \<Longrightarrow> distinct (map notif_pid (notification_pipe T)) \<Longrightarrow>
   distinct (map notif_pid (notification_pipe T'))"
  by (induction rule: job_step.induct)
     (simp_all add: handler_pipe drain_wf register_background_job_def register_stopped_job_def
       mark_job_running_def mark_job_stopped_def remove_job_by_number_def set_job_cmdline_def Let_def)

lemma job_reachable_pipe: "job_reachable T \<Longrightarrow> distinct (map notif_pid (notification_pipe T))"
  by (induction rule: job_reachable.induct)
     (auto simp: init_background_def intro: job_step_pipe job_reachable_wf)

definition report :: "background_job list \<Rightarrow> notification \<Rightarrow> cstring" where
  "report js n = (case find (leader_is (notif_pid n)) js of
     None \<Rightarrow> [] | Some j \<Rightarrow> completion_message n j)"

lemma find_leader:
  assumes "wf_jobs js nx pipe"
  shows "find (leader_is pid) js = Some j \<longleftrightarrow> j \<in> set js \<and> leader j = pid"
proof -
  have l: "leader_is pid j \<longleftrightarrow> leader j = pid" if "j \<in> set js" for j
    using assms that by (simp add: wf_jobs_def leader_is_leader)
  have d: "distinct (map leader js)" using assms by (simp add: wf_jobs_def)
  show ?thesis
  proof
    assume "find (leader_is pid) js = Some j"
    then show "j \<in> set js \<and> leader j = pid" using l by (metis find_Some_iff nth_mem)
  next
    assume j: "j \<in> set js \<and> leader j = pid"
    then have "list_ex (leader_is pid) js" using l by (auto simp: list_ex_iff)
    then obtain i where i: "find (leader_is pid) js = Some i"
      using find_None_list_ex[of "leader_is pid" js] by (cases "find (leader_is pid) js") auto
    then have "i \<in> set js" "leader i = pid" using l by (metis find_Some_iff nth_mem)+
    with d j have "i = j" by (metis distinct_map inj_onD)
    with i show "find (leader_is pid) js = Some j" by simp
  qed
qed

lemma report_mset:
  assumes "wf_jobs js nx pipe" "mset js' = mset js"
  shows "report js' n = report js n"
proof -
  have "wf_jobs js' nx pipe" using assms wf_jobs_mset by blast
  then have "find (leader_is (notif_pid n)) js' = Some j \<longleftrightarrow>
      find (leader_is (notif_pid n)) js = Some j" for j
    using find_leader[OF assms(1)] find_leader[of js' nx pipe] mset_eq_setD[OF assms(2)] by simp
  then have "find (leader_is (notif_pid n)) js' = find (leader_is (notif_pid n)) js"
    by (metis option.exhaust)
  then show ?thesis by (simp add: report_def)
qed

lemma report_other:
  assumes "wf_jobs (us @ x # vs) nx pipe" "leader x \<noteq> notif_pid m"
  shows "report (us @ vs) m = report (us @ x # vs) m"
proof -
  have "\<not> leader_is (notif_pid m) x"
    using assms by (simp add: leader_is_def leader_def)
  moreover have "find P (us @ x # vs) = find P (us @ vs)" if "\<not> P x" for P
    using that by (induction us) simp_all
  ultimately show ?thesis by (simp add: report_def)
qed

lemma drain_one_report:
  assumes "wf_jobs (jobs T) nx (n # ns)" "notif_pid m \<noteq> notif_pid n"
  shows "report (jobs (drain_one n T)) m = report (jobs T) m"
  using assms(1)
proof (cases rule: drain_one_split)
  case (removed us x vs)
  have wf: "wf_jobs (us @ vs) nx (n # ns)" using assms(1) removed(1) wf_jobs_remove by metis
  have "report (jobs (drain_one n T)) m = report (us @ vs) m"
    by (rule report_mset[OF wf removed(4)])
  also have "\<dots> = report (us @ x # vs) m"
    using assms removed(1,2) by (intro report_other) simp_all
  finally show ?thesis by (simp add: removed(1))
qed simp

lemma drain_one_err: "err_out (drain_one n T) = err_out T @ report (jobs T) n"
  by (simp add: drain_one_def report_def split: option.split)

lemma drain_loop_err:
  "wf_table T \<Longrightarrow> notification_pipe T = ns \<Longrightarrow> distinct (map notif_pid ns) \<Longrightarrow>
   err_out (drain_loop ns T) = err_out T @ concat (map (report (jobs T)) ns)"
proof (induction ns arbitrary: T)
  case (Cons n ns)
  let ?T = "T\<lparr>notification_pipe := ns\<rparr>"
  have wf: "wf_jobs (jobs ?T) (next_job_number T) (n # ns)"
    using Cons.prems by (simp add: wf_table_def)
  have "wf_table (drain_one n ?T)"
    using drain_one_wf[OF wf] Cons.prems by (simp add: wf_table_def)
  moreover have "map (report (jobs (drain_one n ?T))) ns = map (report (jobs T)) ns"
  proof (rule map_cong[OF refl])
    fix m assume "m \<in> set ns"
    then have "notif_pid m \<in> notif_pid ` set ns" by simp
    moreover have "notif_pid n \<notin> notif_pid ` set ns" using Cons.prems(3) by simp
    ultimately have "notif_pid m \<noteq> notif_pid n" by metis
    then show "report (jobs (drain_one n ?T)) m = report (jobs T) m"
      using drain_one_report[OF wf] by simp
  qed
  ultimately show ?case using Cons.IH[of "drain_one n ?T"] Cons.prems
    by (simp add: drain_one_err del: map_eq_conv)
qed simp


section \<open>The interface used by the job-control commands\<close>

text \<open>
  \<open>resume\<close>, \<open>ping\<close>, \<open>activities\<close> and the end-of-input handler work on a snapshot of the table and
  update it by job number only.
\<close>

locale job_store =
  fixes invar :: "'t \<Rightarrow> bool"
    and lookup :: "'t \<Rightarrow> job_map"
    and snapshot :: "'t \<Rightarrow> activity_job list"
    and remove :: "int \<Rightarrow> 't \<Rightarrow> 't"
    and mark :: "bool \<Rightarrow> int \<Rightarrow> 't \<Rightarrow> 't"
    and react :: "(int \<times> wstatus) list \<Rightarrow> 't \<Rightarrow> 't"
  assumes snapshot_distinct: "invar t \<Longrightarrow> distinct (map aj_job_number (snapshot t))"
    and snapshot_lookup:
      "invar t \<Longrightarrow> lookup t = map_of (map (\<lambda>a. (aj_job_number a, activity_view a)) (snapshot t))"
    and lookup_remove: "invar t \<Longrightarrow> lookup (remove n t) = (lookup t)(n := None)"
    and lookup_mark: "invar t \<Longrightarrow> lookup (mark b n t) = (lookup t)(n := map_option (view_states b) (lookup t n))"
    and lookup_react: "invar t \<Longrightarrow> lookup (react evs t) = fold spec_event evs (lookup t)"
    and invar_remove: "invar t \<Longrightarrow> invar (remove n t)"
    and invar_mark: "invar t \<Longrightarrow> invar (mark b n t)"
    and invar_react: "invar t \<Longrightarrow> invar (react evs t)"
begin

lemma find_snapshot:
  assumes "invar t"
  shows "map_option activity_view (find (\<lambda>a. aj_job_number a = n) (snapshot t)) = lookup t n"
proof -
  have "map_option activity_view (find (\<lambda>a. aj_job_number a = n) as) =
      map_of (map (\<lambda>a. (aj_job_number a, activity_view a)) as) n" for as
    by (induction as) auto
  then show ?thesis by (simp add: snapshot_lookup[OF assms])
qed

lemma snapshot_pid:
  assumes "invar t"
  shows "(\<exists>a \<in> set (snapshot t). pid \<in> ap_pid ` set (aj_procs a)) \<longleftrightarrow>
         (\<exists>n g ps c. lookup t n = Some (g, ps, c) \<and> pid \<in> fst ` set ps)" (is "?l = ?r")
proof
  assume ?l
  then obtain a where a: "a \<in> set (snapshot t)" "pid \<in> ap_pid ` set (aj_procs a)" by blast
  have "distinct (map fst (map (\<lambda>a. (aj_job_number a, activity_view a)) (snapshot t)))"
    using snapshot_distinct[OF assms] by (simp add: comp_def)
  then have "lookup t (aj_job_number a) = Some (activity_view a)"
    unfolding snapshot_lookup[OF assms] using a(1) by (intro map_of_is_SomeI) simp_all
  with a(2) show ?r unfolding activity_view_def by force
next
  assume ?r
  then obtain n g ps c where "lookup t n = Some (g, ps, c)" "pid \<in> fst ` set ps" by blast
  then show ?l
    unfolding snapshot_lookup[OF assms] by (force simp: activity_view_def dest: map_of_SomeD)
qed

lemma snapshot_stopped:
  assumes "invar t"
  shows "(\<exists>a \<in> set (snapshot t). \<exists>p \<in> set (aj_procs a). ap_stopped p) \<longleftrightarrow>
         (\<exists>n g ps c. lookup t n = Some (g, ps, c) \<and> True \<in> snd ` set ps)" (is "?l = ?r")
proof
  assume ?l
  then obtain a where a: "a \<in> set (snapshot t)" "\<exists>p \<in> set (aj_procs a). ap_stopped p" by blast
  have "distinct (map fst (map (\<lambda>a. (aj_job_number a, activity_view a)) (snapshot t)))"
    using snapshot_distinct[OF assms] by (simp add: comp_def)
  then have "lookup t (aj_job_number a) = Some (activity_view a)"
    unfolding snapshot_lookup[OF assms] using a(1) by (intro map_of_is_SomeI) simp_all
  with a(2) show ?r unfolding activity_view_def by force
next
  assume ?r
  then obtain n g ps c where "lookup t n = Some (g, ps, c)" "True \<in> snd ` set ps" by blast
  then show ?l
    unfolding snapshot_lookup[OF assms] by (force simp: activity_view_def dest: map_of_SomeD)
qed

end

interpretation table: job_store wf_table view "\<lambda>T. get_activities T 100"
  "\<lambda>n T. snd (remove_job_by_number n T)"
  "\<lambda>b n T. snd (if b then mark_job_stopped n T else mark_job_running n T)" sigchld_handler
proof unfold_locales
  fix t :: job_table assume wf: "wf_table t"
  show "distinct (map aj_job_number (get_activities t 100))"
    using wf by (simp add: get_activities_all comp_def activity_of_def) (simp add: wf_table_def wf_jobs_def)
  show "view t = map_of (map (\<lambda>a. (aj_job_number a, activity_view a)) (get_activities t 100))"
    by (simp add: view_def get_activities_all[OF wf] comp_def activity_view_of)
       (simp add: activity_of_def)
qed (simp_all add: view_remove view_mark_running view_mark_stopped view_handler remove_wf mark_wf
       sigchld_handler_wf)

section \<open>Properties\<close>

text \<open>
  In every state the job table can reach from \<open>init_background\<close>, by registrations, the
  SIGCHLD handler, the drain of the self-pipe and the updates by job number in any order, the table
  invariant holds: at most 100 jobs, distinct job numbers below the next one, \<open>remaining\<close>
  counting exactly the processes that have not exited, no live process in two places, and a
  pending notification exactly for the jobs with none left, each notified once.
\<close>

theorem job_table_invariant:
  assumes "job_reachable T"
  shows "wf_table T \<and> distinct (map notif_pid (notification_pipe T))"
  using assms job_reachable_wf job_reachable_pipe by blast

definition two_procs :: job_table where
  "two_procs = register_background_job 7 [7, 8] [''sleep'', ''cat''] 2 (Some ''sleep 9 | cat'')
     init_background"

lemma two_procs_reachable: "job_reachable two_procs"
proof -
  have "job_step init_background two_procs"
    using job_step.background[of "[7, 8]" init_background 7 "[''sleep'', ''cat'']"]
    by (simp add: two_procs_def fresh_pids_def init_background_def numeral_2_eq_2)
  with job_reachable.init show ?thesis by (rule job_reachable.step)
qed

lemma job_table_invariant_witness:
  "job_reachable two_procs \<and> jobs two_procs \<noteq> [] \<and> wf_table two_procs"
  using job_table_invariant[OF two_procs_reachable] two_procs_reachable
  by (simp add: two_procs_def register_background_job_def init_background_def MAX_JOBS_def Let_def)



text \<open>
  C29.  \<open>drain_background_notifications\<close> removes exactly the jobs with no process left, empties the
  pipe, and prints for each of its notifications the completion line of the job it is
  about, in the order in which the jobs ended.
\<close>

theorem drain_reports_finished_jobs:
  assumes "job_reachable T"
  shows "mset (jobs (drain_background_notifications T)) =
           filter_mset (\<lambda>j. remaining j \<noteq> 0) (mset (jobs T)) \<and>
         notification_pipe (drain_background_notifications T) = [] \<and>
         err_out (drain_background_notifications T) =
           err_out T @ concat (map (report (jobs T)) (notification_pipe T))"
  using drain_unfinished[OF job_reachable_wf[OF assms]] drain_wf(2)[OF job_reachable_wf[OF assms]]
    drain_loop_err[OF job_reachable_wf[OF assms] refl job_reachable_pipe[OF assms]]
  by (simp add: drain_background_notifications_def)

lemma drain_reports_finished_jobs_witness:
  "err_out (drain_background_notifications (sigchld_handler [(8, WExited 0), (7, WExited 1)] two_procs)) =
     ''[1] 7'' @ NL @ ''sleep with pid 7 exited normally'' @ NL"
proof -
  let ?T = "sigchld_handler [(8, WExited 0), (7, WExited 1)] two_procs"
  have "job_reachable ?T" using two_procs_reachable job_step.handler by (rule job_reachable.step)
  from drain_reports_finished_jobs[OF this]
  have "err_out (drain_background_notifications ?T) =
      err_out ?T @ concat (map (report (jobs ?T)) (notification_pipe ?T))" by blast
  also have "\<dots> = ''[1] 7'' @ NL @ ''sleep with pid 7 exited normally'' @ NL" by code_simp
  finally show ?thesis .
qed

end
