(* ===== verification/Terminal.thy ===== *)
theory Terminal
  imports Jobs
begin

text \<open>
  Terminal ownership, foreground waiting and end of input, \<open>c-shell/src/terminal.c\<close>.  What the
  kernel does while the shell waits is a list of events: the results of \<open>waitpid\<close> in order, and
  the deliveries of SIGALRM between and during the calls.  A wait that consumes all events and
  is still not over is \<open>Blocked\<close>.
\<close>

section \<open>State\<close>

datatype disposition = SIG_DFL | SIG_IGN | SHELL_SIGNAL_HANDLER | RESUME_ALARM_HANDLER

definition SIGHUP :: int where "SIGHUP = 1"
definition SIGINT :: int where "SIGINT = 2"
definition SIGALRM :: int where "SIGALRM = 14"
definition SIGTERM :: int where "SIGTERM = 15"
definition SIGCONT :: int where "SIGCONT = 18"
definition SIGTSTP :: int where "SIGTSTP = 20"
definition SIGTTIN :: int where "SIGTTIN = 21"
definition SIGTTOU :: int where "SIGTTOU = 22"

text \<open>
  \<open>tty_pgrp\<close> is the foreground process group of the terminal, \<open>sent\<close> the calls of \<open>kill\<close>, \<open>out\<close> the
  text written to \<open>stdout\<close>; \<open>stderr\<close> is \<open>err_out\<close> of the job table.
\<close>

record tty =
  shell_pgid :: int
  tty_pgrp :: int
  previous_eof :: bool
  signal_newline_needed :: bool
  dispositions :: "int \<Rightarrow> disposition"
  sent :: "(int \<times> int) list"
  out :: cstring

type_synonym shell = "job_table \<times> tty"

definition puts_out :: "cstring \<Rightarrow> shell \<Rightarrow> shell" where
  "puts_out s sh = (fst sh, (snd sh)\<lparr>out := out (snd sh) @ s\<rparr>)"

definition puts_err :: "cstring \<Rightarrow> shell \<Rightarrow> shell" where
  "puts_err s sh = ((fst sh)\<lparr>err_out := err_out (fst sh) @ s\<rparr>, snd sh)"

definition kill :: "int \<Rightarrow> int \<Rightarrow> shell \<Rightarrow> shell" where
  "kill pid sig sh = (fst sh, (snd sh)\<lparr>sent := sent (snd sh) @ [(pid, sig)]\<rparr>)"

section \<open>Signals and the terminal\<close>

definition shell_signal_handler :: "tty \<Rightarrow> tty" where
  "shell_signal_handler t = t\<lparr>signal_newline_needed := True\<rparr>"

definition consume_signal_newline :: "tty \<Rightarrow> bool \<times> tty" where
  "consume_signal_newline t =
     (if signal_newline_needed t
      then (True, t\<lparr>signal_newline_needed := False, out := out t @ NL\<rparr>)
      else (False, t))"

text \<open>
  A call of \<open>tcsetpgrp\<close> is given its outcome: \<open>None\<close> when it succeeds, the text of the error
  otherwise, which \<open>perror\<close> prints.
\<close>

definition tcsetpgrp :: "cstring option \<Rightarrow> int \<Rightarrow> shell \<Rightarrow> shell" where
  "tcsetpgrp res pgid sh =
     (case res of
        None \<Rightarrow> (fst sh, (snd sh)\<lparr>tty_pgrp := pgid\<rparr>)
      | Some e \<Rightarrow> puts_err (''tcsetpgrp: '' @ e @ NL) sh)"

definition init_job_control :: "int \<Rightarrow> cstring option \<Rightarrow> shell \<Rightarrow> shell" where
  "init_job_control pid res sh =
     tcsetpgrp res pid
       (fst sh, (snd sh)\<lparr>shell_pgid := pid,
          dispositions := (dispositions (snd sh))
            (SIGINT := SHELL_SIGNAL_HANDLER, SIGTSTP := SHELL_SIGNAL_HANDLER,
             SIGTTOU := SIG_IGN, SIGTTIN := SIG_IGN)\<rparr>)"

definition give_terminal_to :: "cstring option \<Rightarrow> int \<Rightarrow> shell \<Rightarrow> shell" where
  "give_terminal_to res pgid sh = tcsetpgrp res pgid sh"

definition reclaim_terminal :: "cstring option \<Rightarrow> shell \<Rightarrow> shell" where
  "reclaim_terminal res sh = tcsetpgrp res (shell_pgid (snd sh)) sh"

definition get_shell_pgid :: "tty \<Rightarrow> int" where
  "get_shell_pgid t = shell_pgid t"

section \<open>Waiting for a foreground group\<close>

datatype wait_event = Status int wstatus | Interrupted | Wait_error | Alarm_signal

datatype wait_outcome = Returned int "wait_event list" | Blocked | Overrun

text \<open>
  The search for \<open>pids[i] == pid && !finished[i]\<close>; the second component tells whether an entry was
  found, \<open>None\<close> is an index beyond \<open>finished[100]\<close>.
\<close>

fun mark_finished :: "int \<Rightarrow> int list \<Rightarrow> bool list \<Rightarrow> (bool list \<times> bool) option" where
  "mark_finished pid [] fin = Some (fin, False)"
| "mark_finished pid (p # ps) [] = None"
| "mark_finished pid (p # ps) (f # fs) =
     (if p = pid \<and> \<not> f then Some (True # fs, True)
      else map_option (\<lambda>(fs', hit). (f # fs', hit)) (mark_finished pid ps fs))"

definition wait_result :: "bool \<Rightarrow> int" where
  "wait_result was_signaled = (if was_signaled then 2 else 0)"

fun wait_loop :: "int list \<Rightarrow> bool list \<Rightarrow> nat \<Rightarrow> bool \<Rightarrow> wait_event list \<Rightarrow> wait_outcome" where
  "wait_loop pids finished finished_count was_signaled [] =
     (if finished_count < length pids then Blocked else Returned (wait_result was_signaled) [])"
| "wait_loop pids finished finished_count was_signaled (ev # evs) =
     (if \<not> finished_count < length pids then Returned (wait_result was_signaled) (ev # evs)
      else case ev of
        Interrupted \<Rightarrow> wait_loop pids finished finished_count was_signaled evs
      | Alarm_signal \<Rightarrow> wait_loop pids finished finished_count was_signaled evs
      | Wait_error \<Rightarrow> Returned (wait_result was_signaled) evs
      | Status pid st \<Rightarrow>
          if WIFSTOPPED st then Returned 1 evs
          else if WIFEXITED st \<or> WIFSIGNALED st then
            (case mark_finished pid pids finished of
               None \<Rightarrow> Overrun
             | Some (finished', hit) \<Rightarrow>
                 wait_loop pids finished' (if hit then finished_count + 1 else finished_count)
                   (was_signaled \<or> WIFSIGNALED st) evs)
          else wait_loop pids finished finished_count was_signaled evs)"

definition wait_foreground_group :: "int list \<Rightarrow> wait_event list \<Rightarrow> wait_outcome" where
  "wait_foreground_group pids evs = wait_loop pids (replicate 100 False) 0 False evs"

text \<open>The variant with a timeout keeps the disposition of SIGALRM and the alarm clock.\<close>

record alarm_clock =
  on_alarm :: disposition
  alarm_set :: bool
  resume_alarm_fired :: bool

definition resume_alarm_handler :: "alarm_clock \<Rightarrow> alarm_clock" where
  "resume_alarm_handler a = a\<lparr>resume_alarm_fired := True\<rparr>"

definition deliver_alarm :: "alarm_clock \<Rightarrow> alarm_clock" where
  "deliver_alarm a =
     (if alarm_set a \<and> on_alarm a = RESUME_ALARM_HANDLER
      then resume_alarm_handler (a\<lparr>alarm_set := False\<rparr>) else a)"

definition cancel_alarm :: "int \<Rightarrow> disposition \<Rightarrow> alarm_clock \<Rightarrow> alarm_clock" where
  "cancel_alarm timeout_seconds old a =
     (if timeout_seconds > 0 then a\<lparr>alarm_set := False, on_alarm := old\<rparr> else a)"

fun timeout_loop :: "int list \<Rightarrow> int \<Rightarrow> disposition \<Rightarrow> bool list \<Rightarrow> nat \<Rightarrow> bool \<Rightarrow> alarm_clock \<Rightarrow>
    wait_event list \<Rightarrow> wait_outcome \<times> alarm_clock" where
  "timeout_loop pids secs old finished finished_count was_signaled a [] =
     (if finished_count < length pids then (Blocked, a)
      else (Returned (wait_result was_signaled) [], cancel_alarm secs old a))"
| "timeout_loop pids secs old finished finished_count was_signaled a (ev # evs) =
     (if \<not> finished_count < length pids
      then (Returned (wait_result was_signaled) (ev # evs), cancel_alarm secs old a)
      else case ev of
        Alarm_signal \<Rightarrow>
          timeout_loop pids secs old finished finished_count was_signaled (deliver_alarm a) evs
      | Interrupted \<Rightarrow>
          if resume_alarm_fired a
          then (Returned 3 evs, if secs > 0 then a\<lparr>on_alarm := old\<rparr> else a)
          else timeout_loop pids secs old finished finished_count was_signaled a evs
      | Wait_error \<Rightarrow> (Returned (wait_result was_signaled) evs, cancel_alarm secs old a)
      | Status pid st \<Rightarrow>
          if WIFSTOPPED st then (Returned 1 evs, cancel_alarm secs old a)
          else if WIFEXITED st \<or> WIFSIGNALED st then
            (case mark_finished pid pids finished of
               None \<Rightarrow> (Overrun, a)
             | Some (finished', hit) \<Rightarrow>
                 timeout_loop pids secs old finished'
                   (if hit then finished_count + 1 else finished_count)
                   (was_signaled \<or> WIFSIGNALED st) a evs)
          else timeout_loop pids secs old finished finished_count was_signaled a evs)"

definition wait_foreground_group_timeout :: "int list \<Rightarrow> int \<Rightarrow> alarm_clock \<Rightarrow> wait_event list \<Rightarrow>
    wait_outcome \<times> alarm_clock" where
  "wait_foreground_group_timeout pids timeout_seconds a evs =
     (let a1 = a\<lparr>resume_alarm_fired := False\<rparr>;
          a2 = (if timeout_seconds > 0
                then a1\<lparr>on_alarm := RESUME_ALARM_HANDLER, alarm_set := True\<rparr> else a1)
      in timeout_loop pids timeout_seconds (on_alarm a) (replicate 100 False) 0 False a2 evs)"

section \<open>End of input\<close>

definition send_sighup_to_all_jobs :: "shell \<Rightarrow> shell" where
  "send_sighup_to_all_jobs sh =
     fold (\<lambda>a s. if aj_pgid a > 0 then kill (- aj_pgid a) SIGHUP s else s)
       (get_activities (fst sh) 100) sh"

definition handle_eof :: "shell \<Rightarrow> bool \<times> shell" where
  "handle_eof sh =
     (let stopped = list_ex (\<lambda>a. list_ex ap_stopped (aj_procs a)) (get_activities (fst sh) 100)
      in if \<not> stopped then (True, send_sighup_to_all_jobs sh)
         else if \<not> previous_eof (snd sh) then
           (False, let sh' = puts_err (''cshell: there are stopped jobs'' @ NL) sh
                   in (fst sh', (snd sh')\<lparr>previous_eof := True\<rparr>))
         else (True, send_sighup_to_all_jobs sh))"

definition reset_eof_state :: "tty \<Rightarrow> tty" where
  "reset_eof_state t = t\<lparr>previous_eof := False\<rparr>"

section \<open>The wait as a function of the processes left\<close>

fun exit_of :: "wait_event \<Rightarrow> int list" where
  "exit_of (Status pid st) = (if WIFEXITED st \<or> WIFSIGNALED st then [pid] else [])"
| "exit_of _ = []"

fun is_stop :: "wait_event \<Rightarrow> bool" where
  "is_stop (Status pid st) = WIFSTOPPED st" | "is_stop _ = False"

fun is_death :: "wait_event \<Rightarrow> bool" where
  "is_death (Status pid st) = WIFSIGNALED st" | "is_death _ = False"

definition exits :: "wait_event list \<Rightarrow> int multiset" where
  "exits evs = mset (concat (map exit_of evs))"

fun wait_ref :: "int list \<Rightarrow> bool \<Rightarrow> wait_event list \<Rightarrow> wait_outcome" where
  "wait_ref [] sig evs = Returned (wait_result sig) evs"
| "wait_ref (p # ps) sig [] = Blocked"
| "wait_ref (p # ps) sig (ev # evs) =
     (if ev = Wait_error then Returned (wait_result sig) evs
      else if is_stop ev then Returned 1 evs
      else wait_ref (fold remove1 (exit_of ev) (p # ps)) (sig \<or> is_death ev) evs)"

definition unfinished :: "int list \<Rightarrow> bool list \<Rightarrow> int list" where
  "unfinished pids fin = map fst (filter (\<lambda>(p, f). \<not> f) (zip pids fin))"

lemma unfinished_simps [simp]:
  "unfinished [] fin = []"
  "unfinished (p # ps) (f # fs) = (if f then unfinished ps fs else p # unfinished ps fs)"
  by (simp_all add: unfinished_def)

lemma unfinished_fresh: "length pids \<le> n \<Longrightarrow> unfinished pids (replicate n False) = pids"
proof (induction pids arbitrary: n)
  case (Cons p ps)
  then obtain m where "n = Suc m" by (cases n) auto
  with Cons show ?case by simp
qed simp

lemma mark_finished_correct:
  assumes "length pids \<le> length fin"
  obtains fin' where "mark_finished pid pids fin = Some (fin', pid \<in> set (unfinished pids fin))"
    "length fin' = length fin" "unfinished pids fin' = remove1 pid (unfinished pids fin)"
  using assms
proof (induction pid pids fin arbitrary: thesis rule: mark_finished.induct)
  case (3 pid p ps f fs)
  show ?case
  proof (cases "p = pid \<and> \<not> f")
    case True
    then show ?thesis by (intro 3(2)[of "True # fs"]) auto
  next
    case False
    obtain fs' where fs': "mark_finished pid ps fs = Some (fs', pid \<in> set (unfinished ps fs))"
      "length fs' = length fs" "unfinished ps fs' = remove1 pid (unfinished ps fs)"
      using 3(1)[OF False] 3(3) by auto
    with False show ?thesis by (intro 3(2)[of "f # fs'"]) auto
  qed
qed auto

lemma wait_loop_ref:
  "length pids \<le> length fin \<Longrightarrow> cnt + length (unfinished pids fin) = length pids \<Longrightarrow>
   wait_loop pids fin cnt sig evs = wait_ref (unfinished pids fin) sig evs"
proof (induction evs arbitrary: fin cnt sig)
  case Nil
  then show ?case by (cases "unfinished pids fin") simp_all
next
  case (Cons ev evs)
  show ?case
  proof (cases "unfinished pids fin")
    case Nil
    with Cons.prems show ?thesis by simp
  next
    case u: (Cons p ps)
    then have c: "cnt < length pids" using Cons.prems(2) by simp
    note IH = Cons.IH[OF Cons.prems, unfolded u]
    show ?thesis
    proof (cases "\<exists>pid st. ev = Status pid st \<and> (WIFEXITED st \<or> WIFSIGNALED st)")
      case True
      then obtain pid st where ev: "ev = Status pid st" "WIFEXITED st \<or> WIFSIGNALED st" by blast
      then have ns: "\<not> WIFSTOPPED st" by (cases st) simp_all
      obtain fin' where f: "mark_finished pid pids fin = Some (fin', pid \<in> set (unfinished pids fin))"
        "length fin' = length fin" "unfinished pids fin' = remove1 pid (unfinished pids fin)"
        using mark_finished_correct[OF Cons.prems(1)] by blast
      have "(if pid \<in> set (unfinished pids fin) then cnt + 1 else cnt) + length (unfinished pids fin')
          = length pids"
        using Cons.prems(2) arg_cong[OF u, of length]
        by (cases "pid \<in> set (unfinished pids fin)") (simp_all add: f(3) length_remove1 remove1_idem)
      moreover have "length pids \<le> length fin'" using f(2) Cons.prems(1) by simp
      ultimately show ?thesis
        using Cons.IH[of fin' "if pid \<in> set (unfinished pids fin) then cnt + 1 else cnt"
            "sig \<or> WIFSIGNALED st"] c ev ns f by (simp add: u)
    next
      case False
      then show ?thesis using c IH by (auto simp: u split: wait_event.split)
    qed
  qed
qed

lemma wait_foreground_ref:
  "length pids \<le> 100 \<Longrightarrow> wait_foreground_group pids evs = wait_ref pids False evs"
  unfolding wait_foreground_group_def by (subst wait_loop_ref) (simp_all add: unfinished_fresh)


text \<open>
  \<open>wait_over ps sig used r\<close>: having seen exactly the events \<open>used\<close>, the wait for \<open>ps\<close> is over with
  result \<open>r\<close>, and it was not over before.
\<close>

definition ready :: "int list \<Rightarrow> wait_event list \<Rightarrow> bool" where
  "ready ps evs \<longleftrightarrow> mset ps \<subseteq># exits evs"

definition wait_over :: "int list \<Rightarrow> bool \<Rightarrow> wait_event list \<Rightarrow> int \<Rightarrow> bool" where
  "wait_over ps sig used r \<longleftrightarrow>
     (\<forall>ev \<in> set (butlast used). \<not> is_stop ev \<and> ev \<noteq> Wait_error) \<and>
     (\<forall>k < length used. \<not> ready ps (take k used)) \<and>
     (r = 1 \<and> used \<noteq> [] \<and> is_stop (last used) \<or>
      r = wait_result (sig \<or> list_ex is_death used) \<and>
        (used \<noteq> [] \<and> last used = Wait_error \<or>
         ready ps used \<and> (\<forall>ev \<in> set used. \<not> is_stop ev \<and> ev \<noteq> Wait_error)))"

lemma ready_Nil: "ready ps [] \<longleftrightarrow> ps = []"
  by (simp add: ready_def exits_def)

lemma ready_Cons: "ready ps (ev # evs) \<longleftrightarrow> ready (fold remove1 (exit_of ev) ps) evs"
proof (cases "exit_of ev")
  case Nil
  then show ?thesis by (simp add: ready_def exits_def)
next
  case (Cons pid xs)
  then have "exit_of ev = [pid]" by (cases ev) (auto split: if_splits)
  then show ?thesis by (simp add: ready_def exits_def subset_eq_diff_conv)
qed

lemma wait_over_step:
  assumes "ps \<noteq> []" "\<not> is_stop ev" "ev \<noteq> Wait_error"
    and w: "wait_over (fold remove1 (exit_of ev) ps) (sig \<or> is_death ev) used r"
  shows "wait_over ps sig (ev # used) r"
  unfolding wait_over_def
proof (intro conjI allI impI ballI)
  fix k assume k: "k < length (ev # used)"
  show "\<not> ready ps (take k (ev # used))"
  proof (cases k)
    case 0
    with assms(1) show ?thesis by (simp add: ready_Nil)
  next
    case (Suc j)
    with k w show ?thesis by (simp add: ready_Cons wait_over_def)
  qed
next
  fix e assume e: "e \<in> set (butlast (ev # used))"
  from e assms(2,3) w show "\<not> is_stop e" "e \<noteq> Wait_error"
    by (auto simp: wait_over_def split: if_splits)
next
  from w show "r = 1 \<and> ev # used \<noteq> [] \<and> is_stop (last (ev # used)) \<or>
      r = wait_result (sig \<or> list_ex is_death (ev # used)) \<and>
        (ev # used \<noteq> [] \<and> last (ev # used) = Wait_error \<or>
         ready ps (ev # used) \<and> (\<forall>e \<in> set (ev # used). \<not> is_stop e \<and> e \<noteq> Wait_error))"
    unfolding wait_over_def ready_Cons using assms(2,3) by (auto simp: disj_assoc)
qed

lemma wait_over_now:
  "wait_over [] sig [] (wait_result sig)"
  "ps \<noteq> [] \<Longrightarrow> wait_over ps sig [Wait_error] (wait_result sig)"
  "ps \<noteq> [] \<Longrightarrow> is_stop ev \<Longrightarrow> wait_over ps sig [ev] 1"
  by (simp_all add: wait_over_def ready_Nil)

lemma wait_ref_correct:
  "case wait_ref ps sig evs of
     Returned r rest \<Rightarrow> \<exists>used. evs = used @ rest \<and> wait_over ps sig used r
   | Blocked \<Rightarrow> (\<forall>ev \<in> set evs. \<not> is_stop ev \<and> ev \<noteq> Wait_error) \<and> \<not> ready ps evs
   | Overrun \<Rightarrow> False"
proof (induction ps sig evs rule: wait_ref.induct)
  case (1 sig evs)
  then show ?case using wait_over_now(1) by force
next
  case (2 p ps sig)
  then show ?case by (simp add: ready_Nil)
next
  case (3 p ps sig ev evs)
  consider (err) "ev = Wait_error" | (stop) "is_stop ev"
    | (go) "ev \<noteq> Wait_error" "\<not> is_stop ev" by blast
  then show ?case
  proof cases
    case err
    then show ?thesis using wait_over_now(2)[of "p # ps" sig] by force
  next
    case stop
    moreover from stop have "ev \<noteq> Wait_error" by (cases ev) simp_all
    ultimately show ?thesis using wait_over_now(3)[of "p # ps" ev sig] by force
  next
    case go
    let ?w = "wait_ref (fold remove1 (exit_of ev) (p # ps)) (sig \<or> is_death ev) evs"
    have w: "wait_ref (p # ps) sig (ev # evs) = ?w" using go by simp
    note IH = 3[OF go]
    show ?thesis
    proof (cases ?w)
      case (Returned r rest)
      with IH obtain used where "evs = used @ rest"
        "wait_over (fold remove1 (exit_of ev) (p # ps)) (sig \<or> is_death ev) used r" by auto
      with go have "ev # evs = (ev # used) @ rest" "wait_over (p # ps) sig (ev # used) r"
        by (auto intro!: wait_over_step)
      then show ?thesis unfolding w Returned by auto
    next
      case Blocked
      with IH go show ?thesis unfolding w Blocked by (simp add: ready_Cons)
    next
      case Overrun
      with IH show ?thesis by simp
    qed
  qed
qed


subsection \<open>The wait with a timeout\<close>

fun timeout_ref :: "int list \<Rightarrow> bool \<Rightarrow> bool \<Rightarrow> bool \<Rightarrow> wait_event list \<Rightarrow> wait_outcome" where
  "timeout_ref [] sig armed fired evs = Returned (wait_result sig) evs"
| "timeout_ref (p # ps) sig armed fired [] = Blocked"
| "timeout_ref (p # ps) sig armed fired (ev # evs) =
     (if ev = Wait_error then Returned (wait_result sig) evs
      else if is_stop ev then Returned 1 evs
      else if ev = Interrupted \<and> fired then Returned 3 evs
      else timeout_ref (fold remove1 (exit_of ev) (p # ps)) (sig \<or> is_death ev)
             (armed \<and> ev \<noteq> Alarm_signal) (fired \<or> armed \<and> ev = Alarm_signal) evs)"

definition clock_armed :: "alarm_clock \<Rightarrow> bool" where
  "clock_armed a \<longleftrightarrow> alarm_set a \<and> on_alarm a = RESUME_ALARM_HANDLER"

lemma deliver_alarm_simps [simp]:
  "clock_armed (deliver_alarm a) = False"
  "resume_alarm_fired (deliver_alarm a) \<longleftrightarrow> resume_alarm_fired a \<or> clock_armed a"
  "on_alarm (deliver_alarm a) = on_alarm a"
  "\<not> alarm_set a \<Longrightarrow> deliver_alarm a = a"
  by (auto simp: deliver_alarm_def clock_armed_def resume_alarm_handler_def)

lemma timeout_loop_ref:
  "length pids \<le> length fin \<Longrightarrow> cnt + length (unfinished pids fin) = length pids \<Longrightarrow>
   fst (timeout_loop pids secs old fin cnt sig a evs) =
     timeout_ref (unfinished pids fin) sig (clock_armed a) (resume_alarm_fired a) evs"
proof (induction evs arbitrary: fin cnt sig a)
  case Nil
  then show ?case by (cases "unfinished pids fin") simp_all
next
  case (Cons ev evs)
  show ?case
  proof (cases "unfinished pids fin")
    case Nil
    with Cons.prems show ?thesis by simp
  next
    case u: (Cons p ps)
    then have c: "cnt < length pids" using Cons.prems(2) by simp
    note IH = Cons.IH[OF Cons.prems, unfolded u]
    show ?thesis
    proof (cases "\<exists>pid st. ev = Status pid st \<and> (WIFEXITED st \<or> WIFSIGNALED st)")
      case True
      then obtain pid st where ev: "ev = Status pid st" "WIFEXITED st \<or> WIFSIGNALED st" by blast
      then have ns: "\<not> WIFSTOPPED st" by (cases st) simp_all
      obtain fin' where f: "mark_finished pid pids fin = Some (fin', pid \<in> set (unfinished pids fin))"
        "length fin' = length fin" "unfinished pids fin' = remove1 pid (unfinished pids fin)"
        using mark_finished_correct[OF Cons.prems(1)] by blast
      have "(if pid \<in> set (unfinished pids fin) then cnt + 1 else cnt) + length (unfinished pids fin')
          = length pids"
        using Cons.prems(2) arg_cong[OF u, of length]
        by (cases "pid \<in> set (unfinished pids fin)") (simp_all add: f(3) length_remove1 remove1_idem)
      moreover have "length pids \<le> length fin'" using f(2) Cons.prems(1) by simp
      ultimately show ?thesis
        using Cons.IH[of fin' "if pid \<in> set (unfinished pids fin) then cnt + 1 else cnt"
            "sig \<or> WIFSIGNALED st" a] c ev ns f by (simp add: u)
    next
      case False
      then show ?thesis using c IH by (auto simp: u split: wait_event.split)
    qed
  qed
qed

lemma timeout_ref_wait:
  "\<not> fired \<Longrightarrow> \<not> armed \<or> Alarm_signal \<notin> set evs \<Longrightarrow>
   timeout_ref ps sig armed fired evs = wait_ref ps sig evs"
  by (induction ps sig armed fired evs rule: timeout_ref.induct) auto

definition calm :: "wait_event \<Rightarrow> bool" where
  "calm ev \<longleftrightarrow> \<not> is_stop ev \<and> ev \<noteq> Wait_error"

lemma not_ready_Nil: "\<not> ready ps evs \<Longrightarrow> ps \<noteq> []"
  by (auto simp: ready_def)

lemma timeout_ref_fired:
  "\<forall>ev \<in> set ys. calm ev \<and> ev \<noteq> Interrupted \<Longrightarrow> \<not> ready ps ys \<Longrightarrow>
   timeout_ref ps sig armed True (ys @ Interrupted # rest) = Returned 3 rest"
proof (induction ys arbitrary: ps sig armed)
  case Nil
  then show ?case by (cases ps) (simp_all add: ready_Nil)
next
  case (Cons y ys)
  obtain p qs where "ps = p # qs" using not_ready_Nil[OF Cons.prems(2)] by (cases ps) auto
  with Cons show ?case by (simp add: ready_Cons calm_def del: fold_simps)
qed

lemma timeout_ref_armed:
  "\<forall>ev \<in> set xs. calm ev \<and> ev \<noteq> Alarm_signal \<Longrightarrow> \<forall>ev \<in> set ys. calm ev \<and> ev \<noteq> Interrupted \<Longrightarrow>
   \<not> ready ps (xs @ ys) \<Longrightarrow>
   timeout_ref ps sig True False (xs @ Alarm_signal # ys @ Interrupted # rest) = Returned 3 rest"
proof (induction xs arbitrary: ps sig)
  case Nil
  then show ?case by (cases ps) (auto simp: ready_def intro: timeout_ref_fired)
next
  case (Cons x xs)
  obtain p qs where "ps = p # qs" using not_ready_Nil[OF Cons.prems(3)] by (cases ps) auto
  with Cons show ?case by (simp add: ready_Cons calm_def del: fold_simps)
qed

lemma timeout_ref_3:
  "timeout_ref ps sig armed fired evs = Returned 3 rest \<Longrightarrow>
   \<exists>us. evs = us @ Interrupted # rest \<and> (\<forall>ev \<in> set us. calm ev) \<and> \<not> ready ps us \<and>
        (fired \<or> armed \<and> Alarm_signal \<in> set us)"
proof (induction ps sig armed fired evs rule: timeout_ref.induct)
  case (3 p ps sig armed fired ev evs)
  show ?case
  proof (cases "ev = Interrupted \<and> fired")
    case True
    with 3(2) have "ev # evs = [] @ Interrupted # rest" "fired" by auto
    then show ?thesis by (metis empty_iff empty_set list.distinct(1) ready_Nil)
  next
    case False
    have c: "ev \<noteq> Wait_error" "\<not> is_stop ev"
      using 3(2) by (auto simp: wait_result_def split: if_splits)
    from False c 3(2) have "timeout_ref (fold remove1 (exit_of ev) (p # ps)) (sig \<or> is_death ev)
        (armed \<and> ev \<noteq> Alarm_signal) (fired \<or> armed \<and> ev = Alarm_signal) evs = Returned 3 rest"
      by (simp del: fold_simps split: if_splits)
    from 3(1)[OF c False this] obtain us where "evs = us @ Interrupted # rest"
      "\<forall>ev \<in> set us. calm ev" "\<not> ready (fold remove1 (exit_of ev) (p # ps)) us"
      "(fired \<or> armed \<and> ev = Alarm_signal) \<or> (armed \<and> ev \<noteq> Alarm_signal) \<and> Alarm_signal \<in> set us"
      by blast
    with c show ?thesis by (intro exI[of _ "ev # us"]) (auto simp: calm_def ready_Cons)
  qed
qed (simp_all add: wait_result_def split: if_splits)

lemma timeout_loop_clock:
  assumes "timeout_loop pids secs old fin cnt sig a evs = (Returned r rest, a')"
    and "0 < secs \<Longrightarrow> resume_alarm_fired a \<Longrightarrow> \<not> alarm_set a"
    and "\<not> 0 < secs \<Longrightarrow> \<not> alarm_set a \<and> on_alarm a = old"
  shows "\<not> alarm_set a' \<and> on_alarm a' = old"
  using assms
proof (induction evs arbitrary: fin cnt sig a)
  case Nil
  then show ?case by (auto simp: cancel_alarm_def split: if_splits)
next
  case (Cons ev evs)
  note IH = Cons.IH
  show ?case
  proof (cases "cnt < length pids")
    case False
    with Cons.prems show ?thesis by (auto simp: cancel_alarm_def split: if_splits)
  next
    case c: True
    show ?thesis
    proof (cases ev)
      case (Status pid st)
      with c Cons.prems show ?thesis
        by (auto simp: cancel_alarm_def split: if_splits option.splits elim!: IH)
    next
      case Interrupted
      with c Cons.prems show ?thesis by (auto split: if_splits elim!: IH)
    next
      case Wait_error
      with c Cons.prems show ?thesis by (auto simp: cancel_alarm_def split: if_splits)
    next
      case Alarm_signal
      have "0 < secs \<Longrightarrow> resume_alarm_fired (deliver_alarm a) \<Longrightarrow> \<not> alarm_set (deliver_alarm a)"
        using Cons.prems(2) by (auto simp: deliver_alarm_def resume_alarm_handler_def split: if_splits)
      moreover have "\<not> 0 < secs \<Longrightarrow> \<not> alarm_set (deliver_alarm a) \<and> on_alarm (deliver_alarm a) = old"
        using Cons.prems(3) by simp
      ultimately show ?thesis
        using Alarm_signal c Cons.prems(1) IH[of fin cnt sig "deliver_alarm a"] by simp
    qed
  qed
qed


lemma timeout_wait_ref:
  assumes "length pids \<le> 100" "\<not> alarm_set a"
  shows "fst (wait_foreground_group_timeout pids secs a evs) = timeout_ref pids False (0 < secs) False evs"
  using assms
  by (simp add: wait_foreground_group_timeout_def Let_def timeout_loop_ref unfinished_fresh
      clock_armed_def)

lemma timeout_wait_clock:
  assumes "wait_foreground_group_timeout pids secs a evs = (Returned r rest, a')" "\<not> alarm_set a"
  shows "\<not> alarm_set a' \<and> on_alarm a' = on_alarm a"
  using assms(1) unfolding wait_foreground_group_timeout_def Let_def
  by (rule timeout_loop_clock) (use assms(2) in simp_all)

section \<open>End of input\<close>

lemma sighup_fold:
  "fold (\<lambda>a s. if aj_pgid a > 0 then kill (- aj_pgid a) SIGHUP s else s) as sh =
     (fst sh, (snd sh)\<lparr>sent := sent (snd sh) @
        map (\<lambda>a. (- aj_pgid a, SIGHUP)) (filter (\<lambda>a. aj_pgid a > 0) as)\<rparr>)"
  by (induction as arbitrary: sh) (simp_all add: kill_def)

lemma send_sighup_eq:
  "send_sighup_to_all_jobs sh = (fst sh, (snd sh)\<lparr>sent := sent (snd sh) @
     map (\<lambda>a. (- aj_pgid a, SIGHUP)) (filter (\<lambda>a. aj_pgid a > 0) (get_activities (fst sh) 100))\<rparr>)"
  by (simp add: send_sighup_to_all_jobs_def sighup_fold)

lemma stopped_process_iff:
  assumes "wf_table T"
  shows "list_ex (\<lambda>a. list_ex ap_stopped (aj_procs a)) (get_activities T 100) \<longleftrightarrow>
         (\<exists>n g ps c. view T n = Some (g, ps, c) \<and> True \<in> snd ` set ps)"
  using table.snapshot_stopped[OF assms] by (simp add: list_ex_iff)

section \<open>Properties\<close>

text \<open>
  C30.  \<open>wait_foreground_group\<close> on at most 100 processes: it never indexes beyond \<open>finished\<close>; it
  returns 1 at the first stop, and otherwise as soon as every process of the group has exited or
  \<open>waitpid\<close> fails, with 2 if one of the processes seen was killed by a signal and 0 if not; and it
  blocks only while no process stopped, no call failed and some process has not exited.
\<close>

theorem foreground_wait_correct:
  assumes "length pids \<le> 100"
  shows "case wait_foreground_group pids evs of
     Returned r rest \<Rightarrow> \<exists>used. evs = used @ rest \<and> wait_over pids False used r
   | Blocked \<Rightarrow> (\<forall>ev \<in> set evs. \<not> is_stop ev \<and> ev \<noteq> Wait_error) \<and> \<not> ready pids evs
   | Overrun \<Rightarrow> False"
  unfolding wait_foreground_ref[OF assms] by (rule wait_ref_correct)

lemma foreground_wait_correct_witness:
  "length [7, 8 :: int] \<le> 100 \<and>
   wait_foreground_group [7, 8] [Status 8 (WSignaled 9), Interrupted, Status 7 (WExited 0)] =
     Returned 2 [] \<and>
   (\<exists>used. [Status 8 (WSignaled 9), Interrupted, Status 7 (WExited 0)] = used @ [] \<and>
           wait_over [7, 8] False used 2)"
proof -
  have r: "wait_foreground_group [7, 8] [Status 8 (WSignaled 9), Interrupted, Status 7 (WExited 0)] =
      Returned 2 []" by code_simp
  show ?thesis
    using foreground_wait_correct[of "[7, 8]"
        "[Status 8 (WSignaled 9), Interrupted, Status 7 (WExited 0)]"] unfolding r by simp
qed

text \<open>
  \<open>wait_foreground_group_timeout\<close> is \<open>wait_foreground_group\<close> when there is no timeout or the
  alarm does not go off; whenever it returns, the disposition of SIGALRM is the one found at the
  call and no alarm is set; and it reports a timeout only if a timeout was asked for and the alarm
  went off while some process had not exited.
\<close>

theorem timeout_wait_correct:
  assumes "length pids \<le> 100" "\<not> alarm_set a"
    and "wait_foreground_group_timeout pids secs a evs = (res, a')"
  shows "(secs \<le> 0 \<or> Alarm_signal \<notin> set evs \<longrightarrow> res = wait_foreground_group pids evs) \<and>
    (\<forall>r rest. res = Returned r rest \<longrightarrow> \<not> alarm_set a' \<and> on_alarm a' = on_alarm a \<and>
       (r = 3 \<longrightarrow> 0 < secs \<and> (\<exists>us. evs = us @ Interrupted # rest \<and> Alarm_signal \<in> set us \<and>
          (\<forall>ev \<in> set us. calm ev) \<and> \<not> ready pids us)))"
proof (intro conjI impI allI)
  have res: "res = timeout_ref pids False (0 < secs) False evs"
    using timeout_wait_ref[OF assms(1,2), of secs evs] assms(3) by simp
  show "secs \<le> 0 \<or> Alarm_signal \<notin> set evs \<Longrightarrow> res = wait_foreground_group pids evs"
    by (auto simp: res wait_foreground_ref[OF assms(1)] timeout_ref_wait)
  fix r rest assume r: "res = Returned r rest"
  show "\<not> alarm_set a'" "on_alarm a' = on_alarm a"
    using timeout_wait_clock[OF assms(3)[unfolded r] assms(2)] by simp_all
  assume "r = 3"
  with r res timeout_ref_3[of pids False "0 < secs" False evs rest]
  have *: "\<exists>us. evs = us @ Interrupted # rest \<and> (\<forall>ev \<in> set us. calm ev) \<and> \<not> ready pids us \<and>
      0 < secs \<and> Alarm_signal \<in> set us" by simp
  then show "0 < secs" by blast
  from * show "\<exists>us. evs = us @ Interrupted # rest \<and> Alarm_signal \<in> set us \<and>
      (\<forall>ev \<in> set us. calm ev) \<and> \<not> ready pids us" by blast
qed

lemma timeout_wait_correct_witness:
  "on_alarm (snd (wait_foreground_group_timeout [7] 5 \<lparr>on_alarm = SIG_DFL, alarm_set = False,
     resume_alarm_fired = True\<rparr> [Interrupted, Alarm_signal, Interrupted])) = SIG_DFL"
proof -
  let ?a = "\<lparr>on_alarm = SIG_DFL, alarm_set = False, resume_alarm_fired = True\<rparr>"
  let ?w = "wait_foreground_group_timeout [7] 5 ?a [Interrupted, Alarm_signal, Interrupted]"
  have w: "?w = (Returned 3 [], ?a)" by code_simp
  have "on_alarm ?a = SIG_DFL \<and> \<not> alarm_set ?a"
    using timeout_wait_correct[OF _ _ w] by simp
  then show ?thesis unfolding w by simp
qed

text \<open>
  An alarm that interrupts \<open>waitpid\<close> ends the wait with result 3 while some process is
  still there; one that is delivered between two calls is noticed only if another signal
  interrupts the wait later.
\<close>

theorem timeout_fires_when_interrupted:
  assumes "length pids \<le> 100" "\<not> alarm_set a" "0 < secs"
    and "\<forall>ev \<in> set xs. calm ev \<and> ev \<noteq> Alarm_signal" "\<forall>ev \<in> set ys. calm ev \<and> ev \<noteq> Interrupted"
    and "\<not> ready pids (xs @ ys)"
  shows "fst (wait_foreground_group_timeout pids secs a (xs @ Alarm_signal # ys @ Interrupted # rest)) =
           Returned 3 rest \<and>
         (xs = [] \<longrightarrow> fst (wait_foreground_group_timeout pids secs a (Alarm_signal # ys)) = Blocked)"
proof (intro conjI impI)
  show "fst (wait_foreground_group_timeout pids secs a (xs @ Alarm_signal # ys @ Interrupted # rest)) =
      Returned 3 rest"
    using assms by (simp add: timeout_wait_ref timeout_ref_armed)
  assume "xs = []"
  with assms have n: "\<not> ready pids ys" by simp
  have "timeout_ref ps sig ar True ys = Blocked"
    if "\<not> ready ps ys" "\<forall>ev \<in> set ys. calm ev \<and> ev \<noteq> Interrupted" for ps sig ar ys
    using that
  proof (induction ys arbitrary: ps sig ar)
    case Nil
    then show ?case by (cases ps) (simp_all add: ready_Nil)
  next
    case (Cons y ys)
    obtain p qs where "ps = p # qs" using not_ready_Nil[OF Cons.prems(1)] by (cases ps) auto
    with Cons show ?case by (simp add: ready_Cons calm_def del: fold_simps)
  qed
  note blocked = this[OF n assms(5)]
  obtain p ps where "pids = p # ps" using not_ready_Nil[OF n] by (cases pids) auto
  then show "fst (wait_foreground_group_timeout pids secs a (Alarm_signal # ys)) = Blocked"
    using assms(1-3) blocked by (simp add: timeout_wait_ref)
qed

lemma timeout_fires_when_interrupted_witness:
  "fst (wait_foreground_group_timeout [7] 5 \<lparr>on_alarm = SIG_DFL, alarm_set = False,
     resume_alarm_fired = True\<rparr> [Alarm_signal]) = Blocked"
  using timeout_fires_when_interrupted[of "[7]" "\<lparr>on_alarm = SIG_DFL, alarm_set = False,
     resume_alarm_fired = True\<rparr>" 5 "[]" "[]"] by (simp add: ready_Nil)

text \<open>
  C34.  At end of input the shell leaves exactly when no process of a job is stopped or the
  previous input was end of input too.  When it leaves, SIGHUP has been sent once to the group of
  every job; when it stays, it has printed the warning and sent nothing, and the next end of
  input makes it leave, whatever the handler does to the table in between.
\<close>

theorem handle_eof_correct:
  assumes "wf_table T"
  shows "case handle_eof (T, t) of (leave, T', t') \<Rightarrow>
    (leave \<longleftrightarrow> previous_eof t \<or>
       \<not> (\<exists>n g ps c. view T n = Some (g, ps, c) \<and> True \<in> snd ` set ps)) \<and>
    jobs T' = jobs T \<and>
    (leave \<longrightarrow> t' = t\<lparr>sent := sent t @
        map (\<lambda>j. (- bj_pgid j, SIGHUP)) (filter (\<lambda>j. bj_pgid j > 0) (jobs T))\<rparr>) \<and>
    (\<not> leave \<longrightarrow> t' = t\<lparr>previous_eof := True\<rparr> \<and>
       err_out T' = err_out T @ ''cshell: there are stopped jobs'' @ NL \<and>
       (\<forall>evs. fst (handle_eof (sigchld_handler evs T', t'))))"
proof -
  have acts: "map (\<lambda>a. (- aj_pgid a, SIGHUP)) (filter (\<lambda>a. aj_pgid a > 0) (get_activities T 100)) =
      map (\<lambda>j. (- bj_pgid j, SIGHUP)) (filter (\<lambda>j. bj_pgid j > 0) (jobs T))"
    unfolding get_activities_all[OF assms] by (simp add: filter_map comp_def activity_of_def)
  have second: "fst (handle_eof (T'', t\<lparr>previous_eof := True\<rparr>))" for T''
    by (simp add: handle_eof_def Let_def)
  show ?thesis
    using stopped_process_iff[OF assms] second
    by (simp add: handle_eof_def Let_def send_sighup_eq acts puts_err_def)
qed

definition idle_tty :: tty where
  "idle_tty = \<lparr>shell_pgid = 2, tty_pgrp = 2, previous_eof = False, signal_newline_needed = False,
     dispositions = (\<lambda>_. SIG_DFL), sent = [], out = []\<rparr>"

lemma handle_eof_correct_witness:
  "wf_table two_procs \<and> fst (handle_eof (two_procs, idle_tty)) \<and>
   sent (snd (snd (handle_eof (two_procs, idle_tty)))) = [(- 7, 1)]"
proof -
  have wf: "wf_table two_procs" by (rule job_reachable_wf[OF two_procs_reachable])
  moreover have leave: "fst (handle_eof (two_procs, idle_tty))" by code_simp
  moreover have "map (\<lambda>j. (- bj_pgid j, SIGHUP)) (filter (\<lambda>j. bj_pgid j > 0) (jobs two_procs)) =
      [(- 7, 1)]" by code_simp
  ultimately show ?thesis
    using handle_eof_correct[OF wf, of idle_tty]
    by (simp add: case_prod_beta idle_tty_def)
qed

end
