(* ===== verification/Job_Commands.thy ===== *)
theory Job_Commands
  imports Terminal Lexer
begin

text \<open>
  The job-control commands: \<open>resume\<close> (\<open>resume.c\<close>), \<open>ping\<close> (\<open>ping.c\<close>) and \<open>activities\<close>
  (\<open>activities.c\<close>).  Each takes the whole token list, whose first token is the command's name.
\<close>

section \<open>resume\<close>

text \<open>The arguments: job number, foreground or not, timeout in seconds; \<open>None\<close> is a syntax error.\<close>

definition parse_timeout :: "bool \<Rightarrow> token list \<Rightarrow> int option" where
  "parse_timeout is_fg toks =
     (case toks of
        [] \<Rightarrow> Some 0
      | t # us \<Rightarrow>
          if \<not> is_fg \<or> tok_value t \<noteq> ''--timeout'' then None
          else case us of
            [] \<Rightarrow> None
          | v # vs \<Rightarrow>
              (case strtol (tok_value v) of (secs, rest) \<Rightarrow>
                 if rest \<noteq> [] \<or> secs \<le> 0 then None
                 else if vs \<noteq> [] then None
                 else Some (to_int secs)))"

definition parse_mode :: "cstring \<Rightarrow> bool option" where
  "parse_mode s = (if s = ''fg'' then Some True else if s = ''bg'' then Some False else None)"

definition parse_resume :: "token list \<Rightarrow> (int \<times> bool \<times> int) option" where
  "parse_resume toks =
     (case toks of
        [] \<Rightarrow> None
      | t # us \<Rightarrow>
          if tok_value t = [] \<or> hd (tok_value t) \<noteq> CHR ''%'' \<or> tl (tok_value t) = [] then None
          else (case strtol (tl (tok_value t)) of (jobno, rest) \<Rightarrow>
            if rest \<noteq> [] \<or> jobno \<le> 0 then None
            else case us of
              [] \<Rightarrow> None
            | m # vs \<Rightarrow>
                (case parse_mode (tok_value m) of
                   None \<Rightarrow> None
                 | Some is_fg \<Rightarrow>
                     map_option (\<lambda>secs. (jobno, is_fg, secs)) (parse_timeout is_fg vs))))"

text \<open>
  What the kernel does meanwhile: the status changes handled between the snapshot and the
  blocking of SIGCHLD, the results of the two \<open>tcsetpgrp\<close>, and the events of the foreground wait.
\<close>

record resume_env =
  re_events :: "(int \<times> wstatus) list"
  re_give :: "cstring option"
  re_reclaim :: "cstring option"
  re_wait :: "wait_event list"
  re_clock :: alarm_clock

definition on_table :: "(job_table \<Rightarrow> bool \<times> job_table) \<Rightarrow> shell \<Rightarrow> shell" where
  "on_table f sh = (snd (f (fst sh)), snd sh)"

definition resume_cmdline :: "activity_job \<Rightarrow> cstring" where
  "resume_cmdline job =
     (if aj_cmdline job \<noteq> [] then snprintf_str 256 (aj_cmdline job)
      else if aj_procs job \<noteq> [] then snprintf_str 256 (ap_name (hd (aj_procs job)))
      else [])"

definition resume_finish :: "int \<Rightarrow> int \<Rightarrow> int \<Rightarrow> cstring \<Rightarrow> shell \<Rightarrow> shell" where
  "resume_finish result jobno pgid cmdline sh =
     (if result = 3 then
        on_table (remove_job_by_number jobno)
          (puts_out (''resume: job timed out'' @ NL) (kill (- pgid) SIGTERM sh))
      else if result = 1 then
        puts_err (NL @ ''['' @ c_dec jobno @ ''] + Stopped '' @ cmdline @ NL)
          (on_table (mark_job_stopped jobno) sh)
      else on_table (remove_job_by_number jobno) (if result = 2 then puts_out NL sh else sh))"

text \<open>The result is the exit code and the new state, \<open>None\<close> while the foreground wait blocks.\<close>

definition exec_resume :: "token list \<Rightarrow> resume_env \<Rightarrow> shell \<Rightarrow> (int \<times> shell) option" where
  "exec_resume toks env sh =
     (case parse_resume (tl toks) of
        None \<Rightarrow> Some (1, puts_out (''resume: invalid syntax'' @ NL) sh)
      | Some (jobno, is_fg, timeout_seconds) \<Rightarrow>
          (case find (\<lambda>a. aj_job_number a = to_int jobno) (get_activities (fst sh) 100) of
             None \<Rightarrow> Some (1, puts_out (''resume: no such job'' @ NL) sh)
           | Some job \<Rightarrow>
               let pids = map ap_pid (aj_procs job);
                   cmdline = resume_cmdline job;
                   n = aj_job_number job;
                   pgid = aj_pgid job;
                   sh1 = (sigchld_handler (re_events env) (fst sh), snd sh)
               in if pids = [] then
                    Some (0, puts_out (''resume: job has already finished'' @ NL)
                               (on_table (remove_job_by_number n) sh1))
                  else
                    let sh2 = on_table (mark_job_running n) (kill (- pgid) SIGCONT sh1)
                    in if \<not> is_fg then
                         Some (0, puts_err (''['' @ c_dec n @ ''] + Running '' @ cmdline @ NL) sh2)
                       else
                         let sh3 = give_terminal_to (re_give env) pgid (puts_out (cmdline @ NL) sh2)
                         in case fst (wait_foreground_group_timeout pids timeout_seconds
                                        (re_clock env) (re_wait env)) of
                              Returned result _ \<Rightarrow>
                                Some (0, resume_finish result n pgid cmdline
                                           (reclaim_terminal (re_reclaim env) sh3))
                            | Blocked \<Rightarrow> None
                            | Overrun \<Rightarrow> None))"

section \<open>ping\<close>

definition parse_non_negative :: "cstring \<Rightarrow> int option" where
  "parse_non_negative s =
     (if s = [] then None
      else case strtol s of (v, rest) \<Rightarrow> if rest \<noteq> [] \<or> v < 0 then None else Some v)"

definition ping_syntax :: "shell \<Rightarrow> int \<times> shell" where
  "ping_syntax sh = (1, puts_out (''ping: invalid syntax'' @ NL) sh)"

definition ping_missing :: "shell \<Rightarrow> int \<times> shell" where
  "ping_missing sh = (1, puts_out (''ping: no such process found'' @ NL) sh)"

definition ping_job :: "cstring \<Rightarrow> int \<Rightarrow> shell \<Rightarrow> int \<times> shell" where
  "ping_job target_str sig_typed sh =
     (case strtol (tl target_str) of (jobno, rest) \<Rightarrow>
        if tl target_str = [] \<or> rest \<noteq> [] \<or> jobno \<le> 0 then ping_syntax sh
        else case find (\<lambda>a. aj_job_number a = to_int jobno) (get_activities (fst sh) 100) of
            None \<Rightarrow> ping_missing sh
          | Some job \<Rightarrow>
              (0, puts_out (''Sent signal '' @ c_dec sig_typed @ '' to '' @ target_str @ NL)
                    (kill (- aj_pgid job) (sig_typed mod 64) sh)))"

definition ping_pid :: "cstring \<Rightarrow> int \<Rightarrow> shell \<Rightarrow> int \<times> shell" where
  "ping_pid target_str sig_typed sh =
     (case strtol target_str of (pid_val, rest) \<Rightarrow>
        if rest \<noteq> [] \<or> pid_val \<le> 0 then ping_syntax sh
        else if \<not> list_ex (\<lambda>a. list_ex (\<lambda>p. ap_pid p = to_int pid_val) (aj_procs a))
                  (get_activities (fst sh) 100)
        then ping_missing sh
        else (0, puts_out (''Sent signal '' @ c_dec sig_typed @ '' to '' @ c_dec pid_val @ NL)
                   (kill (to_int pid_val) (sig_typed mod 64) sh)))"

definition exec_ping :: "token list \<Rightarrow> shell \<Rightarrow> int \<times> shell" where
  "exec_ping toks sh =
     (case tl toks of
        [target_tok, sig_tok] \<Rightarrow>
          (case parse_non_negative (tok_value sig_tok) of
             None \<Rightarrow> ping_syntax sh
           | Some sig_typed \<Rightarrow>
               let target_str = tok_value target_tok
               in if target_str \<noteq> [] \<and> hd target_str = CHR ''%''
                  then ping_job target_str sig_typed sh
                  else ping_pid target_str sig_typed sh)
      | _ \<Rightarrow> ping_syntax sh)"

section \<open>activities\<close>

definition activity_line :: "activity_proc \<Rightarrow> cstring" where
  "activity_line p = ''  '' @ c_dec (ap_pid p) @ '' '' @ ap_name p @ '' ''
     @ (if ap_stopped p then ''Stopped'' else ''Running'') @ NL"

definition exec_activities :: "shell \<Rightarrow> shell" where
  "exec_activities sh =
     fold (\<lambda>a s. fold (\<lambda>p. puts_out (activity_line p)) (aj_procs a)
              (puts_out (''['' @ c_dec (aj_job_number a) @ ''] pgid '' @ c_dec (aj_pgid a) @ NL) s))
       (get_activities (fst sh) MAX_ACTIVITY_PROCS) sh"

section \<open>Projections of the updates\<close>

lemma shell_simps [simp]:
  "fst (puts_out s sh) = fst sh"
  "sent (snd (puts_out s sh)) = sent (snd sh)"
  "tty_pgrp (snd (puts_out s sh)) = tty_pgrp (snd sh)"
  "shell_pgid (snd (puts_out s sh)) = shell_pgid (snd sh)"
  "out (snd (puts_out s sh)) = out (snd sh) @ s"
  "snd (puts_err s sh) = snd sh"
  "jobs (fst (puts_err s sh)) = jobs (fst sh)"
  "next_job_number (fst (puts_err s sh)) = next_job_number (fst sh)"
  "notification_pipe (fst (puts_err s sh)) = notification_pipe (fst sh)"
  "fst (kill pid sig sh) = fst sh"
  "sent (snd (kill pid sig sh)) = sent (snd sh) @ [(pid, sig)]"
  "tty_pgrp (snd (kill pid sig sh)) = tty_pgrp (snd sh)"
  "shell_pgid (snd (kill pid sig sh)) = shell_pgid (snd sh)"
  "fst (on_table f sh) = snd (f (fst sh))"
  "snd (on_table f sh) = snd sh"
  by (simp_all add: puts_out_def puts_err_def kill_def on_table_def)

lemma view_cong: "jobs T = jobs T' \<Longrightarrow> view T = view T'"
  by (simp add: view_def)

lemma wf_table_cong:
  "jobs T = jobs T' \<Longrightarrow> next_job_number T = next_job_number T' \<Longrightarrow>
   notification_pipe T = notification_pipe T' \<Longrightarrow> wf_table T = wf_table T'"
  by (simp add: wf_table_def)

lemma puts_err_table [simp]:
  "view (fst (puts_err s sh)) = view (fst sh)"
  "wf_table (fst (puts_err s sh)) = wf_table (fst sh)"
  by (rule view_cong wf_table_cong; simp)+

lemma tcsetpgrp_simps [simp]:
  "view (fst (tcsetpgrp res pgid sh)) = view (fst sh)"
  "wf_table (fst (tcsetpgrp res pgid sh)) = wf_table (fst sh)"
  "sent (snd (tcsetpgrp res pgid sh)) = sent (snd sh)"
  "shell_pgid (snd (tcsetpgrp res pgid sh)) = shell_pgid (snd sh)"
  "tty_pgrp (snd (tcsetpgrp res pgid sh)) = (if res = None then pgid else tty_pgrp (snd sh))"
  by (simp_all add: tcsetpgrp_def split: option.split)

lemma find_activity:
  assumes "wf_table T" "view T n = Some (g, ps, c)"
  obtains a where "find (\<lambda>a. aj_job_number a = n) (get_activities T 100) = Some a"
    "aj_job_number a = n" "aj_pgid a = g" "map ap_pid (aj_procs a) = map fst ps"
proof -
  have "map_option activity_view (find (\<lambda>a. aj_job_number a = n) (get_activities T 100)) =
      Some (g, ps, c)"
    using table.find_snapshot[OF assms(1)] assms(2) by simp
  then obtain a where a: "find (\<lambda>a. aj_job_number a = n) (get_activities T 100) = Some a"
    "activity_view a = (g, ps, c)" by (cases "find (\<lambda>a. aj_job_number a = n) (get_activities T 100)") auto
  moreover have "aj_job_number a = n" using a(1) by (auto simp: find_Some_iff)
  ultimately show ?thesis by (intro that) (auto simp: activity_view_def comp_def)
qed

lemma find_no_activity:
  assumes "wf_table T" "view T n = None"
  shows "find (\<lambda>a. aj_job_number a = n) (get_activities T 100) = None"
  using table.find_snapshot[OF assms(1), of n] assms(2) by simp

lemma view_states_states: "view_states b (view_states b' v) = view_states b v"
  by (cases v) (auto simp: view_states_def)

lemma parse_resume_number: "parse_resume toks = Some (n, fg, secs) \<Longrightarrow> 0 < n"
  by (auto simp: parse_resume_def split: list.splits if_splits prod.splits option.splits)

lemma parse_resume_int:
  "parse_resume toks = Some (n, fg, secs) \<Longrightarrow> n < 2 ^ 31 \<Longrightarrow> to_int n = n"
  using parse_resume_number[of toks n] by (intro to_int_id) simp_all

lemma resume_finish_effect:
  assumes "wf_table (fst sh)"
  shows "wf_table (fst (resume_finish r n g c sh))"
    "view (fst (resume_finish r n g c sh)) =
       (if r = 1 then (view (fst sh))(n := map_option (view_states True) (view (fst sh) n))
        else (view (fst sh))(n := None))"
    "sent (snd (resume_finish r n g c sh)) = sent (snd sh) @ (if r = 3 then [(- g, SIGTERM)] else [])"
    "tty_pgrp (snd (resume_finish r n g c sh)) = tty_pgrp (snd sh)"
  using assms
  by (simp_all add: resume_finish_def view_mark_stopped view_remove mark_wf remove_wf)


section \<open>Properties\<close>

text \<open>
  \<open>resume %n bg\<close> on a job with a live process sends one SIGCONT to its process group, marks
  its processes running and changes nothing else in the table beyond the status changes that
  the handler saw meanwhile.
\<close>

theorem resume_bg_correct:
  assumes "wf_table T" "parse_resume (tl toks) = Some (n, False, secs)" "n < 2 ^ 31"
    and "view T n = Some (g, ps, c)" "ps \<noteq> []"
  shows "\<exists>T' t'. exec_resume toks env (T, t) = Some (0, T', t') \<and> wf_table T' \<and>
    (let m = fold spec_event (re_events env) (view T)
     in view T' = m(n := map_option (view_states False) (m n))) \<and>
    sent t' = sent t @ [(- g, SIGCONT)] \<and> tty_pgrp t' = tty_pgrp t"
proof -
  obtain a where a: "find (\<lambda>a. aj_job_number a = n) (get_activities T 100) = Some a"
    "aj_job_number a = n" "aj_pgid a = g" "map ap_pid (aj_procs a) = map fst ps"
    using find_activity[OF assms(1,4)] by blast
  let ?T = "sigchld_handler (re_events env) T"
  have wf: "wf_table ?T" using assms(1) by (rule sigchld_handler_wf)
  obtain T' t' where e: "exec_resume toks env (T, t) = Some (0, T', t')"
    and r: "(T', t') = puts_err (''['' @ c_dec n @ ''] + Running '' @ resume_cmdline a @ NL)
      (on_table (mark_job_running n) (kill (- g) SIGCONT (?T, t)))"
    using assms(2,5) a parse_resume_int[OF assms(2,3)]
    by (simp add: exec_resume_def Let_def) (metis prod.collapse)
  have "wf_table T'" "view T' = (view ?T)(n := map_option (view_states False) (view ?T n))"
    "sent t' = sent t @ [(- g, SIGCONT)]" "tty_pgrp t' = tty_pgrp t"
    using arg_cong[OF r, of fst] arg_cong[OF r, of snd] wf
    by (simp_all add: mark_wf view_mark_running)
  with e show ?thesis by (simp add: view_handler[OF assms(1)] Let_def)
qed

lemma resume_fg_effect:
  assumes "wf_table T" "parse_resume (tl toks) = Some (n, True, secs)" "n < 2 ^ 31"
    and "view T n = Some (g, ps, c)" "ps \<noteq> []"
  shows "case fst (wait_foreground_group_timeout (map fst ps) secs (re_clock env) (re_wait env)) of
      Returned r rest \<Rightarrow>
        (\<exists>T' t'. exec_resume toks env (T, t) = Some (0, T', t') \<and> wf_table T' \<and>
           (let m = fold spec_event (re_events env) (view T)
            in view T' = (if r = 1 then m(n := map_option (view_states True) (m n)) else m(n := None))) \<and>
           sent t' = sent t @ (- g, SIGCONT) # (if r = 3 then [(- g, SIGTERM)] else []) \<and>
           (re_reclaim env = None \<longrightarrow> tty_pgrp t' = shell_pgid t))
    | _ \<Rightarrow> exec_resume toks env (T, t) = None"
proof -
  obtain a where a: "find (\<lambda>a. aj_job_number a = n) (get_activities T 100) = Some a"
    "aj_job_number a = n" "aj_pgid a = g" "map ap_pid (aj_procs a) = map fst ps"
    using find_activity[OF assms(1,4)] by blast
  let ?T = "sigchld_handler (re_events env) T"
  let ?w = "fst (wait_foreground_group_timeout (map fst ps) secs (re_clock env) (re_wait env))"
  have wf: "wf_table ?T" using assms(1) by (rule sigchld_handler_wf)
  let ?sh2 = "on_table (mark_job_running n) (kill (- g) SIGCONT (?T, t))"
  let ?sh3 = "give_terminal_to (re_give env) g (puts_out (resume_cmdline a @ NL) ?sh2)"
  let ?sh4 = "reclaim_terminal (re_reclaim env) ?sh3"
  have e: "exec_resume toks env (T, t) = (case ?w of
      Returned r _ \<Rightarrow> Some (0, resume_finish r n g (resume_cmdline a) ?sh4)
    | Blocked \<Rightarrow> None | Overrun \<Rightarrow> None)"
    using assms(2,5) a parse_resume_int[OF assms(2,3)] by (simp add: exec_resume_def Let_def)
  show ?thesis
  proof (cases ?w)
    case (Returned r rest)
    have v: "view (fst ?sh4) = (view ?T)(n := map_option (view_states False) (view ?T n))"
      "wf_table (fst ?sh4)" "sent (snd ?sh4) = sent t @ [(- g, SIGCONT)]"
      "re_reclaim env = None \<Longrightarrow> tty_pgrp (snd ?sh4) = shell_pgid t"
      using wf by (simp_all add: reclaim_terminal_def give_terminal_to_def view_mark_running mark_wf)
    note f = resume_finish_effect[OF v(2), of r n g "resume_cmdline a"]
    obtain T' t' where T': "resume_finish r n g (resume_cmdline a) ?sh4 = (T', t')" by fastforce
    have "view T' = (if r = 1 then (view ?T)(n := map_option (view_states True) (view ?T n))
        else (view ?T)(n := None))"
      using f(2) unfolding T' v(1)
      by (cases "view ?T n") (simp_all add: view_states_states option.map_comp comp_def)
    moreover have "wf_table T'" using f(1) by (simp add: T')
    moreover have "sent t' = sent t @ (- g, SIGCONT) # (if r = 3 then [(- g, SIGTERM)] else [])"
      using f(3) by (simp add: T' v(3))
    moreover have "re_reclaim env = None \<longrightarrow> tty_pgrp t' = shell_pgid t"
      using f(4) v(4) by (simp add: T')
    ultimately show ?thesis
      using e by (simp add: Returned T' view_handler[OF assms(1)] Let_def)
  qed (use e in simp_all)
qed


text \<open>
  C31.  \<open>resume %n fg\<close> on a job with a live process sends SIGCONT to its group, waits for exactly its
  live processes and does not come back while that wait blocks.  When a process stops, the job
  is marked stopped and kept; otherwise it is removed, after a SIGTERM to the group if the wait
  timed out.  No other job changes, and the shell owns the terminal again.
\<close>

theorem resume_fg_correct:
  assumes "wf_table T" "parse_resume (tl toks) = Some (n, True, secs)" "n < 2 ^ 31"
    and "view T n = Some (g, ps, c)" "ps \<noteq> []"
  shows "case fst (wait_foreground_group_timeout (map fst ps) secs (re_clock env) (re_wait env)) of
      Returned r rest \<Rightarrow>
        (\<exists>T' t'. exec_resume toks env (T, t) = Some (0, T', t') \<and> wf_table T' \<and>
           (let m = fold spec_event (re_events env) (view T)
            in view T' = (if r = 1 then m(n := map_option (view_states True) (m n)) else m(n := None))) \<and>
           sent t' = sent t @ (- g, SIGCONT) # (if r = 3 then [(- g, SIGTERM)] else []) \<and>
           (re_reclaim env = None \<longrightarrow> tty_pgrp t' = shell_pgid t))
    | _ \<Rightarrow> exec_resume toks env (T, t) = None"
  using assms by (rule resume_fg_effect)

definition tok :: "cstring \<Rightarrow> token" where
  "tok s = \<lparr>tok_type = WORD, tok_value = s\<rparr>"

lemma tok_value_tok [simp]: "tok_value (tok s) = s"
  by (simp add: tok_def)

definition quiet_env :: "wait_event list \<Rightarrow> resume_env" where
  "quiet_env evs = \<lparr>re_events = [], re_give = None, re_reclaim = None, re_wait = evs,
     re_clock = \<lparr>on_alarm = SIG_DFL, alarm_set = False, resume_alarm_fired = False\<rparr>\<rparr>"

lemma two_procs_view:
  "wf_table two_procs" "view two_procs 1 = Some (7, [(7, False), (8, False)], ''sleep 9 | cat'')"
  by (rule job_reachable_wf[OF two_procs_reachable]) code_simp

lemma resume_bg_correct_witness:
  "\<exists>T' t'. exec_resume [tok ''resume'', tok ''%1'', tok ''bg''] (quiet_env []) (two_procs, idle_tty) =
       Some (0, T', t') \<and> sent t' = [(- 7, 18)]"
proof -
  have p: "parse_resume (tl [tok ''resume'', tok ''%1'', tok ''bg'']) = Some (1, False, 0)"
    by code_simp
  show ?thesis
    using resume_bg_correct[OF two_procs_view(1) p _ two_procs_view(2), of "quiet_env []" idle_tty]
    by (auto simp: SIGCONT_def idle_tty_def)
qed

lemma resume_fg_correct_witness:
  "\<exists>T' t'. exec_resume [tok ''resume'', tok ''%1'', tok ''fg'', tok ''--timeout'', tok ''9'']
       (quiet_env [Status 7 (WExited 0), Alarm_signal, Interrupted]) (two_procs, idle_tty) =
       Some (0, T', t') \<and> view T' 1 = None \<and> sent t' = [(- 7, 18), (- 7, 15)]"
proof -
  let ?env = "quiet_env [Status 7 (WExited 0), Alarm_signal, Interrupted]"
  have p: "parse_resume (tl [tok ''resume'', tok ''%1'', tok ''fg'', tok ''--timeout'', tok ''9'']) =
      Some (1, True, 9)" by code_simp
  have w: "fst (wait_foreground_group_timeout (map fst [(7, False), (8, False)]) 9
      (re_clock ?env) (re_wait ?env)) = Returned 3 []" by code_simp
  show ?thesis
    using resume_fg_correct[OF two_procs_view(1) p _ two_procs_view(2), of ?env idle_tty]
    unfolding w by (auto simp: SIGCONT_def SIGTERM_def idle_tty_def Let_def)
qed

text \<open>
  \<open>resume\<close> with arguments that are not \<open>%n fg\<close>, \<open>%n bg\<close> or \<open>%n fg --timeout s\<close> with positive
  numbers, or with the number of no job, prints one line, returns 1, sends no signal and leaves the
  table as it is.
\<close>

theorem resume_errors:
  assumes "wf_table T"
    and "parse_resume (tl toks) = None \<or>
         (\<exists>n fg secs. parse_resume (tl toks) = Some (n, fg, secs) \<and> view T (to_int n) = None)"
  shows "\<exists>msg \<in> {''resume: invalid syntax'', ''resume: no such job''}.
           exec_resume toks env (T, t) = Some (1, T, t\<lparr>out := out t @ msg @ NL\<rparr>)"
  using assms find_no_activity[OF assms(1)]
  by (auto simp: exec_resume_def puts_out_def)

lemma resume_errors_witness:
  "exec_resume [tok ''resume'', tok ''%1'', tok ''up''] (quiet_env []) (two_procs, idle_tty) \<noteq> None"
proof -
  have "parse_resume (tl [tok ''resume'', tok ''%1'', tok ''up'']) = None" by code_simp
  then show ?thesis using resume_errors[OF two_procs_view(1)] by force
qed

subsection \<open>ping\<close>

lemma parse_non_negative_dec: "int s \<le> LONG_MAX \<Longrightarrow> parse_non_negative (dec_nat s) = Some (int s)"
  using hd_dec_nat_digit[of s] strtol_dec_nat[of s "[]"] by (simp add: parse_non_negative_def)

lemma strtol_dec: "int n \<le> LONG_MAX \<Longrightarrow> strtol (dec_nat n) = (int n, [])"
  using strtol_dec_nat[of n "[]"] by simp

text \<open>
  \<open>ping %n s\<close> sends the signal \<open>s\<close> mod 64 to the process group of job \<open>n\<close> if there is such a job
  and otherwise only reports it.
\<close>

theorem ping_job_correct:
  assumes "wf_table T" "0 < n" "int n < 2 ^ 31" "int s \<le> LONG_MAX"
    and "toks = [cmd, target, sig]" "tok_value target = ''%'' @ dec_nat n" "tok_value sig = dec_nat s"
  shows "exec_ping toks (T, t) = (case view T (int n) of
      None \<Rightarrow> (1, T, t\<lparr>out := out t @ ''ping: no such process found'' @ NL\<rparr>)
    | Some (g, ps, c) \<Rightarrow>
        (0, T, t\<lparr>sent := sent t @ [(- g, int s mod 64)],
                 out := out t @ ''Sent signal '' @ c_dec (int s) @ '' to %'' @ dec_nat n @ NL\<rparr>))"
proof -
  have n: "int n \<le> LONG_MAX" "to_int (int n) = int n"
    using assms(2,3) by (simp_all add: LONG_MAX_def to_int_id)
  have e: "exec_ping toks (T, t) = ping_job (tok_value target) (int s) (T, t)"
    using assms(4-7) by (simp add: exec_ping_def parse_non_negative_dec)
  show ?thesis
  proof (cases "view T (int n)")
    case None
    then show ?thesis
      using find_no_activity[OF assms(1) None] hd_dec_nat_digit[of n] assms(2) n
      by (simp add: e assms(6) ping_job_def strtol_dec ping_missing_def puts_out_def)
  next
    case (Some v)
    obtain g ps c where v: "v = (g, ps, c)" using prod_cases3 by blast
    obtain a where "find (\<lambda>a. aj_job_number a = int n) (get_activities T 100) = Some a"
      "aj_pgid a = g" using find_activity[OF assms(1) Some[unfolded v]] by blast
    then show ?thesis
      using hd_dec_nat_digit[of n] assms(2) n
      by (simp add: e assms(6) ping_job_def strtol_dec puts_out_def kill_def Some v)
  qed
qed

lemma ping_job_correct_witness:
  "sent (snd (snd (exec_ping [tok ''ping'', tok ''%1'', tok ''73''] (two_procs, idle_tty)))) = [(- 7, 9)]"
proof -
  have d: "dec_nat (Suc 0) = ''1''" "dec_nat 73 = ''73''" by code_simp+
  show ?thesis
    using ping_job_correct[OF two_procs_view(1), of 1 73
        "[tok ''ping'', tok ''%1'', tok ''73'']" "tok ''ping''" "tok ''%1''" "tok ''73''" idle_tty]
    by (simp add: d two_procs_view(2) LONG_MAX_def idle_tty_def)
qed

text \<open>
  \<open>ping p s\<close> sends the signal \<open>s\<close> mod 64 to the process \<open>p\<close> exactly if it is a live process of
  some job.
\<close>

theorem ping_pid_correct:
  assumes "wf_table T" "0 < p" "int p < 2 ^ 31" "int s \<le> LONG_MAX"
    and "toks = [cmd, target, sig]" "tok_value target = dec_nat p" "tok_value sig = dec_nat s"
  shows "exec_ping toks (T, t) =
    (if \<exists>n g ps c. view T n = Some (g, ps, c) \<and> int p \<in> fst ` set ps
     then (0, T, t\<lparr>sent := sent t @ [(int p, int s mod 64)],
                   out := out t @ ''Sent signal '' @ c_dec (int s) @ '' to '' @ c_dec (int p) @ NL\<rparr>)
     else (1, T, t\<lparr>out := out t @ ''ping: no such process found'' @ NL\<rparr>))"
proof -
  have p: "int p \<le> LONG_MAX" "to_int (int p) = int p"
    using assms(2,3) by (simp_all add: LONG_MAX_def to_int_id)
  obtain d ds where d: "dec_nat p = d # ds" "c_isdigit d"
    using hd_dec_nat_digit[of p] by (cases "dec_nat p") auto
  then have "d \<noteq> CHR ''%''" by (auto simp: c_isdigit_def)
  then have e: "exec_ping toks (T, t) = ping_pid (dec_nat p) (int s) (T, t)"
    using assms(4-7) d by (simp add: exec_ping_def parse_non_negative_dec)
  have "list_ex (\<lambda>a. list_ex (\<lambda>q. ap_pid q = int p) (aj_procs a)) (get_activities T 100) \<longleftrightarrow>
      (\<exists>a \<in> set (get_activities T 100). int p \<in> ap_pid ` set (aj_procs a))"
    by (simp add: list_ex_iff image_iff eq_commute)
  also have "\<dots> \<longleftrightarrow> (\<exists>n g ps c. view T n = Some (g, ps, c) \<and> int p \<in> fst ` set ps)"
    by (rule table.snapshot_pid[OF assms(1)])
  finally have "list_ex (\<lambda>a. list_ex (\<lambda>q. ap_pid q = int p) (aj_procs a)) (get_activities T 100) \<longleftrightarrow>
      (\<exists>n g ps c. view T n = Some (g, ps, c) \<and> int p \<in> fst ` set ps)" .
  then show ?thesis
    using assms(2) p
    by (simp add: e ping_pid_def strtol_dec ping_missing_def puts_out_def kill_def)
qed

lemma ping_pid_correct_witness:
  "fst (exec_ping [tok ''ping'', tok ''8'', tok ''9''] (two_procs, idle_tty)) = 0"
proof -
  have d: "dec_nat 8 = ''8''" "dec_nat 9 = ''9''" by code_simp+
  have "\<exists>n g ps c. view two_procs n = Some (g, ps, c) \<and> 8 \<in> fst ` set ps"
    using two_procs_view(2) by force
  then show ?thesis
    using ping_pid_correct[OF two_procs_view(1), of 8 9
        "[tok ''ping'', tok ''8'', tok ''9'']" "tok ''ping''" "tok ''8''" "tok ''9''" idle_tty]
    by (simp add: d LONG_MAX_def)
qed


subsection \<open>activities\<close>

lemma puts_out_fold:
  "fold (\<lambda>x. puts_out (f x)) xs sh = (fst sh, (snd sh)\<lparr>out := out (snd sh) @ concat (map f xs)\<rparr>)"
  by (induction xs arbitrary: sh) (simp_all add: puts_out_def)

lemma exec_activities_eq:
  "exec_activities sh = (fst sh, (snd sh)\<lparr>out := out (snd sh) @
     concat (map (\<lambda>a. (''['' @ c_dec (aj_job_number a) @ ''] pgid '' @ c_dec (aj_pgid a) @ NL)
                      @ concat (map activity_line (aj_procs a))) (get_activities (fst sh) 100))\<rparr>)"
proof -
  have "fold (\<lambda>a s. fold (\<lambda>p. puts_out (activity_line p)) (aj_procs a) (puts_out (h a) s)) as sh =
      (fst sh, (snd sh)\<lparr>out := out (snd sh) @
         concat (map (\<lambda>a. h a @ concat (map activity_line (aj_procs a))) as)\<rparr>)" for h as
    by (induction as arbitrary: sh) (simp_all add: puts_out_fold puts_out_def)
  then show ?thesis by (simp only: exec_activities_def MAX_ACTIVITY_PROCS_def)
qed

lemma activity_line_of:
  assumes "length (pi_name p) < 64"
  shows "activity_line (activity_of_proc p) = ''  '' @ c_dec (pi_pid p) @ '' '' @ pi_name p @ '' ''
     @ (if pi_state p = PROC_STOPPED then ''Stopped'' else ''Running'') @ NL"
  using assms by (simp add: activity_line_def activity_of_proc_def snprintf_str_id)

text \<open>
  \<open>activities\<close> prints, for every job of the table, its number and group and then one line for
  each of its processes that has not exited, with its name and state, and changes nothing.
\<close>

theorem activities_lists_live_processes:
  assumes "wf_table T"
  shows "exec_activities (T, t) = (T, t\<lparr>out := out t @
    concat (map (\<lambda>j. (''['' @ c_dec (job_number j) @ ''] pgid '' @ c_dec (bj_pgid j) @ NL) @
      concat (map (\<lambda>p. ''  '' @ c_dec (pi_pid p) @ '' '' @ pi_name p @ '' ''
                 @ (if pi_state p = PROC_STOPPED then ''Stopped'' else ''Running'') @ NL)
        (filter (\<lambda>p. \<not> pi_exited p) (bj_procs j)))) (jobs T))\<rparr>)"
proof -
  let ?line = "\<lambda>p. ''  '' @ c_dec (pi_pid p) @ '' '' @ pi_name p @ '' ''
                 @ (if pi_state p = PROC_STOPPED then ''Stopped'' else ''Running'') @ NL"
  have "concat (map activity_line (aj_procs (activity_of j))) =
      concat (map ?line (filter (\<lambda>p. \<not> pi_exited p) (bj_procs j)))" if "j \<in> set (jobs T)" for j
  proof -
    have "\<forall>p \<in> set (bj_procs j). length (pi_name p) < 64"
      using assms that by (simp add: wf_table_def wf_jobs_def wf_job_def)
    then have "map (\<lambda>p. activity_line (activity_of_proc p)) (filter (\<lambda>p. \<not> pi_exited p) (bj_procs j)) =
        map ?line (filter (\<lambda>p. \<not> pi_exited p) (bj_procs j))"
      by (intro map_cong refl activity_line_of) simp
    then show ?thesis by (simp add: activity_of_def comp_def del: map_eq_conv)
  qed
  then have "map (\<lambda>j. (''['' @ c_dec (aj_job_number (activity_of j)) @ ''] pgid ''
        @ c_dec (aj_pgid (activity_of j)) @ NL) @ concat (map activity_line (aj_procs (activity_of j)))) (jobs T) =
      map (\<lambda>j. (''['' @ c_dec (job_number j) @ ''] pgid '' @ c_dec (bj_pgid j) @ NL) @
        concat (map ?line (filter (\<lambda>p. \<not> pi_exited p) (bj_procs j)))) (jobs T)"
    by (intro map_cong refl) (simp add: activity_of_def)
  then show ?thesis
    by (simp add: exec_activities_eq get_activities_all[OF assms] comp_def del: map_eq_conv)
qed

lemma activities_lists_live_processes_witness:
  "out (snd (exec_activities (sigchld_handler [(7, WExited 0), (8, WStopped 20)] two_procs, idle_tty))) =
     ''[1] pgid 7'' @ NL @ ''  8 cat Stopped'' @ NL"
proof -
  let ?T = "sigchld_handler [(7, WExited 0), (8, WStopped 20)] two_procs"
  have wf: "wf_table ?T" using two_procs_view(1) by (rule sigchld_handler_wf)
  show ?thesis unfolding activities_lists_live_processes[OF wf] by code_simp
qed

subsection \<open>A process reaped by the foreground wait\<close>

lemma spec_event_keeps:
  assumes "m n = Some (g, ps, c)" "p \<in> fst ` set ps" "\<not> (fst ev = p \<and> is_exit (snd ev))"
  shows "\<exists>ps'. spec_event ev m n = Some (g, ps', c) \<and> p \<in> fst ` set ps'"
proof -
  let ?ps = "if is_exit (snd ev) then filter (\<lambda>q. fst q \<noteq> fst ev) ps
     else map (\<lambda>q. (fst q, if fst q = fst ev then WIFSTOPPED (snd ev) else snd q)) ps"
  have "p \<in> fst ` set ?ps" using assms(2,3) by (auto simp: image_iff)
  then show ?thesis using assms(1) by (simp add: spec_event_def event_view_def)
qed

lemma fold_event_keeps:
  "m n = Some (g, ps, c) \<Longrightarrow> p \<in> fst ` set ps \<Longrightarrow> \<forall>ev \<in> set evs. \<not> (fst ev = p \<and> is_exit (snd ev)) \<Longrightarrow>
   \<exists>ps'. fold spec_event evs m n = Some (g, ps', c) \<and> p \<in> fst ` set ps'"
proof (induction evs arbitrary: m ps)
  case (Cons ev evs)
  then obtain ps' where "spec_event ev m n = Some (g, ps', c)" "p \<in> fst ` set ps'"
    using spec_event_keeps[of m n g ps c p ev] by auto
  with Cons show ?case by simp
qed auto

lemma unfinished_job_kept:
  assumes "wf_table T" "view T n = Some (g, ps, c)" "p \<in> fst ` set ps"
    and "\<forall>ev \<in> set evs. \<not> (fst ev = p \<and> is_exit (snd ev))"
  shows "view (drain_background_notifications (sigchld_handler evs T)) n \<noteq> None"
proof -
  obtain ps' where "view (sigchld_handler evs T) n = Some (g, ps', c)" "p \<in> fst ` set ps'"
    using fold_event_keeps[of "view T" n, OF assms(2-4)] by (auto simp: view_handler[OF assms(1)])
  then show ?thesis
    by (cases ps') (simp_all add: view_drain[OF sigchld_handler_wf[OF assms(1)]])
qed

definition stale_run :: "shell option" where
  "stale_run = map_option snd (exec_resume [tok ''resume'', tok ''%1'', tok ''fg'']
     (quiet_env [Status 7 (WExited 0), Status 8 (WStopped 20)]) (two_procs, idle_tty))"

lemma stale_run_view:
  obtains T' t' where "stale_run = Some (T', t')" "wf_table T'"
    "view T' 1 = Some (7, [(7, True), (8, True)], ''sleep 9 | cat'')"
proof -
  let ?env = "quiet_env [Status 7 (WExited 0), Status 8 (WStopped 20)]"
  have "parse_resume (tl [tok ''resume'', tok ''%1'', tok ''fg'']) = Some (1, True, 0)" by code_simp
  note fg = resume_fg_effect[OF two_procs_view(1) this _ two_procs_view(2), of ?env idle_tty]
  have w: "fst (wait_foreground_group_timeout (map fst [(7, False), (8, False)]) 0
      (re_clock ?env) (re_wait ?env)) = Returned 1 []" by code_simp
  show ?thesis
    using fg that unfolding w
    by (auto simp: stale_run_def quiet_env_def two_procs_view(2) view_states_def Let_def)
qed



end
