(* ===== verification/Frecency.thy ===== *)
theory Frecency
  imports Shell_Prelude
begin

text \<open>
  The directory history behind \<open>hop\<close>, \<open>c-shell/src/frecency.c\<close>: the array \<open>entries\<close> with
  \<open>entry_count\<close> entries is a list, \<open>long long\<close> values are integers with a fault where the C
  arithmetic would overflow.  The log file is a text; which file that is depends on the current
  directory and is the business of \<open>Hop\<close>.
\<close>

section \<open>State\<close>

definition MAX_ENTRIES :: nat where "MAX_ENTRIES = 1000"
definition PATH_MAX :: nat where "PATH_MAX = 4096"

record frecency_entry =
  fe_path :: cstring
  frequency :: int
  last_visit :: int

record frecency =
  entries :: "frecency_entry list"
  visit_counter :: int

definition no_frecency :: frecency where
  "no_frecency = \<lparr>entries = [], visit_counter = 0\<rparr>"

definition ll_add :: "int \<Rightarrow> int \<Rightarrow> fault + int" where
  "ll_add a b = (if LONG_MIN \<le> a + b \<and> a + b \<le> LONG_MAX then Inr (a + b) else Inl Int_Overflow)"

definition ll_mul :: "int \<Rightarrow> int \<Rightarrow> fault + int" where
  "ll_mul a b = (if LONG_MIN \<le> a * b \<and> a * b \<le> LONG_MAX then Inr (a * b) else Inl Int_Overflow)"

section \<open>The log file\<close>

text \<open>\<open>sscanf(line, "%lld %lld %[^\n]", ...) == 3\<close>.\<close>

definition scan_entry :: "cstring \<Rightarrow> (int \<times> int \<times> cstring) option" where
  "scan_entry line =
     (case scan_lld line of
        None \<Rightarrow> None
      | Some (f, r1) \<Rightarrow>
          (case scan_lld r1 of
             None \<Rightarrow> None
           | Some (l, r2) \<Rightarrow>
               let p = takeWhile (\<lambda>c. c \<noteq> CHR 0x0A) (dropWhile c_isspace r2)
               in if p = [] then None else Some (f, l, p)))"

fun load_loop :: "cstring list \<Rightarrow> frecency \<Rightarrow> fault + frecency" where
  "load_loop [] F = Inr F"
| "load_loop (line # lines) F =
     (if MAX_ENTRIES \<le> length (entries F) then Inr F
      else case scan_entry line of
        None \<Rightarrow> load_loop lines F
      | Some (f, l, p) \<Rightarrow>
          if PATH_MAX \<le> length p then Inl Array_Overflow
          else load_loop lines
                 \<lparr>entries = entries F @ [\<lparr>fe_path = p, frequency = f, last_visit = l\<rparr>],
                  visit_counter = (if l > visit_counter F then l else visit_counter F)\<rparr>)"

definition load_frecency :: "cstring option \<Rightarrow> frecency \<Rightarrow> fault + frecency" where
  "load_frecency file F =
     (case file of None \<Rightarrow> Inr F | Some text \<Rightarrow> load_loop (fgets_lines (PATH_MAX + 99) text) F)"

definition init_frecency :: "cstring option \<Rightarrow> fault + frecency" where
  "init_frecency file = load_frecency file no_frecency"

definition entry_text :: "frecency_entry \<Rightarrow> cstring" where
  "entry_text e = c_dec (frequency e) @ '' '' @ c_dec (last_visit e) @ '' '' @ fe_path e @ [CHR 0x0A]"

definition save_frecency :: "frecency \<Rightarrow> cstring" where
  "save_frecency F = concat (map entry_text (entries F))"

section \<open>Visits\<close>

text \<open>The flag tells whether \<open>save_frecency\<close> is called.\<close>

definition record_visit :: "cstring \<Rightarrow> frecency \<Rightarrow> fault + (frecency \<times> bool)" where
  "record_visit path F =
     bind_fault (ll_add (visit_counter F) 1) (\<lambda>vc.
       case find (\<lambda>e. fe_path e = path) (entries F) of
         Some e \<Rightarrow>
           bind_fault (ll_add (frequency e) 1) (\<lambda>f.
             Inr (\<lparr>entries = upd_first (\<lambda>e. fe_path e = path)
                                (\<lambda>e. e\<lparr>frequency := f, last_visit := vc\<rparr>) (entries F),
                   visit_counter = vc\<rparr>, True))
       | None \<Rightarrow>
           if MAX_ENTRIES \<le> length (entries F) then Inr (F\<lparr>visit_counter := vc\<rparr>, False)
           else if PATH_MAX \<le> length path then Inl Array_Overflow
           else Inr (\<lparr>entries = entries F @ [\<lparr>fe_path = path, frequency = 1, last_visit = vc\<rparr>],
                      visit_counter = vc\<rparr>, True))"

section \<open>The best match\<close>

definition score :: "frecency_entry \<Rightarrow> fault + int" where
  "score e = bind_fault (ll_mul (frequency e) 1000) (\<lambda>s. ll_add s (last_visit e))"

text \<open>\<open>exists p\<close> is \<open>access(p, F_OK) == 0\<close>.\<close>

fun match_loop :: "(cstring \<Rightarrow> bool) \<Rightarrow> cstring \<Rightarrow> frecency_entry list \<Rightarrow> nat \<Rightarrow> int \<Rightarrow> nat option \<Rightarrow>
    fault + nat option" where
  "match_loop exists name [] i best_score best_index = Inr best_index"
| "match_loop exists name (e # es) i best_score best_index =
     (if \<not> strstr (fe_path e) name then match_loop exists name es (i + 1) best_score best_index
      else if \<not> exists (fe_path e) then match_loop exists name es (i + 1) best_score best_index
      else bind_fault (score e) (\<lambda>s.
        if best_index = None \<or> s > best_score
        then match_loop exists name es (i + 1) s (Some i)
        else match_loop exists name es (i + 1) best_score best_index))"

definition find_frecency_match :: "(cstring \<Rightarrow> bool) \<Rightarrow> cstring \<Rightarrow> frecency \<Rightarrow> fault + cstring option" where
  "find_frecency_match exists name F =
     bind_fault (match_loop exists name (entries F) 0 (- 1) None) (\<lambda>best_index.
       Inr (map_option (\<lambda>i. fe_path (entries F ! i)) best_index))"

section \<open>Well-formed histories\<close>

text \<open>
  Paths as \<open>getcwd\<close> returns them, without newline and starting with a slash, each once; positive
  counts; no visit after the current one; and numbers far enough from the ends of \<open>long long\<close>
  for the scores.
\<close>

definition wf_entry :: "frecency_entry \<Rightarrow> bool" where
  "wf_entry e \<longleftrightarrow> fe_path e \<noteq> [] \<and> hd (fe_path e) = CHR ''/'' \<and> CHR 0x0A \<notin> set (fe_path e) \<and>
     length (fe_path e) < PATH_MAX \<and> 1 \<le> frequency e \<and> 1 \<le> last_visit e"

definition wf_frecency :: "int \<Rightarrow> frecency \<Rightarrow> bool" where
  "wf_frecency B F \<longleftrightarrow> length (entries F) \<le> MAX_ENTRIES \<and> (\<forall>e \<in> set (entries F). wf_entry e) \<and>
     distinct (map fe_path (entries F)) \<and>
     (\<forall>e \<in> set (entries F). frequency e \<le> visit_counter F \<and> last_visit e \<le> visit_counter F) \<and>
     0 \<le> visit_counter F \<and> visit_counter F \<le> B"

text \<open>The bound up to which no score overflows.\<close>

definition MAX_VISITS :: int where "MAX_VISITS = 9000000000000000"

abbreviation wf_history :: "frecency \<Rightarrow> bool" where
  "wf_history F \<equiv> wf_frecency MAX_VISITS F"

section \<open>Round trip through the log\<close>

lemma length_dec_nat: "n < 10 ^ Suc k \<Longrightarrow> length (dec_nat n) \<le> Suc k"
proof (induction k arbitrary: n)
  case 0
  then show ?case by (subst dec_nat.simps) simp
next
  case (Suc k)
  show ?case
  proof (cases "n < 10")
    case True
    then show ?thesis by (subst dec_nat.simps) simp
  next
    case False
    have "n div 10 < 10 ^ Suc k" using Suc.prems by simp
    then show ?thesis using False Suc.IH by (subst dec_nat.simps) simp
  qed
qed

lemma length_c_dec: "0 \<le> i \<Longrightarrow> i \<le> LONG_MAX \<Longrightarrow> length (c_dec i) \<le> 19"
proof -
  assume "0 \<le> i" "i \<le> LONG_MAX"
  then have "nat i < 10 ^ Suc 18" by (simp add: LONG_MAX_def)
  then show ?thesis using length_dec_nat \<open>0 \<le> i\<close> by (fastforce simp: c_dec_nonneg)
qed

lemma c_dec_no_newline: "0 \<le> i \<Longrightarrow> CHR 0x0A \<notin> set (c_dec i)"
  using dec_nat_digits[of "nat i"] by (auto simp: c_dec_nonneg c_isdigit_def)

lemma scan_lld_space [text_simps]: "scan_lld (CHR '' '' # s) = scan_lld s"
  by (simp add: scan_lld_def c_isspace_def)

lemma not_digit_space [simp]: "\<not> c_isdigit (CHR '' '')"
  by (simp add: c_isdigit_def)

definition printable :: "frecency_entry \<Rightarrow> bool" where
  "printable e \<longleftrightarrow> wf_entry e \<and> frequency e \<le> LONG_MAX \<and> last_visit e \<le> LONG_MAX"

lemma scan_entry_text:
  assumes "printable e"
  shows "scan_entry (entry_text e) = Some (frequency e, last_visit e, fe_path e)"
proof -
  obtain c cs where p: "fe_path e = c # cs" "c = CHR ''/''" "CHR 0x0A \<notin> set (fe_path e)"
    using assms by (cases "fe_path e") (auto simp: printable_def wf_entry_def)
  have "LONG_MIN \<le> frequency e" "LONG_MIN \<le> last_visit e"
    using assms by (simp_all add: printable_def wf_entry_def LONG_MIN_def)
  then have "scan_lld (entry_text e) =
      Some (frequency e, '' '' @ c_dec (last_visit e) @ '' '' @ fe_path e @ [CHR 0x0A])"
    "scan_lld ('' '' @ c_dec (last_visit e) @ '' '' @ fe_path e @ [CHR 0x0A]) =
      Some (last_visit e, '' '' @ fe_path e @ [CHR 0x0A])"
    using assms by (simp_all add: entry_text_def text_simps printable_def)
  moreover have "dropWhile c_isspace ('' '' @ fe_path e @ [CHR 0x0A]) = fe_path e @ [CHR 0x0A]"
    using p by (simp add: c_isspace_def)
  moreover have "takeWhile (\<lambda>c. c \<noteq> CHR 0x0A) (fe_path e @ [CHR 0x0A]) = fe_path e"
    using p(3) by (subst takeWhile_append2) auto
  ultimately show ?thesis using p(1) by (simp add: scan_entry_def Let_def)
qed

lemma fgets_entry:
  assumes "printable e"
  shows "fgets_lines (PATH_MAX + 99) (entry_text e @ rest) =
         entry_text e # fgets_lines (PATH_MAX + 99) rest"
proof -
  let ?l = "c_dec (frequency e) @ '' '' @ c_dec (last_visit e) @ '' '' @ fe_path e"
  have e: "1 \<le> frequency e" "1 \<le> last_visit e" "frequency e \<le> LONG_MAX" "last_visit e \<le> LONG_MAX"
    "length (fe_path e) < PATH_MAX" "CHR 0x0A \<notin> set (fe_path e)"
    using assms by (simp_all add: printable_def wf_entry_def)
  have "CHR 0x0A \<notin> set ?l" using e by (simp add: c_dec_no_newline)
  moreover have "length ?l < PATH_MAX + 99"
    using e length_c_dec[of "frequency e"] length_c_dec[of "last_visit e"] by simp
  ultimately have "fgets_lines (PATH_MAX + 99) (?l @ CHR 0x0A # rest) =
      (?l @ [CHR 0x0A]) # fgets_lines (PATH_MAX + 99) rest" by (rule fgets_lines_line)
  then show ?thesis by (simp add: entry_text_def)
qed

lemma load_loop_save:
  "\<forall>e \<in> set es. printable e \<Longrightarrow> length (entries F) + length es \<le> MAX_ENTRIES \<Longrightarrow>
   load_loop (fgets_lines (PATH_MAX + 99) (concat (map entry_text es))) F =
     Inr \<lparr>entries = entries F @ es, visit_counter = fold (\<lambda>e. max (last_visit e)) es (visit_counter F)\<rparr>"
proof (induction es arbitrary: F)
  case (Cons e es)
  let ?G = "\<lparr>entries = entries F @ [e],
     visit_counter = (if last_visit e > visit_counter F then last_visit e else visit_counter F)\<rparr>"
  have p: "printable e" using Cons.prems by simp
  then have l: "length (fe_path e) < PATH_MAX" by (simp add: printable_def wf_entry_def)
  have e: "\<lparr>fe_path = fe_path e, frequency = frequency e, last_visit = last_visit e\<rparr> = e"
    by (cases e) simp
  have "load_loop (fgets_lines (PATH_MAX + 99) (concat (map entry_text (e # es)))) F =
      load_loop (fgets_lines (PATH_MAX + 99) (concat (map entry_text es))) ?G"
    using Cons.prems(2) l by (simp add: fgets_entry[OF p] scan_entry_text[OF p] e)
  also have "\<dots> = Inr \<lparr>entries = entries ?G @ es,
      visit_counter = fold (\<lambda>e. max (last_visit e)) es (visit_counter ?G)\<rparr>"
    using Cons.prems by (intro Cons.IH) simp_all
  also have "visit_counter ?G = max (last_visit e) (visit_counter F)" by simp
  finally show ?case by simp
qed simp

lemma fold_max_visit: "fold (\<lambda>e. max (last_visit e)) es v = Max (insert v (last_visit ` set es))"
proof (induction es arbitrary: v)
  case (Cons e es)
  have "Max (insert v (insert (last_visit e) (last_visit ` set es))) =
      Max (insert (max (last_visit e) v) (last_visit ` set es))"
  proof (cases "set es = {}")
    case False
    then show ?thesis by (simp add: max.assoc max.left_commute)
  qed (simp add: max.commute)
  with Cons show ?case by simp
qed simp

section \<open>The history as a map\<close>

definition hist :: "frecency \<Rightarrow> cstring \<Rightarrow> (int \<times> int) option" where
  "hist F = map_of (map (\<lambda>e. (fe_path e, (frequency e, last_visit e))) (entries F))"

lemma hist_find:
  "hist F p = map_option (\<lambda>e. (frequency e, last_visit e)) (find (\<lambda>e. fe_path e = p) (entries F))"
proof -
  have "map_of (map (\<lambda>e. (fe_path e, (frequency e, last_visit e))) es) p =
      map_option (\<lambda>e. (frequency e, last_visit e)) (find (\<lambda>e. fe_path e = p) es)" for es
    by (induction es) auto
  then show ?thesis by (simp add: hist_def)
qed

lemma hist_upd_first:
  "map_of (map (\<lambda>e. (fe_path e, (frequency e, last_visit e)))
      (upd_first (\<lambda>e. fe_path e = p) (\<lambda>e. e\<lparr>frequency := f, last_visit := l\<rparr>) es)) =
   (if list_ex (\<lambda>e. fe_path e = p) es
    then (map_of (map (\<lambda>e. (fe_path e, (frequency e, last_visit e))) es))(p \<mapsto> (f, l))
    else map_of (map (\<lambda>e. (fe_path e, (frequency e, last_visit e))) es))"
  by (induction es) (auto simp: fun_upd_twist)

lemma hist_append:
  "find (\<lambda>e. fe_path e = p) es = None \<Longrightarrow>
   map_of (map (\<lambda>e. (fe_path e, (frequency e, last_visit e))) (es @ [\<lparr>fe_path = p, frequency = f, last_visit = l\<rparr>])) =
   (map_of (map (\<lambda>e. (fe_path e, (frequency e, last_visit e))) es))(p \<mapsto> (f, l))"
  by (induction es) (auto simp: fun_upd_twist split: if_splits)


lemma record_visit_effect:
  assumes wf: "wf_frecency B F" and B: "B < LONG_MAX"
    and path: "path \<noteq> []" "hd path = CHR ''/''" "CHR 0x0A \<notin> set path" "length path < PATH_MAX"
  shows "\<exists>F' saved. record_visit path F = Inr (F', saved) \<and> wf_frecency (B + 1) F' \<and>
    visit_counter F' = visit_counter F + 1 \<and>
    (saved \<longleftrightarrow> hist F path \<noteq> None \<or> length (entries F) < MAX_ENTRIES) \<and>
    hist F' = (if saved then (hist F)(path \<mapsto>
        ((case hist F path of None \<Rightarrow> 1 | Some (f, l) \<Rightarrow> f + 1), visit_counter F + 1)) else hist F)"
proof -
  let ?P = "\<lambda>e. fe_path e = path"
  let ?vc = "visit_counter F + 1"
  have vc: "ll_add (visit_counter F) 1 = Inr ?vc"
    using wf B by (simp add: ll_add_def wf_frecency_def LONG_MIN_def)
  show ?thesis
  proof (cases "find ?P (entries F)")
    case (Some e)
    then have e: "e \<in> set (entries F)" "fe_path e = path" by (auto simp: find_Some_iff)
    have ex: "list_ex ?P (entries F)" using e by (auto simp: list_ex_iff)
    then obtain us x vs where s: "entries F = us @ x # vs" "?P x" "\<forall>u \<in> set us. \<not> ?P u"
      "upd_first ?P (\<lambda>i. i\<lparr>frequency := frequency e + 1, last_visit := ?vc\<rparr>) (entries F) =
         us @ x\<lparr>frequency := frequency e + 1, last_visit := ?vc\<rparr> # vs"
      by (rule upd_first_split)
    have x: "x = e" using Some s(1-3) by (simp add: find_split)
    have f: "ll_add (frequency e) 1 = Inr (frequency e + 1)"
      using wf B e(1) by (force simp: ll_add_def wf_frecency_def wf_entry_def LONG_MIN_def)
    let ?F' = "\<lparr>entries = us @ e\<lparr>frequency := frequency e + 1, last_visit := ?vc\<rparr> # vs,
                visit_counter = ?vc\<rparr>"
    have r: "record_visit path F = Inr (?F', True)"
      using s(4) by (simp add: record_visit_def vc Some f x)
    have "\<forall>i \<in> set (entries F). frequency i \<le> ?vc \<and> last_visit i \<le> ?vc"
      using wf by (fastforce simp: wf_frecency_def)
    then have "wf_frecency (B + 1) ?F'"
      using wf unfolding wf_frecency_def s(1) x by (auto simp: wf_entry_def)
    moreover have "hist ?F' = (hist F)(path \<mapsto> (frequency e + 1, ?vc))"
      using hist_upd_first[where p = path and f = "frequency e + 1" and l = ?vc and es = "entries F"] ex
      unfolding s(4) x by (simp add: hist_def del: map_append)
    moreover have "hist F path = Some (frequency e, last_visit e)" using Some by (simp add: hist_find)
    ultimately show ?thesis using r by (intro exI[of _ ?F'] exI[of _ True]) simp
  next
    case None
    then have h: "hist F path = None" by (simp add: hist_find)
    show ?thesis
    proof (cases "MAX_ENTRIES \<le> length (entries F)")
      case True
      have "wf_frecency (B + 1) (F\<lparr>visit_counter := ?vc\<rparr>)"
        using wf by (fastforce simp: wf_frecency_def)
      then show ?thesis
        using True h by (intro exI[of _ "F\<lparr>visit_counter := ?vc\<rparr>"] exI[of _ False])
          (simp add: record_visit_def vc None hist_def)
    next
      case False
      let ?e = "\<lparr>fe_path = path, frequency = 1, last_visit = ?vc\<rparr>"
      let ?F' = "\<lparr>entries = entries F @ [?e], visit_counter = ?vc\<rparr>"
      have r: "record_visit path F = Inr (?F', True)"
        using False path(4) by (simp add: record_visit_def vc None)
      have "path \<notin> fe_path ` set (entries F)" using None by (auto simp: find_None_iff)
      moreover have "wf_entry ?e" using wf path by (simp add: wf_entry_def wf_frecency_def)
      ultimately have "wf_frecency (B + 1) ?F'"
        using wf False by (fastforce simp: wf_frecency_def)
      moreover have "hist ?F' = (hist F)(path \<mapsto> (1, ?vc))"
        using hist_append[OF None] by (simp add: hist_def)
      ultimately show ?thesis using r h False by (intro exI[of _ ?F'] exI[of _ True]) simp
    qed
  qed
qed

section \<open>The best match\<close>

definition score_value :: "frecency_entry \<Rightarrow> int" where
  "score_value e = frequency e * 1000 + last_visit e"

lemma score_ok:
  assumes "wf_history F" "e \<in> set (entries F)"
  shows "score e = Inr (score_value e)"
proof -
  have e: "1 \<le> frequency e" "frequency e \<le> MAX_VISITS" "1 \<le> last_visit e" "last_visit e \<le> MAX_VISITS"
    using assms by (fastforce simp: wf_frecency_def wf_entry_def)+
  then show ?thesis
    by (simp add: score_def ll_mul_def ll_add_def score_value_def LONG_MIN_def LONG_MAX_def MAX_VISITS_def)
qed

definition candidate :: "(cstring \<Rightarrow> bool) \<Rightarrow> cstring \<Rightarrow> frecency_entry \<Rightarrow> bool" where
  "candidate exists name e \<longleftrightarrow> strstr (fe_path e) name \<and> exists (fe_path e)"

text \<open>\<open>b\<close> is the first of the entries with the highest score among the candidates before \<open>i\<close>.\<close>

definition best_before :: "(frecency_entry \<Rightarrow> bool) \<Rightarrow> frecency_entry list \<Rightarrow> nat \<Rightarrow> nat \<Rightarrow> bool" where
  "best_before C es i b \<longleftrightarrow> b < i \<and> C (es ! b) \<and>
     (\<forall>j < i. C (es ! j) \<longrightarrow> score_value (es ! j) \<le> score_value (es ! b) \<and>
        (j < b \<longrightarrow> score_value (es ! j) < score_value (es ! b)))"

lemma match_loop_correct:
  assumes sc: "\<forall>e \<in> set es. score e = Inr (score_value e)"
    and "i \<le> length es"
    and "bi = None \<Longrightarrow> \<forall>j < i. \<not> candidate exists name (es ! j)"
    and "\<And>b. bi = Some b \<Longrightarrow> best_before (candidate exists name) es i b \<and> bs = score_value (es ! b)"
  shows "\<exists>r. match_loop exists name (drop i es) i bs bi = Inr r \<and>
    (r = None \<longrightarrow> (\<forall>e \<in> set es. \<not> candidate exists name e)) \<and>
    (\<forall>b. r = Some b \<longrightarrow> best_before (candidate exists name) es (length es) b)"
  using assms(2-)
proof (induction "length es - i" arbitrary: i bs bi)
  case 0
  then have i: "i = length es" by simp
  have "bi = None \<longrightarrow> (\<forall>e \<in> set es. \<not> candidate exists name e)"
    using 0(3) i by (auto simp: in_set_conv_nth)
  with 0(4) i show ?case by simp
next
  case (Suc k)
  let ?e = "es ! i"
  have i: "i < length es" using Suc.hyps(2) by simp
  then have d: "drop i es = ?e # drop (Suc i) es" by (rule Cons_nth_drop_Suc[symmetric])
  have se: "score ?e = Inr (score_value ?e)" using sc i by simp
  consider (skip) "\<not> candidate exists name ?e" | (better) "candidate exists name ?e" "bi = None \<or> score_value ?e > bs"
    | (worse) b where "candidate exists name ?e" "bi = Some b" "\<not> score_value ?e > bs"
    by (cases bi) blast+
  then show ?case
  proof cases
    case skip
    then have "match_loop exists name (drop i es) i bs bi = match_loop exists name (drop (Suc i) es) (Suc i) bs bi"
      by (auto simp: d candidate_def)
    moreover have "\<exists>r. match_loop exists name (drop (Suc i) es) (Suc i) bs bi = Inr r \<and>
        (r = None \<longrightarrow> (\<forall>e \<in> set es. \<not> candidate exists name e)) \<and>
        (\<forall>b. r = Some b \<longrightarrow> best_before (candidate exists name) es (length es) b)"
      using Suc.hyps(2) Suc.prems i skip
      by (intro Suc.hyps(1)) (auto simp: best_before_def less_Suc_eq)
    ultimately show ?thesis by simp
  next
    case better
    then have "match_loop exists name (drop i es) i bs bi =
        match_loop exists name (drop (Suc i) es) (Suc i) (score_value ?e) (Some i)"
      using se by (simp add: d candidate_def)
    moreover have "best_before (candidate exists name) es (Suc i) i"
      using better Suc.prems(2) Suc.prems(3) by (cases bi) (fastforce simp: best_before_def less_Suc_eq)+
    then have "\<exists>r. match_loop exists name (drop (Suc i) es) (Suc i) (score_value ?e) (Some i) = Inr r \<and>
        (r = None \<longrightarrow> (\<forall>e \<in> set es. \<not> candidate exists name e)) \<and>
        (\<forall>b. r = Some b \<longrightarrow> best_before (candidate exists name) es (length es) b)"
      using Suc.hyps(2) i by (intro Suc.hyps(1)) auto
    ultimately show ?thesis by simp
  next
    case (worse b)
    then have "match_loop exists name (drop i es) i bs bi = match_loop exists name (drop (Suc i) es) (Suc i) bs bi"
      using se by (simp add: d candidate_def)
    moreover have "best_before (candidate exists name) es (Suc i) b \<and> bs = score_value (es ! b)"
      using worse Suc.prems(3)[OF worse(2)] by (auto simp: best_before_def less_Suc_eq)
    then have "\<exists>r. match_loop exists name (drop (Suc i) es) (Suc i) bs bi = Inr r \<and>
        (r = None \<longrightarrow> (\<forall>e \<in> set es. \<not> candidate exists name e)) \<and>
        (\<forall>b. r = Some b \<longrightarrow> best_before (candidate exists name) es (length es) b)"
      using Suc.hyps(2) i worse(2) by (intro Suc.hyps(1)) auto
    ultimately show ?thesis by simp
  qed
qed


lemma find_match:
  assumes "wf_history F"
  shows "\<exists>r. find_frecency_match exists name F = Inr r \<and>
    (r = None \<longleftrightarrow> (\<forall>e \<in> set (entries F). \<not> candidate exists name e)) \<and>
    (\<forall>p. r = Some p \<longrightarrow> (\<exists>b. best_before (candidate exists name) (entries F) (length (entries F)) b \<and>
                                p = fe_path (entries F ! b)))"
proof -
  have "\<forall>e \<in> set (entries F). score e = Inr (score_value e)" using score_ok[OF assms] by blast
  from match_loop_correct[OF this, of 0 None exists name "- 1"] obtain r where
    r: "match_loop exists name (entries F) 0 (- 1) None = Inr r"
    "r = None \<longrightarrow> (\<forall>e \<in> set (entries F). \<not> candidate exists name e)"
    "\<forall>b. r = Some b \<longrightarrow> best_before (candidate exists name) (entries F) (length (entries F)) b"
    by auto
  have "r = None" if "\<forall>e \<in> set (entries F). \<not> candidate exists name e"
    using r(3) that by (cases r) (auto simp: best_before_def)
  then show ?thesis using r by (auto simp: find_frecency_match_def)
qed

lemma match_loop_total: "wf_history F \<Longrightarrow> \<exists>r. find_frecency_match exists name F = Inr r"
  using find_match by blast

section \<open>Properties\<close>


definition two_visits :: frecency where
  "two_visits = \<lparr>entries = [\<lparr>fe_path = ''/a b'', frequency = 2, last_visit = 3\<rparr>,
     \<lparr>fe_path = ''/b'', frequency = 1, last_visit = 2\<rparr>], visit_counter = 3\<rparr>"

lemma two_visits_wf: "wf_history two_visits" "\<forall>e \<in> set (entries two_visits). printable e"
  by (simp_all add: two_visits_def wf_frecency_def wf_entry_def printable_def MAX_ENTRIES_def
      PATH_MAX_def MAX_VISITS_def LONG_MAX_def)


text \<open>
  \<open>record_visit\<close> of a directory counts one more visit of it, dates it with the incremented
  visit counter, and leaves the other directories as they are; a directory that is not in the
  table yet is left out, and the log not written, exactly when the table is full.
\<close>

theorem record_visit_correct:
  assumes "wf_frecency B F" and "B < LONG_MAX"
    and "path \<noteq> []" "hd path = CHR ''/''" "CHR 0x0A \<notin> set path" "length path < PATH_MAX"
  shows "\<exists>F' saved. record_visit path F = Inr (F', saved) \<and> wf_frecency (B + 1) F' \<and>
    visit_counter F' = visit_counter F + 1 \<and>
    (saved \<longleftrightarrow> hist F path \<noteq> None \<or> length (entries F) < MAX_ENTRIES) \<and>
    hist F' = (if saved then (hist F)(path \<mapsto>
        ((case hist F path of None \<Rightarrow> 1 | Some (f, l) \<Rightarrow> f + 1), visit_counter F + 1)) else hist F)"
  using assms by (rule record_visit_effect)

lemma record_visit_correct_witness:
  "\<exists>F' saved. record_visit ''/b'' two_visits = Inr (F', saved) \<and> hist F' ''/b'' = Some (2, 4)"
proof -
  have h: "hist two_visits ''/b'' = Some (1, 2)" by (simp add: hist_def two_visits_def)
  have "MAX_VISITS < LONG_MAX" by (simp add: MAX_VISITS_def LONG_MAX_def)
  with record_visit_correct[OF two_visits_wf(1), of "''/b''"] h show ?thesis
    by (auto simp: PATH_MAX_def two_visits_def)
qed

text \<open>
  \<open>find_frecency_match\<close> finds a directory exactly when some entry contains the name and still
  exists, and it is then the first of those with the highest score \<open>frequency * 1000 + last_visit\<close>;
  no score overflows.
\<close>

theorem find_frecency_match_correct:
  assumes "wf_history F"
  shows "\<exists>r. find_frecency_match exists name F = Inr r \<and>
    (r = None \<longleftrightarrow> (\<forall>e \<in> set (entries F). \<not> candidate exists name e)) \<and>
    (\<forall>p. r = Some p \<longrightarrow> (\<exists>b. best_before (candidate exists name) (entries F) (length (entries F)) b \<and>
                                p = fe_path (entries F ! b)))"
  using assms by (rule find_match)

lemma find_frecency_match_correct_witness:
  "\<exists>r. find_frecency_match (\<lambda>p. True) ''b'' two_visits = Inr r \<and> r \<noteq> None"
proof -
  have "\<exists>e \<in> set (entries two_visits). candidate (\<lambda>p. True) ''b'' e"
    by (simp add: two_visits_def candidate_def)
  then show ?thesis
    using find_frecency_match_correct[OF two_visits_wf(1), of "\<lambda>p. True" "''b''"] by blast
qed

end
