(* ===== verification/Hop.thy ===== *)
theory Hop
  imports Frecency Lexer
begin

text \<open>
  The directory commands' state: \<open>c-shell/src/hop.c\<close> and the prompt's path abbreviation in
  \<open>c-shell/src/user_path.c\<close>.  The kernel's directory operations are fields of the record
  \<open>fs_env\<close>, functions of the current directory and a path; \<open>logs\<close> holds the contents of the file
  \<open>hop.log\<close> of each directory, because the code opens it by that relative name.
\<close>

section \<open>State\<close>

record fs_env =
  chdir_to :: "cstring \<Rightarrow> cstring \<Rightarrow> cstring option"
  getcwd_of :: "cstring \<Rightarrow> cstring option"
  exists_at :: "cstring \<Rightarrow> cstring \<Rightarrow> bool"
  log_writable :: "cstring \<Rightarrow> bool"

record hop_state =
  home_Dir :: cstring
  prev_dir :: cstring
  prev_dir_flag :: bool
  cwd :: cstring
  frec :: frecency
  logs :: "cstring \<Rightarrow> cstring option"
  hop_out :: cstring

section \<open>Operations\<close>

definition init_hop :: "cstring \<Rightarrow> hop_state \<Rightarrow> fault + hop_state" where
  "init_hop home_dir_path st =
     bind_fault (load_frecency (logs st (cwd st)) (frec st)) (\<lambda>F.
       Inr (st\<lparr>home_Dir := home_dir_path, frec := F\<rparr>))"

definition save_log :: "fs_env \<Rightarrow> hop_state \<Rightarrow> hop_state" where
  "save_log env st =
     (if log_writable env (cwd st)
      then st\<lparr>logs := (logs st)(cwd st \<mapsto> save_frecency (frec st))\<rparr> else st)"

definition change_dir :: "fs_env \<Rightarrow> cstring \<Rightarrow> hop_state \<Rightarrow> fault + (bool \<times> hop_state)" where
  "change_dir env path st =
     (case getcwd_of env (cwd st) of
        None \<Rightarrow> Inr (False, st)
      | Some curr_wd \<Rightarrow>
          (case chdir_to env (cwd st) path of
             None \<Rightarrow> Inr (False, st)
           | Some d \<Rightarrow>
               let st1 = st\<lparr>cwd := d, prev_dir := curr_wd, prev_dir_flag := True\<rparr>
               in case getcwd_of env d of
                    None \<Rightarrow> Inr (True, st1)
                  | Some new_wd \<Rightarrow>
                      bind_fault (record_visit new_wd (frec st1)) (\<lambda>(F, saved).
                        Inr (True, if saved then save_log env (st1\<lparr>frec := F\<rparr>)
                                   else st1\<lparr>frec := F\<rparr>))))"

definition hop_missing :: "hop_state \<Rightarrow> hop_state" where
  "hop_missing st = st\<lparr>hop_out := hop_out st @ ''hop: no such directory'' @ [CHR 0x0A]\<rparr>"

definition hop_arg :: "fs_env \<Rightarrow> cstring \<Rightarrow> hop_state \<Rightarrow> fault + hop_state" where
  "hop_arg env arg st =
     (if arg = ''~'' then bind_fault (change_dir env (home_Dir st) st) (\<lambda>(ok, st'). Inr st')
      else if arg = ''.'' then Inr st
      else if arg = ''..'' then bind_fault (change_dir env ''..'' st) (\<lambda>(ok, st'). Inr st')
      else if arg = ''-'' then
        (if prev_dir_flag st
         then bind_fault (change_dir env (prev_dir st) st) (\<lambda>(ok, st'). Inr st') else Inr st)
      else bind_fault (change_dir env arg st) (\<lambda>(ok, st').
        if ok then Inr st'
        else bind_fault (find_frecency_match (exists_at env (cwd st')) arg (frec st')) (\<lambda>r.
          case r of
            None \<Rightarrow> Inr (hop_missing st')
          | Some result \<Rightarrow>
              bind_fault (change_dir env result st') (\<lambda>(ok, st'').
                Inr (if ok then st'' else hop_missing st'')))))"

fun hop_loop :: "fs_env \<Rightarrow> token list \<Rightarrow> hop_state \<Rightarrow> fault + hop_state" where
  "hop_loop env [] st = Inr st"
| "hop_loop env (t # ts) st = bind_fault (hop_arg env (tok_value t) st) (hop_loop env ts)"

definition exec_hop :: "fs_env \<Rightarrow> token list \<Rightarrow> hop_state \<Rightarrow> fault + hop_state" where
  "exec_hop env toks st =
     (if tl toks = [] then bind_fault (change_dir env (home_Dir st) st) (\<lambda>(ok, st'). Inr st')
      else hop_loop env (tl toks) st)"

section \<open>The prompt\<close>

definition get_path :: "cstring \<Rightarrow> cstring \<Rightarrow> cstring" where
  "get_path home_dir curr_dir =
     (let home_len = length home_dir
      in if home_dir = curr_dir then ''~''
         else if take home_len curr_dir = home_dir \<and> home_len < length curr_dir \<and>
                 curr_dir ! home_len = CHR ''/''
         then ''~'' @ drop home_len curr_dir
         else curr_dir)"

text \<open>Reading the prompt's path: a leading tilde stands for the home directory.\<close>

definition expand_path :: "cstring \<Rightarrow> cstring \<Rightarrow> cstring" where
  "expand_path home_dir path =
     (if path \<noteq> [] \<and> hd path = CHR ''~'' then home_dir @ tl path else path)"

section \<open>Lemmas\<close>

text \<open>A change of directory that is attempted from a directory with a name.\<close>

lemma change_dir_cases:
  assumes "change_dir env path st = Inr (ok, st')"
  obtains (stay) "\<not> ok" "st' = st"
  | (moved) d wd where "ok" "chdir_to env (cwd st) path = Some d" "getcwd_of env (cwd st) = Some wd"
      "cwd st' = d" "prev_dir st' = wd" "prev_dir_flag st'" "home_Dir st' = home_Dir st"
      "hop_out st' = hop_out st" "\<And>x. x \<noteq> d \<Longrightarrow> logs st' x = logs st x"
  using assms
  by (auto simp: change_dir_def Let_def bind_fault_Inr save_log_def split: option.splits if_splits)

text \<open>
  What is assumed of the kernel: \<open>getcwd\<close> returns the absolute path of the current directory, which
  is short enough and holds no newline.
\<close>

definition good_fs :: "fs_env \<Rightarrow> bool" where
  "good_fs env \<longleftrightarrow> (\<forall>d p. getcwd_of env d = Some p \<longrightarrow>
     p \<noteq> [] \<and> hd p = CHR ''/'' \<and> CHR 0x0A \<notin> set p \<and> length p < PATH_MAX)"

lemma change_dir_total:
  assumes "wf_frecency B (frec st)" "B < LONG_MAX" "good_fs env"
  shows "\<exists>ok st'. change_dir env path st = Inr (ok, st') \<and>
    wf_frecency (if ok then B + 1 else B) (frec st')"
proof -
  have mono: "wf_frecency (B + 1) (frec st)" using assms(1) by (simp add: wf_frecency_def)
  show ?thesis
  proof (cases "getcwd_of env (cwd st) = None \<or> chdir_to env (cwd st) path = None")
    case True
    then show ?thesis using assms(1) by (auto simp: change_dir_def split: option.splits)
  next
    case False
    then obtain wd d where wd: "getcwd_of env (cwd st) = Some wd" "chdir_to env (cwd st) path = Some d"
      by auto
    show ?thesis
    proof (cases "getcwd_of env d")
      case None
      then show ?thesis using wd mono by (auto simp: change_dir_def Let_def)
    next
      case (Some p)
      then have "p \<noteq> []" "hd p = CHR ''/''" "CHR 0x0A \<notin> set p" "length p < PATH_MAX"
        using assms(3) unfolding good_fs_def by blast+
      from record_visit_effect[OF assms(1,2) this] obtain F saved where
        "record_visit p (frec st) = Inr (F, saved)" "wf_frecency (B + 1) F" by blast
      then show ?thesis using wd Some by (auto simp: change_dir_def Let_def save_log_def)
    qed
  qed
qed

lemma hop_arg_total:
  assumes "wf_frecency B (frec st)" "B < MAX_VISITS" "good_fs env"
  shows "\<exists>st'. hop_arg env arg st = Inr st' \<and> wf_frecency (B + 1) (frec st')"
proof -
  have L: "B < LONG_MAX" using assms(2) by (simp add: MAX_VISITS_def LONG_MAX_def)
  have step: "\<exists>ok st'. change_dir env path s = Inr (ok, st') \<and> wf_frecency (B + 1) (frec st') \<and>
      (\<not> ok \<longrightarrow> wf_frecency B (frec st'))" if s: "wf_frecency B (frec s)" for path s
    using change_dir_total[OF s L assms(3), of path]
    by (auto simp: wf_frecency_def split: if_splits)
  have mono: "wf_frecency (B + 1) F" if "wf_frecency B F" for F
    using that by (simp add: wf_frecency_def)
  show ?thesis
  proof (cases "arg \<in> {''~'', ''.'', ''..'', ''-''}")
    case True
    have go: "\<exists>st'. bind_fault (change_dir env path st) (\<lambda>(ok, st'). Inr st') = Inr st' \<and>
        wf_frecency (B + 1) (frec st')" for path
      using step[OF assms(1), of path] by fastforce
    from True consider "arg = ''~''" | "arg = ''.''" | "arg = ''..''" | "arg = ''-''" by blast
    then show ?thesis
      by cases (simp_all add: hop_arg_def go mono[OF assms(1)])
  next
    case False
    obtain ok st' where c: "change_dir env arg st = Inr (ok, st')" "wf_frecency (B + 1) (frec st')"
      "\<not> ok \<longrightarrow> wf_frecency B (frec st')" using step[OF assms(1)] by blast
    show ?thesis
    proof (cases ok)
      case True
      then show ?thesis using False c by (simp add: hop_arg_def)
    next
      case nok: False
      then have wf: "wf_frecency B (frec st')" using c(3) by blast
      then have "wf_history (frec st')" using assms(2) by (simp add: wf_frecency_def)
      then obtain r where r: "find_frecency_match (exists_at env (cwd st')) arg (frec st') = Inr r"
        using match_loop_total by blast
      show ?thesis
      proof (cases r)
        case None
        then show ?thesis using False c nok r by (simp add: hop_arg_def hop_missing_def)
      next
        case (Some p)
        obtain ok2 st2 where "change_dir env p st' = Inr (ok2, st2)" "wf_frecency (B + 1) (frec st2)"
          using step[OF wf] by blast
        then show ?thesis using False c nok r Some by (simp add: hop_arg_def hop_missing_def)
      qed
    qed
  qed
qed


lemma hop_loop_total:
  "wf_frecency B (frec st) \<Longrightarrow> B + int (length ts) \<le> MAX_VISITS \<Longrightarrow> good_fs env \<Longrightarrow>
   \<exists>st'. hop_loop env ts st = Inr st' \<and> wf_frecency (B + int (length ts)) (frec st')"
proof (induction ts arbitrary: B st)
  case (Cons t ts)
  have "B < MAX_VISITS" using Cons.prems(2) by simp
  then obtain s where s: "hop_arg env (tok_value t) st = Inr s" "wf_frecency (B + 1) (frec s)"
    using hop_arg_total[OF Cons.prems(1) _ Cons.prems(3)] by blast
  obtain st' where "hop_loop env ts s = Inr st'" "wf_frecency (B + 1 + int (length ts)) (frec st')"
    using Cons.IH[OF s(2) _ Cons.prems(3)] Cons.prems(2) by auto
  with s show ?case by (simp add: algebra_simps)
qed simp

section \<open>Properties\<close>

text \<open>
  \<open>hop\<close> with any arguments returns without a fault and keeps the history well formed, as long
  as fewer than 9 * 10^15 directory changes have been made.
\<close>

theorem exec_hop_total:
  assumes "wf_frecency B (frec st)" "B + int (length toks) \<le> MAX_VISITS" "good_fs env" "toks \<noteq> []"
  shows "\<exists>st'. exec_hop env toks st = Inr st' \<and> wf_frecency (B + int (length toks)) (frec st')"
proof -
  have len: "int (length toks) = int (length (tl toks)) + 1" using assms(4) by (cases toks) simp_all
  then have pos: "1 \<le> int (length toks)" by linarith
  then have "B < MAX_VISITS" using assms(2) by linarith
  then have "B < LONG_MAX" by (simp add: MAX_VISITS_def LONG_MAX_def)
  then obtain ok s where c: "change_dir env (home_Dir st) st = Inr (ok, s)"
    "wf_frecency (if ok then B + 1 else B) (frec s)"
    using change_dir_total[OF assms(1) _ assms(3)] by blast
  have "B + int (length (tl toks)) \<le> MAX_VISITS" using assms(2) len by linarith
  then obtain s2 where l: "hop_loop env (tl toks) st = Inr s2"
    "wf_frecency (B + int (length (tl toks))) (frec s2)"
    using hop_loop_total[OF assms(1) _ assms(3)] by blast
  have mono: "wf_frecency (B + int (length toks)) F" if "wf_frecency C F" "C \<le> B + int (length toks)" for C F
    using that by (simp add: wf_frecency_def)
  show ?thesis
  proof (cases "tl toks = []")
    case True
    have "wf_frecency (B + int (length toks)) (frec s)"
      using c(2) by (rule mono) (use pos in simp)
    then show ?thesis using True c(1) by (simp add: exec_hop_def)
  next
    case False
    have "wf_frecency (B + int (length toks)) (frec s2)" using l(2) by (rule mono) (use len in linarith)
    then show ?thesis using False l(1) by (simp add: exec_hop_def)
  qed
qed

definition home_fs :: fs_env where
  "home_fs = \<lparr>chdir_to = (\<lambda>d p. if p = ''/h'' \<or> p = ''/d'' then Some p
                                else if p = ''d'' \<and> d = ''/h'' then Some ''/d'' else None),
     getcwd_of = (\<lambda>d. if d = ''/h'' \<or> d = ''/d'' then Some d else None),
     exists_at = (\<lambda>d p. True), log_writable = (\<lambda>d. True)\<rparr>"

definition home_state :: hop_state where
  "home_state = \<lparr>home_Dir = ''/h'', prev_dir = [], prev_dir_flag = False, cwd = ''/h'',
     frec = no_frecency, logs = (\<lambda>d. None), hop_out = []\<rparr>"

lemma home_good: "good_fs home_fs" "wf_frecency 0 (frec home_state)"
  by (simp_all add: good_fs_def home_fs_def PATH_MAX_def home_state_def no_frecency_def
      wf_frecency_def)

lemma exec_hop_total_witness:
  "\<exists>st'. exec_hop home_fs [\<lparr>tok_type = WORD, tok_value = ''hop''\<rparr>, \<lparr>tok_type = WORD, tok_value = ''d''\<rparr>]
     home_state = Inr st'"
  using exec_hop_total[OF home_good(2) _ home_good(1),
      of "[\<lparr>tok_type = WORD, tok_value = ''hop''\<rparr>, \<lparr>tok_type = WORD, tok_value = ''d''\<rparr>]"]
  by (auto simp: MAX_VISITS_def)

text \<open>
  C36.  \<open>hop -\<close> undoes the last change of directory: after a change from the directory \<open>c\<close> to \<open>d\<close>,
  it comes back to \<open>c\<close>, and \<open>d\<close> is then the previous directory.
\<close>

theorem hop_dash_returns:
  assumes "getcwd_of env (cwd st) = Some (cwd st)" "chdir_to env (cwd st) path = Some d"
    and "getcwd_of env d = Some d" "chdir_to env d (cwd st) = Some (cwd st)"
    and "good_fs env" "wf_frecency B (frec st)" "B + 2 \<le> MAX_VISITS"
  shows "\<exists>st1 st2. change_dir env path st = Inr (True, st1) \<and> cwd st1 = d \<and>
    hop_arg env ''-'' st1 = Inr st2 \<and> cwd st2 = cwd st \<and> prev_dir st2 = d \<and>
    home_Dir st2 = home_Dir st"
proof -
  have L: "B < LONG_MAX" "B + 1 < LONG_MAX"
    using assms(7) by (simp_all add: MAX_VISITS_def LONG_MAX_def)
  obtain ok st1 where c1: "change_dir env path st = Inr (ok, st1)"
    "wf_frecency (if ok then B + 1 else B) (frec st1)"
    using change_dir_total[OF assms(6) L(1) assms(5)] by blast
  have "ok"
    using c1(1) assms(1,2,3) by (auto simp: change_dir_def Let_def bind_fault_Inr)
  with c1 have m1: "cwd st1 = d" "prev_dir st1 = cwd st" "prev_dir_flag st1" "home_Dir st1 = home_Dir st"
    using assms(1,2) by (auto elim!: change_dir_cases)
  obtain ok2 st2 where c2: "change_dir env (prev_dir st1) st1 = Inr (ok2, st2)"
    using change_dir_total[of "B + 1" st1 env "prev_dir st1"] c1(2) \<open>ok\<close> L(2) assms(5) by auto
  have "ok2"
    using c2 assms(1,3,4) m1 by (auto simp: change_dir_def Let_def bind_fault_Inr)
  with c2 have "cwd st2 = cwd st" "prev_dir st2 = d" "home_Dir st2 = home_Dir st"
    using assms(3,4) m1 by (auto elim!: change_dir_cases)
  moreover have "hop_arg env ''-'' st1 = Inr st2" using c2 m1(3) by (simp add: hop_arg_def)
  moreover have "change_dir env path st = Inr (True, st1)" using c1(1) \<open>ok\<close> by simp
  ultimately show ?thesis using m1(1) by blast
qed

lemma hop_dash_returns_witness:
  "\<exists>st1 st2. change_dir home_fs ''d'' home_state = Inr (True, st1) \<and> cwd st1 = ''/d'' \<and>
     hop_arg home_fs ''-'' st1 = Inr st2 \<and> cwd st2 = ''/h''"
  using hop_dash_returns[of home_fs home_state "''d''" "''/d''" 0] home_good
  by (auto simp: home_fs_def home_state_def MAX_VISITS_def)

text \<open>
  A change of directory writes \<open>hop.log\<close> in the directory it arrives in and in no other.  The
  log of the directory the shell was started in, which is the one read at the next start, is
  therefore left as it was by every visit of another directory.
\<close>

theorem hop_log_follows_cwd:
  assumes "change_dir env path st = Inr (ok, st')" "x \<noteq> cwd st'"
  shows "logs st' x = logs st x \<and>
    init_frecency (logs st' x) = init_frecency (logs st x)"
  using assms by (auto elim!: change_dir_cases)

lemma hop_log_follows_cwd_witness:
  "\<exists>st'. change_dir home_fs ''d'' home_state = Inr (True, st') \<and>
     logs st' ''/h'' = None \<and> logs st' ''/d'' = Some ''1 1 /d
''"
proof -
  have c: "map_sum id (\<lambda>p. (fst p, cwd (snd p), logs (snd p) ''/d'')) (change_dir home_fs ''d'' home_state) =
      Inr (True, ''/d'', Some ''1 1 /d
'')" by code_simp
  then obtain st' where s: "change_dir home_fs ''d'' home_state = Inr (True, st')" "cwd st' = ''/d''"
    "logs st' ''/d'' = Some ''1 1 /d
''" by (cases "change_dir home_fs ''d'' home_state") auto
  moreover have "logs st' ''/h'' = None"
    using hop_log_follows_cwd[OF s(1), of "''/h''"] s(2) by (simp add: home_state_def)
  ultimately show ?thesis by blast
qed

text \<open>
  The prompt abbreviates exactly the home directory and the paths below it, and the
  abbreviation can be undone.
\<close>

theorem get_path_expand:
  assumes "curr_dir \<noteq> []" "hd curr_dir = CHR ''/''"
  shows "expand_path home_dir (get_path home_dir curr_dir) = curr_dir \<and>
    (hd (get_path home_dir curr_dir) = CHR ''~'' \<longleftrightarrow>
       (\<exists>rest. curr_dir = home_dir @ rest \<and> (rest = [] \<or> hd rest = CHR ''/'')))"
proof -
  consider (home) "home_dir = curr_dir"
    | (below) rest where "curr_dir = home_dir @ CHR ''/'' # rest"
    | (other) "home_dir \<noteq> curr_dir" "\<nexists>rest. curr_dir = home_dir @ CHR ''/'' # rest" by blast
  then show ?thesis
  proof cases
    case home
    then show ?thesis by (auto simp: get_path_def expand_path_def Let_def)
  next
    case below
    then show ?thesis by (auto simp: get_path_def expand_path_def Let_def nth_append)
  next
    case other
    have "\<not> (take (length home_dir) curr_dir = home_dir \<and> length home_dir < length curr_dir \<and>
        curr_dir ! length home_dir = CHR ''/'')"
      using other(2) by (metis append_take_drop_id Cons_nth_drop_Suc)
    then have "get_path home_dir curr_dir = curr_dir"
      using other(1) by (simp only: get_path_def Let_def if_False)
    moreover have "\<not> (\<exists>rest. curr_dir = home_dir @ rest \<and> (rest = [] \<or> hd rest = CHR ''/''))"
      using other by (metis append_Nil2 list.collapse)
    ultimately show ?thesis using assms by (simp add: expand_path_def)
  qed
qed

lemma get_path_expand_witness:
  "hd ''/h/x'' = CHR ''/'' \<and> get_path ''/h'' ''/h/x'' = ''~/x'' \<and>
   expand_path ''/h'' (get_path ''/h'' ''/h/x'') = ''/h/x''"
  using get_path_expand[of "''/h/x''" "''/h''"] by (simp add: get_path_def)

end
