(* ===== verification/Peek.thy ===== *)
theory Peek
  imports Shell_Prelude Lexer
begin

text \<open>
  The file viewer \<open>peek\<close>, \<open>c-shell/src/peek.c\<close>.  A file is its text; \<open>fgets\<close> and the reads from
  the end in blocks of 1024 bytes are modelled on that text, the \<open>line\<close> buffers with their sizes.
\<close>

section \<open>Forward printing\<close>

definition is_empty :: "cstring \<Rightarrow> bool" where
  "is_empty line \<longleftrightarrow> list_all c_isspace line"

definition get_line_count :: "cstring \<Rightarrow> int" where
  "get_line_count text =
     fold (\<lambda>line cnt. if \<not> is_empty line then cnt + 1 else cnt) (fgets_lines 1023 text) 0"

fun nums_loop :: "cstring list \<Rightarrow> int \<Rightarrow> cstring \<Rightarrow> int \<times> cstring" where
  "nums_loop [] cnt out = (cnt, out)"
| "nums_loop (line # lines) cnt out =
     (if \<not> is_empty line
      then nums_loop lines (cnt + 1) (out @ c_dec (cnt + 1) @ '' '' @ line)
      else nums_loop lines cnt (out @ line))"

definition nums_line :: "cstring \<Rightarrow> int \<Rightarrow> int \<times> cstring" where
  "nums_line text cnt = nums_loop (fgets_lines 1023 text) cnt []"

section \<open>Backward printing\<close>

abbreviation LF :: char where "LF \<equiv> CHR 0x0A"

text \<open>
  The inner loop over a block, from its last byte to its first: \<open>rev_bytes\<close> is given the bytes in
  that order.  \<open>line\<close> holds the characters collected since the last newline.
\<close>

fun rev_bytes :: "cstring \<Rightarrow> cstring \<Rightarrow> cstring \<Rightarrow> fault + (cstring \<times> cstring)" where
  "rev_bytes [] line out = Inr (line, out)"
| "rev_bytes (c # cs) line out =
     (if c = LF then rev_bytes cs [] (out @ rev line @ [LF])
      else if length line < 1024 then rev_bytes cs (line @ [c]) out
      else Inl Array_Overflow)"

function reverse_loop :: "cstring \<Rightarrow> nat \<Rightarrow> cstring \<Rightarrow> cstring \<Rightarrow> fault + (cstring \<times> cstring)" where
  "reverse_loop text pos line out =
     (if pos = 0 then Inr (line, out)
      else let start = pos - 1024;
               buffer = take (pos - start) (drop start text)
           in bind_fault (rev_bytes (rev buffer) line out)
                (\<lambda>(line, out). reverse_loop text start line out))"
  by auto
termination by (relation "measure (\<lambda>(text, pos, line, out). pos)") auto

declare reverse_loop.simps [simp del]

definition reverse :: "bool \<Rightarrow> cstring \<Rightarrow> fault + cstring" where
  "reverse seekable text =
     (if \<not> seekable then Inr []
      else bind_fault (reverse_loop text (length text) [] [])
             (\<lambda>(line, out). Inr (if line \<noteq> [] then out @ rev line @ [LF] else out)))"

definition number_prefix :: "cstring \<Rightarrow> int \<Rightarrow> cstring" where
  "number_prefix line n = (if \<not> is_empty line then c_dec n @ '' '' else [])"

definition next_number :: "cstring \<Rightarrow> int \<Rightarrow> int" where
  "next_number line n = (if \<not> is_empty line then n - 1 else n)"

fun num_bytes :: "cstring \<Rightarrow> cstring \<Rightarrow> int \<Rightarrow> cstring \<Rightarrow> cstring \<times> int \<times> cstring" where
  "num_bytes [] line n out = (line, n, out)"
| "num_bytes (c # cs) line n out =
     (if c = LF
      then num_bytes cs [] (next_number line n) (out @ number_prefix line n @ rev line @ [LF])
      else num_bytes cs (if length line < 1023 then line @ [c] else line) n out)"

function num_loop :: "cstring \<Rightarrow> nat \<Rightarrow> cstring \<Rightarrow> int \<Rightarrow> cstring \<Rightarrow> cstring \<times> int \<times> cstring" where
  "num_loop text pos line n out =
     (if pos = 0 then (line, n, out)
      else let start = pos - 1024;
               buffer = take (pos - start) (drop start text)
           in case num_bytes (rev buffer) line n out of
                (line, n, out) \<Rightarrow> num_loop text start line n out)"
  by auto
termination by (relation "measure (\<lambda>(text, pos, line, n, out). pos)") auto

declare num_loop.simps [simp del]

definition reverse_with_nums :: "bool \<Rightarrow> cstring \<Rightarrow> int \<Rightarrow> cstring" where
  "reverse_with_nums seekable text total_lines =
     (if \<not> seekable then []
      else case num_loop text (length text) [] total_lines [] of
             (line, n, out) \<Rightarrow>
               if line \<noteq> [] then out @ number_prefix line n @ rev line @ [LF] else out)"

section \<open>The command\<close>

text \<open>
  \<open>stat\<close> and \<open>fopen\<close> tell what is behind a name.  \<open>inputs\<close> are the texts that reading the standard
  input up to its end yields, one for each time the code does it.
\<close>

datatype peek_file = Missing | Directory | Unreadable | Contents bool cstring

definition copy_stdin :: "cstring list \<Rightarrow> cstring \<times> cstring list" where
  "copy_stdin inputs = (case inputs of [] \<Rightarrow> ([], []) | s # ss \<Rightarrow> (s, ss))"

text \<open>The letters of one option; \<open>None\<close> is a syntax error.\<close>

fun peek_flags :: "cstring \<Rightarrow> bool \<Rightarrow> bool \<Rightarrow> (bool \<times> bool) option" where
  "peek_flags [] show_nums rever = Some (show_nums, rever)"
| "peek_flags (c # cs) show_nums rever =
     (if c = CHR ''n'' then peek_flags cs True rever
      else if c = CHR ''r'' then peek_flags cs show_nums True
      else None)"

datatype peek_args = Bad_syntax cstring | Args bool bool "cstring list" "cstring list" cstring

fun peek_parse :: "token list \<Rightarrow> bool \<Rightarrow> bool \<Rightarrow> cstring list \<Rightarrow> cstring list \<Rightarrow> cstring \<Rightarrow>
    fault + peek_args" where
  "peek_parse [] show_nums rever files inputs out = Inr (Args show_nums rever files inputs out)"
| "peek_parse (t # ts) show_nums rever files inputs out =
     (if tok_value t = ''-'' then
        (case copy_stdin inputs of
           (s, rest) \<Rightarrow> peek_parse ts show_nums rever files rest (out @ s))
      else if tok_value t \<noteq> [] \<and> hd (tok_value t) = CHR ''-'' then
        (case peek_flags (tl (tok_value t)) show_nums rever of
           None \<Rightarrow> Inr (Bad_syntax (out @ ''peak: invalid syntax''))
         | Some (show_nums, rever) \<Rightarrow> peek_parse ts show_nums rever files inputs out)
      else if length files < 100 then
        peek_parse ts show_nums rever (files @ [tok_value t]) inputs out
      else Inl Array_Overflow)"

fun peek_files :: "(cstring \<Rightarrow> peek_file) \<Rightarrow> bool \<Rightarrow> bool \<Rightarrow> cstring list \<Rightarrow> int \<Rightarrow> cstring \<Rightarrow>
    fault + cstring" where
  "peek_files fs show_nums rever [] line_count out = Inr out"
| "peek_files fs show_nums rever (f # files) line_count out =
     (case fs f of
        Missing \<Rightarrow> Inr (out @ ''peek: no such file or directory'' @ [LF])
      | Directory \<Rightarrow> Inr (out @ ''peek: is a directory'' @ [LF])
      | Unreadable \<Rightarrow> Inr (out @ ''peek: no such file or directory'' @ [LF])
      | Contents seekable text \<Rightarrow>
          if show_nums \<and> rever then
            peek_files fs show_nums rever files line_count
              (out @ reverse_with_nums seekable text (get_line_count text))
          else if show_nums then
            (case nums_line text line_count of (line_count, o') \<Rightarrow>
               peek_files fs show_nums rever files line_count (out @ o'))
          else if rever then
            bind_fault (reverse seekable text) (\<lambda>o'.
              peek_files fs show_nums rever files line_count (out @ o'))
          else peek_files fs show_nums rever files line_count (out @ text))"

definition exec_peak :: "(cstring \<Rightarrow> peek_file) \<Rightarrow> cstring list \<Rightarrow> token list \<Rightarrow> fault + cstring" where
  "exec_peak fs inputs toks =
     bind_fault (peek_parse (tl toks) False False [] inputs []) (\<lambda>args.
       case args of
         Bad_syntax out \<Rightarrow> Inr out
       | Args show_nums rever files inputs out \<Rightarrow>
           if files = [] then Inr (out @ fst (copy_stdin inputs))
           else peek_files fs show_nums rever files 0 out)"

section \<open>Lines of a text\<close>

text \<open>The pieces between newlines: one more than there are newlines.\<close>

fun split_lf :: "cstring \<Rightarrow> cstring list" where
  "split_lf [] = [[]]"
| "split_lf (c # s) =
     (if c = LF then [] # split_lf s else (c # hd (split_lf s)) # tl (split_lf s))"

lemma split_lf_nonempty [simp]: "split_lf s \<noteq> []"
  by (cases s) simp_all

lemma split_lf_no_lf: "LF \<notin> set l \<Longrightarrow> split_lf l = [l]"
  by (induction l) auto

lemma split_lf_append_lf: "split_lf (s @ LF # t) = split_lf s @ split_lf t"
  by (induction s) auto

lemma split_lf_append: "LF \<notin> set l \<Longrightarrow> split_lf (s @ l) = butlast (split_lf s) @ [last (split_lf s) @ l]"
proof (induction s)
  case (Cons c s)
  obtain x xs where x: "split_lf s = x # xs" by (cases "split_lf s") simp_all
  have IH: "split_lf (s @ l) = butlast (x # xs) @ [last (x # xs) @ l]" using Cons by (simp add: x)
  show ?case
  proof (cases xs)
    case Nil
    then show ?thesis using IH by (simp add: x)
  next
    case (Cons y ys)
    then show ?thesis using IH by (simp add: x)
  qed
qed (simp add: split_lf_no_lf)

abbreviation unlines :: "cstring list \<Rightarrow> cstring" where
  "unlines ls \<equiv> concat (map (\<lambda>l. l @ [LF]) ls)"

lemma split_lf_unlines: "\<forall>l \<in> set ls. LF \<notin> set l \<Longrightarrow> split_lf (unlines ls) = ls @ [[]]"
proof (induction ls)
  case (Cons l ls)
  have "split_lf (l @ LF # unlines ls) = split_lf l @ split_lf (unlines ls)"
    by (rule split_lf_append_lf)
  with Cons show ?case by (simp add: split_lf_no_lf)
qed simp

section \<open>Reading from the end\<close>

lemma rev_bytes_append:
  "rev_bytes (xs @ ys) line out = bind_fault (rev_bytes xs line out) (\<lambda>(l, o'). rev_bytes ys l o')"
  by (induction xs line out rule: rev_bytes.induct) simp_all

lemma num_bytes_append:
  "num_bytes (xs @ ys) line n out = (case num_bytes xs line n out of (l, m, o') \<Rightarrow> num_bytes ys l m o')"
  by (induction xs line n out rule: num_bytes.induct) simp_all

lemma take_block:
  fixes pos :: nat
  shows "take pos text = take (pos - 1024) text @ take (pos - (pos - 1024)) (drop (pos - 1024) text)"
  by (metis diff_le_self le_add_diff_inverse take_add)

text \<open>The blocks do not matter: the loop handles the bytes before \<open>pos\<close> from the last to the first.\<close>

lemma reverse_loop_bytes:
  "reverse_loop text pos line out = rev_bytes (rev (take pos text)) line out"
proof (induction pos arbitrary: line out rule: less_induct)
  case (less pos)
  show ?case
  proof (cases "pos = 0")
    case True
    then show ?thesis by (subst reverse_loop.simps) simp
  next
    case False
    let ?buf = "take (pos - (pos - 1024)) (drop (pos - 1024) text)"
    have "reverse_loop text pos line out =
        bind_fault (rev_bytes (rev ?buf) line out) (\<lambda>(l, o'). reverse_loop text (pos - 1024) l o')"
      using False by (subst reverse_loop.simps) (simp add: Let_def)
    also have "\<dots> = rev_bytes (rev ?buf @ rev (take (pos - 1024) text)) line out"
      using less[of "pos - 1024"] False by (simp add: rev_bytes_append)
    also have "rev ?buf @ rev (take (pos - 1024) text) = rev (take pos text)"
      by (subst take_block[of pos]) simp
    finally show ?thesis .
  qed
qed

lemma num_loop_bytes: "num_loop text pos line n out = num_bytes (rev (take pos text)) line n out"
proof (induction pos arbitrary: line n out rule: less_induct)
  case (less pos)
  show ?case
  proof (cases "pos = 0")
    case True
    then show ?thesis by (subst num_loop.simps) simp
  next
    case False
    let ?buf = "take (pos - (pos - 1024)) (drop (pos - 1024) text)"
    have "num_loop text pos line n out =
        (case num_bytes (rev ?buf) line n out of (l, m, o') \<Rightarrow> num_loop text (pos - 1024) l m o')"
      using False by (subst num_loop.simps) (simp add: Let_def)
    also have "\<dots> = num_bytes (rev ?buf @ rev (take (pos - 1024) text)) line n out"
      using less[of "pos - 1024"] False by (simp add: num_bytes_append)
    also have "rev ?buf @ rev (take (pos - 1024) text) = rev (take pos text)"
      by (subst take_block[of pos]) simp
    finally show ?thesis .
  qed
qed

lemma line_in_piece:
  assumes "LF \<notin> set line" "\<forall>p \<in> set (split_lf (s @ rev line)). length p \<le> k"
  shows "length line \<le> k"
proof -
  have "last (split_lf s) @ rev line \<in> set (split_lf (s @ rev line))"
    using assms(1) by (subst split_lf_append) simp_all
  then show ?thesis using assms(2) by fastforce
qed

lemma rev_bytes_lines:
  "LF \<notin> set line \<Longrightarrow> length line \<le> 1024 \<Longrightarrow>
   rev_bytes (rev s) line out =
     (if \<forall>p \<in> set (split_lf (s @ rev line)). length p \<le> 1024
      then Inr (rev (hd (split_lf (s @ rev line))), out @ unlines (rev (tl (split_lf (s @ rev line)))))
      else Inl Array_Overflow)"
proof (induction s arbitrary: line out rule: rev_induct)
  case Nil
  then show ?case by (simp add: split_lf_no_lf)
next
  case (snoc c s)
  show ?case
  proof (cases "c = LF")
    case True
    have sp: "split_lf ((s @ [c]) @ rev line) = split_lf s @ [rev line]"
      using True snoc.prems(1) by (simp add: split_lf_append_lf split_lf_no_lf)
    have "rev_bytes (rev (s @ [c])) line out = rev_bytes (rev s) [] (out @ rev line @ [LF])"
      using True by simp
    also have "\<dots> = (if \<forall>p \<in> set (split_lf s). length p \<le> 1024
      then Inr (rev (hd (split_lf s)), (out @ rev line @ [LF]) @ unlines (rev (tl (split_lf s))))
      else Inl Array_Overflow)"
      using snoc.IH[of "[]"] by simp
    finally show ?thesis using snoc.prems(2) unfolding sp by simp
  next
    case False
    have eq: "(s @ [c]) @ rev line = s @ rev (line @ [c])" by simp
    have lf: "LF \<notin> set (line @ [c])" using False snoc.prems(1) by simp
    show ?thesis
    proof (cases "length line < 1024")
      case True
      then have "rev_bytes (rev (s @ [c])) line out = rev_bytes (rev s) (line @ [c]) out"
        using False by simp
      then show ?thesis using snoc.IH[OF lf] True unfolding eq by simp
    next
      case long: False
      then have "\<not> (\<forall>p \<in> set (split_lf (s @ rev (line @ [c]))). length p \<le> 1024)"
        using line_in_piece[OF lf] by fastforce
      moreover have "rev_bytes (rev (s @ [c])) line out = Inl Array_Overflow"
        using False long by simp
      ultimately show ?thesis unfolding eq by simp
    qed
  qed
qed

section \<open>Numbered lines\<close>

fun number_lines :: "int \<Rightarrow> cstring list \<Rightarrow> (int option \<times> cstring) list" where
  "number_lines n [] = []"
| "number_lines n (l # ls) =
     (if is_empty l then (None, l) # number_lines n ls
      else (Some (n + 1), l) # number_lines (n + 1) ls)"

definition render_line :: "int option \<times> cstring \<Rightarrow> cstring" where
  "render_line e = (case fst e of None \<Rightarrow> [] | Some k \<Rightarrow> c_dec k @ '' '') @ snd e @ [LF]"

definition nonblank :: "cstring list \<Rightarrow> int" where
  "nonblank ls = int (length (filter (\<lambda>l. \<not> is_empty l) ls))"

lemma nonblank_simps [simp]:
  "nonblank [] = 0" "nonblank (l # ls) = (if is_empty l then nonblank ls else nonblank ls + 1)"
  "nonblank (xs @ ys) = nonblank xs + nonblank ys"
  by (simp_all add: nonblank_def)

lemma number_lines_append:
  "number_lines n (xs @ ys) = number_lines n xs @ number_lines (n + nonblank xs) ys"
  by (induction n xs rule: number_lines.induct) (simp_all add: algebra_simps)

lemma is_empty_simps [simp]:
  "is_empty []" "is_empty (rev l) = is_empty l" "is_empty (l @ [LF]) = is_empty l"
  by (simp_all add: is_empty_def list_all_iff c_isspace_def)

lemma render_numbered:
  "number_prefix line n @ rev line @ [LF] =
   concat (map render_line (number_lines (n - nonblank [rev line]) [rev line]))"
  by (simp add: number_prefix_def render_line_def)

lemma num_bytes_lines:
  "LF \<notin> set line \<Longrightarrow> \<forall>p \<in> set (split_lf (s @ rev line)). length p \<le> 1023 \<Longrightarrow>
   num_bytes (rev s) line n out =
     (let P = split_lf (s @ rev line); m = n - nonblank (tl P)
      in (rev (hd P), m, out @ concat (map render_line (rev (number_lines m (tl P))))))"
proof (induction s arbitrary: line n out rule: rev_induct)
  case Nil
  then show ?case by (simp add: split_lf_no_lf)
next
  case (snoc c s)
  show ?case
  proof (cases "c = LF")
    case True
    have sp: "split_lf ((s @ [c]) @ rev line) = split_lf s @ [rev line]"
      using True snoc.prems(1) by (simp add: split_lf_append_lf split_lf_no_lf)
    let ?n = "next_number line n"
    have n: "?n = n - nonblank [rev line]" by (simp add: next_number_def)
    have "num_bytes (rev (s @ [c])) line n out =
        num_bytes (rev s) [] ?n (out @ number_prefix line n @ rev line @ [LF])"
      using True by simp
    also have "\<dots> = (rev (hd (split_lf s)), ?n - nonblank (tl (split_lf s)),
        (out @ number_prefix line n @ rev line @ [LF]) @
        concat (map render_line (rev (number_lines (?n - nonblank (tl (split_lf s))) (tl (split_lf s))))))"
      using snoc.IH[of "[]" ?n] snoc.prems(2) unfolding sp by (simp add: Let_def)
    finally show ?thesis
      unfolding sp n render_numbered
      by (cases "is_empty line") (simp_all add: Let_def number_lines_append algebra_simps)
  next
    case False
    have eq: "(s @ [c]) @ rev line = s @ rev (line @ [c])" by simp
    have lf: "LF \<notin> set (line @ [c])" using False snoc.prems(1) by simp
    have "length (line @ [c]) \<le> 1023"
      using lf snoc.prems(2) unfolding eq by (rule line_in_piece)
    then have "num_bytes (rev (s @ [c])) line n out = num_bytes (rev s) (line @ [c]) n out"
      using False by simp
    then show ?thesis using snoc.IH[OF lf] snoc.prems(2) unfolding eq by simp
  qed
qed

lemma fgets_lines_unlines:
  "\<forall>l \<in> set ls. LF \<notin> set l \<and> length l < 1023 \<Longrightarrow>
   fgets_lines 1023 (unlines ls) = map (\<lambda>l. l @ [LF]) ls"
  by (induction ls) (simp_all add: fgets_lines_line)

lemma nums_loop_unlines:
  "nums_loop (map (\<lambda>l. l @ [LF]) ls) n out =
     (n + nonblank ls, out @ concat (map render_line (number_lines n ls)))"
  by (induction ls arbitrary: n out) (simp_all add: render_line_def)

lemma count_unlines:
  "fold (\<lambda>line cnt. if \<not> is_empty line then cnt + 1 else cnt) (map (\<lambda>l. l @ [LF]) ls) n = n + nonblank ls"
  by (induction ls arbitrary: n) simp_all

section \<open>Properties\<close>

text \<open>
  C37.  \<open>peek -r\<close>: reading the file backwards in blocks of 1024 bytes prints its lines from the last
  to the first, whatever the position of the lines in the blocks.  The empty piece after a final
  newline counts as a line, so the output then starts with an empty line, and an empty first line
  is left out.  A line of more than 1024 characters overruns the line buffer.
\<close>

theorem peek_reverse_lines:
  "reverse True text =
     (if \<forall>l \<in> set (split_lf text). length l \<le> 1024
      then Inr (unlines (rev (tl (split_lf text))) @
                (if hd (split_lf text) = [] then [] else hd (split_lf text) @ [LF]))
      else Inl Array_Overflow)"
  using rev_bytes_lines[of "[]" "text" "[]"]
  by (simp add: reverse_def reverse_loop_bytes)

lemma peek_reverse_lines_witness:
  "reverse True ''a
bc
'' = Inr ''
bc
a
''"
  unfolding peek_reverse_lines by simp

text \<open>
  \<open>peek -n -r\<close> gives every line of a file of lines shorter than 1023 characters the number
  that \<open>peek -n\<close> gives it, and prints them in the opposite order (after the empty line that stands
  for the end of the file, and without an empty first line).
\<close>

theorem peek_reverse_numbers:
  assumes "\<forall>l \<in> set (l0 # ls). LF \<notin> set l \<and> length l < 1023"
  shows "let text = unlines (l0 # ls); numbered = number_lines 0 (l0 # ls)
    in snd (nums_line text 0) = concat (map render_line numbered) \<and>
       reverse_with_nums True text (get_line_count text) =
         LF # concat (map render_line (rev (if l0 = [] then tl numbered else numbered)))"
proof -
  let ?text = "unlines (l0 # ls)"
  have P: "split_lf ?text = l0 # ls @ [[]]" using assms split_lf_unlines[of "l0 # ls"] by simp
  then have "\<forall>p \<in> set (split_lf (?text @ rev [])). length p \<le> 1023" using assms by fastforce
  from num_bytes_lines[OF _ this, of "get_line_count ?text" "[]"]
  have "num_loop ?text (length ?text) [] (get_line_count ?text) [] =
      (rev l0, get_line_count ?text - nonblank ls,
       concat (map render_line (rev (number_lines (get_line_count ?text - nonblank ls) (ls @ [[]])))))"
    using P by (simp add: num_loop_bytes Let_def)
  moreover have "get_line_count ?text = nonblank (l0 # ls)"
    unfolding get_line_count_def fgets_lines_unlines[OF assms] count_unlines by simp
  moreover have "snd (nums_line ?text 0) = concat (map render_line (number_lines 0 (l0 # ls)))"
    unfolding nums_line_def fgets_lines_unlines[OF assms] nums_loop_unlines by simp
  ultimately show ?thesis
    by (simp add: reverse_with_nums_def number_lines_append Let_def number_prefix_def render_line_def)
qed

lemma peek_reverse_numbers_witness:
  "reverse_with_nums True ''a

b
'' (get_line_count ''a

b
'') = ''
2 b

1 a
''"
proof -
  have t: "unlines [''a'', [], ''b''] = ''a

b
''" by simp
  have d: "c_dec 1 = ''1''" "c_dec 2 = ''2''" by code_simp+
  show ?thesis
    using peek_reverse_numbers[of "''a''" "[[], ''b'']"] unfolding t
    by (simp add: Let_def render_line_def is_empty_def c_isspace_def d)
qed

end
