(* ===== verification/Locate.thy ===== *)
theory Locate
  imports Lexer Frecency
begin

text \<open>
  Finding executables: the command \<open>locate\<close> (\<open>c-shell/src/locate.c\<close>) and the search the executor
  makes for a command's name (\<open>find_path\<close> and \<open>resolve_command\<close> in \<open>c-shell/src/command.c\<close>).
  The file system and the environment are the fields of \<open>search_env\<close>.
\<close>

section \<open>The environment\<close>

text \<open>\<open>stat_regular p\<close> is \<open>None\<close> when \<open>stat\<close> fails and otherwise tells whether \<open>p\<close> is a regular file.\<close>

record search_env =
  stat_regular :: "cstring \<Rightarrow> bool option"
  x_access :: "cstring \<Rightarrow> bool"
  env_PATH :: "cstring option"
  env_cwd :: "cstring option"

definition is_executable :: "search_env \<Rightarrow> cstring \<Rightarrow> bool" where
  "is_executable env path =
     (case stat_regular env path of
        None \<Rightarrow> False
      | Some reg \<Rightarrow> if \<not> reg then False else if \<not> x_access env path then False else True)"

text \<open>The tokens that repeated calls of \<open>strtok\<close> with one separator return.\<close>

function strtok_all :: "char \<Rightarrow> cstring \<Rightarrow> cstring list" where
  "strtok_all sep s =
     (let s' = dropWhile (\<lambda>c. c = sep) s
      in if s' = [] then []
         else takeWhile (\<lambda>c. c \<noteq> sep) s' # strtok_all sep (dropWhile (\<lambda>c. c \<noteq> sep) s'))"
  by auto
termination
proof (relation "measure (\<lambda>(sep, s). length s)")
  fix sep :: char and s s' :: cstring
  assume s': "s' = dropWhile (\<lambda>c. c = sep) s" "s' \<noteq> []"
  then have "hd s' \<noteq> sep" using hd_dropWhile[of "\<lambda>c. c = sep" s] by simp
  then have "length (dropWhile (\<lambda>c. c \<noteq> sep) s') < length s'"
    using s'(2) by (cases s') (auto simp: less_Suc_eq_le length_dropWhile_le)
  also have "\<dots> \<le> length s" using s'(1) by (simp add: length_dropWhile_le)
  finally show "((sep, dropWhile (\<lambda>c. c \<noteq> sep) s'), (sep, s)) \<in> measure (\<lambda>(sep, s). length s)"
    by simp
qed simp

declare strtok_all.simps [simp del]

section \<open>locate\<close>

definition search_current_directory :: "search_env \<Rightarrow> cstring \<Rightarrow> cstring list" where
  "search_current_directory env filename =
     (case env_cwd env of
        None \<Rightarrow> []
      | Some cwd \<Rightarrow>
          if PATH_MAX \<le> length cwd + length filename + 2 then []
          else if is_executable env (cwd @ ''/'' @ filename) then [cwd @ ''/'' @ filename]
          else [])"

text \<open>The full path tried for one directory of \<open>PATH\<close>, \<open>None\<close> when the code skips it.\<close>

definition path_candidate :: "search_env \<Rightarrow> cstring \<Rightarrow> cstring \<Rightarrow> cstring option" where
  "path_candidate env filename dir =
     (if hd dir = CHR ''/'' then
        (if PATH_MAX \<le> length dir + length filename + 2 then None
         else Some (dir @ ''/'' @ filename))
      else case env_cwd env of
          None \<Rightarrow> None
        | Some cwd \<Rightarrow>
            if PATH_MAX \<le> length cwd + length dir + length filename + 3 then None
            else Some (cwd @ ''/'' @ dir @ ''/'' @ filename))"

fun search_dirs :: "search_env \<Rightarrow> cstring \<Rightarrow> cstring list \<Rightarrow> cstring list" where
  "search_dirs env filename [] = []"
| "search_dirs env filename (dir # dirs) =
     (case path_candidate env filename dir of
        None \<Rightarrow> search_dirs env filename dirs
      | Some full_path \<Rightarrow>
          if is_executable env full_path then full_path # search_dirs env filename dirs
          else search_dirs env filename dirs)"

text \<open>The lines printed; the function's result \<open>found\<close> tells whether there are any.\<close>

definition search_path :: "search_env \<Rightarrow> cstring \<Rightarrow> fault + cstring list" where
  "search_path env filename =
     (case env_PATH env of
        None \<Rightarrow> Inr []
      | Some path \<Rightarrow>
          if PATH_MAX \<le> length path then Inl Array_Overflow
          else Inr (search_dirs env filename (strtok_all (CHR '':'') path)))"

definition locate_one :: "search_env \<Rightarrow> cstring \<Rightarrow> fault + cstring list" where
  "locate_one env name =
     bind_fault (search_path env name) (\<lambda>found.
       let here = search_current_directory env name
       in Inr (if here = [] \<and> found = [] then [''locate: command not found ('' @ name @ '')'']
               else here @ found))"

fun locate_loop :: "search_env \<Rightarrow> token list \<Rightarrow> fault + cstring list" where
  "locate_loop env [] = Inr []"
| "locate_loop env (t # ts) =
     bind_fault (locate_one env (tok_value t)) (\<lambda>ls.
       bind_fault (locate_loop env ts) (\<lambda>ls'. Inr (ls @ ls')))"

definition exec_locate :: "search_env \<Rightarrow> token list \<Rightarrow> fault + cstring list" where
  "exec_locate env toks =
     (if tl toks = [] then Inr [''locate: invalid syntax''] else locate_loop env (tl toks))"

section \<open>The executor's search\<close>

fun find_dirs :: "search_env \<Rightarrow> cstring \<Rightarrow> cstring list \<Rightarrow> cstring option" where
  "find_dirs env filename [] = None"
| "find_dirs env filename (dir # dirs) =
     (let result = snprintf_str PATH_MAX (dir @ ''/'' @ filename)
      in if is_executable env result then Some result else find_dirs env filename dirs)"

definition find_path :: "search_env \<Rightarrow> cstring \<Rightarrow> fault + cstring option" where
  "find_path env filename =
     (case env_PATH env of
        None \<Rightarrow> Inr None
      | Some path \<Rightarrow>
          if PATH_MAX \<le> length path then Inl Array_Overflow
          else Inr (find_dirs env filename (strtok_all (CHR '':'') path)))"

text \<open>The result: \<open>argv0\<close>, and the path to execute if one was found.\<close>

definition resolve_command :: "search_env \<Rightarrow> cstring \<Rightarrow> fault + (cstring \<times> cstring option)" where
  "resolve_command env command =
     (if CHR ''/'' \<in> set command then
        Inr (command, if is_executable env command then Some (snprintf_str PATH_MAX command) else None)
      else if command \<noteq> [] \<and> hd command = CHR ''%'' then
        bind_fault (find_path env (tl command)) (\<lambda>p. Inr (tl command, p))
      else
        let path = snprintf_str PATH_MAX (''./'' @ command)
        in if is_executable env path then Inr (command, Some path)
           else bind_fault (find_path env command) (\<lambda>p. Inr (command, p)))"

section \<open>Both searches find the same file\<close>

text \<open>
  How \<open>locate\<close> writes the path that the executor found, and what is assumed of the file system:
  a relative path denotes the file under the current directory, with or without a leading dot.
\<close>

definition shown :: "cstring \<Rightarrow> cstring \<Rightarrow> cstring \<Rightarrow> cstring" where
  "shown cwd name p =
     (if p = ''./'' @ name then cwd @ ''/'' @ name
      else if p \<noteq> [] \<and> hd p = CHR ''/'' then p
      else cwd @ ''/'' @ p)"

definition resolves :: "search_env \<Rightarrow> cstring \<Rightarrow> bool" where
  "resolves env cwd \<longleftrightarrow>
     (\<forall>p. p \<noteq> [] \<and> hd p \<noteq> CHR ''/'' \<longrightarrow> is_executable env (cwd @ ''/'' @ p) = is_executable env p) \<and>
     (\<forall>p. is_executable env (cwd @ ''/./'' @ p) = is_executable env (cwd @ ''/'' @ p))"

definition fits :: "cstring \<Rightarrow> cstring list \<Rightarrow> cstring \<Rightarrow> bool" where
  "fits cwd dirs name \<longleftrightarrow> length cwd + length name + 2 < PATH_MAX \<and>
     (\<forall>d \<in> set dirs. length cwd + length d + length name + 3 < PATH_MAX)"

lemma strtok_all_nonempty: "d \<in> set (strtok_all sep s) \<Longrightarrow> d \<noteq> [] \<and> sep \<notin> set d"
proof (induction sep s rule: strtok_all.induct)
  case (1 sep s)
  let ?s = "dropWhile (\<lambda>c. c = sep) s"
  show ?case
  proof (cases "?s = []")
    case True
    then show ?thesis using 1(2) by (subst (asm) strtok_all.simps) (simp add: Let_def)
  next
    case False
    then have h: "hd ?s \<noteq> sep" using hd_dropWhile[of "\<lambda>c. c = sep" s] by blast
    from 1(2) False have "d = takeWhile (\<lambda>c. c \<noteq> sep) ?s \<or>
        d \<in> set (strtok_all sep (dropWhile (\<lambda>c. c \<noteq> sep) ?s))"
      using strtok_all.simps[of sep s] by (simp add: Let_def del: dropWhile_eq_Nil_conv)
    then show ?thesis
    proof
      assume d: "d = takeWhile (\<lambda>c. c \<noteq> sep) ?s"
      have "d \<noteq> []" using False h unfolding d by (cases ?s) auto
      moreover have "sep \<notin> set d" using set_takeWhileD[of sep "\<lambda>c. c \<noteq> sep" ?s] unfolding d by blast
      ultimately show ?thesis by simp
    qed (use 1(1)[OF refl False] in blast)
  qed
qed

lemma path_candidate_fits:
  assumes "env_cwd env = Some cwd" "fits cwd (d # ds) name" "d \<noteq> []"
  shows "path_candidate env name d = Some (if hd d = CHR ''/'' then d @ ''/'' @ name
     else cwd @ ''/'' @ d @ ''/'' @ name)"
  using assms by (simp add: path_candidate_def fits_def)

lemma search_dirs_find_dirs:
  assumes "env_cwd env = Some cwd" "resolves env cwd"
  shows "fits cwd dirs name \<Longrightarrow> \<forall>d \<in> set dirs. d \<noteq> [] \<Longrightarrow> \<not> is_executable env (''./'' @ name) \<Longrightarrow>
    (case find_dirs env name dirs of
       None \<Rightarrow> search_dirs env name dirs = []
     | Some p \<Rightarrow> search_dirs env name dirs \<noteq> [] \<and>
         hd (search_dirs env name dirs) = shown cwd name p)"
proof (induction dirs)
  case (Cons d ds)
  let ?p = "d @ ''/'' @ name"
  have d: "d \<noteq> []" using Cons.prems(2) by simp
  have len: "length ?p < PATH_MAX" using Cons.prems(1) by (simp add: fits_def)
  then have f: "find_dirs env name (d # ds) = (if is_executable env ?p then Some ?p else find_dirs env name ds)"
    by (simp add: snprintf_str_id Let_def)
  have eq: "is_executable env (if hd d = CHR ''/'' then ?p else cwd @ ''/'' @ ?p) = is_executable env ?p"
    using assms(2) d unfolding resolves_def by (simp add: hd_append)
  have s: "search_dirs env name (d # ds) = (if is_executable env ?p
      then (if hd d = CHR ''/'' then ?p else cwd @ ''/'' @ ?p) # search_dirs env name ds
      else search_dirs env name ds)"
    using eq path_candidate_fits[OF assms(1) Cons.prems(1) d] by (simp split: if_splits)
  show ?case
  proof (cases "is_executable env ?p")
    case True
    then have "?p \<noteq> ''./'' @ name" using Cons.prems(3) by metis
    then have "shown cwd name ?p = (if hd d = CHR ''/'' then ?p else cwd @ ''/'' @ ?p)"
      using d by (simp add: shown_def hd_append)
    then show ?thesis using True f s by simp
  next
    case False
    have "fits cwd ds name" using Cons.prems(1) by (simp add: fits_def)
    then have IH: "case find_dirs env name ds of None \<Rightarrow> search_dirs env name ds = []
        | Some p \<Rightarrow> search_dirs env name ds \<noteq> [] \<and> hd (search_dirs env name ds) = shown cwd name p"
      using Cons.IH Cons.prems(2,3) by simp
    have "find_dirs env name (d # ds) = find_dirs env name ds"
      "search_dirs env name (d # ds) = search_dirs env name ds" using False f s by simp_all
    then show ?thesis using IH by (simp only:)
  qed
qed simp

section \<open>Properties\<close>


definition bin_env :: search_env where
  "bin_env = \<lparr>stat_regular = (\<lambda>p. if p = ''/bin/ls'' then Some True else None),
     x_access = (\<lambda>p. True), env_PATH = Some '':/sbin::/bin'', env_cwd = Some ''/h''\<rparr>"

lemma bin_env_exec: "is_executable bin_env p \<longleftrightarrow> p = ''/bin/ls''"
  by (simp add: is_executable_def bin_env_def)


end
