(* ===== verification/Reveal.thy ===== *)
theory Reveal
  imports Hop "HOL-Library.List_Lexorder"
begin

text \<open>
  Directory listings, \<open>c-shell/src/reveal.c\<close>.  A directory is what \<open>opendir\<close> and \<open>readdir\<close> make
  of its path, the list of its entries in the order of the file system; \<open>strcmp\<close> is the
  lexicographic order of strings.  The output is the list of the lines printed.
\<close>

section \<open>The file system\<close>

text \<open>\<open>dir_entries\<close> is \<open>opendir\<close> with the names \<open>readdir\<close> returns; \<open>stat_dir\<close> is \<open>stat\<close> with
  \<open>S_ISDIR\<close>, \<open>None\<close> when it fails.\<close>

record dir_env =
  dir_entries :: "cstring \<Rightarrow> cstring list option"
  stat_dir :: "cstring \<Rightarrow> bool option"

section \<open>Sorting\<close>

definition compare :: "cstring \<Rightarrow> cstring \<Rightarrow> int" where
  "compare name1 name2 = (if name1 < name2 then - 1 else if name1 = name2 then 0 else 1)"

section \<open>Listings\<close>

definition resolve_path :: "hop_state \<Rightarrow> cstring \<Rightarrow> cstring option" where
  "resolve_path st path =
     (if path = ''~'' then Some (home_Dir st)
      else if path = ''-'' then (if prev_dir_flag st then Some (prev_dir st) else None)
      else Some path)"

definition hidden :: "cstring \<Rightarrow> bool" where
  "hidden name \<longleftrightarrow> name \<noteq> [] \<and> hd name = CHR ''.''"

text \<open>The entries collected by \<open>reveal_directory\<close>.\<close>

definition visible :: "bool \<Rightarrow> cstring list \<Rightarrow> cstring list" where
  "visible show_all names =
     filter (\<lambda>n. \<not> (\<not> show_all \<and> hidden n) \<and> \<not> (n = ''.'' \<or> n = ''..'')) names"

definition child_path :: "cstring \<Rightarrow> cstring \<Rightarrow> cstring" where
  "child_path path name = snprintf_str 4096 (path @ ''/'' @ name)"

definition child_display :: "cstring \<Rightarrow> cstring \<Rightarrow> cstring" where
  "child_display display_path name =
     (if display_path = [] then snprintf_str 4096 name
      else snprintf_str 4096 (display_path @ ''/'' @ name))"

text \<open>
  The recursion follows symbolic links and ends only if the file system does; \<open>fuel\<close> bounds its
  depth, and \<open>None\<close> means that the bound was reached.
\<close>

fun reveal_directory :: "nat \<Rightarrow> dir_env \<Rightarrow> cstring \<Rightarrow> cstring \<Rightarrow> bool \<Rightarrow> cstring list option"
  and reveal_entries :: "nat \<Rightarrow> dir_env \<Rightarrow> cstring \<Rightarrow> cstring \<Rightarrow> bool \<Rightarrow> cstring list \<Rightarrow>
    cstring list option" where
  "reveal_directory 0 env path display_path show_all = None"
| "reveal_directory (Suc fuel) env path display_path show_all =
     (case dir_entries env path of
        None \<Rightarrow> Some []
      | Some names \<Rightarrow>
          reveal_entries fuel env path display_path show_all (qsort compare (visible show_all names)))"
| "reveal_entries fuel env path display_path show_all [] = Some []"
| "reveal_entries fuel env path display_path show_all (n # ns) =
     (let full_path = child_path path n; current_display = child_display display_path n
      in case stat_dir env full_path of
           None \<Rightarrow> reveal_entries fuel env path display_path show_all ns
         | Some True \<Rightarrow>
             (case reveal_directory fuel env full_path current_display show_all of
                None \<Rightarrow> None
              | Some sub \<Rightarrow>
                  map_option (\<lambda>rest. (current_display @ ''/'') # sub @ rest)
                    (reveal_entries fuel env path display_path show_all ns))
         | Some False \<Rightarrow>
             map_option (\<lambda>rest. current_display # rest)
               (reveal_entries fuel env path display_path show_all ns))"

section \<open>The command\<close>

fun reveal_flags :: "cstring \<Rightarrow> bool \<Rightarrow> bool \<Rightarrow> (bool \<times> bool) option" where
  "reveal_flags [] show_all rc = Some (show_all, rc)"
| "reveal_flags (c # cs) show_all rc =
     (if c = CHR ''a'' then reveal_flags cs True rc
      else if c = CHR ''t'' then reveal_flags cs show_all True
      else None)"

text \<open>\<open>None\<close> is a syntax error.\<close>

fun reveal_parse :: "token list \<Rightarrow> bool \<Rightarrow> bool \<Rightarrow> cstring option \<Rightarrow>
    (bool \<times> bool \<times> cstring option) option" where
  "reveal_parse [] show_all rc path = Some (show_all, rc, path)"
| "reveal_parse (t # ts) show_all rc path =
     (if tok_value t \<noteq> [] \<and> hd (tok_value t) = CHR ''-'' then
        (case reveal_flags (tl (tok_value t)) show_all rc of
           None \<Rightarrow> None
         | Some (show_all, rc) \<Rightarrow> reveal_parse ts show_all rc path)
      else if path \<noteq> None then None
      else reveal_parse ts show_all rc (Some (tok_value t)))"

definition exec_reveal :: "nat \<Rightarrow> dir_env \<Rightarrow> hop_state \<Rightarrow> token list \<Rightarrow> cstring list option" where
  "exec_reveal fuel env st toks =
     (case reveal_parse (tl toks) False False None of
        None \<Rightarrow> Some [''reveal: invalid syntax'']
      | Some (show_all, rc, arg) \<Rightarrow>
          (case resolve_path st (case arg of None \<Rightarrow> ''.'' | Some p \<Rightarrow> p) of
             None \<Rightarrow> Some [''reveal: no such directory'']
           | Some path \<Rightarrow>
               (case dir_entries env path of
                  None \<Rightarrow> Some [''reveal: no such directory'']
                | Some names \<Rightarrow>
                    if rc then
                      (if path = ''.'' then reveal_directory fuel env path [] show_all
                       else reveal_directory fuel env path path show_all)
                    else Some (qsort compare (filter (\<lambda>n. \<not> (\<not> show_all \<and> hidden n)) names)))))"

section \<open>Lemmas\<close>

lemma compare_le: "compare x y \<le> 0 \<longleftrightarrow> x \<le> y"
  by (auto simp: compare_def)

lemma compare_total: "total_order_by compare A"
  by (auto simp: total_order_by_def compare_le)

lemma qsort_sort: "qsort compare xs = sort xs"
proof -
  have "sorted_wrt (\<lambda>x y. compare x y \<le> 0) (sort xs)" using sorted_sort[of xs] by (simp add: compare_le)
  then show ?thesis using qsort_unique[OF compare_total, of "sort xs" xs] by simp
qed

text \<open>
  What a recursive listing is about: the entries reached from a directory, each with the line
  that stands for it.
\<close>

inductive listed :: "dir_env \<Rightarrow> bool \<Rightarrow> cstring \<Rightarrow> cstring \<Rightarrow> cstring \<Rightarrow> bool" for env show_all where
  plain: "dir_entries env path = Some names \<Longrightarrow> n \<in> set (visible show_all names) \<Longrightarrow>
     stat_dir env (child_path path n) = Some False \<Longrightarrow>
     listed env show_all path disp (child_display disp n)"
| subdir: "dir_entries env path = Some names \<Longrightarrow> n \<in> set (visible show_all names) \<Longrightarrow>
     stat_dir env (child_path path n) = Some True \<Longrightarrow>
     listed env show_all path disp (child_display disp n @ ''/'')"
| below: "dir_entries env path = Some names \<Longrightarrow> n \<in> set (visible show_all names) \<Longrightarrow>
     stat_dir env (child_path path n) = Some True \<Longrightarrow>
     listed env show_all (child_path path n) (child_display disp n) line \<Longrightarrow>
     listed env show_all path disp line"

inductive_cases listed_cases: "listed env show_all path disp line"

definition entry_lines :: "dir_env \<Rightarrow> bool \<Rightarrow> cstring \<Rightarrow> cstring \<Rightarrow> cstring \<Rightarrow> cstring set" where
  "entry_lines env show_all path disp n =
     (case stat_dir env (child_path path n) of
        None \<Rightarrow> {}
      | Some False \<Rightarrow> {child_display disp n}
      | Some True \<Rightarrow> insert (child_display disp n @ ''/'')
          {l. listed env show_all (child_path path n) (child_display disp n) l})"

lemma listed_entries:
  "{l. listed env show_all path disp l} =
   (case dir_entries env path of None \<Rightarrow> {}
    | Some names \<Rightarrow> (\<Union>n \<in> set (visible show_all names). entry_lines env show_all path disp n))"
proof (cases "dir_entries env path")
  case None
  then show ?thesis by (auto elim: listed_cases)
next
  case (Some names)
  show ?thesis
  proof (intro equalityI subsetI)
    fix l assume "l \<in> {l. listed env show_all path disp l}"
    then have "listed env show_all path disp l" by simp
    then have "\<exists>n \<in> set (visible show_all names). l \<in> entry_lines env show_all path disp n"
    proof (cases rule: listed.cases)
      case (plain names' n)
      then show ?thesis using Some by (intro bexI[of _ n]) (simp_all add: entry_lines_def)
    next
      case (subdir names' n)
      then show ?thesis using Some by (intro bexI[of _ n]) (simp_all add: entry_lines_def)
    next
      case (below names' n)
      then show ?thesis using Some by (intro bexI[of _ n]) (simp_all add: entry_lines_def)
    qed
    then show "l \<in> (case dir_entries env path of None \<Rightarrow> {}
        | Some names \<Rightarrow> (\<Union>n \<in> set (visible show_all names). entry_lines env show_all path disp n))"
      by (simp add: Some)
  next
    fix l assume "l \<in> (case dir_entries env path of None \<Rightarrow> {}
        | Some names \<Rightarrow> (\<Union>n \<in> set (visible show_all names). entry_lines env show_all path disp n))"
    then obtain n where n: "n \<in> set (visible show_all names)" "l \<in> entry_lines env show_all path disp n"
      by (auto simp: Some)
    then show "l \<in> {l. listed env show_all path disp l}"
      using Some by (auto simp: entry_lines_def intro: listed.intros split: option.splits bool.splits)
  qed
qed

lemma reveal_lines:
  "reveal_directory fuel env path disp show_all = Some ls \<Longrightarrow>
     set ls = {l. listed env show_all path disp l}"
  "reveal_entries fuel env path disp show_all ns = Some ls \<Longrightarrow>
     set ls = (\<Union>n \<in> set ns. entry_lines env show_all path disp n)"
proof (induction fuel env path disp show_all and fuel env path disp show_all ns
    arbitrary: ls and ls rule: reveal_directory_reveal_entries.induct)
  case (2 fuel env path disp show_all)
  then show ?case
    by (auto simp: listed_entries qsort_sort split: option.splits)
next
  case (4 fuel env path disp show_all n ns)
  show ?case
  proof (cases "stat_dir env (child_path path n)")
    case None
    then have "reveal_entries fuel env path disp show_all ns = Some ls" using 4(5) by (simp add: Let_def)
    from 4(1)[OF refl refl None this] show ?thesis using None by (simp add: entry_lines_def)
  next
    case (Some isdir)
    show ?thesis
    proof (cases isdir)
      case True
      then obtain sub rest where r:
        "reveal_directory fuel env (child_path path n) (child_display disp n) show_all = Some sub"
        "reveal_entries fuel env path disp show_all ns = Some rest"
        "ls = (child_display disp n @ ''/'') # sub @ rest"
        using 4(5) Some by (auto simp: Let_def split: option.splits)
      have "set sub = {l. listed env show_all (child_path path n) (child_display disp n) l}"
        using 4(2)[OF refl refl Some] True r(1) by simp
      moreover have "set rest = (\<Union>n \<in> set ns. entry_lines env show_all path disp n)"
        using 4(3)[OF refl refl Some _ r(1)] True r(2) by simp
      moreover have "entry_lines env show_all path disp n = insert (child_display disp n @ ''/'')
          {l. listed env show_all (child_path path n) (child_display disp n) l}"
        using Some True by (simp add: entry_lines_def)
      ultimately show ?thesis unfolding r(3) by simp
    next
      case False
      then obtain rest where r: "reveal_entries fuel env path disp show_all ns = Some rest"
        "ls = child_display disp n # rest" using 4(5) Some by (auto simp: Let_def)
      have "set rest = (\<Union>n \<in> set ns. entry_lines env show_all path disp n)"
        using 4(4)[OF refl refl Some _ r(1)] False by simp
      then show ?thesis using Some False by (simp add: r(2) entry_lines_def)
    qed
  qed
qed simp_all

text \<open>A hierarchy without cycles has a rank that falls from a directory to its subdirectories.\<close>

definition ranked :: "dir_env \<Rightarrow> (cstring \<Rightarrow> nat) \<Rightarrow> bool" where
  "ranked env rank \<longleftrightarrow> (\<forall>path n. dir_entries env path \<noteq> None \<and>
     stat_dir env (child_path path n) = Some True \<longrightarrow> rank (child_path path n) < rank path)"

lemma reveal_terminates:
  "ranked env rank \<Longrightarrow> rank path < fuel \<Longrightarrow> \<exists>ls. reveal_directory fuel env path disp show_all = Some ls"
  "ranked env rank \<Longrightarrow>
     (\<forall>n \<in> set ns. stat_dir env (child_path path n) = Some True \<longrightarrow> rank (child_path path n) < fuel) \<Longrightarrow>
     \<exists>ls. reveal_entries fuel env path disp show_all ns = Some ls"
proof (induction fuel env path disp show_all and fuel env path disp show_all ns
    rule: reveal_directory_reveal_entries.induct)
  case (2 fuel env path disp show_all)
  show ?case
  proof (cases "dir_entries env path")
    case (Some names)
    have "rank (child_path path n) < fuel" if "stat_dir env (child_path path n) = Some True" for n
    proof -
      have "rank (child_path path n) < rank path"
        using 2(2) Some that unfolding ranked_def by blast
      then show ?thesis using 2(3) by simp
    qed
    then show ?thesis using 2(1)[OF Some 2(2)] Some by simp
  qed simp
next
  case (4 fuel env path disp show_all n ns)
  have rest: "\<forall>n \<in> set ns. stat_dir env (child_path path n) = Some True \<longrightarrow> rank (child_path path n) < fuel"
    using 4(6) by simp
  show ?case
  proof (cases "stat_dir env (child_path path n)")
    case None
    then show ?thesis using 4(1)[OF refl refl None 4(5) rest] by (simp add: Let_def)
  next
    case (Some isdir)
    show ?thesis
    proof (cases isdir)
      case True
      then have d: "stat_dir env (child_path path n) = Some True" using Some by simp
      then obtain sub where
        s: "reveal_directory fuel env (child_path path n) (child_display disp n) show_all = Some sub"
        using 4(2)[OF refl refl Some _ 4(5)] 4(6) True by auto
      from 4(3)[OF refl refl Some _ s 4(5) rest] True s d show ?thesis by (auto simp: Let_def)
    next
      case False
      then show ?thesis using 4(4)[OF refl refl Some _ 4(5) rest] Some by (auto simp: Let_def)
    qed
  qed
qed simp_all

section \<open>Properties\<close>

text \<open>
  \<open>reveal\<close> without \<open>-t\<close> prints the entries of the directory, the hidden ones only with \<open>-a\<close>,
  each once and in the order of \<open>strcmp\<close>.
\<close>

theorem reveal_lists_sorted:
  assumes "reveal_parse (tl toks) False False None = Some (show_all, False, arg)"
    and "resolve_path st (case arg of None \<Rightarrow> ''.'' | Some p \<Rightarrow> p) = Some path"
    and "dir_entries env path = Some names"
  shows "\<exists>ls. exec_reveal fuel env st toks = Some ls \<and> sorted ls \<and>
    mset ls = {#n \<in># mset names. show_all \<or> \<not> hidden n#}"
proof -
  let ?ls = "qsort compare (filter (\<lambda>n. \<not> (\<not> show_all \<and> hidden n)) names)"
  have "exec_reveal fuel env st toks = Some ?ls" using assms by (simp add: exec_reveal_def)
  moreover have "sorted ?ls" by (simp add: qsort_sort)
  moreover have "mset ?ls = {#n \<in># mset names. show_all \<or> \<not> hidden n#}"
    by (simp add: qsort_sort mset_filter)
  ultimately show ?thesis by blast
qed

definition small_dir :: dir_env where
  "small_dir = \<lparr>dir_entries = (\<lambda>p. if p = ''.'' then Some [''..'', ''b'', ''.'', ''a'', ''.x'']
                                   else if p = ''./a'' then Some [''f'', ''.'', ''..''] else None),
     stat_dir = (\<lambda>p. if p = ''./a'' then Some True else if p = ''./b'' \<or> p = ''./a/f'' then Some False
                     else None)\<rparr>"

lemma reveal_lists_sorted_witness:
  "\<exists>ls. exec_reveal 0 small_dir home_state [\<lparr>tok_type = WORD, tok_value = ''reveal''\<rparr>] = Some ls \<and>
     sorted ls \<and> mset ls = {#''a'', ''b''#}"
proof -
  let ?t = "[\<lparr>tok_type = WORD, tok_value = ''reveal''\<rparr>]"
  let ?names = "[''..'', ''b'', ''.'', ''a'', ''.x'']"
  have p: "reveal_parse (tl ?t) False False None = Some (False, False, None)" by simp
  have r: "resolve_path home_state (case None of None \<Rightarrow> ''.'' | Some p \<Rightarrow> p) = Some ''.''"
    by (simp add: resolve_path_def)
  have d: "dir_entries small_dir ''.'' = Some ?names" by (simp add: small_dir_def)
  have "{#n \<in># mset ?names. False \<or> \<not> hidden n#} = {#''a'', ''b''#}" by (simp add: hidden_def)
  with reveal_lists_sorted[OF p r d, of 0] show ?thesis by (simp only:)
qed



text \<open>
  \<open>reveal -\<close> lists the current directory: the dash is read as an empty group of options, and
  the branch of \<open>resolve_path\<close> for the previous directory is never taken.
\<close>

theorem reveal_dash_is_option:
  "exec_reveal fuel env st [t, \<lparr>tok_type = WORD, tok_value = ''-''\<rparr>] = exec_reveal fuel env st [t] \<and>
   (reveal_parse ts show_all rc None = Some (a, r, arg) \<longrightarrow> arg \<noteq> Some ''-'')"
proof
  show "exec_reveal fuel env st [t, \<lparr>tok_type = WORD, tok_value = ''-''\<rparr>] = exec_reveal fuel env st [t]"
    by (simp add: exec_reveal_def)
  have "reveal_parse ts show_all rc p = Some (a, r, arg) \<Longrightarrow> p \<noteq> Some ''-'' \<Longrightarrow> arg \<noteq> Some ''-''" for p
  proof (induction ts show_all rc p rule: reveal_parse.induct)
    case (2 t ts show_all rc p)
    show ?case
    proof (cases "tok_value t \<noteq> [] \<and> hd (tok_value t) = CHR ''-''")
      case False
      then have "Some (tok_value t) \<noteq> Some ''-''" by auto
      with False 2 show ?thesis by (simp split: if_splits)
    qed (use 2 in \<open>auto split: option.splits\<close>)
  qed simp
  then show "reveal_parse ts show_all rc None = Some (a, r, arg) \<longrightarrow> arg \<noteq> Some ''-''" by blast
qed

lemma reveal_dash_is_option_witness:
  "reveal_parse [\<lparr>tok_type = WORD, tok_value = ''-t''\<rparr>] False False None = Some (False, True, None) \<and>
   None \<noteq> Some ''-''"
  using reveal_dash_is_option[of 0 small_dir home_state "\<lparr>tok_type = WORD, tok_value = ''x''\<rparr>"
      "[\<lparr>tok_type = WORD, tok_value = ''-t''\<rparr>]" False False False True None] by simp

end
