(* ===== verification/Spy.thy ===== *)
theory Spy
  imports Shell_Prelude Lexer
begin

text \<open>
  The process inspector \<open>spy\<close>, \<open>c-shell/src/spy.c\<close>.  What the kernel shows under \<open>/proc\<close> and what
  \<open>stat\<close> and \<open>readlink\<close> return is a parameter.
\<close>

section \<open>The kernel's answers\<close>

datatype file_type = S_REG | S_DIR | S_CHR | S_BLK | S_FIFO | S_LNK | S_SOCK | S_other

record proc_env =
  stat_type :: "cstring \<Rightarrow> file_type option"
  read_link :: "cstring \<Rightarrow> cstring option"
  file_text :: "cstring \<Rightarrow> cstring option"
  dir_names :: "cstring \<Rightarrow> cstring list option"
  getpid :: int

definition MAX_MEM_PATHS :: nat where "MAX_MEM_PATHS = 512"

definition PATH_BUF_LEN :: nat where "PATH_BUF_LEN = 4096"

section \<open>The operations\<close>

definition is_all_digits :: "cstring \<Rightarrow> bool" where
  "is_all_digits s \<longleftrightarrow> s \<noteq> [] \<and> list_all c_isdigit s"

fun get_type_str :: "file_type \<Rightarrow> cstring" where
  "get_type_str S_REG = ''REG''"
| "get_type_str S_DIR = ''DIR''"
| "get_type_str S_CHR = ''CHR''"
| "get_type_str S_BLK = ''BLK''"
| "get_type_str S_FIFO = ''FIFO''"
| "get_type_str S_LNK = ''LNK''"
| "get_type_str S_SOCK = ''SOCK''"
| "get_type_str S_other = ''unknown''"

definition print_entry :: "proc_env \<Rightarrow> int \<Rightarrow> cstring \<Rightarrow> cstring \<Rightarrow> cstring list" where
  "print_entry env pid fd_label path =
     (case stat_type env path of
        None \<Rightarrow> []
      | Some st \<Rightarrow>
          [c_dec pid @ ''    '' @ fd_label @ ''    '' @ get_type_str st @ ''    '' @ path])"

definition proc_path :: "int \<Rightarrow> cstring \<Rightarrow> cstring" where
  "proc_path pid which = snprintf_str 64 (''/proc/'' @ c_dec pid @ which)"

definition print_symlink_entry :: "proc_env \<Rightarrow> int \<Rightarrow> cstring \<Rightarrow> cstring \<Rightarrow> cstring list" where
  "print_symlink_entry env pid which fd_label =
     (case read_link env (proc_path pid (''/'' @ which)) of
        None \<Rightarrow> []
      | Some target \<Rightarrow> print_entry env pid fd_label (take (PATH_BUF_LEN - 1) target))"

definition strip_eol :: "cstring \<Rightarrow> cstring" where
  "strip_eol path = rev (dropWhile (\<lambda>c. c = CHR 0x0A \<or> c = CHR 0x0D) (rev path))"

text \<open>One line of the memory map: the path in it, if any.\<close>

definition map_path :: "cstring \<Rightarrow> cstring option" where
  "map_path line =
     (let path = strip_eol (dropWhile (\<lambda>c. c \<noteq> CHR ''/'') line)
      in if CHR ''/'' \<notin> set line then None
         else if path = [] then None
         else Some path)"

fun mem_loop :: "proc_env \<Rightarrow> int \<Rightarrow> cstring list \<Rightarrow> cstring list \<Rightarrow> cstring list" where
  "mem_loop env pid [] seen = []"
| "mem_loop env pid (line # lines) seen =
     (case map_path line of
        None \<Rightarrow> mem_loop env pid lines seen
      | Some path \<Rightarrow>
          if path \<in> set seen then mem_loop env pid lines seen
          else print_entry env pid ''mem'' path @
               mem_loop env pid lines (if length seen < MAX_MEM_PATHS then seen @ [path] else seen))"

definition print_mem_entries :: "proc_env \<Rightarrow> int \<Rightarrow> cstring list" where
  "print_mem_entries env pid =
     (case file_text env (proc_path pid ''/maps'') of
        None \<Rightarrow> []
      | Some maps \<Rightarrow> mem_loop env pid (fgets_lines (PATH_BUF_LEN + 256 - 1) maps) [])"

fun fd_loop :: "proc_env \<Rightarrow> int \<Rightarrow> cstring \<Rightarrow> cstring list \<Rightarrow> cstring list" where
  "fd_loop env pid fddir [] = []"
| "fd_loop env pid fddir (name # names) =
     (if \<not> is_all_digits name then fd_loop env pid fddir names
      else case read_link env (snprintf_str PATH_BUF_LEN (fddir @ ''/'' @ name)) of
             None \<Rightarrow> fd_loop env pid fddir names
           | Some target \<Rightarrow>
               print_entry env pid name (take (PATH_BUF_LEN - 1) target) @
               fd_loop env pid fddir names)"

definition print_fd_entries :: "proc_env \<Rightarrow> int \<Rightarrow> cstring list" where
  "print_fd_entries env pid =
     (case dir_names env (proc_path pid ''/fd'') of
        None \<Rightarrow> []
      | Some names \<Rightarrow> fd_loop env pid (proc_path pid ''/fd'') names)"

definition spy_target :: "proc_env \<Rightarrow> token list \<Rightarrow> int option" where
  "spy_target env args =
     (case args of
        [] \<Rightarrow> Some (getpid env)
      | t # rest \<Rightarrow>
          if rest \<noteq> [] then None
          else if \<not> is_all_digits (tok_value t) then None
          else Some (to_int (fst (strtol (tok_value t)))))"

definition exec_spy :: "proc_env \<Rightarrow> token list \<Rightarrow> cstring list" where
  "exec_spy env toks =
     (case spy_target env (tl toks) of
        None \<Rightarrow> [''spy: invalid syntax'']
      | Some pid \<Rightarrow>
          if stat_type env (proc_path pid []) = None then [''spy: no such process'']
          else [''PID    FD    TYPE   PATH''] @
               print_symlink_entry env pid ''cwd'' ''cwd'' @
               print_symlink_entry env pid ''exe'' ''txt'' @
               print_mem_entries env pid @
               print_fd_entries env pid)"

section \<open>What is printed\<close>

definition mapped_paths :: "cstring list \<Rightarrow> cstring list" where
  "mapped_paths lines = List.map_filter map_path lines"

lemma mem_loop_firsts:
  assumes "length (firsts (ps @ mapped_paths lines)) \<le> MAX_MEM_PATHS"
  shows "concat (map (print_entry env pid ''mem'') (firsts ps)) @ mem_loop env pid lines (firsts ps) =
    concat (map (print_entry env pid ''mem'') (firsts (ps @ mapped_paths lines)))"
  using assms
proof (induction lines arbitrary: ps)
  case Nil
  then show ?case by (simp add: mapped_paths_def)
next
  case (Cons line lines)
  show ?case
  proof (cases "map_path line")
    case None
    with Cons show ?thesis by (simp add: mapped_paths_def)
  next
    case (Some p)
    have m: "mapped_paths (line # lines) = p # mapped_paths lines"
      using Some by (simp add: mapped_paths_def)
    have IH: "concat (map (print_entry env pid ''mem'') (firsts (ps @ [p]))) @
        mem_loop env pid lines (firsts (ps @ [p])) =
      concat (map (print_entry env pid ''mem'') (firsts (ps @ mapped_paths (line # lines))))"
      using Cons.IH[of "ps @ [p]"] Cons.prems by (simp add: m)
    have "length (firsts (ps @ [p])) \<le> MAX_MEM_PATHS"
      using Cons.prems length_firsts_append[of "ps @ [p]" "mapped_paths lines"] by (simp add: m)
    with IH Some show ?thesis by (cases "p \<in> set ps") simp_all
  qed
qed

definition link_entry :: "proc_env \<Rightarrow> int \<Rightarrow> cstring \<Rightarrow> cstring \<Rightarrow> cstring list" where
  "link_entry env pid label path =
     (case read_link env path of
        None \<Rightarrow> []
      | Some target \<Rightarrow> print_entry env pid label (take 4095 target))"

lemma fd_loop_map:
  "fd_loop env pid dir names = concat (map (\<lambda>name.
     link_entry env pid name (snprintf_str 4096 (dir @ ''/'' @ name)))
     (filter is_all_digits names))"
  by (induction names) (simp_all add: link_entry_def PATH_BUF_LEN_def split: option.splits)

text \<open>
  \<open>spy\<close> on an existing process prints the heading, its working directory and executable, every
  file mapped into it exactly once, in the order of the first mapping, and the target of every
  numbered descriptor, each line only if \<open>stat\<close> succeeds.  (The process has at most 512 mapped
  files, the size of the table of paths already printed.)
\<close>

theorem spy_report:
  assumes "spy_target env (tl toks) = Some pid" "stat_type env (proc_path pid []) \<noteq> None"
    and "file_text env (proc_path pid ''/maps'') = Some maps"
    and "dir_names env (proc_path pid ''/fd'') = Some names"
    and "files = firsts (mapped_paths (fgets_lines 4351 maps))" "length files \<le> 512"
  shows "exec_spy env toks =
      ''PID    FD    TYPE   PATH'' #
      link_entry env pid ''cwd'' (proc_path pid ''/cwd'') @
      link_entry env pid ''txt'' (proc_path pid ''/exe'') @
      concat (map (print_entry env pid ''mem'') files) @
      concat (map (\<lambda>name. link_entry env pid name
          (snprintf_str 4096 (proc_path pid ''/fd'' @ ''/'' @ name)))
        (filter is_all_digits names))"
proof -
  have "mem_loop env pid (fgets_lines 4351 maps) [] = concat (map (print_entry env pid ''mem'') files)"
    using mem_loop_firsts[of "[]" "fgets_lines 4351 maps" env pid] assms(5,6)
    by (simp add: MAX_MEM_PATHS_def)
  then have "print_mem_entries env pid = concat (map (print_entry env pid ''mem'') files)"
    using assms(3) by (simp add: print_mem_entries_def PATH_BUF_LEN_def)
  moreover have "print_symlink_entry env pid which label =
      link_entry env pid label (proc_path pid (''/'' @ which))" for which label
    by (simp add: print_symlink_entry_def link_entry_def PATH_BUF_LEN_def split: option.split)
  ultimately show ?thesis
    using assms(1,2,4) by (simp add: exec_spy_def print_fd_entries_def fd_loop_map)
qed

definition spy_env :: proc_env where
  "spy_env = \<lparr>
     stat_type = (\<lambda>p. if p \<in> {''/proc/7'', ''/d''} then Some S_DIR
                      else if p = ''/l'' then Some S_REG else None),
     read_link = (\<lambda>p. if p = ''/proc/7/cwd'' \<or> p = ''/proc/7/fd/0'' then Some ''/d'' else None),
     file_text = (\<lambda>p. Some (''00 /l'' @ [CHR 0x0A] @ ''08 /l'' @ [CHR 0x0A])),
     dir_names = (\<lambda>p. Some [''.'', ''0'']),
     getpid = 7\<rparr>"

lemma spy_report_witness:
  "exec_spy spy_env [\<lparr>tok_type = WORD, tok_value = ''spy''\<rparr>] =
     [''PID    FD    TYPE   PATH'', ''7    cwd    DIR    /d'', ''7    mem    REG    /l'',
      ''7    0    DIR    /d'']"
proof -
  let ?t = "[\<lparr>tok_type = WORD, tok_value = ''spy''\<rparr>]"
  let ?maps = "''00 /l'' @ [CHR 0x0A] @ ''08 /l'' @ [CHR 0x0A]"
  have seven: "c_dec 7 = ''7''" by code_simp
  have p: "spy_target spy_env (tl ?t) = Some 7" by (simp add: spy_target_def spy_env_def)
  have s: "stat_type spy_env (proc_path 7 []) \<noteq> None"
    by (simp add: spy_env_def proc_path_def snprintf_str_def seven)
  have m: "file_text spy_env (proc_path 7 ''/maps'') = Some ?maps" by (simp add: spy_env_def)
  have d: "dir_names spy_env (proc_path 7 ''/fd'') = Some [''.'', ''0'']" by (simp add: spy_env_def)
  have "fgets_lines 4351 ?maps = [''00 /l'' @ [CHR 0x0A], ''08 /l'' @ [CHR 0x0A]]"
    using fgets_lines_line[of "''00 /l''" 4351 "''08 /l'' @ [CHR 0x0A]"]
      fgets_lines_line[of "''08 /l''" 4351 "[]"] by (simp add: fgets_lines.simps)
  then have f: "[''/l''] = firsts (mapped_paths (fgets_lines 4351 ?maps))"
    by (simp add: mapped_paths_def map_path_def strip_eol_def firsts_def)
  have "filter is_all_digits [''.'', ''0''] = [''0'']"
    by (simp add: is_all_digits_def c_isdigit_def)
  with spy_report[OF p s m d f] show ?thesis
    by (simp add: link_entry_def spy_env_def proc_path_def snprintf_str_def seven print_entry_def)
qed

end
