(* ===== verification/Snoop.thy ===== *)
theory Snoop
  imports Shell_Prelude Spy
begin

text \<open>
  The system call tracer \<open>snoop\<close>, \<open>c-shell/src/snoop.c\<close>.  What \<open>ptrace\<close>, \<open>waitpid\<close> and the clock
  return at each turn of the trace loop is a list of events.  Elapsed times are whole nanoseconds
  where the code adds up \<open>double\<close>s.
\<close>

section \<open>System call names\<close>

definition MAX_SYSCALLS :: int where "MAX_SYSCALLS = 450"

definition syscall_table :: "(int \<times> cstring) list" where
  "syscall_table = [
    (0, ''read''), (1, ''write''), (2, ''open''), (3, ''close''), (4, ''stat''), (5, ''fstat''),
    (6, ''lstat''), (8, ''lseek''), (17, ''pread64''), (18, ''pwrite64''), (21, ''access''),
    (32, ''dup''), (33, ''dup2''), (72, ''fcntl''), (78, ''getdents''), (82, ''rename''),
    (83, ''mkdir''), (84, ''rmdir''), (86, ''link''), (87, ''unlink''), (89, ''readlink''),
    (90, ''chmod''), (92, ''chown''), (217, ''getdents64''), (257, ''openat''),
    (258, ''mkdirat''), (262, ''newfstatat''), (263, ''unlinkat''), (269, ''faccessat''),
    (9, ''mmap''), (10, ''mprotect''), (11, ''munmap''), (12, ''brk''), (25, ''mremap''),
    (16, ''ioctl''), (13, ''rt_sigaction''), (14, ''rt_sigprocmask''), (15, ''rt_sigreturn''),
    (22, ''pipe''), (34, ''pause''), (35, ''nanosleep''), (37, ''alarm''), (39, ''getpid''),
    (56, ''clone''), (57, ''fork''), (58, ''vfork''), (59, ''execve''), (60, ''exit''),
    (61, ''wait4''), (62, ''kill''), (63, ''uname''), (110, ''getppid''), (186, ''gettid''),
    (231, ''exit_group''), (234, ''tgkill''), (79, ''getcwd''), (80, ''chdir''),
    (102, ''getuid''), (104, ''getgid''), (107, ''geteuid''), (108, ''getegid''),
    (41, ''socket''), (42, ''connect''), (43, ''accept''), (44, ''sendto''), (45, ''recvfrom''),
    (49, ''bind''), (50, ''listen''), (96, ''gettimeofday''), (201, ''time''),
    (228, ''clock_gettime''), (230, ''clock_nanosleep''), (97, ''getrlimit''), (99, ''sysinfo''),
    (137, ''statfs''), (157, ''prctl''), (158, ''arch_prctl''), (202, ''futex''),
    (218, ''set_tid_address''), (273, ''set_robust_list''), (302, ''prlimit64''),
    (318, ''getrandom'')]"

definition syscall_name :: "int \<Rightarrow> cstring" where
  "syscall_name num =
     (case (if 0 \<le> num \<and> num < MAX_SYSCALLS then map_of syscall_table num else None) of
        Some name \<Rightarrow> name
      | None \<Rightarrow> snprintf_str 32 (''syscall_'' @ c_dec num))"

section \<open>The statistics\<close>

record syscall_stat =
  st_number :: int
  st_count :: int
  total_time :: int
  st_order :: int

record snoop_stats =
  stats :: "syscall_stat list"
  order_counter :: int

definition reset_stats :: snoop_stats where
  "reset_stats = \<lparr>
     stats = map (\<lambda>i. \<lparr>st_number = int i, st_count = 0, total_time = 0, st_order = - 1\<rparr>)
                 [0..<nat MAX_SYSCALLS],
     order_counter = 0\<rparr>"

definition record_syscall :: "int \<Rightarrow> int \<Rightarrow> snoop_stats \<Rightarrow> snoop_stats" where
  "record_syscall num elapsed s =
     (if num < 0 \<or> num \<ge> MAX_SYSCALLS then s
      else
        let fresh = (st_order (stats s ! nat num) = - 1);
            e = (stats s ! nat num)\<lparr>st_order := (if fresh then order_counter s
                                                 else st_order (stats s ! nat num))\<rparr>;
            s = (if fresh then s\<lparr>order_counter := order_counter s + 1\<rparr> else s)
        in s\<lparr>stats := (stats s)[nat num :=
               e\<lparr>st_count := st_count e + 1, total_time := total_time e + elapsed\<rparr>]\<rparr>)"

definition compare_stats :: "syscall_stat \<Rightarrow> syscall_stat \<Rightarrow> int" where
  "compare_stats sa sb =
     (if st_count sa \<noteq> st_count sb then to_int (st_count sb - st_count sa)
      else st_order sa - st_order sb)"

section \<open>The summary\<close>

definition summary_rows :: "snoop_stats \<Rightarrow> syscall_stat list" where
  "summary_rows s = qsort compare_stats (filter (\<lambda>e. st_order e \<noteq> - 1) (stats s))"

definition pad_right :: "nat \<Rightarrow> cstring \<Rightarrow> cstring" where
  "pad_right w s = s @ replicate (w - length s) (CHR '' '')"

text \<open>\<open>%.3f\<close> of a time in seconds: rounded to milliseconds.\<close>

definition show_seconds :: "int \<Rightarrow> cstring" where
  "show_seconds ns =
     (let ms = (ns + 500000) div 1000000; frac = c_dec (ms mod 1000)
      in c_dec (ms div 1000) @ ''.'' @ replicate (3 - length frac) (CHR ''0'') @ frac)"

definition print_row :: "syscall_stat \<Rightarrow> cstring" where
  "print_row e = pad_right 13 (syscall_name (st_number e)) @ '' '' @
     pad_right 7 (c_dec (st_count e)) @ '' '' @ show_seconds (total_time e) @ ''s''"

definition print_summary :: "snoop_stats \<Rightarrow> cstring list" where
  "print_summary s =
     (pad_right 13 ''syscall'' @ '' '' @ pad_right 7 ''calls'' @ '' time'') #
     map print_row (summary_rows s)"

section \<open>The trace loop\<close>

record timespec =
  tv_sec :: int
  tv_nsec :: int

definition timespec_diff :: "timespec \<Rightarrow> timespec \<Rightarrow> int" where
  "timespec_diff start_t end_t =
     (tv_sec end_t - tv_sec start_t) * 1000000000 + (tv_nsec end_t - tv_nsec start_t)"

text \<open>
  One turn of the loop: \<open>PTRACE_SYSCALL\<close> fails, \<open>waitpid\<close> fails, the process has ended, some other
  status, or a stop with its signal, the number that \<open>PTRACE_GETREGS\<close> finds (None if that call
  fails) and the time.
\<close>

datatype trace_event =
    Resume_fails
  | Wait_fails
  | Ended timespec
  | Not_stopped
  | Stopped int "int option" timespec

definition SIGTRAP :: int where "SIGTRAP = 5"

record tracer =
  expecting_entry :: bool
  current_syscall_num :: int
  entry_time :: timespec
  resume_sig :: int

text \<open>
  The result is the table and the signals passed on, one for every resumption; None when the process
  is still running at the end of the events.
\<close>

fun trace_loop :: "trace_event list \<Rightarrow> tracer \<Rightarrow> snoop_stats \<Rightarrow> int list \<Rightarrow>
    (snoop_stats \<times> int list) option" where
  "trace_loop [] t s sigs = None"
| "trace_loop (Resume_fails # evs) t s sigs = Some (s, sigs)"
| "trace_loop (Wait_fails # evs) t s sigs = Some (s, sigs @ [resume_sig t])"
| "trace_loop (Ended now # evs) t s sigs =
     Some (if \<not> expecting_entry t
           then record_syscall (current_syscall_num t) (timespec_diff (entry_time t) now) s
           else s,
           sigs @ [resume_sig t])"
| "trace_loop (Not_stopped # evs) t s sigs =
     trace_loop evs (t\<lparr>resume_sig := 0\<rparr>) s (sigs @ [resume_sig t])"
| "trace_loop (Stopped sig regs now # evs) t s sigs =
     (if sig \<noteq> SIGTRAP
      then trace_loop evs (t\<lparr>resume_sig := sig\<rparr>) s (sigs @ [resume_sig t])
      else if expecting_entry t
      then trace_loop evs
             ((case regs of
                 Some orig_rax \<Rightarrow> t\<lparr>current_syscall_num := orig_rax, entry_time := now\<rparr>
               | None \<Rightarrow> t)\<lparr>expecting_entry := False, resume_sig := 0\<rparr>) s (sigs @ [resume_sig t])
      else trace_loop evs (t\<lparr>expecting_entry := True, resume_sig := 0\<rparr>)
             (record_syscall (current_syscall_num t) (timespec_diff (entry_time t) now) s)
             (sigs @ [resume_sig t]))"

definition run_syscall_trace :: "trace_event list \<Rightarrow> (snoop_stats \<times> int list) option" where
  "run_syscall_trace evs =
     trace_loop evs
       \<lparr>expecting_entry = True, current_syscall_num = - 1,
        entry_time = \<lparr>tv_sec = 0, tv_nsec = 0\<rparr>, resume_sig = 0\<rparr>
       reset_stats []"

section \<open>The command\<close>

text \<open>
  The kernel's answers: \<open>kill\<close> with signal 0, \<open>PTRACE_ATTACH\<close> (an error, with whether it is
  \<open>ESRCH\<close>), the first \<open>waitpid\<close> (None on failure, else whether the process is stopped), \<open>pipe\<close>,
  \<open>fork\<close>, whether the child reports a failed \<open>execvp\<close>, and the events of the trace.
\<close>

datatype attach_result = Attached | Attach_ESRCH | Attach_failed

record snoop_env =
  alive :: "int \<Rightarrow> bool"
  attach :: "int \<Rightarrow> attach_result"
  first_wait :: "bool option"
  pipe_ok :: bool
  fork_ok :: bool
  exec_reports :: "cstring list \<Rightarrow> bool"
  trace_events :: "trace_event list"

text \<open>The trace and its summary; None while the traced process runs.\<close>

definition trace_and_print :: "trace_event list \<Rightarrow> cstring list option" where
  "trace_and_print evs = map_option (\<lambda>(s, sigs). print_summary s) (run_syscall_trace evs)"

definition snoop_attach :: "snoop_env \<Rightarrow> int \<Rightarrow> cstring list option" where
  "snoop_attach env pid =
     (if \<not> alive env pid then Some [''snoop: no such process'']
      else case attach env pid of
             Attach_ESRCH \<Rightarrow> Some [''snoop: no such process'']
           | Attach_failed \<Rightarrow> Some [''snoop: could not attach to process'']
           | Attached \<Rightarrow>
               if first_wait env = None then Some [''snoop: could not attach to process'']
               else trace_and_print (trace_events env))"

definition snoop_command :: "snoop_env \<Rightarrow> cstring list \<Rightarrow> cstring list option" where
  "snoop_command env argv =
     (if \<not> pipe_ok env then Some [''snoop: internal error'']
      else if \<not> fork_ok env then Some [''snoop: internal error'']
      else case first_wait env of
             None \<Rightarrow> Some [''snoop: internal error'']
           | Some stopped \<Rightarrow>
               if exec_reports env argv then Some [''snoop: command not found'']
               else if \<not> stopped then Some [''snoop: command not found'']
               else trace_and_print (trace_events env))"

definition MAX_SNOOP_ARGS :: nat where "MAX_SNOOP_ARGS = 128"

definition exec_snoop :: "snoop_env \<Rightarrow> token list \<Rightarrow> cstring list option" where
  "exec_snoop env toks =
     (case tl toks of
        [] \<Rightarrow> Some [''snoop: invalid syntax'']
      | t # rest \<Rightarrow>
          if tok_value t = ''-p'' then
            (case rest of
               [] \<Rightarrow> Some [''snoop: invalid syntax'']
             | p # others \<Rightarrow>
                 if \<not> is_all_digits (tok_value p) then Some [''snoop: invalid syntax'']
                 else if others \<noteq> [] then Some [''snoop: invalid syntax'']
                 else snoop_attach env (to_int (fst (strtol (tok_value p)))))
          else snoop_command env (take (MAX_SNOOP_ARGS - 1) (map tok_value (t # rest))))"

section \<open>The table as a function of the calls\<close>

definition stat_of :: "(int \<times> int) list \<Rightarrow> int \<Rightarrow> syscall_stat" where
  "stat_of cs n = \<lparr>
     st_number = n,
     st_count = int (count_list (map fst cs) n),
     total_time = sum_list (map snd (filter (\<lambda>c. fst c = n) cs)),
     st_order = (if n \<in> fst ` set cs
                 then int (length (takeWhile (\<lambda>m. m \<noteq> n) (firsts (map fst cs)))) else - 1)\<rparr>"

definition table_of :: "(int \<times> int) list \<Rightarrow> snoop_stats" where
  "table_of cs = \<lparr>
     stats = map (\<lambda>i. stat_of cs (int i)) [0..<nat MAX_SYSCALLS],
     order_counter = int (length (firsts (map fst cs)))\<rparr>"

definition in_table :: "int \<times> int \<Rightarrow> bool" where
  "in_table c \<longleftrightarrow> 0 \<le> fst c \<and> fst c < MAX_SYSCALLS"

lemma reset_stats_table: "reset_stats = table_of []"
  by (simp add: reset_stats_def table_of_def stat_of_def)

lemma takeWhile_neq_append:
  "takeWhile (\<lambda>m. m \<noteq> n) (xs @ [m]) =
     (if n \<in> set xs then takeWhile (\<lambda>m. m \<noteq> n) xs else if m = n then xs else xs @ [m])"
  by (induction xs) auto

lemma stat_of_snoc_other: "n \<noteq> m \<Longrightarrow> stat_of (cs @ [(n, e)]) m = stat_of cs m"
  by (auto simp: stat_of_def count_list_append takeWhile_neq_append)

lemma stat_of_snoc_same:
  "stat_of (cs @ [(n, e)]) n =
     (let s = stat_of cs n
      in s\<lparr>st_order := (if st_order s = - 1 then int (length (firsts (map fst cs))) else st_order s),
           st_count := st_count s + 1, total_time := total_time s + e\<rparr>)"
  by (auto simp: stat_of_def count_list_append takeWhile_neq_append Let_def)

lemma st_order_stat_of: "st_order (stat_of cs n) = - 1 \<longleftrightarrow> n \<notin> fst ` set cs"
  by (simp add: stat_of_def)

lemma record_syscall_table:
  "record_syscall n e (table_of cs) =
     (if in_table (n, e) then table_of (cs @ [(n, e)]) else table_of cs)"
proof (cases "in_table (n, e)")
  case True
  then have n: "0 \<le> n" "n < MAX_SYSCALLS" "nat n < nat MAX_SYSCALLS" by (auto simp: in_table_def)
  then have at: "stats (table_of cs) ! nat n = stat_of cs n" by (simp add: table_of_def)
  have "(map (\<lambda>i. stat_of cs (int i)) [0..<nat MAX_SYSCALLS])[nat n := stat_of (cs @ [(n, e)]) n] =
      map (\<lambda>i. stat_of (cs @ [(n, e)]) (int i)) [0..<nat MAX_SYSCALLS]"
  proof (rule nth_equalityI)
    fix i assume "i < length ((map (\<lambda>i. stat_of cs (int i)) [0..<nat MAX_SYSCALLS])
      [nat n := stat_of (cs @ [(n, e)]) n])"
    then have i: "i < nat MAX_SYSCALLS" by simp
    show "(map (\<lambda>i. stat_of cs (int i)) [0..<nat MAX_SYSCALLS])
        [nat n := stat_of (cs @ [(n, e)]) n] ! i =
      map (\<lambda>i. stat_of (cs @ [(n, e)]) (int i)) [0..<nat MAX_SYSCALLS] ! i"
      using i n(1) stat_of_snoc_other[of n "int i" cs e] by (cases "i = nat n") simp_all
  qed simp
  with n at True show ?thesis
    by (cases "n \<in> fst ` set cs")
      (simp_all add: record_syscall_def Let_def st_order_stat_of stat_of_snoc_same table_of_def)
qed (auto simp: record_syscall_def in_table_def)


lemma fold_record_table:
  "fold (\<lambda>(n, e). record_syscall n e) cs (table_of ds) = table_of (ds @ filter in_table cs)"
  by (induction cs arbitrary: ds) (auto simp: record_syscall_table)

section \<open>The trace as a list of calls\<close>

text \<open>
  The trap stops of a trace come in pairs, one at the entry of a call and one at its return.  The
  last call may have no return, when the process ends inside it.
\<close>

fun traps :: "trace_event list \<Rightarrow> (int option \<times> timespec) list" where
  "traps [] = []"
| "traps (Stopped sig regs now # evs) =
     (if sig = SIGTRAP then (regs, now) # traps evs else traps evs)"
| "traps (_ # evs) = traps evs"

fun calls_of :: "(int option \<times> timespec) list \<Rightarrow> timespec \<Rightarrow> (int \<times> int) list" where
  "calls_of ((Some n, t) # (_, t') # ts) fin = (n, timespec_diff t t') # calls_of ts fin"
| "calls_of [(Some n, t)] fin = [(n, timespec_diff t fin)]"
| "calls_of _ fin = []"

fun entries_known :: "(int option \<times> timespec) list \<Rightarrow> bool" where
  "entries_known [] = True"
| "entries_known [(r, _)] = (r \<noteq> None)"
| "entries_known ((r, _) # _ # ts) = (r \<noteq> None \<and> entries_known ts)"

fun running_event :: "trace_event \<Rightarrow> bool" where
  "running_event (Stopped sig regs now) = True"
| "running_event Not_stopped = True"
| "running_event _ = False"

fun passed_signal :: "trace_event \<Rightarrow> int" where
  "passed_signal (Stopped sig regs now) = (if sig = SIGTRAP then 0 else sig)"
| "passed_signal _ = 0"

definition pending :: "tracer \<Rightarrow> (int option \<times> timespec) list" where
  "pending t = (if expecting_entry t then [] else [(Some (current_syscall_num t), entry_time t)])"

lemma pending_resume [simp]: "pending (t\<lparr>resume_sig := x\<rparr>) = pending t"
  by (simp add: pending_def)

lemma trace_loop_calls:
  assumes "list_all running_event pre" "entries_known (pending t @ traps pre)"
  shows "trace_loop (pre @ [Ended fin]) t s sigs =
    Some (fold (\<lambda>(n, e). record_syscall n e) (calls_of (pending t @ traps pre) fin) s,
          sigs @ resume_sig t # map passed_signal pre)"
  using assms
proof (induction pre arbitrary: t s sigs)
  case Nil
  then show ?case by (simp add: pending_def)
next
  case (Cons ev pre)
  show ?case
  proof (cases ev)
    case (Stopped sig regs now)
    consider "sig \<noteq> SIGTRAP" | r where "sig = SIGTRAP" "expecting_entry t" "regs = Some r"
      | "sig = SIGTRAP" "\<not> expecting_entry t"
      using Cons.prems Stopped by (cases "traps pre"; cases regs) (auto simp: pending_def split: if_splits)
    then show ?thesis
    proof cases
      case 1
      with Cons Stopped show ?thesis by simp
    next
      case 2
      let ?t = "t\<lparr>current_syscall_num := r, entry_time := now, expecting_entry := False, resume_sig := 0\<rparr>"
      have "pending ?t @ traps pre = pending t @ traps (ev # pre)"
        using 2 Stopped by (simp add: pending_def)
      with Cons.IH[of ?t] Cons.prems 2 Stopped show ?thesis by simp
    next
      case 3
      let ?t = "t\<lparr>expecting_entry := True, resume_sig := 0\<rparr>"
      have "pending ?t = []" by (simp add: pending_def)
      with Cons.IH[of ?t] Cons.prems 3 Stopped show ?thesis by (simp add: pending_def)
    qed
  qed (use Cons in simp_all)
qed


section \<open>The order of the summary\<close>

lemma sort_key_stable_order:
  assumes "sorted_wrt (\<lambda>a b. p a < (p b :: int)) xs"
  shows "sorted_wrt (\<lambda>a b. f a < f b \<or> f a = (f b :: int) \<and> p a < p b) (sort_key f xs)"
  using assms
proof (induction xs)
  case (Cons x xs)
  let ?R = "\<lambda>a b. f a < f b \<or> f a = (f b :: int) \<and> p a < p b"
  have ins: "sorted_wrt ?R zs \<Longrightarrow> (\<forall>z \<in> set zs. p x < p z) \<Longrightarrow> sorted_wrt ?R (insort_key f x zs)"
    for zs
    by (induction zs) (auto simp: set_insort_key)
  from Cons have "sorted_wrt ?R (sort_key f xs)" "\<forall>z \<in> set (sort_key f xs). p x < p z" by auto
  from ins[OF this] show ?case by simp
qed simp

lemma length_takeWhile_nth:
  "distinct xs \<Longrightarrow> i < length xs \<Longrightarrow> length (takeWhile (\<lambda>m. m \<noteq> xs ! i) xs) = i"
proof (induction xs arbitrary: i)
  case (Cons x xs)
  show ?case
  proof (cases i)
    case (Suc j)
    with Cons.prems have "x \<noteq> xs ! j" by auto
    with Suc Cons show ?thesis by simp
  qed simp
qed simp

lemma positions_ascend:
  "distinct xs \<Longrightarrow>
   sorted_wrt (\<lambda>a b. int (length (takeWhile (\<lambda>m. m \<noteq> a) xs)) < int (length (takeWhile (\<lambda>m. m \<noteq> b) xs))) xs"
  by (simp add: sorted_wrt_iff_nth_less length_takeWhile_nth)

lemma count_list_bound: "count_list xs x \<le> length xs"
  by (induction xs) auto

lemma compare_stat_of:
  assumes "length cs < 2 ^ 31"
  shows "compare_stats (stat_of cs a) (stat_of cs b) =
    (if count_list (map fst cs) a \<noteq> count_list (map fst cs) b
     then int (count_list (map fst cs) b) - int (count_list (map fst cs) a)
     else st_order (stat_of cs a) - st_order (stat_of cs b))"
proof -
  have "count_list (map fst cs) n < 2 ^ 31" for n
    using count_list_bound[of "map fst cs" n] assms by simp
  from this[of a] this[of b] have
    "to_int (int (count_list (map fst cs) b) - int (count_list (map fst cs) a)) =
       int (count_list (map fst cs) b) - int (count_list (map fst cs) a)"
    by (intro to_int_id) auto
  then show ?thesis by (simp add: compare_stats_def stat_of_def)
qed

lemma used_mset:
  assumes "list_all in_table cs"
  shows "mset (filter (\<lambda>e. st_order e \<noteq> - 1) (stats (table_of cs))) =
    mset (map (stat_of cs) (firsts (map fst cs)))"
proof -
  let ?is = "filter (\<lambda>i. int i \<in> fst ` set cs) [0..<nat MAX_SYSCALLS]"
  have "filter (\<lambda>e. st_order e \<noteq> - 1) (stats (table_of cs)) = map (stat_of cs) (map int ?is)"
    by (simp add: table_of_def filter_map o_def st_order_stat_of)
  moreover have "mset (map int ?is) = mset (firsts (map fst cs))"
  proof (rule set_eq_iff_mset_eq_distinct[THEN iffD1])
    show "distinct (map int ?is)" by (simp add: distinct_map inj_on_def)
    have "x \<in> int ` {i. i < nat MAX_SYSCALLS \<and> int i \<in> fst ` set cs}" if "x \<in> fst ` set cs" for x
    proof (rule image_eqI[of _ _ "nat x"])
      show "x = int (nat x)" "nat x \<in> {i. i < nat MAX_SYSCALLS \<and> int i \<in> fst ` set cs}"
        using that assms by (auto simp: list_all_iff in_table_def)
    qed
    then show "set (map int ?is) = set (firsts (map fst cs))" by auto
  qed simp
  ultimately show ?thesis by (simp only: mset_map)
qed


lemma compare_stat_le:
  assumes "length cs < 2 ^ 31" "a \<in> fst ` set cs" "b \<in> fst ` set cs"
  shows "compare_stats (stat_of cs a) (stat_of cs b) \<le> 0 \<longleftrightarrow>
    - st_count (stat_of cs a) < - st_count (stat_of cs b) \<or>
    - st_count (stat_of cs a) = - st_count (stat_of cs b) \<and>
      st_order (stat_of cs a) \<le> st_order (stat_of cs b)"
proof -
  have "st_count (stat_of cs n) = int (count_list (map fst cs) n)" for n by (simp add: stat_of_def)
  then show ?thesis unfolding compare_stat_of[OF assms(1)] by simp linarith
qed

lemma st_order_position:
  "a \<in> fst ` set cs \<Longrightarrow>
   st_order (stat_of cs a) = int (length (takeWhile (\<lambda>m. m \<noteq> a) (firsts (map fst cs))))"
  by (simp add: stat_of_def)

lemma st_order_inj: "inj_on st_order (stat_of cs ` fst ` set cs)"
proof (rule inj_onI)
  fix x y
  assume x: "x \<in> stat_of cs ` fst ` set cs" and y: "y \<in> stat_of cs ` fst ` set cs"
    and eq: "st_order x = st_order y"
  let ?xs = "firsts (map fst cs)"
  have "\<exists>i < length ?xs. z = stat_of cs (?xs ! i) \<and> st_order z = int i"
    if "z \<in> stat_of cs ` fst ` set cs" for z
  proof -
    from that obtain a where a: "a \<in> fst ` set cs" "z = stat_of cs a" by blast
    then have "a \<in> set ?xs" by simp
    then obtain i where "i < length ?xs" "a = ?xs ! i" by (metis in_set_conv_nth)
    with a show ?thesis using length_takeWhile_nth[of ?xs i] st_order_position[OF a(1)] by auto
  qed
  from this[OF x] this[OF y] eq show "x = y" by auto
qed

text \<open>The rows of the summary, for the table that a list of calls gives.\<close>

lemma summary_rows_table:
  assumes "list_all in_table cs" "length cs < 2 ^ 31"
  shows "summary_rows (table_of cs) =
    map (stat_of cs) (sort_key (\<lambda>n. - int (count_list (map fst cs) n)) (firsts (map fst cs)))"
proof -
  let ?p = "\<lambda>n. int (length (takeWhile (\<lambda>m. m \<noteq> n) (firsts (map fst cs))))"
  let ?f = "\<lambda>n. - int (count_list (map fst cs) n)"
  let ?ns = "sort_key ?f (firsts (map fst cs))"
  let ?used = "filter (\<lambda>e. st_order e \<noteq> - 1) (stats (table_of cs))"
  have mset_used: "mset ?used = mset (map (stat_of cs) ?ns)" using used_mset[OF assms(1)] by simp
  have set_used: "set ?used = stat_of cs ` fst ` set cs" using mset_eq_setD[OF mset_used] by simp
  have tot: "total_order_by compare_stats (set ?used)"
    unfolding set_used
  proof (rule total_order_by_keys[OF _ st_order_inj])
    fix x y assume "x \<in> stat_of cs ` fst ` set cs" "y \<in> stat_of cs ` fst ` set cs"
    then show "compare_stats x y \<le> 0 \<longleftrightarrow>
        - st_count x < - st_count y \<or> - st_count x = - st_count y \<and> st_order x \<le> st_order y"
      using compare_stat_le[OF assms(2)] by blast
  qed
  have "sorted_wrt (\<lambda>a b. ?f a < ?f b \<or> ?f a = ?f b \<and> ?p a < ?p b) ?ns"
    by (rule sort_key_stable_order) (rule positions_ascend, simp)
  then have "sorted_wrt (\<lambda>a b. compare_stats (stat_of cs a) (stat_of cs b) \<le> 0) ?ns"
  proof (rule sorted_wrt_mono_rel[rotated])
    fix a b assume ab: "a \<in> set ?ns" "b \<in> set ?ns" "?f a < ?f b \<or> ?f a = ?f b \<and> ?p a < ?p b"
    then have "a \<in> fst ` set cs" "b \<in> fst ` set cs" by simp_all
    note le = compare_stat_le[OF assms(2) this] and pos = this[THEN st_order_position]
    show "compare_stats (stat_of cs a) (stat_of cs b) \<le> 0"
      unfolding le pos using ab(3) by (auto simp: stat_of_def)
  qed
  then have "sorted_wrt (\<lambda>a b. compare_stats a b \<le> 0) (map (stat_of cs) ?ns)"
    by (simp only: sorted_wrt_map)
  from qsort_unique[OF tot this] mset_used show ?thesis by (simp add: summary_rows_def)
qed

text \<open>
  C40.  A trace of a process that runs to its end counts every system call once, at its return or
  when the process ends inside it, and adds up the times spent; every signal other than the traps is
  passed on to the process at the next resumption.  The summary has one row for each system call
  that was made, the most frequent first, equally frequent ones in the order of the first call.
\<close>

theorem snoop_summary_correct:
  assumes "list_all running_event pre" "entries_known (traps pre)"
    and "cs = filter in_table (calls_of (traps pre) fin)" "length cs < 2 ^ 31"
  shows "\<exists>s. run_syscall_trace (pre @ [Ended fin]) = Some (s, 0 # map passed_signal pre) \<and>
    map (\<lambda>e. (st_number e, st_count e, total_time e)) (summary_rows s) =
    map (\<lambda>n. (n, int (count_list (map fst cs) n), sum_list (map snd (filter (\<lambda>c. fst c = n) cs))))
      (sort_key (\<lambda>n. - int (count_list (map fst cs) n)) (firsts (map fst cs)))"
proof -
  let ?t = "\<lparr>expecting_entry = True, current_syscall_num = - 1,
    entry_time = \<lparr>tv_sec = 0, tv_nsec = 0\<rparr>, resume_sig = 0\<rparr>"
  have p: "pending ?t = []" by (simp add: pending_def)
  have "run_syscall_trace (pre @ [Ended fin]) = Some (table_of cs, 0 # map passed_signal pre)"
    using trace_loop_calls[OF assms(1), of ?t fin reset_stats "[]"] assms(2,3)
    by (simp add: run_syscall_trace_def p reset_stats_table fold_record_table)
  moreover have "list_all in_table cs" by (simp add: assms(3) list_all_iff)
  then have "summary_rows (table_of cs) =
      map (stat_of cs) (sort_key (\<lambda>n. - int (count_list (map fst cs) n)) (firsts (map fst cs)))"
    using assms(4) by (rule summary_rows_table)
  ultimately show ?thesis by (simp add: stat_of_def)
qed

definition tick :: "int \<Rightarrow> timespec" where
  "tick n = \<lparr>tv_sec = 0, tv_nsec = n\<rparr>"

lemma snoop_summary_correct_witness:
  "\<exists>s. run_syscall_trace
       ([Stopped 5 (Some 0) (tick 1), Stopped 17 None (tick 2), Stopped 5 None (tick 4),
         Stopped 5 (Some 1) (tick 5), Stopped 5 None (tick 6),
         Stopped 5 (Some 1) (tick 7), Stopped 5 None (tick 9),
         Stopped 5 (Some 231) (tick 10)] @ [Ended (tick 11)]) =
       Some (s, [0, 0, 17, 0, 0, 0, 0, 0, 0]) \<and>
     map (\<lambda>e. (st_number e, st_count e, total_time e)) (summary_rows s) =
       [(1, 2, 3), (0, 1, 3), (231, 1, 1)]"
proof -
  let ?pre = "[Stopped 5 (Some 0) (tick 1), Stopped 17 None (tick 2), Stopped 5 None (tick 4),
         Stopped 5 (Some 1) (tick 5), Stopped 5 None (tick 6),
         Stopped 5 (Some 1) (tick 7), Stopped 5 None (tick 9), Stopped 5 (Some 231) (tick 10)]"
  let ?cs = "[(0, 3), (1, 1), (1, 2), (231, 1)] :: (int \<times> int) list"
  have r: "list_all running_event ?pre" "entries_known (traps ?pre)" by (simp_all add: SIGTRAP_def)
  have c: "?cs = filter in_table (calls_of (traps ?pre) (tick 11))"
    by (simp add: SIGTRAP_def in_table_def MAX_SYSCALLS_def timespec_diff_def tick_def)
  have l: "length ?cs < 2 ^ 31" by simp
  have "map passed_signal ?pre = [0, 17, 0, 0, 0, 0, 0, 0]" by (simp add: SIGTRAP_def)
  moreover have "map (\<lambda>n. (n, int (count_list (map fst ?cs) n),
        sum_list (map snd (filter (\<lambda>c. fst c = n) ?cs))))
      (sort_key (\<lambda>n. - int (count_list (map fst ?cs) n)) (firsts (map fst ?cs))) =
      [(1, 2, 3), (0, 1, 3), (231, 1, 1)]"
    by (simp add: firsts_def)
  ultimately show ?thesis using snoop_summary_correct[OF r c l] by (simp only:)
qed

end
