(* ===== verification/Descriptors.thy ===== *)
theory Descriptors
  imports Redirect Locate "HOL-Library.AList" "HOL-Library.Sublist"
begin

text \<open>
  Descriptor tables and processes, as far as \<open>c-shell/src/command.c\<close> uses them: \<open>open\<close>, \<open>pipe\<close>,
  \<open>close\<close>, \<open>dup2\<close> and \<open>fork\<close>, then the setup of redirections (\<open>open_output_files\<close>, \<open>setup_input\<close>) and
  the copying loops of the helper processes.  Which calls of \<open>open\<close> and \<open>pipe\<close> fail and what \<open>fork\<close>
  returns are parameters.
\<close>

section \<open>The kernel\<close>

datatype file_obj = Pipe_read nat | Pipe_write nat | File_in cstring | File_out cstring bool | Device nat

type_synonym fdtab = "(int \<times> file_obj) list"

text \<open>
  What a process does after \<open>fork\<close>: copy input files into a pipe, copy a pipe to several files,
  execute a program, or leave at once with a message (empty if there is none).
\<close>

datatype program =
    Copy_files "int list" int
  | Copy_to_all int "int list"
  | Exec cstring "cstring list"
  | Exit_now cstring
  | Fault fault

record process =
  p_pid :: int
  p_pgid :: "int option"
  p_fds :: fdtab
  p_prog :: program

text \<open>
  \<open>refuse\<close> tells for the next calls of \<open>open\<close> and \<open>pipe\<close> whether they fail (none does after the end
  of the list), \<open>forks\<close> holds the results of the next calls of \<open>fork\<close> (\<open>-1\<close> after its end);
  \<open>printed\<close> is what the shell has written to \<open>stdout\<close>.
\<close>

record kernel =
  fds :: fdtab
  next_pipe :: nat
  refuse :: "bool list"
  forks :: "int list"
  procs :: "process list"
  printed :: cstring

definition free_fd :: "fdtab \<Rightarrow> int" where
  "free_fd t = int (hd (filter (\<lambda>n. int n \<notin> fst ` set t) [0 ..< Suc (length t)]))"

definition refused :: "kernel \<Rightarrow> bool" where
  "refused k \<longleftrightarrow> refuse k \<noteq> [] \<and> hd (refuse k)"

definition k_open :: "file_obj \<Rightarrow> kernel \<Rightarrow> int \<times> kernel" where
  "k_open obj k =
     (let k1 = k\<lparr>refuse := tl (refuse k)\<rparr>; fd = free_fd (fds k)
      in if refused k then (- 1, k1) else (fd, k1\<lparr>fds := (fd, obj) # fds k\<rparr>))"

definition k_pipe :: "kernel \<Rightarrow> (int \<times> int) option \<times> kernel" where
  "k_pipe k =
     (let k1 = k\<lparr>refuse := tl (refuse k)\<rparr>;
          r = free_fd (fds k); t = (r, Pipe_read (next_pipe k)) # fds k; w = free_fd t
      in if refused k then (None, k1)
         else (Some (r, w),
               k1\<lparr>fds := (w, Pipe_write (next_pipe k)) # t, next_pipe := next_pipe k + 1\<rparr>))"

definition k_close :: "int \<Rightarrow> kernel \<Rightarrow> kernel" where
  "k_close fd k = k\<lparr>fds := AList.delete fd (fds k)\<rparr>"

definition close_fds :: "int list \<Rightarrow> fdtab \<Rightarrow> fdtab" where
  "close_fds L t = fold AList.delete L t"

definition close_all :: "int list \<Rightarrow> kernel \<Rightarrow> kernel" where
  "close_all L k = k\<lparr>fds := close_fds L (fds k)\<rparr>"

definition dup2 :: "int \<Rightarrow> int \<Rightarrow> fdtab \<Rightarrow> fdtab option" where
  "dup2 a b t = map_option (\<lambda>obj. AList.update b obj t) (map_of t a)"

definition k_fork :: "kernel \<Rightarrow> int \<times> kernel" where
  "k_fork k = (if forks k = [] then (- 1, k) else (hd (forks k), k\<lparr>forks := tl (forks k)\<rparr>))"

text \<open>The child that \<open>fork\<close> has created, with its own table and what it does.\<close>

definition spawn :: "int \<Rightarrow> int option \<Rightarrow> fdtab \<Rightarrow> program \<Rightarrow> kernel \<Rightarrow> kernel" where
  "spawn pid pgid t prog k =
     k\<lparr>procs := procs k @ [\<lparr>p_pid = pid, p_pgid = pgid, p_fds = t, p_prog = prog\<rparr>]\<rparr>"

definition say :: "cstring \<Rightarrow> kernel \<Rightarrow> kernel" where
  "say s k = k\<lparr>printed := printed k @ s\<rparr>"

section \<open>Opening the redirections\<close>

fun open_outputs :: "output_file list \<Rightarrow> int list \<Rightarrow> kernel \<Rightarrow> int list option \<times> kernel" where
  "open_outputs [] opened k = (Some opened, k)"
| "open_outputs (f # fs) opened k =
     (let (fd, k) = k_open (File_out (of_name f) (of_append f)) k
      in if fd = - 1
         then (None, close_all opened
                 (say (''cshell: unable to create file for writing'' @ [CHR 0x0A]) k))
         else open_outputs fs (opened @ [fd]) k)"

definition open_output_files :: "output_file list \<Rightarrow> kernel \<Rightarrow> int list option \<times> kernel" where
  "open_output_files files k = open_outputs files [] k"

fun open_inputs :: "cstring list \<Rightarrow> int list \<Rightarrow> kernel \<Rightarrow> int list option \<times> kernel" where
  "open_inputs [] opened k = (Some opened, k)"
| "open_inputs (f # fs) opened k =
     (let (fd, k) = k_open (File_in f) k
      in if fd = - 1 then (None, close_all opened k)
         else open_inputs fs (opened @ [fd]) k)"

text \<open>The descriptor (or -1), the pid of the writer (or -1), and the kernel.\<close>

definition setup_input :: "cstring list \<Rightarrow> kernel \<Rightarrow> int \<times> int \<times> kernel" where
  "setup_input files k =
     (case open_inputs files [] k of
        (None, k) \<Rightarrow> (- 1, - 1, k)
      | (Some input_fds, k) \<Rightarrow>
          (case k_pipe k of
             (None, k) \<Rightarrow> (- 1, - 1, close_all input_fds k)
           | (Some (r, w), k) \<Rightarrow>
               let (pid, k) = k_fork k
               in if pid = - 1 then (- 1, - 1, close_all input_fds (close_all [r, w] k))
                  else let k = spawn pid None (AList.delete r (fds k)) (Copy_files input_fds w) k
                       in (r, pid, close_all input_fds (k_close w k))))"

section \<open>The copying loops\<close>

text \<open>
  \<open>while (written < bytes)\<close>: one chunk to one descriptor, given the results of the next calls of
  \<open>write\<close>.  The result is what arrived, whether all of it did, and the results left; None when
  \<open>write\<close> does not return.
\<close>

fun write_loop :: "cstring \<Rightarrow> int list \<Rightarrow> cstring \<Rightarrow> (cstring \<times> bool \<times> int list) option" where
  "write_loop [] results sofar = Some (sofar, True, results)"
| "write_loop (c # cs) [] sofar = None"
| "write_loop (c # cs) (r # results) sofar =
     (if r \<le> 0 then Some (sofar, False, results)
      else write_loop (drop (nat r) (c # cs)) results (sofar @ take (nat r) (c # cs)))"

text \<open>One chunk to every output in turn; \<open>files\<close> holds what each has received.\<close>

fun write_outputs :: "cstring \<Rightarrow> cstring list \<Rightarrow> int list \<Rightarrow> cstring list \<Rightarrow>
    (cstring list \<times> bool \<times> int list) option" where
  "write_outputs buffer [] results done = Some (done, True, results)"
| "write_outputs buffer (file # files) results done =
     (case write_loop buffer results file of
        None \<Rightarrow> None
      | Some (file', False, results) \<Rightarrow> Some (done @ file' # files, False, results)
      | Some (file', True, results) \<Rightarrow> write_outputs buffer files results (done @ [file']))"

text \<open>The output copier: the chunks that \<open>read\<close> returns until the end of the pipe; its exit code.\<close>

fun copy_to_all :: "cstring list \<Rightarrow> cstring list \<Rightarrow> int list \<Rightarrow> (cstring list \<times> int) option" where
  "copy_to_all [] files results = Some (files, 0)"
| "copy_to_all (buffer # chunks) files results =
     (case write_outputs buffer files results [] of
        None \<Rightarrow> None
      | Some (files, False, results) \<Rightarrow> Some (files, 1)
      | Some (files, True, results) \<Rightarrow> copy_to_all chunks files results)"

text \<open>The input writer: the chunks of one file, then of all the files, into one pipe.\<close>

fun copy_chunks :: "cstring list \<Rightarrow> int list \<Rightarrow> cstring \<Rightarrow> (cstring \<times> bool \<times> int list) option" where
  "copy_chunks [] results sofar = Some (sofar, True, results)"
| "copy_chunks (buffer # chunks) results sofar =
     (case write_loop buffer results sofar of
        None \<Rightarrow> None
      | Some (sofar, False, results) \<Rightarrow> Some (sofar, False, results)
      | Some (sofar, True, results) \<Rightarrow> copy_chunks chunks results sofar)"

fun copy_files :: "cstring list list \<Rightarrow> int list \<Rightarrow> cstring \<Rightarrow> (cstring \<times> int) option" where
  "copy_files [] results sofar = Some (sofar, 0)"
| "copy_files (f # fs) results sofar =
     (case copy_chunks f results sofar of
        None \<Rightarrow> None
      | Some (sofar, False, results) \<Rightarrow> Some (sofar, 1)
      | Some (sofar, True, results) \<Rightarrow> copy_files fs results sofar)"

section \<open>What the copying loops deliver\<close>

lemma write_loop_prefix:
  "write_loop buffer results sofar = Some (got, ok, rest) \<Longrightarrow>
   \<exists>done left. buffer = done @ left \<and> got = sofar @ done \<and> (ok \<longrightarrow> left = [])"
proof (induction buffer results sofar rule: write_loop.induct)
  case (3 c cs r results sofar)
  show ?case
  proof (cases "r \<le> 0")
    case True
    with 3(2) have "got = sofar" "\<not> ok" by simp_all
    then show ?thesis by (intro exI[of _ "[]"] exI[of _ "c # cs"]) simp
  next
    case False
    with 3(2) have "write_loop (drop (nat r) (c # cs)) results (sofar @ take (nat r) (c # cs)) =
        Some (got, ok, rest)" by (simp only: write_loop.simps if_False)
    from 3(1)[OF False this] obtain d l where
      d: "drop (nat r) (c # cs) = d @ l" "got = (sofar @ take (nat r) (c # cs)) @ d" "ok \<longrightarrow> l = []"
      by blast
    have "c # cs = (take (nat r) (c # cs) @ d) @ l"
      using append_take_drop_id[of "nat r" "c # cs"] by (simp only: d(1) append.assoc)
    with d show ?thesis by (metis append.assoc)
  qed
qed auto

lemma write_loop_all:
  assumes "list_all (\<lambda>r. 0 < r) results" "length buffer \<le> length results"
  shows "\<exists>rest. write_loop buffer results sofar = Some (sofar @ buffer, True, rest) \<and>
    list_all (\<lambda>r. 0 < r) rest \<and> length results \<le> length rest + length buffer"
  using assms
proof (induction buffer results sofar rule: write_loop.induct)
  case (3 c cs r results sofar)
  then have r: "\<not> r \<le> 0" "0 < nat r" and res: "list_all (\<lambda>r. 0 < r) results" by auto
  have le: "length (drop (nat r) (c # cs)) \<le> length cs" using r(2) by simp
  also have "\<dots> \<le> length results" using 3(3) by simp
  finally obtain rest where
    "write_loop (drop (nat r) (c # cs)) results (sofar @ take (nat r) (c # cs)) =
       Some ((sofar @ take (nat r) (c # cs)) @ drop (nat r) (c # cs), True, rest)"
    "list_all (\<lambda>r. 0 < r) rest"
    "length results \<le> length rest + length (drop (nat r) (c # cs))"
    using 3(1)[OF r(1) res] by blast
  moreover have "(sofar @ take (nat r) (c # cs)) @ drop (nat r) (c # cs) = sofar @ c # cs"
    by (metis append.assoc append_take_drop_id)
  moreover have "length (r # results) \<le> length rest + length (c # cs)"
    using calculation(3) le by simp
  ultimately show ?case
    using r(1) by (intro exI[of _ rest]) (simp only: write_loop.simps if_False simp_thms)
qed auto

lemma write_outputs_prefix:
  "write_outputs buffer files results done = Some (got, ok, rest) \<Longrightarrow>
   (if ok then got = done @ map (\<lambda>f. f @ buffer) files
    else length got = length done + length files \<and> take (length done) got = done \<and>
         (\<forall>i < length files. \<exists>p. prefix p buffer \<and> got ! (length done + i) = files ! i @ p))"
proof (induction files arbitrary: results "done")
  case (Cons f files)
  from Cons.prems obtain file' b res where w: "write_loop buffer results f = Some (file', b, res)"
    by (auto split: option.splits)
  from write_loop_prefix[OF w] obtain d l where
    d: "buffer = d @ l" "file' = f @ d" "b \<longrightarrow> l = []" by blast
  show ?case
  proof (cases b)
    case False
    with Cons.prems w have got: "got = done @ file' # files" "\<not> ok" by auto
    have "\<exists>p. prefix p buffer \<and> got ! (length done + i) = (f # files) ! i @ p"
      if "i < length (f # files)" for i
    proof (cases i)
      case 0
      with d got(1) show ?thesis by (intro exI[of _ d]) simp
    next
      case (Suc j)
      then have "got ! (length done + i) = files ! j" by (simp add: got(1) nth_append)
      with Suc show ?thesis by (intro exI[of _ "[]"]) simp
    qed
    with got show ?thesis by simp
  next
    case True
    with Cons.prems w have "write_outputs buffer files res (done @ [file']) = Some (got, ok, rest)" by simp
    note IH = Cons.IH[OF this]
    show ?thesis
    proof (cases ok)
      case True
      with IH d \<open>b\<close> show ?thesis by simp
    next
      case False
      with IH have len: "length got = Suc (length done) + length files"
        and tk: "take (Suc (length done)) got = done @ [file']"
        and nth: "\<And>i. i < length files \<Longrightarrow> \<exists>p. prefix p buffer \<and> got ! (Suc (length done) + i) = files ! i @ p"
        by auto
      have "take (length done) got = done"
        using arg_cong[OF tk, of "take (length done)"] by (simp add: take_take min_def)
      moreover have "got ! length done = file'"
        using arg_cong[OF tk, of "\<lambda>xs. xs ! length done"] len by simp
      then have "\<exists>p. prefix p buffer \<and> got ! (length done + i) = (f # files) ! i @ p"
        if "i < length (f # files)" for i
      proof (cases i)
        case 0
        with d \<open>b\<close> \<open>got ! length done = file'\<close> show ?thesis by (intro exI[of _ buffer]) simp
      next
        case (Suc j)
        with that nth[of j] show ?thesis by simp
      qed
      ultimately show ?thesis using len False by simp
    qed
  qed
qed simp

lemma write_outputs_all:
  assumes "list_all (\<lambda>r. 0 < r) results" "length files * length buffer \<le> length results"
  shows "\<exists>rest. write_outputs buffer files results done =
      Some (done @ map (\<lambda>f. f @ buffer) files, True, rest) \<and>
    list_all (\<lambda>r. 0 < r) rest \<and> length results \<le> length rest + length files * length buffer"
  using assms
proof (induction files arbitrary: results "done")
  case (Cons f files)
  then obtain res where w: "write_loop buffer results f = Some (f @ buffer, True, res)"
    "list_all (\<lambda>r. 0 < r) res" "length results \<le> length res + length buffer"
    using write_loop_all[of results buffer f] by auto
  then have "length files * length buffer \<le> length res" using Cons.prems(2) by simp
  from Cons.IH[OF w(2) this, of "done @ [f @ buffer]"] w show ?case by auto
qed auto


lemma copy_to_all_complete:
  assumes "list_all (\<lambda>r. 0 < r) results" "length files * length (concat chunks) \<le> length results"
  shows "copy_to_all chunks files results = Some (map (\<lambda>f. f @ concat chunks) files, 0)"
  using assms
proof (induction chunks arbitrary: files results)
  case (Cons buffer chunks)
  have "length files * length buffer \<le> length results"
    using Cons.prems(2) by (simp add: algebra_simps)
  then obtain rest where w:
    "write_outputs buffer files results [] = Some (map (\<lambda>f. f @ buffer) files, True, rest)"
    "list_all (\<lambda>r. 0 < r) rest" "length results \<le> length rest + length files * length buffer"
    using write_outputs_all[OF Cons.prems(1), of files buffer "[]"] by auto
  then have "length (map (\<lambda>f. f @ buffer) files) * length (concat chunks) \<le> length rest"
    using Cons.prems(2) by (simp add: algebra_simps)
  from Cons.IH[OF w(2) this] w(1) show ?case by (simp add: o_def)
qed simp

lemma copy_to_all_prefix:
  "copy_to_all chunks files results = Some (got, code) \<Longrightarrow>
   length got = length files \<and>
   (\<forall>i < length files. \<exists>p. prefix p (concat chunks) \<and> got ! i = files ! i @ p) \<and>
   (code = 0 \<longrightarrow> got = map (\<lambda>f. f @ concat chunks) files)"
proof (induction chunks arbitrary: files results)
  case (Cons buffer chunks)
  from Cons.prems obtain got1 ok rest where
    w: "write_outputs buffer files results [] = Some (got1, ok, rest)"
    by (cases "write_outputs buffer files results []") auto
  note p = write_outputs_prefix[OF w]
  show ?case
  proof (cases ok)
    case False
    with Cons.prems w have "got = got1" "code = 1" by auto
    with p False show ?thesis by (auto intro: prefix_prefix)
  next
    case True
    with Cons.prems w p have g1: "got1 = map (\<lambda>f. f @ buffer) files"
      and c: "copy_to_all chunks got1 rest = Some (got, code)" by auto
    from Cons.IH[OF c] have IH: "length got = length files"
      "\<And>i. i < length files \<Longrightarrow> \<exists>q. prefix q (concat chunks) \<and> got ! i = (files ! i @ buffer) @ q"
      "code = 0 \<longrightarrow> got = map (\<lambda>f. f @ concat chunks) got1" by (auto simp: g1)
    have "\<exists>q. prefix q (concat (buffer # chunks)) \<and> got ! i = files ! i @ q" if i: "i < length files" for i
    proof -
      from IH(2)[OF i] obtain q where "prefix q (concat chunks)" "got ! i = (files ! i @ buffer) @ q"
        by blast
      then show ?thesis by (intro exI[of _ "buffer @ q"]) simp
    qed
    with IH(1,3) show ?thesis by (simp add: g1 o_def)
  qed
qed simp

lemma copy_chunks_all:
  assumes "list_all (\<lambda>r. 0 < r) results" "length (concat chunks) \<le> length results"
  shows "\<exists>rest. copy_chunks chunks results sofar = Some (sofar @ concat chunks, True, rest) \<and>
    list_all (\<lambda>r. 0 < r) rest \<and> length results \<le> length rest + length (concat chunks)"
  using assms
proof (induction chunks arbitrary: results sofar)
  case (Cons buffer chunks)
  obtain rest where w: "write_loop buffer results sofar = Some (sofar @ buffer, True, rest)"
    "list_all (\<lambda>r. 0 < r) rest" "length results \<le> length rest + length buffer"
    using write_loop_all[OF Cons.prems(1), of buffer sofar] Cons.prems(2) by auto
  then have "length (concat chunks) \<le> length rest" using Cons.prems(2) by simp
  from Cons.IH[OF w(2) this, of "sofar @ buffer"] w show ?case by auto
qed simp

lemma copy_files_complete:
  assumes "list_all (\<lambda>r. 0 < r) results" "length (concat (map concat texts)) \<le> length results"
  shows "copy_files texts results sofar = Some (sofar @ concat (map concat texts), 0)"
  using assms
proof (induction texts arbitrary: results sofar)
  case (Cons chunks texts)
  obtain rest where w: "copy_chunks chunks results sofar = Some (sofar @ concat chunks, True, rest)"
    "list_all (\<lambda>r. 0 < r) rest" "length results \<le> length rest + length (concat chunks)"
    using copy_chunks_all[OF Cons.prems(1), of chunks sofar] Cons.prems(2) by auto
  then have "length (concat (map concat texts)) \<le> length rest" using Cons.prems(2) by simp
  from Cons.IH[OF w(2) this, of "sofar @ concat chunks"] w(1) show ?case by simp
qed simp

section \<open>Descriptor tables as maps\<close>

lemma map_of_delete [simp]: "map_of (AList.delete fd t) = (map_of t)(fd := None)"
  by (simp add: AList.delete_conv')

lemma map_of_update [simp]: "map_of (AList.update fd obj t) = (map_of t)(fd \<mapsto> obj)"
  by (simp add: AList.update_conv')

lemma restrict_map_all [simp]: "m |` UNIV = m"
  by (simp add: fun_eq_iff)

lemma map_of_close_fds [simp]: "map_of (close_fds L t) = map_of t |` (- set L)"
proof -
  have "map_of (fold AList.delete L t) x = (if x \<in> set L then None else map_of t x)" for x
    by (induction L arbitrary: t) auto
  then show ?thesis by (simp add: close_fds_def fun_eq_iff restrict_map_def)
qed

lemma free_fd_unused: "map_of t (free_fd t) = None" "0 \<le> free_fd t"
proof -
  let ?free = "filter (\<lambda>n. int n \<notin> fst ` set t) [0 ..< Suc (length t)]"
  have "?free \<noteq> []"
  proof
    assume "?free = []"
    then have "int ` {0 ..< Suc (length t)} \<subseteq> fst ` set t" by (auto simp: filter_empty_conv simp del: upt_Suc)
    then have "card (int ` {0 ..< Suc (length t)}) \<le> card (fst ` set t)" by (intro card_mono) simp_all
    also have "\<dots> \<le> length t" by (metis card_length length_map set_map)
    finally show False by (simp add: card_image)
  qed
  then have "hd ?free \<in> set ?free" by (rule hd_in_set)
  then show "map_of t (free_fd t) = None" by (simp add: free_fd_def map_of_eq_None_iff del: upt_Suc)
  show "0 \<le> free_fd t" by (simp add: free_fd_def)
qed

definition holds :: "fdtab \<Rightarrow> nat \<Rightarrow> bool" where
  "holds t n \<longleftrightarrow> (\<exists>fd. map_of t fd = Some (Pipe_write n))"

text \<open>The calls \<open>k_open\<close> and \<open>k_pipe\<close> on the map of a table.\<close>

lemma k_open_effect:
  assumes "k_open obj k = (fd, k')"
  shows "if fd = - 1 then fds k' = fds k
     else 0 \<le> fd \<and> map_of (fds k) fd = None \<and> map_of (fds k') = (map_of (fds k))(fd \<mapsto> obj)"
    and "procs k' = procs k" "next_pipe k' = next_pipe k"
  using assms free_fd_unused[of "fds k"]
  by (auto simp: k_open_def Let_def split: if_splits)

lemma k_pipe_None:
  assumes "k_pipe k = (None, k')"
  shows "fds k' = fds k" "procs k' = procs k" "next_pipe k' = next_pipe k" "forks k' = forks k"
  using assms by (auto simp: k_pipe_def Let_def split: if_splits)

lemma k_pipe_Some:
  assumes "k_pipe k = (Some (r, w), k')"
  shows "map_of (fds k') = (map_of (fds k))(r \<mapsto> Pipe_read (next_pipe k), w \<mapsto> Pipe_write (next_pipe k))"
    and "map_of (fds k) r = None" "map_of (fds k) w = None" "r \<noteq> w" "0 \<le> r" "0 \<le> w"
    and "procs k' = procs k" "next_pipe k' = Suc (next_pipe k)" "forks k' = forks k"
proof -
  let ?r = "free_fd (fds k)"
  let ?t = "(?r, Pipe_read (next_pipe k)) # fds k"
  have e: "r = ?r" "w = free_fd ?t" "fds k' = (w, Pipe_write (next_pipe k)) # ?t"
    "procs k' = procs k" "next_pipe k' = Suc (next_pipe k)" "forks k' = forks k"
    using assms by (auto simp: k_pipe_def Let_def split: if_splits)
  have w: "map_of ?t w = None" "0 \<le> w" using free_fd_unused[of ?t] unfolding e(2) by blast+
  then show "r \<noteq> w" "map_of (fds k) w = None" by (auto simp: e(1) split: if_splits)
  show "map_of (fds k') = (map_of (fds k))(r \<mapsto> Pipe_read (next_pipe k), w \<mapsto> Pipe_write (next_pipe k))"
    using \<open>r \<noteq> w\<close> by (simp add: e(1,3) fun_eq_iff)
  show "map_of (fds k) r = None" "0 \<le> r" using free_fd_unused[of "fds k"] by (simp_all add: e(1))
qed (use assms in \<open>auto simp: k_pipe_def Let_def free_fd_unused split: if_splits\<close>)

lemma k_fork_frame:
  assumes "k_fork k = (pid, k')"
  shows "fds k' = fds k" "procs k' = procs k" "next_pipe k' = next_pipe k" "refuse k' = refuse k"
  using assms by (auto simp: k_fork_def split: if_splits)

section \<open>The effect of the setup routines\<close>

definition opened :: "file_obj list \<Rightarrow> int list \<Rightarrow> kernel \<Rightarrow> kernel \<Rightarrow> bool" where
  "opened objs L k k' \<longleftrightarrow>
     length L = length objs \<and> distinct L \<and>
     (\<forall>j < length L. 0 \<le> L ! j \<and> map_of (fds k) (L ! j) = None \<and>
        map_of (fds k') (L ! j) = Some (objs ! j)) \<and>
     map_of (fds k') |` (- set L) = map_of (fds k) \<and>
     procs k' = procs k \<and> next_pipe k' = next_pipe k"

lemma opened_Nil: "opened [] [] k k"
  by (simp add: opened_def)

lemma opened_member:
  "opened objs L k k' \<Longrightarrow> fd \<in> set L \<Longrightarrow>
   0 \<le> fd \<and> map_of (fds k) fd = None \<and> (\<exists>obj \<in> set objs. map_of (fds k') fd = Some obj)"
  by (auto simp: opened_def in_set_conv_nth)

lemma restrict_fresh: "m fd = None \<Longrightarrow> m |` (- insert fd A) = m |` (- A)"
  by (auto simp: fun_eq_iff restrict_map_def)

lemma opened_Cons:
  assumes "k_open obj k = (fd, k1)" "fd \<noteq> - 1" "opened objs L k1 k'"
  shows "opened (obj # objs) (fd # L) k k'"
proof -
  note o = k_open_effect[OF assms(1)]
  from o(1) assms(2) have fd: "0 \<le> fd" "map_of (fds k) fd = None"
    "map_of (fds k1) = (map_of (fds k))(fd \<mapsto> obj)" by simp_all
  have L: "map_of (fds k') |` (- set L) = map_of (fds k1)" using assms(3) by (simp add: opened_def)
  have notin: "fd \<notin> set L" using opened_member[OF assms(3), of fd] fd(3) by auto
  have at: "map_of (fds k') fd = Some obj"
    using fun_cong[OF L, of fd] notin by (simp add: fd(3) restrict_map_def)
  have rest: "map_of (fds k') |` (- set (fd # L)) = map_of (fds k)"
  proof
    fix x
    show "(map_of (fds k') |` (- set (fd # L))) x = map_of (fds k) x"
      using fun_cong[OF L, of x] opened_member[OF assms(3), of x] fd
      by (auto simp: restrict_map_def split: if_splits)
  qed
  have "0 \<le> (fd # L) ! j \<and> map_of (fds k) ((fd # L) ! j) = None \<and>
      map_of (fds k') ((fd # L) ! j) = Some ((obj # objs) ! j)" if "j < length (fd # L)" for j
  proof (cases j)
    case 0
    with fd at show ?thesis by simp
  next
    case (Suc i)
    with that have i: "i < length L" by simp
    then have "L ! i \<noteq> fd" using notin by auto
    moreover have "0 \<le> L ! i \<and> map_of (fds k1) (L ! i) = None \<and>
        map_of (fds k') (L ! i) = Some (objs ! i)"
      using assms(3) i unfolding opened_def by blast
    ultimately show ?thesis using Suc fd(3) by (simp split: if_splits)
  qed
  with assms(3) o(2,3) notin rest show ?thesis by (simp add: opened_def)
qed

lemma open_inputs_effect:
  "open_inputs files sofar k = (r, k') \<Longrightarrow>
   (case r of
      None \<Rightarrow> map_of (fds k') = map_of (fds k) |` (- set sofar) \<and> procs k' = procs k \<and>
              next_pipe k' = next_pipe k
    | Some L \<Rightarrow> \<exists>new. L = sofar @ new \<and> opened (map File_in files) new k k')"
proof (induction files arbitrary: sofar k)
  case Nil
  then show ?case by (auto simp: opened_Nil)
next
  case (Cons f files)
  obtain fd k1 where o: "k_open (File_in f) k = (fd, k1)" by fastforce
  note e = k_open_effect[OF o]
  show ?case
  proof (cases "fd = - 1")
    case True
    with Cons.prems o e show ?thesis by (auto simp: close_all_def)
  next
    case False
    with Cons.prems o have "open_inputs files (sofar @ [fd]) k1 = (r, k')" by simp
    note IH = Cons.IH[OF this]
    show ?thesis
    proof (cases r)
      case None
      with IH e False show ?thesis by (simp add: restrict_fresh)
    next
      case (Some L)
      with IH obtain new where new: "L = sofar @ fd # new" "opened (map File_in files) new k1 k'" by auto
      with opened_Cons[OF o False new(2)] Some show ?thesis by auto
    qed
  qed
qed

definition out_obj :: "output_file \<Rightarrow> file_obj" where
  "out_obj f = File_out (of_name f) (of_append f)"

lemma open_outputs_effect:
  "open_outputs files sofar k = (r, k') \<Longrightarrow>
   (case r of
      None \<Rightarrow> map_of (fds k') = map_of (fds k) |` (- set sofar) \<and> procs k' = procs k \<and>
              next_pipe k' = next_pipe k
    | Some L \<Rightarrow> \<exists>new. L = sofar @ new \<and> opened (map out_obj files) new k k')"
proof (induction files arbitrary: sofar k)
  case Nil
  then show ?case by (auto simp: opened_Nil)
next
  case (Cons f files)
  obtain fd k1 where o: "k_open (File_out (of_name f) (of_append f)) k = (fd, k1)" by fastforce
  note e = k_open_effect[OF o]
  show ?case
  proof (cases "fd = - 1")
    case True
    with Cons.prems o e show ?thesis by (auto simp: close_all_def say_def)
  next
    case False
    with Cons.prems o have "open_outputs files (sofar @ [fd]) k1 = (r, k')" by simp
    note IH = Cons.IH[OF this]
    show ?thesis
    proof (cases r)
      case None
      with IH e False show ?thesis by (simp add: restrict_fresh)
    next
      case (Some L)
      with IH obtain new where new: "L = sofar @ fd # new" "opened (map out_obj files) new k1 k'" by auto
      with opened_Cons[OF o False new(2)] Some show ?thesis by (auto simp: out_obj_def)
    qed
  qed
qed

text \<open>
  \<open>setup_input\<close> leaves the table as it was, or adds the read end of a new pipe whose write end is
  held by the new writer process only.
\<close>

definition writer_of :: "kernel \<Rightarrow> process \<Rightarrow> bool" where
  "writer_of k p \<longleftrightarrow> (\<exists>ins w. p_prog p = Copy_files ins w) \<and>
     (\<forall>n. holds (p_fds p) n \<longrightarrow> holds (fds k) n \<or> n = next_pipe k)"

lemma setup_input_effect:
  assumes "setup_input files k = (fd, pid, k')"
  shows "if fd = - 1
     then map_of (fds k') = map_of (fds k) \<and> procs k' = procs k \<and>
          next_pipe k \<le> next_pipe k'
     else 0 \<le> fd \<and> map_of (fds k) fd = None \<and>
          map_of (fds k') = (map_of (fds k))(fd \<mapsto> Pipe_read (next_pipe k)) \<and>
          (\<exists>p. procs k' = procs k @ [p] \<and> writer_of k p) \<and> next_pipe k' = Suc (next_pipe k)"
proof -
  obtain r1 k1 where o: "open_inputs files [] k = (r1, k1)" by fastforce
  show ?thesis
  proof (cases r1)
    case None
    with assms o open_inputs_effect[OF o] show ?thesis by (simp add: setup_input_def)
  next
    case (Some L)
    with open_inputs_effect[OF o] have L: "opened (map File_in files) L k k1" by auto
    then have k1: "map_of (fds k1) |` (- set L) = map_of (fds k)" "procs k1 = procs k"
      "next_pipe k1 = next_pipe k" by (auto simp: opened_def)
    obtain p k2 where pk: "k_pipe k1 = (p, k2)" by fastforce
    show ?thesis
    proof (cases p)
      case None
      note e = k_pipe_None[OF pk[unfolded None]]
      show ?thesis using assms Some o pk None k1 e by (auto simp: setup_input_def close_all_def)
    next
      case (Some rw)
      obtain r w where rw: "rw = (r, w)" by fastforce
      note e = k_pipe_Some[OF pk[unfolded Some rw]]
      obtain f k3 where fk: "k_fork k2 = (f, k3)" by fastforce
      note ef = k_fork_frame[OF fk]
      have restr: "map_of (fds k2) |` (- {r, w}) |` (- set L) = map_of (fds k)"
      proof
        fix x
        show "(map_of (fds k2) |` (- {r, w}) |` (- set L)) x = map_of (fds k) x"
          using fun_cong[OF k1(1), of x] e(1,2,3) by (auto simp: restrict_map_def split: if_splits)
      qed
      show ?thesis
      proof (cases "f = - 1")
        case True
        then have "fd = - 1" "k' = close_all L (close_all [r, w] k3)"
          using assms \<open>r1 = Some L\<close> o pk Some rw fk by (auto simp: setup_input_def)
        then show ?thesis using restr k1 e(7,8) ef by (simp add: close_all_def)
      next
        case False
        let ?p = "\<lparr>p_pid = f, p_pgid = None, p_fds = AList.delete r (fds k3), p_prog = Copy_files L w\<rparr>"
        have k': "fd = r" "fds k' = close_fds L (AList.delete w (fds k3))" "procs k' = procs k @ [?p]"
          "next_pipe k' = Suc (next_pipe k)"
          using assms \<open>r1 = Some L\<close> o pk Some rw fk False k1 e ef
          by (auto simp: setup_input_def close_all_def k_close_def spawn_def Let_def)
        have rL: "r \<notin> set L" using e(2) opened_member[OF L, of r] by auto
        then have rL: "r \<notin> set L" "map_of (fds k) r = None"
          using e(2) fun_cong[OF k1(1), of r] by (simp_all add: restrict_map_def)
        have "map_of (fds k') = (map_of (fds k))(r \<mapsto> Pipe_read (next_pipe k))"
        proof
          fix x
          show "map_of (fds k') x = ((map_of (fds k))(r \<mapsto> Pipe_read (next_pipe k))) x"
            using fun_cong[OF k1(1), of x] e(1,3,4) rL
            by (auto simp: k' ef e(1) k1(3) restrict_map_def split: if_splits)
        qed
        moreover have "holds (fds k) n \<or> n = next_pipe k" if "holds (p_fds ?p) n" for n
        proof -
          from that obtain x where x: "map_of (AList.delete r (fds k3)) x = Some (Pipe_write n)"
            by (auto simp: holds_def)
          show ?thesis
          proof (cases "x = w")
            case True
            with x e(1,4) ef(1) k1(3) show ?thesis by simp
          next
            case False
            with x e(1) ef(1) have "map_of (fds k1) x = Some (Pipe_write n)" by (auto split: if_splits)
            moreover from this have "x \<notin> set L" using opened_member[OF L, of x] by auto
            ultimately have "map_of (fds k) x = Some (Pipe_write n)"
              using fun_cong[OF k1(1), of x] by (simp add: restrict_map_def)
            then show ?thesis by (auto simp: holds_def)
          qed
        qed
        then have "writer_of k ?p" by (simp add: writer_of_def)
        ultimately show ?thesis using k' e(5) rL(2) by auto
      qed
    qed
  qed
qed

section \<open>Properties\<close>

text \<open>
  C28.  The helper processes of a redirection lose nothing, however the data is cut into reads and
  however little each \<open>write\<close> takes.  The writer for \<open><\<close> sends the texts of its files one after the
  other; the copier for several \<open>>\<close> appends the whole text to every file; both end with code 0 when
  no \<open>write\<close> fails.  When one fails, every output has received a prefix of the text.
\<close>

theorem redirection_copies_everything:
  "(list_all (\<lambda>r. 0 < r) results \<and> length (concat (map concat texts)) \<le> length results \<longrightarrow>
      copy_files texts results [] = Some (concat (map concat texts), 0)) \<and>
   (list_all (\<lambda>r. 0 < r) results \<and> length files * length (concat chunks) \<le> length results \<longrightarrow>
      copy_to_all chunks files results = Some (map (\<lambda>f. f @ concat chunks) files, 0)) \<and>
   (copy_to_all chunks files results = Some (got, code) \<longrightarrow>
      length got = length files \<and>
      (\<forall>i < length files. \<exists>p. prefix p (concat chunks) \<and> got ! i = files ! i @ p) \<and>
      (code = 0 \<longrightarrow> got = map (\<lambda>f. f @ concat chunks) files))"
  using copy_files_complete[of results texts "[]"] copy_to_all_complete[of results files chunks]
    copy_to_all_prefix[of chunks files results got code]
  by simp

lemma redirection_copies_everything_witness:
  "copy_files [[''a''], [''bc'']] [1, 1, 1] [] = Some (''abc'', 0) \<and>
   copy_to_all [''ab'', ''c''] [[], ''x''] [1, 1, 2, 1, 1, 1] = Some ([''abc'', ''xabc''], 0) \<and>
   [''abc'', ''xabc''] = map (\<lambda>f. f @ ''abc'') [[], ''x'']"
  using redirection_copies_everything[of "[1, 1, 1]" "[[''a''], [''bc'']]" "[]" "[]" "[]" 0]
    redirection_copies_everything[of "[1, 1, 2, 1, 1, 1]" "[]" "[[], ''x'']" "[''ab'', ''c'']"
      "[''abc'', ''xabc'']" 0]
  by simp

end
