(* ===== verification/Pipeline.thy ===== *)
theory Pipeline
  imports Descriptors Terminal
begin

text \<open>
  Foreground pipelines, \<open>start_output_copier\<close> and \<open>run_pipeline\<close> of \<open>c-shell/src/command.c\<close>.  The
  processes are created with their descriptor tables; what they then do with their input and output
  is theirs.  The search for commands and the events of the foreground wait are parameters.
\<close>

section \<open>Setting up the stages\<close>

definition stage_input :: "pipeline_stage \<Rightarrow> kernel \<Rightarrow> pipeline_stage \<times> kernel" where
  "stage_input st k =
     (let st = st\<lparr>st_input_fd := - 1, st_input_writer := - 1\<rparr>
      in if st_input_files st \<noteq> [] then
           let (fd, pid, k) = setup_input (st_input_files st) k
           in (st\<lparr>st_input_fd := fd, st_input_writer := pid,
                  st_setup_failed := (st_setup_failed st \<or> fd = - 1)\<rparr>, k)
         else (st, k))"

definition stage_outputs :: "pipeline_stage \<Rightarrow> kernel \<Rightarrow> pipeline_stage \<times> kernel" where
  "stage_outputs st k =
     (if st_output_files st \<noteq> [] then
        (case open_output_files (st_output_files st) k of
           (None, k) \<Rightarrow> (st\<lparr>st_setup_failed := True\<rparr>, k)
         | (Some outs, k) \<Rightarrow> (st\<lparr>st_output_fds := outs\<rparr>, k))
      else (st, k))"

definition setup_stage :: "pipeline_stage \<Rightarrow> kernel \<Rightarrow> pipeline_stage \<times> kernel" where
  "setup_stage st k = (let (st, k) = stage_input st k in stage_outputs st k)"

fun setup_stages :: "pipeline_stage list \<Rightarrow> kernel \<Rightarrow> pipeline_stage list \<times> kernel" where
  "setup_stages [] k = ([], k)"
| "setup_stages (st # sts) k =
     (let (st, k) = setup_stage st k; (sts, k) = setup_stages sts k in (st # sts, k))"

text \<open>The pipes between the stages; \<open>Inl\<close> holds those made before a failure.\<close>

fun make_pipes :: "nat \<Rightarrow> (int \<times> int) list \<Rightarrow> kernel \<Rightarrow>
    ((int \<times> int) list + (int \<times> int) list) \<times> kernel" where
  "make_pipes 0 pipes k = (Inr pipes, k)"
| "make_pipes (Suc n) pipes k =
     (case k_pipe k of
        (None, k) \<Rightarrow> (Inl pipes, k)
      | (Some p, k) \<Rightarrow> make_pipes n (pipes @ [p]) k)"

text \<open>The descriptors that the closing loops go over.\<close>

definition pipe_fds :: "(int \<times> int) list \<Rightarrow> int list" where
  "pipe_fds pipes = concat (map (\<lambda>p. [fst p, snd p]) pipes)"

definition close_pipeline_pipes :: "(int \<times> int) list \<Rightarrow> fdtab \<Rightarrow> fdtab" where
  "close_pipeline_pipes pipes t = close_fds (pipe_fds pipes) t"

definition input_end :: "pipeline_stage \<Rightarrow> int list" where
  "input_end st = (if st_input_fd st \<noteq> - 1 then [st_input_fd st] else [])"

definition output_ends :: "pipeline_stage \<Rightarrow> int list" where
  "output_ends st =
     (if st_output_files st \<noteq> [] \<and> \<not> st_setup_failed st then st_output_fds st else [])"

text \<open>The clean-up after a failed \<open>pipe\<close>.\<close>

definition abandon_pipes :: "pipeline_stage list \<Rightarrow> (int \<times> int) list \<Rightarrow> kernel \<Rightarrow> kernel" where
  "abandon_pipes stages pipes k =
     close_all (pipe_fds pipes @ concat (map (\<lambda>st. input_end st @ output_ends st) stages)) k"

section \<open>Output copiers\<close>

definition copier_table :: "pipeline_stage list \<Rightarrow> nat \<Rightarrow> (int \<times> int) list \<Rightarrow> int \<Rightarrow> fdtab \<Rightarrow> fdtab" where
  "copier_table stages index pipes w t =
     close_fds (concat (map (\<lambda>i. input_end (stages ! i) @
                              (if i \<noteq> index then output_ends (stages ! i) else []))
                        [0 ..< length stages]))
       (close_pipeline_pipes pipes (AList.delete w t))"

definition start_output_copier :: "pipeline_stage list \<Rightarrow> nat \<Rightarrow> (int \<times> int) list \<Rightarrow> kernel \<Rightarrow>
    bool \<times> pipeline_stage \<times> kernel" where
  "start_output_copier stages index pipes k =
     (let stage = stages ! index in
      case k_pipe k of
        (None, k) \<Rightarrow> (False, stage, k)
      | (Some (r, w), k) \<Rightarrow>
          let (pid, k) = k_fork k
          in if pid = - 1 then
               (False, stage\<lparr>st_output_writer := - 1, st_output_pipe := (- 1, - 1)\<rparr>,
                close_all [r, w] k)
             else
               (True, stage\<lparr>st_output_writer := pid, st_output_pipe := (r, w)\<rparr>,
                spawn pid None (copier_table stages index pipes w (fds k))
                  (Copy_to_all r (st_output_fds stage)) k))"

definition copier_step :: "(int \<times> int) list \<Rightarrow> nat \<Rightarrow> pipeline_stage list \<times> kernel \<Rightarrow>
    pipeline_stage list \<times> kernel" where
  "copier_step pipes i =
     (\<lambda>(stages, k).
        if length (st_output_files (stages ! i)) > 1 \<and> \<not> st_setup_failed (stages ! i) then
          let (started, stage, k) = start_output_copier stages i pipes k
          in if started then (stages[i := stage], k)
             else (stages[i := stage\<lparr>st_setup_failed := True\<rparr>], close_all (st_output_fds stage) k)
        else (stages, k))"

definition start_copiers :: "(int \<times> int) list \<Rightarrow> pipeline_stage list \<Rightarrow> kernel \<Rightarrow>
    pipeline_stage list \<times> kernel" where
  "start_copiers pipes stages k = fold (copier_step pipes) [0 ..< length stages] (stages, k)"

section \<open>The processes of the stages\<close>

text \<open>The two \<open>dup2\<close> calls of stage \<open>i\<close>; None when one fails.\<close>

definition redirect_input :: "pipeline_stage list \<Rightarrow> nat \<Rightarrow> (int \<times> int) list \<Rightarrow> fdtab \<Rightarrow> fdtab option" where
  "redirect_input stages i pipes t =
     (if st_input_fd (stages ! i) \<noteq> - 1 then dup2 (st_input_fd (stages ! i)) 0 t
      else if i > 0 then dup2 (fst (pipes ! (i - 1))) 0 t
      else Some t)"

definition redirect_output :: "pipeline_stage list \<Rightarrow> nat \<Rightarrow> (int \<times> int) list \<Rightarrow> fdtab \<Rightarrow> fdtab option" where
  "redirect_output stages i pipes t =
     (let st = stages ! i; output_count = length (st_output_files st) in
      if output_count = 0 \<and> i < length stages - 1 then dup2 (snd (pipes ! i)) 1 t
      else if output_count = 1 then dup2 (hd (st_output_fds st)) 1 t
      else if output_count > 1 then dup2 (snd (st_output_pipe st)) 1 t
      else Some t)"

definition stage_ends :: "pipeline_stage \<Rightarrow> int list" where
  "stage_ends st = input_end st @ output_ends st @
     (if length (st_output_files st) > 1 \<and> \<not> st_setup_failed st
      then [fst (st_output_pipe st), snd (st_output_pipe st)] else [])"

definition close_stage_fds :: "pipeline_stage list \<Rightarrow> (int \<times> int) list \<Rightarrow> fdtab \<Rightarrow> fdtab" where
  "close_stage_fds stages pipes t =
     close_fds (concat (map stage_ends stages)) (close_pipeline_pipes pipes t)"

text \<open>From the look-up of the command to \<open>execv\<close>.\<close>

definition enter_stage :: "search_env \<Rightarrow> pipeline_stage list \<Rightarrow> nat \<Rightarrow> (int \<times> int) list \<Rightarrow> fdtab \<Rightarrow>
    fdtab \<times> program" where
  "enter_stage env stages i pipes t =
     (case resolve_command env (hd (st_argv (stages ! i))) of
        Inl f \<Rightarrow> (t, Fault f)
      | Inr (argv0, None) \<Rightarrow>
          (t, Exit_now (''cshell: command not found ('' @ argv0 @ '')'' @ [CHR 0x0A]))
      | Inr (argv0, Some path) \<Rightarrow>
          (case redirect_input stages i pipes t of
             None \<Rightarrow> (t, Exit_now [])
           | Some t \<Rightarrow>
               (case redirect_output stages i pipes t of
                  None \<Rightarrow> (t, Exit_now [])
                | Some t \<Rightarrow> (close_stage_fds stages pipes t,
                              Exec path (argv0 # tl (st_argv (stages ! i)))))))"

definition stage_child :: "search_env \<Rightarrow> pipeline_stage list \<Rightarrow> nat \<Rightarrow> (int \<times> int) list \<Rightarrow> fdtab \<Rightarrow>
    fdtab \<times> program" where
  "stage_child env stages i pipes t =
     (if st_setup_failed (stages ! i) then
        (t, Exit_now (if st_input_files (stages ! i) \<noteq> []
                      then ''cshell: no such file or directory'' @ [CHR 0x0A] else []))
      else enter_stage env stages i pipes t)"

text \<open>
  One turn of the loop that forks: the list of the pids so far, and the kernel.  Every process joins
  the group of the first; if that one could not be created, \<open>setpgid\<close> has no effect.
\<close>

definition stage_group :: "int \<Rightarrow> int list \<Rightarrow> int option" where
  "stage_group pid children =
     (if children = [] then Some pid
      else if hd children = - 1 then None
      else Some (hd children))"

definition fork_step :: "(nat \<Rightarrow> fdtab \<Rightarrow> fdtab \<times> program) \<Rightarrow> nat \<Rightarrow> int list \<times> kernel \<Rightarrow>
    int list \<times> kernel" where
  "fork_step child i =
     (\<lambda>(children, k).
        let (pid, k) = k_fork k
        in if pid = - 1 then (children @ [- 1], k)
           else let (t, prog) = child i (fds k)
                in (children @ [pid], spawn pid (stage_group pid children) t prog k))"

definition fork_stages :: "search_env \<Rightarrow> pipeline_stage list \<Rightarrow> (int \<times> int) list \<Rightarrow> kernel \<Rightarrow>
    int list \<times> kernel" where
  "fork_stages env stages pipes k =
     fold (fork_step (\<lambda>i t. stage_child env stages i pipes t)) [0 ..< length stages] ([], k)"

text \<open>The parent closes its copies.\<close>

definition parent_ends :: "pipeline_stage \<Rightarrow> int list" where
  "parent_ends st = input_end st @ output_ends st @
     (if fst (st_output_pipe st) \<noteq> - 1
      then [fst (st_output_pipe st), snd (st_output_pipe st)] else [])"

definition close_parent_fds :: "pipeline_stage list \<Rightarrow> (int \<times> int) list \<Rightarrow> kernel \<Rightarrow> kernel" where
  "close_parent_fds stages pipes k = close_all (pipe_fds pipes @ concat (map parent_ends stages)) k"

text \<open>All of \<open>run_pipeline\<close> before the wait: None if a pipe cannot be made.\<close>

definition launch_pipeline :: "search_env \<Rightarrow> pipeline_stage list \<Rightarrow> kernel \<Rightarrow>
    int list option \<times> kernel" where
  "launch_pipeline env stages k =
     (let (stages, k) = setup_stages stages k in
      case make_pipes (length stages - 1) [] k of
        (Inl pipes, k) \<Rightarrow> (None, abandon_pipes stages pipes k)
      | (Inr pipes, k) \<Rightarrow>
          let (stages, k) = start_copiers pipes stages k;
              (children, k) = fork_stages env stages pipes k
          in (Some children, close_parent_fds stages pipes k))"

section \<open>Waiting for the pipeline\<close>

fun join_args :: "cstring list \<Rightarrow> cstring \<Rightarrow> cstring" where
  "join_args [] cmdline = cmdline"
| "join_args [a] cmdline = strncat_fit 256 cmdline a"
| "join_args (a # as) cmdline = join_args as (strncat_fit 256 (strncat_fit 256 cmdline a) '' '')"

fun pipeline_cmdline :: "cstring list list \<Rightarrow> bool \<Rightarrow> cstring \<Rightarrow> cstring" where
  "pipeline_cmdline [] first cmdline = cmdline"
| "pipeline_cmdline (argv # argvs) first cmdline =
     pipeline_cmdline argvs False
       (join_args argv (if first then cmdline else strncat_fit 256 cmdline '' | ''))"

text \<open>The pids and names of the processes that exist.\<close>

definition live_children :: "int list \<Rightarrow> pipeline_stage list \<Rightarrow> (int \<times> cstring) list" where
  "live_children children stages =
     filter (\<lambda>(pid, name). pid \<noteq> - 1) (zip children (map (\<lambda>st. hd (st_argv st)) stages))"

record wait_env =
  give_result :: "cstring option"
  reclaim_result :: "cstring option"
  wait_events :: "wait_event list"

text \<open>None: the wait does not return.\<close>

definition finish_pipeline :: "wait_env \<Rightarrow> pipeline_stage list \<Rightarrow> int list \<Rightarrow> shell \<Rightarrow>
    fault + shell option" where
  "finish_pipeline we stages children sh =
     (if hd children = - 1 then Inr (Some sh)
      else
        let pgid = hd children; sh = give_terminal_to (give_result we) pgid sh in
        case wait_foreground_group children (wait_events we) of
          Overrun \<Rightarrow> Inl Array_Overflow
        | Blocked \<Rightarrow> Inr None
        | Returned stopped rest \<Rightarrow>
            let sh = reclaim_terminal (reclaim_result we) sh;
                sh = (if stopped = 2 then puts_out [CHR 0x0A] sh else sh);
                live = live_children children stages
            in Inr (Some
                 (if stopped = 1
                  then (register_stopped_job pgid (map fst live) (map snd live) (length live)
                          (Some (pipeline_cmdline (map st_argv stages) True [])) (fst sh), snd sh)
                  else sh)))"

text \<open>\<open>pipes[100]\<close> and \<open>children[100]\<close> bound the number of stages.\<close>

definition run_pipeline :: "search_env \<Rightarrow> wait_env \<Rightarrow> pipeline_stage list \<Rightarrow> kernel \<Rightarrow> shell \<Rightarrow>
    fault + (kernel \<times> shell) option" where
  "run_pipeline env we stages k sh =
     (if ARR < length stages then Inl Array_Overflow
      else
        let (started, k') = launch_pipeline env stages (k\<lparr>printed := []\<rparr>);
            sh = puts_out (printed k') sh
        in case started of
             None \<Rightarrow> Inr (Some (k', sh))
           | Some children \<Rightarrow>
               bind_fault (finish_pipeline we stages children sh)
                 (\<lambda>r. Inr (map_option (Pair k') r)))"

end
