(* ===== verification/Pipeline_Wiring.thy ===== *)
theory Pipeline_Wiring
  imports Pipeline
begin

text \<open>
  How the descriptors of a foreground pipeline are connected.  A ghost map names the purpose of every
  descriptor that the shell opens for it; the phases of \<open>run_pipeline\<close> keep it in step with the
  stage records.  From it follow that the processes cannot wait for each other in a circle, and that
  the shell closes what it opened.
\<close>

section \<open>Owners of descriptors\<close>

datatype owner = Inp nat | Outp nat nat | Link nat bool | Cop nat bool

text \<open>
  \<open>base\<close> is the table before the pipeline; every descriptor without an owner is as it was there.
\<close>

definition owns :: "(int \<rightharpoonup> file_obj) \<Rightarrow> fdtab \<Rightarrow> (int \<rightharpoonup> owner) \<Rightarrow> (owner \<Rightarrow> file_obj \<Rightarrow> bool) \<Rightarrow> bool" where
  "owns base t g P \<longleftrightarrow>
     (\<forall>fd. case g fd of
        None \<Rightarrow> map_of t fd = base fd
      | Some ow \<Rightarrow> 0 \<le> fd \<and> base fd = None \<and> (\<exists>obj. map_of t fd = Some obj \<and> P ow obj))"

lemma ownsD_None: "owns base t g P \<Longrightarrow> g fd = None \<Longrightarrow> map_of t fd = base fd"
  unfolding owns_def by (drule spec[of _ fd]) simp

lemma ownsD_Some:
  "owns base t g P \<Longrightarrow> g fd = Some ow \<Longrightarrow>
   0 \<le> fd \<and> base fd = None \<and> (\<exists>obj. map_of t fd = Some obj \<and> P ow obj)"
  unfolding owns_def by (drule spec[of _ fd]) simp

lemma owns_free:
  assumes "owns base t g P" "map_of t fd = None"
  shows "g fd = None" "base fd = None"
proof -
  show "g fd = None" using ownsD_Some[OF assms(1), of fd] assms(2) by (cases "g fd") auto
  then show "base fd = None" using ownsD_None[OF assms(1), of fd] assms(2) by simp
qed

lemma owns_mono: "owns base t g P \<Longrightarrow> (\<And>ow obj. P ow obj \<Longrightarrow> Q ow obj) \<Longrightarrow> owns base t g Q"
  unfolding owns_def by (fastforce split: option.splits)

lemma owns_cong: "map_of t = map_of t' \<Longrightarrow> owns base t g P = owns base t' g P"
  by (simp add: owns_def split: option.split)

lemma owns_add:
  assumes "owns base t g P" "map_of t fd = None" "0 \<le> fd" "map_of t' = (map_of t)(fd \<mapsto> obj)" "P ow obj"
  shows "owns base t' (g(fd \<mapsto> ow)) P"
  unfolding owns_def
proof
  fix x
  have "base fd = None" by (rule owns_free(2)[OF assms(1,2)])
  then show "case (g(fd \<mapsto> ow)) x of
      None \<Rightarrow> map_of t' x = base x
    | Some ow \<Rightarrow> 0 \<le> x \<and> base x = None \<and> (\<exists>obj. map_of t' x = Some obj \<and> P ow obj)"
    using ownsD_None[OF assms(1), of x] ownsD_Some[OF assms(1), of x] assms(3,4,5)
    by (cases "x = fd"; cases "g x") auto
qed

lemma owns_close:
  assumes "owns base t g P" "\<forall>fd \<in> set L. base fd = None"
  shows "owns base (close_fds L t) (g |` (- set L)) P"
  unfolding owns_def
proof
  fix x
  show "case (g |` (- set L)) x of
      None \<Rightarrow> map_of (close_fds L t) x = base x
    | Some ow \<Rightarrow> 0 \<le> x \<and> base x = None \<and> (\<exists>obj. map_of (close_fds L t) x = Some obj \<and> P ow obj)"
    using ownsD_None[OF assms(1), of x] ownsD_Some[OF assms(1), of x] assms(2)
    by (cases "x \<in> set L"; cases "g x") auto
qed

text \<open>Several descriptors at a time, the \<open>j\<close>-th with owner \<open>f j\<close>.\<close>

definition mark :: "int list \<Rightarrow> (nat \<Rightarrow> owner) \<Rightarrow> (int \<rightharpoonup> owner) \<Rightarrow> (int \<rightharpoonup> owner)" where
  "mark L f g = (\<lambda>fd. if fd \<in> set L then Some (f (length (takeWhile (\<lambda>x. x \<noteq> fd) L))) else g fd)"

lemma takeWhile_index:
  "distinct L \<Longrightarrow> j < length L \<Longrightarrow> length (takeWhile (\<lambda>x. x \<noteq> L ! j) L) = j"
proof (induction L arbitrary: j)
  case (Cons x L)
  then show ?case by (cases j) auto
qed simp

lemma mark_nth: "distinct L \<Longrightarrow> j < length L \<Longrightarrow> mark L f g (L ! j) = Some (f j)"
  by (simp add: mark_def takeWhile_index)

lemma mark_iff:
  assumes "distinct L" "inj f" "\<And>fd j. g fd \<noteq> Some (f j)"
  shows "mark L f g fd = Some (f j) \<longleftrightarrow> j < length L \<and> fd = L ! j"
proof
  assume l: "mark L f g fd = Some (f j)"
  then have "fd \<in> set L" using assms(3) by (auto simp: mark_def split: if_splits)
  then obtain i where i: "i < length L" "fd = L ! i" by (metis in_set_conv_nth)
  with l mark_nth[OF assms(1) i(1)] have "f i = f j" by simp
  with assms(2) i show "j < length L \<and> fd = L ! j" by (simp add: inj_eq)
qed (use assms(1) mark_nth in blast)

lemma mark_other: "(\<And>j. ow \<noteq> f j) \<Longrightarrow> (\<forall>fd \<in> set L. g fd = None) \<Longrightarrow>
    mark L f g fd = Some ow \<longleftrightarrow> g fd = Some ow"
  by (auto simp: mark_def)

lemma owns_mark:
  assumes "owns base (fds k) g P" "opened objs L k k'" "\<And>j. j < length L \<Longrightarrow> P (f j) (objs ! j)"
  shows "owns base (fds k') (mark L f g) P"
  unfolding owns_def
proof
  fix fd
  have d: "distinct L" and out: "map_of (fds k') |` (- set L) = map_of (fds k)"
    and at: "\<And>j. j < length L \<Longrightarrow> 0 \<le> L ! j \<and> map_of (fds k) (L ! j) = None \<and>
        map_of (fds k') (L ! j) = Some (objs ! j)"
    using assms(2) by (auto simp: opened_def)
  show "case mark L f g fd of
      None \<Rightarrow> map_of (fds k') fd = base fd
    | Some ow \<Rightarrow> 0 \<le> fd \<and> base fd = None \<and> (\<exists>obj. map_of (fds k') fd = Some obj \<and> P ow obj)"
  proof (cases "fd \<in> set L")
    case True
    then obtain j where j: "j < length L" "fd = L ! j" by (metis in_set_conv_nth)
    then have "base fd = None" using owns_free(2)[OF assms(1)] at[OF j(1)] by simp
    with j at[OF j(1)] assms(3)[OF j(1)] mark_nth[OF d j(1), of f g] show ?thesis by simp
  next
    case False
    with fun_cong[OF out, of fd] have "map_of (fds k') fd = map_of (fds k) fd"
      by (simp add: restrict_map_def)
    with False ownsD_None[OF assms(1), of fd] ownsD_Some[OF assms(1), of fd] show ?thesis
      by (cases "g fd") (simp_all add: mark_def)
  qed
qed

section \<open>Stage records and their descriptors\<close>

text \<open>
  The pipes are numbered: those for input files from \<open>p0\<close>, those between the stages from \<open>p1\<close>,
  those to the copiers from \<open>p2\<close> up to \<open>hi\<close>.
\<close>

fun owned_ok :: "pipeline_stage list \<Rightarrow> nat \<Rightarrow> nat \<Rightarrow> nat \<Rightarrow> nat \<Rightarrow> owner \<Rightarrow> file_obj \<Rightarrow> bool" where
  "owned_ok S0 p0 p1 p2 hi (Inp i) obj = (\<exists>n. obj = Pipe_read n \<and> p0 \<le> n \<and> n < p1)"
| "owned_ok S0 p0 p1 p2 hi (Outp i j) obj = (obj = out_obj (st_output_files (S0 ! i) ! j))"
| "owned_ok S0 p0 p1 p2 hi (Link j w) obj = (obj = (if w then Pipe_write (p1 + j) else Pipe_read (p1 + j)))"
| "owned_ok S0 p0 p1 p2 hi (Cop i w) obj =
     (\<exists>n. p2 \<le> n \<and> n < hi \<and> obj = (if w then Pipe_write n else Pipe_read n))"

fun early :: "pipeline_stage list \<Rightarrow> nat \<Rightarrow> nat \<Rightarrow> owner \<Rightarrow> file_obj \<Rightarrow> bool" where
  "early S0 p0 p1 (Inp i) obj = owned_ok S0 p0 p1 0 0 (Inp i) obj"
| "early S0 p0 p1 (Outp i j) obj = owned_ok S0 p0 p1 0 0 (Outp i j) obj"
| "early S0 p0 p1 (Link j w) obj = False"
| "early S0 p0 p1 (Cop i w) obj = False"

fun owner_index :: "owner \<Rightarrow> nat" where
  "owner_index (Inp i) = i"
| "owner_index (Outp i j) = i"
| "owner_index (Link j w) = j"
| "owner_index (Cop i w) = i"

lemma early_mono: "early S0 p0 p1 ow obj \<Longrightarrow> p1 \<le> p1' \<Longrightarrow> early S0 p0 p1' ow obj"
  by (cases ow) auto

lemma early_owned: "early S0 p0 p1 ow obj \<Longrightarrow> owned_ok S0 p0 p1 p2 hi ow obj"
  by (cases ow) auto

definition pick :: "bool \<Rightarrow> int \<times> int \<Rightarrow> int" where
  "pick w p = (if w then snd p else fst p)"

lemma pick_simps [simp]: "pick True p = snd p" "pick False p = fst p"
  by (simp_all add: pick_def)

definition stage_own :: "(int \<rightharpoonup> owner) \<Rightarrow> nat \<Rightarrow> pipeline_stage \<Rightarrow> bool" where
  "stage_own g i st \<longleftrightarrow>
     (\<forall>fd. g fd = Some (Inp i) \<longleftrightarrow> fd = st_input_fd st \<and> fd \<noteq> - 1) \<and>
     (\<not> st_setup_failed st \<longrightarrow>
        (st_output_files st \<noteq> [] \<longrightarrow> length (st_output_fds st) = length (st_output_files st)) \<and>
        (st_input_files st \<noteq> [] \<longrightarrow> st_input_fd st \<noteq> - 1) \<and>
        (\<forall>fd j. g fd = Some (Outp i j) \<longleftrightarrow> j < length (st_output_files st) \<and> fd = st_output_fds st ! j)) \<and>
     (\<forall>fd w. g fd = Some (Cop i w) \<longleftrightarrow>
        fst (st_output_pipe st) \<noteq> - 1 \<and> fd = pick w (st_output_pipe st)) \<and>
     (fst (st_output_pipe st) \<noteq> - 1 \<longrightarrow> \<not> st_setup_failed st \<and> 1 < length (st_output_files st)) \<and>
     (st_input_files st = [] \<longrightarrow> st_input_fd st = - 1)"

text \<open>The other fields of a stage do not change.\<close>

definition same_command :: "pipeline_stage \<Rightarrow> pipeline_stage \<Rightarrow> bool" where
  "same_command a b \<longleftrightarrow> st_argv a = st_argv b \<and> st_input_files a = st_input_files b \<and>
     st_output_files a = st_output_files b"

definition pristine :: "pipeline_stage \<Rightarrow> bool" where
  "pristine st \<longleftrightarrow> st_output_pipe st = (- 1, - 1) \<and> \<not> st_setup_failed st"

definition writer_ok :: "(int \<rightharpoonup> file_obj) \<Rightarrow> nat \<Rightarrow> nat \<Rightarrow> process \<Rightarrow> bool" where
  "writer_ok base p0 p1 p \<longleftrightarrow> (\<exists>ins w. p_prog p = Copy_files ins w) \<and>
     (\<forall>n. holds (p_fds p) n \<longrightarrow> Some (Pipe_write n) \<in> range base \<or> p0 \<le> n \<and> n < p1)"

lemma early_holds:
  assumes "owns base t g (early S0 p0 p1)" "holds t n"
  shows "Some (Pipe_write n) \<in> range base"
proof -
  from assms(2) obtain fd where fd: "map_of t fd = Some (Pipe_write n)" by (auto simp: holds_def)
  have "g fd = None"
  proof (cases "g fd")
    case (Some ow)
    with ownsD_Some[OF assms(1) Some] fd have "early S0 p0 p1 ow (Pipe_write n)" by simp
    then show ?thesis by (cases ow) (auto simp: out_obj_def)
  qed simp
  with ownsD_None[OF assms(1), of fd] fd show ?thesis by (metis rangeI)
qed

text \<open>The first half of \<open>setup_stage\<close>.\<close>

lemma setup_input_own:
  assumes own: "owns base (fds k) g (early S0 p0 (next_pipe k))" and p0: "p0 \<le> next_pipe k"
    and e: "setup_input files k = (fd, pid, k')"
  shows "\<exists>ps. owns base (fds k') (if fd = - 1 then g else g(fd \<mapsto> Inp i)) (early S0 p0 (next_pipe k')) \<and>
    (fd \<noteq> - 1 \<longrightarrow> g fd = None) \<and>
    procs k' = procs k @ ps \<and> list_all (writer_ok base p0 (next_pipe k')) ps \<and>
    next_pipe k \<le> next_pipe k'"
proof (cases "fd = - 1")
  case True
  with setup_input_effect[OF e] have k': "map_of (fds k') = map_of (fds k)" "procs k' = procs k"
    "next_pipe k \<le> next_pipe k'" by auto
  have "owns base (fds k') g (early S0 p0 (next_pipe k'))"
    using owns_mono[OF own early_mono[OF _ k'(3)]] owns_cong[OF k'(1)] by simp
  with True k' show ?thesis by (intro exI[of _ "[]"]) simp
next
  case False
  with setup_input_effect[OF e] obtain p where k': "0 \<le> fd" "map_of (fds k) fd = None"
    "map_of (fds k') = (map_of (fds k))(fd \<mapsto> Pipe_read (next_pipe k))"
    "procs k' = procs k @ [p]" "writer_of k p" "next_pipe k' = Suc (next_pipe k)" by auto
  have le: "next_pipe k \<le> next_pipe k'" by (simp add: k'(6))
  have own': "owns base (fds k) g (early S0 p0 (next_pipe k'))"
    by (rule owns_mono[OF own early_mono[OF _ le]])
  have "owns base (fds k') (g(fd \<mapsto> Inp i)) (early S0 p0 (next_pipe k'))"
    by (rule owns_add[OF own' k'(2,1,3)]) (simp add: k'(6) p0)
  moreover have "writer_ok base p0 (next_pipe k') p"
    using k'(5,6) p0 early_holds[OF own] by (auto simp: writer_of_def writer_ok_def)
  ultimately show ?thesis using False k' owns_free(1)[OF own k'(2)] by (intro exI[of _ "[p]"]) simp
qed


lemma setup_stage_own:
  assumes own: "owns base (fds k) g (early S0 p0 (next_pipe k))" and p0: "p0 \<le> next_pipe k"
    and idx0: "\<forall>fd ow. g fd = Some ow \<longrightarrow> owner_index ow < i"
    and st: "pristine (S0 ! i)" and e: "setup_stage (S0 ! i) k = (st', k')"
  shows "\<exists>g' ps. owns base (fds k') g' (early S0 p0 (next_pipe k')) \<and>
    (\<forall>fd ow. g' fd = Some ow \<longrightarrow> owner_index ow < Suc i) \<and>
    (\<forall>fd ow. owner_index ow < i \<longrightarrow> (g' fd = Some ow \<longleftrightarrow> g fd = Some ow)) \<and>
    stage_own g' i st' \<and> same_command st' (S0 ! i) \<and> st_output_pipe st' = (- 1, - 1) \<and>
    procs k' = procs k @ ps \<and> list_all (writer_ok base p0 (next_pipe k')) ps \<and>
    next_pipe k \<le> next_pipe k'"
proof -
  let ?st = "S0 ! i"
  have idx: "owner_index ow < i" if "g fd = Some ow" for fd ow using idx0 that by blast
  obtain st1 k1 where s1: "stage_input ?st k = (st1, k1)" by fastforce
  then have e1: "stage_outputs st1 k1 = (st', k')" using e by (simp add: setup_stage_def)
  define fd where "fd = st_input_fd st1"
  have f1: "st_output_pipe st1 = (- 1, - 1)" "same_command st1 ?st"
    "st_setup_failed st1 \<longleftrightarrow> st_input_files ?st \<noteq> [] \<and> fd = - 1"
    "st_input_files ?st = [] \<longrightarrow> fd = - 1 \<and> k1 = k"
    "st_input_files ?st \<noteq> [] \<longrightarrow> (\<exists>pid. setup_input (st_input_files ?st) k = (fd, pid, k1))"
    using s1 st by (auto simp: stage_input_def Let_def pristine_def same_command_def fd_def split: prod.splits if_splits)
  then have files: "st_output_files st1 = st_output_files ?st" "st_input_files st1 = st_input_files ?st"
    by (simp_all add: same_command_def)
  let ?g = "if fd = - 1 then g else g(fd \<mapsto> Inp i)"
  obtain ps where ps: "owns base (fds k1) ?g (early S0 p0 (next_pipe k1))" "fd \<noteq> - 1 \<longrightarrow> g fd = None"
    "procs k1 = procs k @ ps" "list_all (writer_ok base p0 (next_pipe k1)) ps" "next_pipe k \<le> next_pipe k1"
  proof (cases "st_input_files ?st \<noteq> []")
    case True
    with f1(5) obtain pid where "setup_input (st_input_files ?st) k = (fd, pid, k1)" by blast
    from setup_input_own[OF own p0 this, of i] that show ?thesis by blast
  next
    case False
    with f1(4) own that[of "[]"] show ?thesis by simp
  qed
  have inp: "?g x = Some (Inp i) \<longleftrightarrow> x = fd \<and> x \<noteq> - 1" for x
    using idx[of x "Inp i"] by auto
  have low: "?g x = Some ow \<longleftrightarrow> g x = Some ow" if "owner_index ow < i" for x ow
    using that ps(2) by auto
  have idx1: "owner_index ow < Suc i" if "?g x = Some ow" for x ow
    using that idx[of x ow] by (auto split: if_splits)
  have noout: "?g x \<noteq> Some (Outp i j)" for x j using idx[of x "Outp i j"] by auto
  have nocop: "h x \<noteq> Some (Cop i w)" if "owns base t h (early S0 p0 n)" for t h n x w
    using ownsD_Some[OF that, of x "Cop i w"] by auto
  note shape = stage_own_def fd_def[symmetric] f1(1,3) files
  show ?thesis
  proof (cases "st_output_files ?st \<noteq> []")
    case False
    then have st': "st' = st1" "k' = k1" using e1 files by (simp_all add: stage_outputs_def)
    have "stage_own ?g i st'"
      using False inp noout nocop[OF ps(1)] f1(4) by (simp add: st'(1) shape)
    moreover have "same_command st' ?st" "st_output_pipe st' = (- 1, - 1)" using f1 by (simp_all add: st')
    ultimately show ?thesis
      unfolding st'(2) by (intro exI[of _ ?g] exI[of _ ps] conjI allI impI) (rule ps low idx1 | assumption)+
  next
    case True
    obtain r k2 where o: "open_outputs (st_output_files ?st) [] k1 = (r, k2)" by fastforce
    show ?thesis
    proof (cases r)
      case None
      have k2: "map_of (fds k2) = map_of (fds k1)" "procs k2 = procs k1" "next_pipe k2 = next_pipe k1"
        using open_outputs_effect[OF o] None by simp_all
      have st': "st' = st1\<lparr>st_setup_failed := True\<rparr>" "k' = k2"
        using e1 True o None files by (simp_all add: stage_outputs_def open_output_files_def)
      have "owns base (fds k2) ?g (early S0 p0 (next_pipe k2))" using ps(1) k2 owns_cong[OF k2(1)] by simp
      moreover have "stage_own ?g i st'"
        using inp nocop[OF ps(1)] f1(4) by (simp add: st'(1) shape)
      moreover have "same_command st' ?st" "st_output_pipe st' = (- 1, - 1)"
        using f1 by (simp_all add: st' same_command_def)
      moreover have "procs k2 = procs k @ ps" "list_all (writer_ok base p0 (next_pipe k2)) ps"
        "next_pipe k \<le> next_pipe k2" using ps(3-5) k2 by simp_all
      ultimately show ?thesis
        unfolding st'(2) by (intro exI[of _ ?g] exI[of _ ps] conjI allI impI) (rule low idx1 | assumption)+
    next
      case (Some outs)
      have op: "opened (map out_obj (st_output_files ?st)) outs k1 k2"
        using open_outputs_effect[OF o] Some by simp
      have st': "st' = st1\<lparr>st_output_fds := outs\<rparr>" "k' = k2"
        using e1 True o Some files by (simp_all add: stage_outputs_def open_output_files_def)
      have k2: "procs k2 = procs k1" "next_pipe k2 = next_pipe k1" and d: "distinct outs"
        and len: "length outs = length (st_output_files ?st)" using op by (simp_all add: opened_def)
      let ?g2 = "mark outs (Outp i) ?g"
      have free: "\<forall>x \<in> set outs. ?g x = None"
        using opened_member[OF op] owns_free(1)[OF ps(1)] by blast
      have own2: "owns base (fds k2) ?g2 (early S0 p0 (next_pipe k2))"
        unfolding k2(2) using ps(1) op by (rule owns_mark) (simp add: len)
      have mi: "?g2 x = Some (Outp i j) \<longleftrightarrow> j < length outs \<and> x = outs ! j" for x j
        by (rule mark_iff[OF d _ noout]) (simp add: inj_def)
      have mo: "?g2 x = Some ow \<longleftrightarrow> ?g x = Some ow" if "\<And>j. ow \<noteq> Outp i j" for x ow
        using that free by (rule mark_other)
      have "stage_own ?g2 i st'"
        using mi mo[of "Inp i"] inp nocop[OF own2] f1(4) len by (simp add: st'(1) shape)
      moreover have "same_command st' ?st" "st_output_pipe st' = (- 1, - 1)"
        using f1 by (simp_all add: st' same_command_def)
      moreover have idx2: "owner_index ow < Suc i" if "?g2 x = Some ow" for x ow
        using that idx1[of x ow] by (cases "x \<in> set outs") (auto simp: mark_def)
      moreover have low2: "?g2 x = Some ow \<longleftrightarrow> g x = Some ow" if "owner_index ow < i" for x ow
      proof -
        have "ow \<noteq> Outp i j" for j using that by auto
        from mo[OF this, of x] low[OF that, of x] show ?thesis by (rule trans)
      qed
      moreover have "procs k2 = procs k @ ps" "list_all (writer_ok base p0 (next_pipe k2)) ps"
        "next_pipe k \<le> next_pipe k2" using ps(3-5) k2 by simp_all
      ultimately show ?thesis using own2
        unfolding st'(2) by (intro exI[of _ ?g2] exI[of _ ps] conjI allI impI) (rule low2 idx2 | assumption)+
    qed
  qed
qed


lemma stage_own_cong:
  assumes "\<And>fd. g' fd = Some (Inp i) \<longleftrightarrow> g fd = Some (Inp i)"
    and "\<And>fd j. g' fd = Some (Outp i j) \<longleftrightarrow> g fd = Some (Outp i j)"
    and "\<And>fd w. g' fd = Some (Cop i w) \<longleftrightarrow> g fd = Some (Cop i w)"
  shows "stage_own g' i st = stage_own g i st"
  unfolding stage_own_def assms ..

text \<open>What the stage records say after the first loop.\<close>

definition all_own :: "(int \<rightharpoonup> owner) \<Rightarrow> pipeline_stage list \<Rightarrow> pipeline_stage list \<Rightarrow> bool" where
  "all_own g S0 S \<longleftrightarrow> length S = length S0 \<and>
     (\<forall>i < length S. stage_own g i (S ! i) \<and> same_command (S ! i) (S0 ! i))"

lemma setup_stages_own:
  assumes "owns base (fds k) g (early S0 p0 (next_pipe k))" "p0 \<le> next_pipe k"
    and "\<forall>fd ow. g fd = Some ow \<longrightarrow> owner_index ow < i"
    and "i \<le> length S0" "list_all pristine S0" "setup_stages (drop i S0) k = (S, k')"
  shows "\<exists>g' ps. owns base (fds k') g' (early S0 p0 (next_pipe k')) \<and>
    (\<forall>fd ow. owner_index ow < i \<longrightarrow> (g' fd = Some ow \<longleftrightarrow> g fd = Some ow)) \<and>
    (\<forall>fd ow. g' fd = Some ow \<longrightarrow> owner_index ow < length S0) \<and>
    length S = length S0 - i \<and>
    (\<forall>j < length S. stage_own g' (i + j) (S ! j) \<and> same_command (S ! j) (S0 ! (i + j)) \<and>
       st_output_pipe (S ! j) = (- 1, - 1)) \<and>
    procs k' = procs k @ ps \<and> list_all (writer_ok base p0 (next_pipe k')) ps \<and>
    next_pipe k \<le> next_pipe k'"
  using assms
proof (induction "length S0 - i" arbitrary: i g k S)
  case 0
  then have "S = []" "k' = k" "i = length S0" by simp_all
  with 0 show ?case by (intro exI[of _ g] exI[of _ "[]"]) simp
next
  case (Suc m)
  then have i: "i < length S0" by simp
  obtain st1 k1 where s1: "setup_stage (S0 ! i) k = (st1, k1)" by fastforce
  obtain S1 where s2: "setup_stages (drop (Suc i) S0) k1 = (S1, k')" "S = st1 # S1"
    using Suc.prems(6) s1 unfolding Cons_nth_drop_Suc[OF i, symmetric]
    by (auto simp: Let_def split: prod.splits)
  have "pristine (S0 ! i)" using Suc.prems(5) i by (simp add: list_all_length)
  from setup_stage_own[OF Suc.prems(1,2,3) this s1] obtain g1 ps1 where g1:
    "owns base (fds k1) g1 (early S0 p0 (next_pipe k1))"
    "\<forall>fd ow. g1 fd = Some ow \<longrightarrow> owner_index ow < Suc i"
    "\<And>fd ow. owner_index ow < i \<Longrightarrow> g1 fd = Some ow \<longleftrightarrow> g fd = Some ow"
    "stage_own g1 i st1" "same_command st1 (S0 ! i)" "st_output_pipe st1 = (- 1, - 1)"
    "procs k1 = procs k @ ps1" "list_all (writer_ok base p0 (next_pipe k1)) ps1"
    "next_pipe k \<le> next_pipe k1" by blast
  have "m = length S0 - Suc i" "p0 \<le> next_pipe k1" "Suc i \<le> length S0" using Suc.hyps(2) Suc.prems(2) g1(9) i by simp_all
  from Suc.hyps(1)[OF this(1) g1(1) this(2) g1(2) this(3) Suc.prems(5) s2(1)] obtain g' ps where g':
    "owns base (fds k') g' (early S0 p0 (next_pipe k'))"
    "\<And>fd ow. owner_index ow < Suc i \<Longrightarrow> g' fd = Some ow \<longleftrightarrow> g1 fd = Some ow"
    "\<And>fd ow. g' fd = Some ow \<Longrightarrow> owner_index ow < length S0"
    "length S1 = length S0 - Suc i"
    "\<And>j. j < length S1 \<Longrightarrow> stage_own g' (Suc i + j) (S1 ! j) \<and> same_command (S1 ! j) (S0 ! (Suc i + j)) \<and>
       st_output_pipe (S1 ! j) = (- 1, - 1)"
    "procs k' = procs k1 @ ps" "list_all (writer_ok base p0 (next_pipe k')) ps" "next_pipe k1 \<le> next_pipe k'"
    by blast
  have "stage_own g' i st1" using g1(4) g'(2) by (subst stage_own_cong[of g' i g1]) auto
  then have "stage_own g' (i + j) (S ! j) \<and> same_command (S ! j) (S0 ! (i + j)) \<and>
       st_output_pipe (S ! j) = (- 1, - 1)" if "j < length S" for j
    using that g'(5)[of "j - 1"] g1(5,6) by (cases j) (simp_all add: s2(2))
  moreover have "list_all (writer_ok base p0 (next_pipe k')) ps1"
    using g1(8) g'(8) by (fastforce simp: list_all_iff writer_ok_def)
  moreover have "g' fd = Some ow \<longleftrightarrow> g fd = Some ow" if "owner_index ow < i" for fd ow
    using g'(2)[of ow fd] g1(3)[OF that, of fd] that by simp
  moreover have "procs k' = procs k @ ps1 @ ps" "length S = length S0 - i" "next_pipe k \<le> next_pipe k'"
    using g1(7,9) g'(4,6,8) i by (simp_all add: s2(2))
  ultimately show ?case
    using g'(1,3,7) by (intro exI[of _ g'] exI[of _ "ps1 @ ps"]) simp
qed


section \<open>The pipes between the stages\<close>

definition link_own :: "(int \<rightharpoonup> owner) \<Rightarrow> (int \<times> int) list \<Rightarrow> bool" where
  "link_own g pipes \<longleftrightarrow>
     (\<forall>fd j w. g fd = Some (Link j w) \<longleftrightarrow> j < length pipes \<and> fd = pick w (pipes ! j))"

fun is_link :: "owner \<Rightarrow> bool" where
  "is_link (Link j w) = True"
| "is_link _ = False"

definition both :: "'a + 'a \<Rightarrow> 'a" where
  "both r = (case r of Inl a \<Rightarrow> a | Inr a \<Rightarrow> a)"

lemma k_pipe_own:
  assumes own: "owns base (fds k) g P" and e: "k_pipe k = (Some (r, w), k1)"
    and P: "P a (Pipe_read (next_pipe k))" "P b (Pipe_write (next_pipe k))"
  shows "owns base (fds k1) (g(r \<mapsto> a, w \<mapsto> b)) P" "g r = None" "g w = None"
proof -
  note f = k_pipe_Some[OF e]
  let ?t = "(r, Pipe_read (next_pipe k)) # fds k"
  have "owns base ?t (g(r \<mapsto> a)) P" by (rule owns_add[OF own f(2,5) _ P(1)]) simp
  moreover have "map_of ?t w = None" using f(3,4) by simp
  moreover have "map_of (fds k1) = (map_of ?t)(w \<mapsto> Pipe_write (next_pipe k))" by (simp add: f(1))
  ultimately show "owns base (fds k1) (g(r \<mapsto> a, w \<mapsto> b)) P"
    using f(6) P(2)
    by (intro owns_add[where t = ?t and fd = w and ow = b and obj = "Pipe_write (next_pipe k)" and P = P])
  show "g r = None" "g w = None" using owns_free(1)[OF own] f(2,3) by blast+
qed

lemma link_own_snoc:
  assumes "link_own g pipes" "g r = None" "g w = None" "r \<noteq> w"
  shows "link_own (g(r \<mapsto> Link (length pipes) False, w \<mapsto> Link (length pipes) True)) (pipes @ [(r, w)])"
  unfolding link_own_def
proof (intro allI)
  fix fd j b
  have old: "g fd = Some (Link j b) \<longleftrightarrow> j < length pipes \<and> fd = pick b (pipes ! j)"
    using assms(1) unfolding link_own_def by blast
  consider "j < length pipes" | "j = length pipes" | "length pipes < j" by linarith
  then show "(g(r \<mapsto> Link (length pipes) False, w \<mapsto> Link (length pipes) True)) fd = Some (Link j b) \<longleftrightarrow>
      j < length (pipes @ [(r, w)]) \<and> fd = pick b ((pipes @ [(r, w)]) ! j)"
    by cases (use old assms(2-4) in \<open>auto simp: nth_append pick_def\<close>)
qed

lemma make_pipes_own:
  assumes "owns base (fds k) g (owned_ok S0 p0 p1 p2 hi)" "next_pipe k = p1 + length pipes"
    and "link_own g pipes" "make_pipes n pipes k = (r, k')"
  shows "\<exists>g'. owns base (fds k') g' (owned_ok S0 p0 p1 p2 hi) \<and> link_own g' (both r) \<and>
    next_pipe k' = p1 + length (both r) \<and> (\<forall>ps. r = Inr ps \<longrightarrow> length ps = length pipes + n) \<and>
    (\<forall>fd ow. \<not> is_link ow \<longrightarrow> (g' fd = Some ow \<longleftrightarrow> g fd = Some ow)) \<and> procs k' = procs k"
  using assms
proof (induction n arbitrary: pipes k g)
  case 0
  then show ?case by (intro exI[of _ g]) (auto simp: both_def)
next
  case (Suc n)
  obtain p k1 where e: "k_pipe k = (p, k1)" by fastforce
  show ?case
  proof (cases p)
    case None
    note f = k_pipe_None[OF e[unfolded None]]
    have "r = Inl pipes" "k' = k1" using Suc.prems(4) e None by auto
    with Suc.prems f show ?thesis by (intro exI[of _ g]) (simp add: both_def)
  next
    case (Some rw)
    obtain a b where rw: "rw = (a, b)" by fastforce
    note e' = e[unfolded Some rw]
    let ?g = "g(a \<mapsto> Link (length pipes) False, b \<mapsto> Link (length pipes) True)"
    have o: "owns base (fds k1) ?g (owned_ok S0 p0 p1 p2 hi)" "g a = None" "g b = None"
      using k_pipe_own[OF Suc.prems(1) e', of "Link (length pipes) False" "Link (length pipes) True"]
      by (simp_all add: Suc.prems(2))
    have l: "link_own ?g (pipes @ [(a, b)])"
      by (rule link_own_snoc[OF Suc.prems(3) o(2,3) k_pipe_Some(4)[OF e']])
    have "next_pipe k1 = p1 + length (pipes @ [(a, b)])" "make_pipes n (pipes @ [(a, b)]) k1 = (r, k')"
      using k_pipe_Some(8)[OF e'] Suc.prems(2,4) e' by simp_all
    from Suc.IH[OF o(1) this(1) l this(2)] obtain g' where g':
      "owns base (fds k') g' (owned_ok S0 p0 p1 p2 hi)" "link_own g' (both r)"
      "next_pipe k' = p1 + length (both r)" "\<forall>ps. r = Inr ps \<longrightarrow> length ps = length (pipes @ [(a, b)]) + n"
      "\<And>fd ow. \<not> is_link ow \<Longrightarrow> g' fd = Some ow \<longleftrightarrow> ?g fd = Some ow" "procs k' = procs k1" by blast
    have "g' fd = Some ow \<longleftrightarrow> g fd = Some ow" if "\<not> is_link ow" for fd ow
      using g'(5)[OF that, of fd] o(2,3) that by auto
    with g' k_pipe_Some(7)[OF e'] show ?thesis by (intro exI[of _ g']) simp
  qed
qed

section \<open>The output copiers\<close>

text \<open>What one process can read from and which pipes it keeps open for writing.\<close>

datatype tag = Writer | Copier nat | Stage_proc nat

definition base_write :: "(int \<rightharpoonup> file_obj) \<Rightarrow> nat \<Rightarrow> bool" where
  "base_write base n \<longleftrightarrow> Some (Pipe_write n) \<in> range base"

fun good :: "(int \<rightharpoonup> file_obj) \<Rightarrow> nat \<Rightarrow> nat \<Rightarrow> nat \<Rightarrow> tag \<Rightarrow> process \<Rightarrow> bool" where
  "good base p0 p1 p2 Writer p = writer_ok base p0 p1 p"
| "good base p0 p1 p2 (Copier c) p =
     (p2 \<le> c \<and>
      (\<exists>r L. p_prog p = Copy_to_all r L \<and> (\<forall>n. map_of (p_fds p) r = Some (Pipe_read n) \<longrightarrow> n = c)) \<and>
      (\<forall>n. holds (p_fds p) n \<longrightarrow> base_write base n \<or> p2 \<le> n \<and> n < c))"
| "good base p0 p1 p2 (Stage_proc i) p =
     ((\<exists>m. p_prog p = Exit_now m) \<or> (\<exists>f. p_prog p = Fault f) \<or>
      (\<exists>path argv. p_prog p = Exec path argv) \<and>
      (\<forall>n. map_of (p_fds p) 0 = Some (Pipe_read n) \<longrightarrow>
         p0 \<le> n \<and> n < p1 \<or> 0 < i \<and> n = p1 + (i - 1) \<and> n < p2 \<or> base 0 = Some (Pipe_read n)) \<and>
      (\<forall>n. holds (p_fds p) n \<longrightarrow> base_write base n \<or> n = p1 + i \<and> n < p2 \<or> p2 \<le> n))"

definition copier_ready :: "pipeline_stage \<Rightarrow> bool" where
  "copier_ready st \<longleftrightarrow>
     (\<not> st_setup_failed st \<and> 1 < length (st_output_files st) \<longrightarrow> fst (st_output_pipe st) \<noteq> - 1)"

definition bounded :: "(int \<rightharpoonup> owner) \<Rightarrow> nat \<Rightarrow> bool" where
  "bounded g n \<longleftrightarrow> (\<forall>fd ow. g fd = Some ow \<longrightarrow> \<not> is_link ow \<longrightarrow> owner_index ow < n)"

text \<open>The invariant of the loop that starts the copiers, at stage \<open>i\<close>.\<close>

definition copier_inv :: "(int \<rightharpoonup> file_obj) \<Rightarrow> pipeline_stage list \<Rightarrow> nat \<Rightarrow> nat \<Rightarrow> nat \<Rightarrow> (int \<times> int) list \<Rightarrow>
    nat \<Rightarrow> pipeline_stage list \<Rightarrow> kernel \<Rightarrow> (int \<rightharpoonup> owner) \<Rightarrow> tag list \<Rightarrow> bool" where
  "copier_inv base S0 p0 p1 p2 pipes i S k g tags \<longleftrightarrow>
     owns base (fds k) g (owned_ok S0 p0 p1 p2 (next_pipe k)) \<and> link_own g pipes \<and> all_own g S0 S \<and>
     p2 \<le> next_pipe k \<and> bounded g (length S) \<and>
     (\<forall>j < length S. if j < i then copier_ready (S ! j) else st_output_pipe (S ! j) = (- 1, - 1)) \<and>
     list_all2 (good base p0 p1 p2) tags (procs k)"


lemma pipe_fds_own:
  assumes "link_own g pipes"
  shows "fd \<in> set (pipe_fds pipes) \<longleftrightarrow> (\<exists>j w. g fd = Some (Link j w))"
proof -
  have "fd \<in> set (pipe_fds pipes) \<longleftrightarrow> (\<exists>j < length pipes. \<exists>w. fd = pick w (pipes ! j))"
    by (auto simp: pipe_fds_def in_set_conv_nth) (metis pick_simps nth_mem fst_conv snd_conv)+
  also have "\<dots> \<longleftrightarrow> (\<exists>j w. g fd = Some (Link j w))"
    using assms unfolding link_own_def by blast
  finally show ?thesis .
qed

lemma stage_own_outputs:
  assumes "stage_own g i st" "\<not> st_setup_failed st" "st_output_files st \<noteq> []"
  shows "fd \<in> set (st_output_fds st) \<longleftrightarrow> (\<exists>j. g fd = Some (Outp i j))"
proof -
  have "length (st_output_fds st) = length (st_output_files st)"
    "\<And>j. g fd = Some (Outp i j) \<longleftrightarrow> j < length (st_output_files st) \<and> fd = st_output_fds st ! j"
    using assms unfolding stage_own_def by blast+
  then show ?thesis by (auto simp: in_set_conv_nth)
qed

lemma all_own_update:
  assumes "all_own g S0 S" "i < length S" "stage_own g' i st" "same_command st (S ! i)"
    and "\<And>fd ow. (\<forall>j. ow \<noteq> Outp i j) \<Longrightarrow> (\<forall>w. ow \<noteq> Cop i w) \<Longrightarrow> g' fd = Some ow \<longleftrightarrow> g fd = Some ow"
  shows "all_own g' S0 (S[i := st])"
proof -
  have "stage_own g' j (S[i := st] ! j) \<and> same_command (S[i := st] ! j) (S0 ! j)" if "j < length S" for j
  proof (cases "j = i")
    case True
    with assms that show ?thesis by (auto simp: all_own_def same_command_def)
  next
    case False
    then have "stage_own g' j (S ! j) = stage_own g j (S ! j)"
      by (intro stage_own_cong assms(5)) auto
    with False that assms(1) show ?thesis by (simp add: all_own_def)
  qed
  with assms(1) show ?thesis by (simp add: all_own_def)
qed

lemma link_own_cong:
  "(\<And>fd j w. g' fd = Some (Link j w) \<longleftrightarrow> g fd = Some (Link j w)) \<Longrightarrow> link_own g' pipes = link_own g pipes"
  unfolding link_own_def by simp

lemma owned_ok_mono: "owned_ok S0 p0 p1 p2 hi ow obj \<Longrightarrow> hi \<le> hi' \<Longrightarrow> owned_ok S0 p0 p1 p2 hi' ow obj"
  by (cases ow) auto

text \<open>One more stage has been looked at.\<close>

lemma progress_update:
  assumes "\<forall>j < length S. if j < i then copier_ready (S ! j) else st_output_pipe (S ! j) = (- 1, - 1)"
    and "copier_ready st"
  shows "\<forall>j < length (S[i := st]).
    if j < Suc i then copier_ready (S[i := st] ! j) else st_output_pipe (S[i := st] ! j) = (- 1, - 1)"
proof (intro allI impI)
  fix j assume j: "j < length (S[i := st])"
  show "if j < Suc i then copier_ready (S[i := st] ! j) else st_output_pipe (S[i := st] ! j) = (- 1, - 1)"
  proof (cases "j = i")
    case True
    with j assms(2) show ?thesis by simp
  next
    case False
    then have "j < Suc i \<longleftrightarrow> j < i" by auto
    with False j assms(1) show ?thesis by simp
  qed
qed

text \<open>A copier that could not be started: its stage is marked and its files are closed.\<close>

lemma copier_fails:
  assumes inv: "copier_inv base S0 p0 p1 p2 pipes i S k g tags" and i: "i < length S"
    and out: "1 < length (st_output_files (S ! i))" "\<not> st_setup_failed (S ! i)"
    and k1: "map_of (fds k1) = map_of (fds k)" "procs k1 = procs k" "next_pipe k \<le> next_pipe k1"
    and st: "st_output_pipe st = (- 1, - 1)" "st_setup_failed st" "same_command st (S ! i)"
      "st_input_fd st = st_input_fd (S ! i)"
    and L: "L = st_output_fds (S ! i)"
  shows "copier_inv base S0 p0 p1 p2 pipes (Suc i) (S[i := st]) (close_all L k1) (g |` (- set L)) tags"
proof -
  let ?g = "g |` (- set L)"
  have own: "owns base (fds k) g (owned_ok S0 p0 p1 p2 (next_pipe k))" and lk: "link_own g pipes"
    and all: "all_own g S0 S" using inv by (auto simp: copier_inv_def)
  have si: "stage_own g i (S ! i)" using all i by (simp add: all_own_def)
  have pipe: "st_output_pipe (S ! i) = (- 1, - 1)" using inv i by (auto simp: copier_inv_def)
  have inL: "fd \<in> set L \<longleftrightarrow> (\<exists>j. g fd = Some (Outp i j))" for fd
    using stage_own_outputs[OF si out(2)] out(1) L by fastforce
  have other: "?g fd = Some ow \<longleftrightarrow> g fd = Some ow" if "\<forall>j. ow \<noteq> Outp i j" for fd ow
    using inL[of fd] that by (auto simp: restrict_map_def)
  have "\<forall>fd \<in> set L. base fd = None"
  proof
    fix fd assume "fd \<in> set L"
    with inL obtain j where "g fd = Some (Outp i j)" by blast
    from ownsD_Some[OF own this] show "base fd = None" by blast
  qed
  then have "owns base (close_fds L (fds k1)) ?g (owned_ok S0 p0 p1 p2 (next_pipe k1))"
    using own owned_ok_mono[OF _ k1(3)] owns_cong[OF k1(1)]
    by (intro owns_close) (auto elim: owns_mono)
  moreover have "stage_own ?g i st"
    using si st pipe other[of "Inp i"] other[of "Cop i w" for w]
    by (auto simp: stage_own_def same_command_def)
  then have "all_own ?g S0 (S[i := st])"
    using other by (intro all_own_update[OF all i _ st(3)]) auto
  moreover have "link_own ?g pipes" using lk other by (subst link_own_cong[of ?g g]) auto
  moreover have "bounded ?g (length S)"
    using inv by (auto simp: copier_inv_def bounded_def restrict_map_def split: if_splits)
  moreover have "copier_ready st" using st(2) by (simp add: copier_ready_def)
  then have "\<forall>j < length (S[i := st]). if j < Suc i then copier_ready (S[i := st] ! j)
      else st_output_pipe (S[i := st] ! j) = (- 1, - 1)"
    using inv by (intro progress_update) (simp add: copier_inv_def)
  ultimately show ?thesis using inv k1 unfolding copier_inv_def close_all_def by simp
qed


lemma owned_write:
  assumes "owns base t g (owned_ok S0 p0 p1 p2 hi)" "map_of t fd = Some (Pipe_write n)"
  obtains "g fd = None" "base fd = Some (Pipe_write n)"
    | j where "g fd = Some (Link j True)" "n = p1 + j"
    | i where "g fd = Some (Cop i True)" "p2 \<le> n" "n < hi"
proof (cases "g fd")
  case None
  with assms ownsD_None[OF assms(1), of fd] that(1) show ?thesis by simp
next
  case (Some ow)
  with ownsD_Some[OF assms(1) Some] assms(2) have "owned_ok S0 p0 p1 p2 hi ow (Pipe_write n)" by simp
  with Some that(2,3) show ?thesis by (cases ow) (auto simp: out_obj_def split: if_splits)
qed

lemma copier_starts:
  assumes inv: "copier_inv base S0 p0 p1 p2 pipes i S k g tags" and i: "i < length S"
    and out: "1 < length (st_output_files (S ! i))" "\<not> st_setup_failed (S ! i)"
    and e: "k_pipe k = (Some (r, w), k1)"
    and k2: "fds k2 = fds k1" "next_pipe k2 = next_pipe k1"
      "procs k2 = procs k1 @ [\<lparr>p_pid = pid, p_pgid = None, p_fds = copier_table S i pipes w (fds k1),
         p_prog = Copy_to_all r (st_output_fds (S ! i))\<rparr>]"
    and st: "st = (S ! i)\<lparr>st_output_writer := pid, st_output_pipe := (r, w)\<rparr>"
  shows "copier_inv base S0 p0 p1 p2 pipes (Suc i) (S[i := st]) k2
    (g(r \<mapsto> Cop i False, w \<mapsto> Cop i True)) (tags @ [Copier (next_pipe k)])"
proof -
  let ?g = "g(r \<mapsto> Cop i False, w \<mapsto> Cop i True)" and ?n = "next_pipe k"
  let ?p = "\<lparr>p_pid = pid, p_pgid = None, p_fds = copier_table S i pipes w (fds k1),
         p_prog = Copy_to_all r (st_output_fds (S ! i))\<rparr>"
  note f = k_pipe_Some[OF e]
  have own: "owns base (fds k) g (owned_ok S0 p0 p1 p2 ?n)" and lk: "link_own g pipes"
    and all: "all_own g S0 S" and le: "p2 \<le> ?n" using inv by (auto simp: copier_inv_def)
  have own': "owns base (fds k) g (owned_ok S0 p0 p1 p2 (Suc ?n))"
    by (rule owns_mono[OF own owned_ok_mono]) auto
  have g: "owns base (fds k1) ?g (owned_ok S0 p0 p1 p2 (Suc ?n))" "g r = None" "g w = None"
    using k_pipe_own[OF own' e, of "Cop i False" "Cop i True"] le by auto
  have si: "stage_own g i (S ! i)" using all i by (simp add: all_own_def)
  have pipe: "st_output_pipe (S ! i) = (- 1, - 1)" using inv i by (auto simp: copier_inv_def)
  have other: "?g fd = Some ow \<longleftrightarrow> g fd = Some ow" if "\<forall>b. ow \<noteq> Cop i b" for fd ow
    using g(2,3) that by auto
  have nocop: "g fd \<noteq> Some (Cop i b)" for fd b using si pipe by (auto simp: stage_own_def)
  have "stage_own ?g i st"
  proof -
    have "?g fd = Some (Cop i b) \<longleftrightarrow> fd = pick b (r, w)" for fd b
      using nocop[of fd b] f(4) by (auto simp: pick_def)
    then show ?thesis
      using si st out f(5) other[of "Inp i"] other[of "Outp i j" for j] by (simp add: stage_own_def)
  qed
  then have "all_own ?g S0 (S[i := st])"
    using other st by (intro all_own_update[OF all i]) (auto simp: same_command_def)
  moreover have "link_own ?g pipes" using lk other by (subst link_own_cong[of ?g g]) auto
  moreover have "bounded ?g (length S)"
    using inv i by (auto simp: copier_inv_def bounded_def split: if_splits)
  moreover have "copier_ready st" using f(5) by (simp add: copier_ready_def st)
  then have "\<forall>j < length (S[i := st]). if j < Suc i then copier_ready (S[i := st] ! j)
      else st_output_pipe (S[i := st] ! j) = (- 1, - 1)"
    using inv by (intro progress_update) (simp add: copier_inv_def)
  moreover have "good base p0 p1 p2 (Copier ?n) ?p"
  proof -
    have sub: "map_of (p_fds ?p) fd = Some obj \<Longrightarrow> fd \<noteq> w \<and> fd \<notin> set (pipe_fds pipes) \<and>
        map_of (fds k1) fd = Some obj" for fd obj
      by (auto simp: copier_table_def close_pipeline_pipes_def restrict_map_def split: if_splits)
    have "n = ?n" if "map_of (p_fds ?p) r = Some (Pipe_read n)" for n
      using sub[OF that] f(1,4) by simp
    moreover have "base_write base n \<or> p2 \<le> n \<and> n < ?n" if "holds (p_fds ?p) n" for n
    proof -
      from that obtain fd where fd: "fd \<noteq> w" "fd \<notin> set (pipe_fds pipes)" "map_of (fds k1) fd = Some (Pipe_write n)"
        using sub by (auto simp: holds_def)
      then have "map_of (fds k) fd = Some (Pipe_write n)" using f(1,4) by (auto split: if_splits)
      from owned_write[OF own this] pipe_fds_own[OF lk, of fd] fd(2) show ?thesis
        by (metis base_write_def rangeI)
    qed
    ultimately show ?thesis using le by simp
  qed
  ultimately show ?thesis using g(1) inv k2 f(7,8)
    by (simp add: copier_inv_def list_all2_appendI)
qed


lemma copier_step_inv:
  assumes inv: "copier_inv base S0 p0 p1 p2 pipes i S k g tags" and i: "i < length S"
    and e: "copier_step pipes i (S, k) = (S', k')"
  shows "\<exists>g' tags'. copier_inv base S0 p0 p1 p2 pipes (Suc i) S' k' g' tags' \<and> length S' = length S"
proof (cases "1 < length (st_output_files (S ! i)) \<and> \<not> st_setup_failed (S ! i)")
  case False
  then have "S' = S" "k' = k" using e by (auto simp: copier_step_def)
  moreover have "copier_ready (S ! i)" using False by (auto simp: copier_ready_def)
  then have "\<forall>j < length S. if j < Suc i then copier_ready (S ! j) else st_output_pipe (S ! j) = (- 1, - 1)"
    using progress_update[of S i "S ! i"] inv unfolding copier_inv_def list_update_id by blast
  ultimately show ?thesis using inv by (intro exI[of _ g] exI[of _ tags]) (simp add: copier_inv_def)
next
  case True
  then have out: "1 < length (st_output_files (S ! i))" "\<not> st_setup_failed (S ! i)" by auto
  have pipe: "st_output_pipe (S ! i) = (- 1, - 1)" using inv i by (auto simp: copier_inv_def)
  obtain p k1 where e1: "k_pipe k = (p, k1)" by fastforce
  show ?thesis
  proof (cases p)
    case None
    note f = k_pipe_None[OF e1[unfolded None]]
    have "S' = S[i := (S ! i)\<lparr>st_setup_failed := True\<rparr>]" "k' = close_all (st_output_fds (S ! i)) k1"
      using e True e1 None by (simp_all add: copier_step_def start_output_copier_def)
    with copier_fails[OF inv i out, of k1 "(S ! i)\<lparr>st_setup_failed := True\<rparr>"] f pipe
    show ?thesis by (fastforce simp: same_command_def)
  next
    case (Some rw)
    obtain r w where rw: "rw = (r, w)" by fastforce
    note e1' = e1[unfolded Some rw]
    note f = k_pipe_Some[OF e1']
    obtain pid k2 where e2: "k_fork k1 = (pid, k2)" by fastforce
    note f2 = k_fork_frame[OF e2]
    show ?thesis
    proof (cases "pid = - 1")
      case True
      let ?st = "(S ! i)\<lparr>st_output_writer := - 1, st_output_pipe := (- 1, - 1), st_setup_failed := True\<rparr>"
      let ?k = "close_all [r, w] k2"
      have S': "S' = S[i := ?st]" "k' = close_all (st_output_fds (S ! i)) ?k"
        using e out e1' e2 True by (simp_all add: copier_step_def start_output_copier_def Let_def)
      have "map_of (fds ?k) = map_of (fds k)"
        using f(1-3) f2(1) by (simp add: close_all_def) (auto simp: fun_eq_iff restrict_map_def)
      moreover have "procs ?k = procs k" "next_pipe k \<le> next_pipe ?k"
        using f(7,8) f2 by (simp_all add: close_all_def)
      ultimately have "copier_inv base S0 p0 p1 p2 pipes (Suc i) S' k'
          (g |` (- set (st_output_fds (S ! i)))) tags"
        unfolding S' by (intro copier_fails[OF inv i out]) (simp_all add: same_command_def)
      then show ?thesis by (auto simp: S')
    next
      case False
      let ?st = "(S ! i)\<lparr>st_output_writer := pid, st_output_pipe := (r, w)\<rparr>"
      let ?k = "spawn pid None (copier_table S i pipes w (fds k2)) (Copy_to_all r (st_output_fds (S ! i))) k2"
      have S': "S' = S[i := ?st]" "k' = ?k"
        using e out e1' e2 False by (simp_all add: copier_step_def start_output_copier_def Let_def)
      have "copier_inv base S0 p0 p1 p2 pipes (Suc i) S' k'
          (g(r \<mapsto> Cop i False, w \<mapsto> Cop i True)) (tags @ [Copier (next_pipe k)])"
        unfolding S' by (rule copier_starts[OF inv i out e1']) (simp_all add: spawn_def f2)
      then show ?thesis by (auto simp: S')
    qed
  qed
qed

lemma start_copiers_inv:
  assumes "copier_inv base S0 p0 p1 p2 pipes 0 S k g tags" "start_copiers pipes S k = (S', k')"
  shows "\<exists>g' tags'. copier_inv base S0 p0 p1 p2 pipes (length S') S' k' g' tags' \<and> length S' = length S"
proof -
  have "\<exists>S1 k1 g' tags'. fold (copier_step pipes) [0 ..< i] (S, k) = (S1, k1) \<and> length S1 = length S \<and>
      copier_inv base S0 p0 p1 p2 pipes i S1 k1 g' tags'" if "i \<le> length S" for i
    using that
  proof (induction i)
    case 0
    with assms(1) show ?case by auto
  next
    case (Suc i)
    then obtain S1 k1 g1 tags1 where s1: "fold (copier_step pipes) [0 ..< i] (S, k) = (S1, k1)"
      "length S1 = length S" "copier_inv base S0 p0 p1 p2 pipes i S1 k1 g1 tags1" by auto
    obtain S2 k2 where s2: "copier_step pipes i (S1, k1) = (S2, k2)" by fastforce
    have "i < length S1" using Suc.prems s1(2) by simp
    from copier_step_inv[OF s1(3) this s2] s1(1,2) s2 show ?case by auto
  qed
  from this[of "length S"] assms(2) show ?thesis by (auto simp: start_copiers_def)
qed


section \<open>The processes of the stages\<close>

text \<open>What the code closes are the descriptors with an owner, apart from files left open by a failure.\<close>

lemma stage_ownD:
  assumes "stage_own g i st"
  shows "g fd = Some (Inp i) \<longleftrightarrow> fd = st_input_fd st \<and> fd \<noteq> - 1"
    and "g fd = Some (Cop i w) \<longleftrightarrow> fst (st_output_pipe st) \<noteq> - 1 \<and> fd = pick w (st_output_pipe st)"
    and "fst (st_output_pipe st) \<noteq> - 1 \<Longrightarrow> 1 < length (st_output_files st) \<and> \<not> st_setup_failed st"
    and "\<not> st_setup_failed st \<Longrightarrow>
      g fd = Some (Outp i j) \<longleftrightarrow> j < length (st_output_files st) \<and> fd = st_output_fds st ! j"
    and "\<not> st_setup_failed st \<Longrightarrow> st_output_files st \<noteq> [] \<Longrightarrow>
      length (st_output_fds st) = length (st_output_files st)"
    and "\<not> st_setup_failed st \<Longrightarrow> st_input_files st \<noteq> [] \<Longrightarrow> st_input_fd st \<noteq> - 1"
    and "st_input_files st = [] \<Longrightarrow> st_input_fd st = - 1"
  using assms by (simp_all add: stage_own_def)

lemma stage_ends_own:
  assumes "stage_own g i st" "copier_ready st"
  shows "fd \<in> set (stage_ends st) \<Longrightarrow> g fd \<noteq> None"
    and "g fd = Some (Inp i) \<Longrightarrow> fd \<in> set (stage_ends st)"
    and "g fd = Some (Cop i w) \<Longrightarrow> fd \<in> set (stage_ends st)"
    and "g fd = Some (Outp i j) \<Longrightarrow> \<not> st_setup_failed st \<Longrightarrow> fd \<in> set (stage_ends st)"
proof -
  note own = stage_ownD[OF assms(1)]
  let ?cop = "1 < length (st_output_files st) \<and> \<not> st_setup_failed st"
  have ready: "fst (st_output_pipe st) \<noteq> - 1 \<longleftrightarrow> ?cop"
    using own(3) assms(2) unfolding copier_ready_def by blast
  have out: "fd \<in> set (output_ends st) \<longleftrightarrow>
      st_output_files st \<noteq> [] \<and> \<not> st_setup_failed st \<and> (\<exists>j. g fd = Some (Outp i j))"
  proof (cases "st_output_files st \<noteq> [] \<and> \<not> st_setup_failed st")
    case True
    with stage_own_outputs[OF assms(1), of fd] show ?thesis by (simp add: output_ends_def)
  qed (auto simp: output_ends_def)
  have nonempty: "st_output_files st \<noteq> []" if "g fd = Some (Outp i j)" "\<not> st_setup_failed st" for j
    using own(4)[OF that(2), of fd j] that(1) by auto
  have ends: "fd \<in> set (stage_ends st) \<longleftrightarrow>
      g fd = Some (Inp i) \<or> fd \<in> set (output_ends st) \<or> (\<exists>w. g fd = Some (Cop i w))"
  proof -
    have "(\<exists>w. g fd = Some (Cop i w)) \<longleftrightarrow> ?cop \<and> (fd = fst (st_output_pipe st) \<or> fd = snd (st_output_pipe st))"
      unfolding own(2) ready by (metis pick_simps)
    then show ?thesis unfolding own(1) by (auto simp: stage_ends_def input_end_def)
  qed
  show "fd \<in> set (stage_ends st) \<Longrightarrow> g fd \<noteq> None" using ends out by auto
  show "g fd = Some (Inp i) \<Longrightarrow> fd \<in> set (stage_ends st)" "g fd = Some (Cop i w) \<Longrightarrow> fd \<in> set (stage_ends st)"
    using ends by blast+
  show "g fd = Some (Outp i j) \<Longrightarrow> \<not> st_setup_failed st \<Longrightarrow> fd \<in> set (stage_ends st)"
    using ends out nonempty by blast
qed

text \<open>Everything about the descriptors when the stages are forked.\<close>

definition ready :: "(int \<rightharpoonup> file_obj) \<Rightarrow> pipeline_stage list \<Rightarrow> nat \<Rightarrow> nat \<Rightarrow> nat \<Rightarrow> nat \<Rightarrow> (int \<times> int) list \<Rightarrow>
    pipeline_stage list \<Rightarrow> fdtab \<Rightarrow> (int \<rightharpoonup> owner) \<Rightarrow> bool" where
  "ready base S0 p0 p1 p2 hi pipes S t g \<longleftrightarrow>
     owns base t g (owned_ok S0 p0 p1 p2 hi) \<and> link_own g pipes \<and> all_own g S0 S \<and>
     (\<forall>i < length S. copier_ready (S ! i)) \<and> p2 = p1 + length pipes \<and> length pipes = length S - 1 \<and>
     base 0 \<noteq> None \<and> base 1 \<noteq> None \<and>
     bounded g (length S)"

definition closed_fds :: "pipeline_stage list \<Rightarrow> (int \<times> int) list \<Rightarrow> int set" where
  "closed_fds S pipes = set (pipe_fds pipes) \<union> (\<Union>st \<in> set S. set (stage_ends st))"

lemma map_of_close_stage_fds:
  "map_of (close_stage_fds S pipes t) = map_of t |` (- closed_fds S pipes)"
  by (auto simp: close_stage_fds_def close_pipeline_pipes_def closed_fds_def fun_eq_iff restrict_map_def)

lemma closed_fds_owned:
  assumes "ready base S0 p0 p1 p2 hi pipes S t g"
  shows "fd \<in> closed_fds S pipes \<Longrightarrow> g fd \<noteq> None"
    and "g fd = Some (Link j w) \<Longrightarrow> fd \<in> closed_fds S pipes"
    and "g fd = Some (Cop i w) \<Longrightarrow> fd \<in> closed_fds S pipes"
    and "i < length S \<Longrightarrow> g fd = Some (Inp i) \<Longrightarrow> fd \<in> closed_fds S pipes"
    and "i < length S \<Longrightarrow> g fd = Some (Outp i j') \<Longrightarrow> \<not> st_setup_failed (S ! i) \<Longrightarrow> fd \<in> closed_fds S pipes"
proof -
  have lk: "link_own g pipes" and st: "\<And>i. i < length S \<Longrightarrow> stage_own g i (S ! i) \<and> copier_ready (S ! i)"
    using assms unfolding ready_def all_own_def by blast+
  have ci: "i < length S" if "g fd = Some (Cop i w)" for fd i w
    using assms that unfolding ready_def bounded_def by fastforce
  show "g fd \<noteq> None" if fd: "fd \<in> closed_fds S pipes"
  proof (cases "fd \<in> set (pipe_fds pipes)")
    case False
    with fd obtain x where "x \<in> set S" "fd \<in> set (stage_ends x)" by (auto simp: closed_fds_def)
    then obtain i where i: "i < length S" "fd \<in> set (stage_ends (S ! i))" by (metis in_set_conv_nth)
    with stage_ends_own(1)[of g i "S ! i" fd] st[OF i(1)] show ?thesis by blast
  qed (use pipe_fds_own[OF lk] in auto)
  have cl: "i < length S \<Longrightarrow> fd \<in> set (stage_ends (S ! i)) \<Longrightarrow> fd \<in> closed_fds S pipes" for i
    by (auto simp: closed_fds_def)
  show "g fd = Some (Link j w) \<Longrightarrow> fd \<in> closed_fds S pipes"
    using pipe_fds_own[OF lk, of fd] by (auto simp: closed_fds_def)
  show "g fd = Some (Cop i w) \<Longrightarrow> fd \<in> closed_fds S pipes"
    using ci[of fd i w] st[of i] stage_ends_own(3)[of g i "S ! i" fd w] cl[of i] by blast
  show "i < length S \<Longrightarrow> g fd = Some (Inp i) \<Longrightarrow> fd \<in> closed_fds S pipes"
    using st[of i] stage_ends_own(2)[of g i "S ! i" fd] cl[of i] by blast
  show "i < length S \<Longrightarrow> g fd = Some (Outp i j') \<Longrightarrow> \<not> st_setup_failed (S ! i) \<Longrightarrow> fd \<in> closed_fds S pipes"
    using st[of i] stage_ends_own(4)[of g i "S ! i" fd j'] cl[of i] by blast
qed


text \<open>What the standard input and output of stage \<open>i\<close> are.\<close>

definition input_obj :: "(int \<rightharpoonup> file_obj) \<Rightarrow> nat \<Rightarrow> nat \<Rightarrow> pipeline_stage \<Rightarrow> nat \<Rightarrow> file_obj \<Rightarrow> bool" where
  "input_obj base p0 p1 st i obj \<longleftrightarrow>
     (if st_input_fd st \<noteq> - 1 then \<exists>n. obj = Pipe_read n \<and> p0 \<le> n \<and> n < p1
      else if 0 < i then obj = Pipe_read (p1 + (i - 1))
      else base 0 = Some obj)"

definition output_obj :: "(int \<rightharpoonup> file_obj) \<Rightarrow> nat \<Rightarrow> nat \<Rightarrow> nat \<Rightarrow> pipeline_stage \<Rightarrow> nat \<Rightarrow> file_obj \<Rightarrow> bool" where
  "output_obj base p1 p2 final st i obj \<longleftrightarrow>
     (if st_output_files st = [] then
        (if i < final then obj = Pipe_write (p1 + i) else base 1 = Some obj)
      else if length (st_output_files st) = 1 then obj = out_obj (hd (st_output_files st))
      else \<exists>n. p2 \<le> n \<and> obj = Pipe_write n)"

lemma ready_std:
  assumes "ready base S0 p0 p1 p2 hi pipes S t g"
  shows "g 0 = None" "g 1 = None" "map_of t 0 = base 0" "map_of t 1 = base 1"
proof -
  have own: "owns base t g (owned_ok S0 p0 p1 p2 hi)" and b: "base 0 \<noteq> None" "base 1 \<noteq> None"
    using assms unfolding ready_def by blast+
  show g: "g 0 = None" "g 1 = None" using ownsD_Some[OF own] b by (metis option.exhaust)+
  show "map_of t 0 = base 0" "map_of t 1 = base 1" using ownsD_None[OF own] g by blast+
qed

lemma redirect_input_obj:
  assumes rd: "ready base S0 p0 p1 p2 hi pipes S t g" and i: "i < length S"
  shows "\<exists>obj t1. redirect_input S i pipes t = Some t1 \<and> map_of t1 = (map_of t)(0 \<mapsto> obj) \<and>
    input_obj base p0 p1 (S ! i) i obj"
proof -
  have own: "owns base t g (owned_ok S0 p0 p1 p2 hi)" and lk: "link_own g pipes" and len: "length pipes = length S - 1"
    and si: "stage_own g i (S ! i)" using rd i unfolding ready_def all_own_def by auto
  let ?fd = "st_input_fd (S ! i)"
  consider "?fd \<noteq> - 1" | "?fd = - 1" "0 < i" | "?fd = - 1" "i = 0" by blast
  then show ?thesis
  proof cases
    case 1
    then have "g ?fd = Some (Inp i)" using stage_ownD(1)[OF si, of ?fd] by simp
    from ownsD_Some[OF own this] obtain n where "map_of t ?fd = Some (Pipe_read n)" "p0 \<le> n" "n < p1" by auto
    with 1 show ?thesis
      by (intro exI[of _ "Pipe_read n"]) (simp add: redirect_input_def dup2_def input_obj_def)
  next
    case 2
    then have "i - 1 < length pipes" using i len by simp
    then have "g (fst (pipes ! (i - 1))) = Some (Link (i - 1) False)" using lk unfolding link_own_def by simp
    from ownsD_Some[OF own this] have "map_of t (fst (pipes ! (i - 1))) = Some (Pipe_read (p1 + (i - 1)))" by simp
    with 2 show ?thesis by (simp add: redirect_input_def dup2_def input_obj_def)
  next
    case 3
    obtain obj where b: "base 0 = Some obj" using rd unfolding ready_def by blast
    then have "map_of t = (map_of t)(0 \<mapsto> obj)" using ready_std(3)[OF rd] by (simp add: fun_upd_idem)
    with 3 b show ?thesis by (auto simp: redirect_input_def input_obj_def)
  qed
qed

lemma redirect_output_obj:
  assumes rd: "ready base S0 p0 p1 p2 hi pipes S t g" and i: "i < length S"
    and ok: "\<not> st_setup_failed (S ! i)" and t1: "map_of t1 = (map_of t)(0 \<mapsto> o1)"
  shows "\<exists>obj t2. redirect_output S i pipes t1 = Some t2 \<and> map_of t2 = (map_of t)(0 \<mapsto> o1, 1 \<mapsto> obj) \<and>
    output_obj base p1 p2 (length S - 1) (S ! i) i obj"
proof -
  have own: "owns base t g (owned_ok S0 p0 p1 p2 hi)" and lk: "link_own g pipes" and len: "length pipes = length S - 1"
    and si: "stage_own g i (S ! i)" and same: "same_command (S ! i) (S0 ! i)" and cr: "copier_ready (S ! i)"
    using rd i unfolding ready_def all_own_def by auto
  have at: "map_of t1 fd = map_of t fd" if "g fd \<noteq> None" for fd
    using that ready_std(1)[OF rd] by (auto simp: t1)
  let ?st = "S ! i" and ?n = "length (st_output_files (S ! i))"
  consider "?n = 0" "i < length S - 1" | "?n = 0" "\<not> i < length S - 1" | "?n = 1" | "1 < ?n" by linarith
  then show ?thesis
  proof cases
    case 1
    then have g: "g (snd (pipes ! i)) = Some (Link i True)" using lk len unfolding link_own_def by simp
    from ownsD_Some[OF own g] at[of "snd (pipes ! i)"] g
    have "map_of t1 (snd (pipes ! i)) = Some (Pipe_write (p1 + i))" by simp
    with 1 show ?thesis by (simp add: redirect_output_def dup2_def output_obj_def t1)
  next
    case 2
    obtain obj where b: "base 1 = Some obj" using rd unfolding ready_def by blast
    then have "map_of t1 = (map_of t)(0 \<mapsto> o1, 1 \<mapsto> obj)"
      using ready_std(4)[OF rd] by (auto simp: t1 fun_eq_iff)
    with 2 b show ?thesis by (auto simp: redirect_output_def output_obj_def)
  next
    case 3
    then have ne: "st_output_files ?st \<noteq> []" by auto
    then have "length (st_output_fds ?st) = 1" using stage_ownD(5)[OF si ok] 3 by simp
    then have fd: "hd (st_output_fds ?st) = st_output_fds ?st ! 0" by (intro hd_conv_nth) auto
    then have g: "g (hd (st_output_fds ?st)) = Some (Outp i 0)" using stage_ownD(4)[OF si ok] 3 by simp
    have "hd (st_output_files ?st) = st_output_files ?st ! 0" using 3 by (intro hd_conv_nth) auto
    then have "map_of t1 (hd (st_output_fds ?st)) = Some (out_obj (hd (st_output_files ?st)))"
      using ownsD_Some[OF own g] at[of "hd (st_output_fds ?st)"] g same by (simp add: same_command_def)
    with 3 ne show ?thesis by (simp add: redirect_output_def dup2_def output_obj_def t1)
  next
    case 4
    then have "fst (st_output_pipe ?st) \<noteq> - 1" using cr ok by (simp add: copier_ready_def)
    then have g: "g (snd (st_output_pipe ?st)) = Some (Cop i True)" using stage_ownD(2)[OF si] by simp
    from ownsD_Some[OF own g] at[of "snd (st_output_pipe ?st)"] g obtain n where
      "map_of t1 (snd (st_output_pipe ?st)) = Some (Pipe_write n)" "p2 \<le> n" by auto
    moreover have "st_output_files ?st \<noteq> []" using 4 by auto
    ultimately show ?thesis
      using 4 by (intro exI[of _ "Pipe_write n"]) (simp add: redirect_output_def dup2_def output_obj_def t1)
  qed
qed

text \<open>The table of a stage when it executes its program.\<close>

lemma enter_stage_table:
  assumes rd: "ready base S0 p0 p1 p2 hi pipes S t g" and i: "i < length S" and ok: "\<not> st_setup_failed (S ! i)"
    and r: "resolve_command env (hd (st_argv (S ! i))) = Inr (argv0, Some path)"
  shows "\<exists>t' o1 o2. enter_stage env S i pipes t = (t', Exec path (argv0 # tl (st_argv (S ! i)))) \<and>
    map_of t' = (map_of t)(0 \<mapsto> o1, 1 \<mapsto> o2) |` (- closed_fds S pipes) \<and>
    input_obj base p0 p1 (S ! i) i o1 \<and> output_obj base p1 p2 (length S - 1) (S ! i) i o2"
proof -
  obtain o1 t1 where t1: "redirect_input S i pipes t = Some t1" "map_of t1 = (map_of t)(0 \<mapsto> o1)"
    "input_obj base p0 p1 (S ! i) i o1" using redirect_input_obj[OF rd i] by blast
  obtain o2 t2 where t2: "redirect_output S i pipes t1 = Some t2" "map_of t2 = (map_of t)(0 \<mapsto> o1, 1 \<mapsto> o2)"
    "output_obj base p1 p2 (length S - 1) (S ! i) i o2" using redirect_output_obj[OF rd i ok t1(2)] by blast
  have "enter_stage env S i pipes t =
      (close_stage_fds S pipes t2, Exec path (argv0 # tl (st_argv (S ! i))))"
    using r t1(1) t2(1) by (simp add: enter_stage_def)
  moreover have "map_of (close_stage_fds S pipes t2) =
      (map_of t)(0 \<mapsto> o1, 1 \<mapsto> o2) |` (- closed_fds S pipes)"
    unfolding map_of_close_stage_fds t2(2) ..
  ultimately show ?thesis using t1(3) t2(3) by blast
qed


lemma stage_child_good:
  assumes rd: "ready base S0 p0 p1 p2 hi pipes S t g" and i: "i < length S"
    and e: "stage_child env S i pipes t = (t', prog)"
  shows "good base p0 p1 p2 (Stage_proc i) \<lparr>p_pid = pid, p_pgid = pg, p_fds = t', p_prog = prog\<rparr>"
proof (cases "\<exists>argv0 path. \<not> st_setup_failed (S ! i) \<and>
    resolve_command env (hd (st_argv (S ! i))) = Inr (argv0, Some path)")
  case False
  then have "(\<exists>m. prog = Exit_now m) \<or> (\<exists>f. prog = Fault f)"
    using e by (auto simp: stage_child_def enter_stage_def split: if_splits sum.splits option.splits)
  then show ?thesis by auto
next
  case True
  then obtain argv0 path where ok: "\<not> st_setup_failed (S ! i)"
    and r: "resolve_command env (hd (st_argv (S ! i))) = Inr (argv0, Some path)" by blast
  have own: "owns base t g (owned_ok S0 p0 p1 p2 hi)" and p2: "p2 = p1 + length pipes" "length pipes = length S - 1"
    using rd unfolding ready_def by blast+
  from enter_stage_table[OF rd i ok r] e ok obtain o1 o2 where
    t': "map_of t' = (map_of t)(0 \<mapsto> o1, 1 \<mapsto> o2) |` (- closed_fds S pipes)"
    and prog: "prog = Exec path (argv0 # tl (st_argv (S ! i)))"
    and o1: "input_obj base p0 p1 (S ! i) i o1" and o2: "output_obj base p1 p2 (length S - 1) (S ! i) i o2"
    by (auto simp: stage_child_def)
  have std: "0 \<notin> closed_fds S pipes" "1 \<notin> closed_fds S pipes"
    using closed_fds_owned(1)[OF rd] ready_std[OF rd] by blast+
  have "p0 \<le> n \<and> n < p1 \<or> 0 < i \<and> n = p1 + (i - 1) \<and> n < p2 \<or> base 0 = Some (Pipe_read n)"
    if "map_of t' 0 = Some (Pipe_read n)" for n
    using that o1 std i p2 by (auto simp: t' input_obj_def split: if_splits)
  moreover have "base_write base n \<or> n = p1 + i \<and> n < p2 \<or> p2 \<le> n" if "holds t' n" for n
  proof -
    from that obtain fd where fd: "map_of t' fd = Some (Pipe_write n)" by (auto simp: holds_def)
    then have notin: "fd \<notin> closed_fds S pipes" by (auto simp: t' restrict_map_def split: if_splits)
    consider "fd = 0" | "fd = 1" | "fd \<noteq> 0" "fd \<noteq> 1" by blast
    then show ?thesis
    proof cases
      case 1
      then have "o1 = Pipe_write n" using fd std by (simp add: t')
      then have "base 0 = Some (Pipe_write n)" using o1 by (auto simp: input_obj_def split: if_splits)
      then show ?thesis unfolding base_write_def by (metis rangeI)
    next
      case 2
      then have "o2 = Pipe_write n" using fd std by (simp add: t')
      then have "base 1 = Some (Pipe_write n) \<or> n = p1 + i \<and> i < length S - 1 \<or> p2 \<le> n"
        using o2 by (auto simp: output_obj_def out_obj_def split: if_splits)
      then show ?thesis unfolding base_write_def using p2 by (metis rangeI add_less_cancel_left)
    next
      case 3
      then have "map_of t fd = Some (Pipe_write n)"
        using fd notin unfolding t' by (simp add: restrict_map_def fun_upd_def)
      from owned_write[OF own this] closed_fds_owned(2,3)[OF rd, of fd] notin show ?thesis
        unfolding base_write_def by (metis rangeI)
    qed
  qed
  ultimately show ?thesis by (simp add: prog)
qed

text \<open>The loop that forks leaves the shell's table alone and adds a process per stage.\<close>

lemma fork_stages_good:
  assumes rd: "ready base S0 p0 p1 p2 hi pipes S (fds k) g"
    and tags: "list_all2 (good base p0 p1 p2) tags (procs k)"
    and e: "fork_stages env S pipes k = (children, k')"
  shows "fds k' = fds k" "\<exists>tags'. list_all2 (good base p0 p1 p2) tags' (procs k') \<and>
      (\<forall>i. Stage_proc i \<in> set tags' \<longrightarrow> Stage_proc i \<in> set tags \<or> i < length S)"
    "next_pipe k' = next_pipe k"
proof -
  let ?step = "fork_step (\<lambda>i t. stage_child env S i pipes t)"
  let ?inv = "\<lambda>k1. fds k1 = fds k \<and> next_pipe k1 = next_pipe k \<and>
      (\<exists>tags'. list_all2 (good base p0 p1 p2) tags' (procs k1) \<and>
        (\<forall>i. Stage_proc i \<in> set tags' \<longrightarrow> Stage_proc i \<in> set tags \<or> i < length S))"
  have "?inv (snd (fold ?step [0 ..< i] ([], k)))" if "i \<le> length S" for i
    using that
  proof (induction i)
    case 0
    with tags show ?case by auto
  next
    case (Suc i)
    obtain cs k1 where f: "fold ?step [0 ..< i] ([], k) = (cs, k1)" by fastforce
    with Suc obtain tags1 where k1: "fds k1 = fds k" "next_pipe k1 = next_pipe k"
      "list_all2 (good base p0 p1 p2) tags1 (procs k1)"
      "\<forall>i. Stage_proc i \<in> set tags1 \<longrightarrow> Stage_proc i \<in> set tags \<or> i < length S" by auto
    obtain pid k2 where fk: "k_fork k1 = (pid, k2)" by fastforce
    note ff = k_fork_frame[OF fk]
    obtain t prog where c: "stage_child env S i pipes (fds k2) = (t, prog)" by fastforce
    have i: "i < length S" using Suc.prems by simp
    have rd2: "ready base S0 p0 p1 p2 hi pipes S (fds k2) g" using rd ff k1 by simp
    have unf: "fold ?step [0 ..< Suc i] ([], k) = ?step i (cs, k1)" using f by simp
    show ?case
    proof (cases "pid = - 1")
      case True
      then have "?step i (cs, k1) = (cs @ [- 1], k2)" using fk by (simp add: fork_step_def)
      with k1 ff show ?thesis unfolding unf by auto
    next
      case False
      let ?p = "\<lparr>p_pid = pid, p_pgid = stage_group pid cs, p_fds = t, p_prog = prog\<rparr>"
      have "list_all2 (good base p0 p1 p2) (tags1 @ [Stage_proc i]) (procs k2 @ [?p])"
        using k1(3) ff stage_child_good[OF rd2 i c] by (intro list_all2_appendI) auto
      moreover have "snd (fold ?step [0 ..< Suc i] ([], k)) = k2\<lparr>procs := procs k2 @ [?p]\<rparr>"
        using fk c False unfolding unf by (simp add: fork_step_def spawn_def)
      ultimately show ?thesis using k1 ff i by (intro conjI exI[of _ "tags1 @ [Stage_proc i]"]) auto
    qed
  qed
  from this[of "length S"] e show "fds k' = fds k" "next_pipe k' = next_pipe k"
    "\<exists>tags'. list_all2 (good base p0 p1 p2) tags' (procs k') \<and>
      (\<forall>i. Stage_proc i \<in> set tags' \<longrightarrow> Stage_proc i \<in> set tags \<or> i < length S)"
    unfolding fork_stages_def by auto
qed


section \<open>The whole launch\<close>

lemma parent_ends_closed:
  assumes "ready base S0 p0 p1 p2 hi pipes S t g"
  shows "set (pipe_fds pipes @ concat (map parent_ends S)) = closed_fds S pipes"
proof -
  have "set (parent_ends st) = set (stage_ends st)" if "st \<in> set S" for st
  proof -
    from that obtain i where i: "i < length S" "st = S ! i" by (metis in_set_conv_nth)
    then have "stage_own g i st" "copier_ready st" using assms unfolding ready_def all_own_def by auto
    with stage_ownD(3)[of g i st] have "fst (st_output_pipe st) \<noteq> - 1 \<longleftrightarrow>
        1 < length (st_output_files st) \<and> \<not> st_setup_failed st"
      unfolding copier_ready_def by blast
    then show ?thesis unfolding parent_ends_def stage_ends_def by (simp only: One_nat_def)
  qed
  then show ?thesis by (auto simp: closed_fds_def)
qed

text \<open>The processes and the table after the setup of the stages and the pipes.\<close>

lemma launch_setup:
  assumes k: "procs k = []" and S0: "list_all pristine S0"
    and e1: "setup_stages S0 k = (S1, k1)" and e2: "make_pipes (length S1 - 1) [] k1 = (r, k2)"
  shows "\<exists>g ps. owns (map_of (fds k)) (fds k2) g
      (owned_ok S0 (next_pipe k) (next_pipe k1) (next_pipe k1 + length (both r)) (next_pipe k2)) \<and>
    link_own g (both r) \<and> all_own g S0 S1 \<and> bounded g (length S1) \<and>
    (\<forall>i < length S1. st_output_pipe (S1 ! i) = (- 1, - 1)) \<and>
    next_pipe k2 = next_pipe k1 + length (both r) \<and>
    (\<forall>pipes. r = Inr pipes \<longrightarrow> length pipes = length S1 - 1) \<and>
    procs k2 = ps \<and> list_all (writer_ok (map_of (fds k)) (next_pipe k) (next_pipe k1)) ps \<and>
    (\<forall>fd i w. g fd \<noteq> Some (Cop i w)) \<and> next_pipe k \<le> next_pipe k1"
proof -
  let ?base = "map_of (fds k)" and ?p0 = "next_pipe k" and ?p1 = "next_pipe k1"
  have "owns ?base (fds k) Map.empty (early S0 ?p0 ?p0)" by (simp add: owns_def)
  from setup_stages_own[OF this, of 0 S1 k1] S0 e1 obtain g1 ps where g1:
    "owns ?base (fds k1) g1 (early S0 ?p0 ?p1)" "\<And>fd ow. g1 fd = Some ow \<Longrightarrow> owner_index ow < length S0"
    "length S1 = length S0"
    "\<And>j. j < length S1 \<Longrightarrow> stage_own g1 j (S1 ! j) \<and> same_command (S1 ! j) (S0 ! j) \<and>
       st_output_pipe (S1 ! j) = (- 1, - 1)"
    "procs k1 = ps" "list_all (writer_ok ?base ?p0 ?p1) ps" "?p0 \<le> ?p1" using k by auto
  let ?P = "owned_ok S0 ?p0 ?p1 (?p1 + length (both r)) (next_pipe k2)"
  have noearly: "g1 fd \<noteq> Some (Link j w)" "g1 fd \<noteq> Some (Cop j w)" for fd j w
    using ownsD_Some[OF g1(1), of fd "Link j w"] ownsD_Some[OF g1(1), of fd "Cop j w"] by auto
  have own1: "owns ?base (fds k1) g1 ?P" by (rule owns_mono[OF g1(1) early_owned])
  have "link_own g1 []" by (simp add: link_own_def noearly)
  from make_pipes_own[OF own1 _ this e2] obtain g2 where g2:
    "owns ?base (fds k2) g2 ?P" "link_own g2 (both r)" "next_pipe k2 = ?p1 + length (both r)"
    "\<forall>ps. r = Inr ps \<longrightarrow> length ps = length S1 - 1"
    "\<And>fd ow. \<not> is_link ow \<Longrightarrow> g2 fd = Some ow \<longleftrightarrow> g1 fd = Some ow" "procs k2 = procs k1" by auto
  have "stage_own g2 j (S1 ! j)" if "j < length S1" for j
    using g1(4)[OF that] by (subst stage_own_cong[of g2 j g1]) (simp_all add: g2(5))
  then have "all_own g2 S0 S1" using g1(3,4) by (simp add: all_own_def)
  moreover have "bounded g2 (length S1)" using g2(5) g1(2,3) by (auto simp: bounded_def)
  moreover have "g2 fd \<noteq> Some (Cop i w)" for fd i w using g2(5)[of "Cop i w" fd] noearly(2) by simp
  ultimately show ?thesis using g1(4,5,6,7) g2 by (intro exI[of _ g2] exI[of _ ps]) auto
qed

definition launched_well :: "kernel \<Rightarrow> kernel \<Rightarrow> bool" where
  "launched_well k k' \<longleftrightarrow>
     (\<forall>n. holds (fds k') n \<longrightarrow> holds (fds k) n) \<and>
     (\<exists>p1 p2 tags. list_all2 (good (map_of (fds k)) (next_pipe k) p1 p2) tags (procs k') \<and> next_pipe k \<le> p1 \<and> p1 \<le> p2)"

lemma holds_base_write: "holds t n \<longleftrightarrow> base_write (map_of t) n"
  by (auto simp: holds_def base_write_def) (metis rangeI)

lemma launch_pipeline_good:
  assumes k: "procs k = []" "map_of (fds k) 0 \<noteq> None" "map_of (fds k) 1 \<noteq> None" and S0: "list_all pristine S0"
    and e: "launch_pipeline env S0 k = (children, k')"
  shows "launched_well k k'"
proof -
  let ?base = "map_of (fds k)" and ?p0 = "next_pipe k"
  obtain S1 k1 where e1: "setup_stages S0 k = (S1, k1)" by fastforce
  obtain r k2 where e2: "make_pipes (length S1 - 1) [] k1 = (r, k2)" by fastforce
  let ?p1 = "next_pipe k1" and ?p2 = "next_pipe k1 + length (both r)"
  from launch_setup[OF k(1) S0 e1 e2] obtain g ps where g:
    "owns ?base (fds k2) g (owned_ok S0 ?p0 ?p1 ?p2 (next_pipe k2))" "link_own g (both r)" "all_own g S0 S1"
    "bounded g (length S1)" "\<forall>i < length S1. st_output_pipe (S1 ! i) = (- 1, - 1)" "next_pipe k2 = ?p2"
    "\<forall>pipes. r = Inr pipes \<longrightarrow> length pipes = length S1 - 1" "procs k2 = ps"
    "list_all (writer_ok ?base ?p0 ?p1) ps" "\<forall>fd i w. g fd \<noteq> Some (Cop i w)" "?p0 \<le> ?p1" by blast
  have w: "list_all2 (good ?base ?p0 ?p1 ?p2) (replicate (length ps) Writer) (procs k2)"
    using g(8,9) by (simp add: list_all2_conv_all_nth list_all_length)
  show ?thesis
  proof (cases r)
    case (Inl pipes)
    let ?L = "pipe_fds pipes @ concat (map (\<lambda>st. input_end st @ output_ends st) S1)"
    have k': "k' = close_all ?L k2" using e e1 e2 Inl by (simp add: launch_pipeline_def abandon_pipes_def)
    have "holds (fds k) n" if "holds (fds k') n" for n
    proof -
      from that obtain fd where fd: "map_of (fds k2) fd = Some (Pipe_write n)" "fd \<notin> set (pipe_fds pipes)"
        by (auto simp: holds_def k' close_all_def restrict_map_def split: if_splits)
      have nolink: "g fd \<noteq> Some (Link j w)" for j w
        using pipe_fds_own[OF g(2), of fd] fd(2) unfolding Inl both_def by auto
      have "?base fd = Some (Pipe_write n)"
        using fd(1) by (rule owned_write[OF g(1)]) (use nolink g(10) in blast)+
      then show ?thesis by (auto simp: holds_def)
    qed
    moreover have "procs k' = procs k2" by (simp add: k' close_all_def)
    ultimately show ?thesis using w g(11) unfolding launched_well_def
      by (intro conjI exI[of _ ?p1] exI[of _ ?p2] exI[of _ "replicate (length ps) Writer"]) simp_all
  next
    case (Inr pipes)
    obtain S2 k3 where e3: "start_copiers pipes S1 k2 = (S2, k3)" by fastforce
    obtain cs k4 where e4: "fork_stages env S2 pipes k3 = (cs, k4)" by fastforce
    have k': "k' = close_parent_fds S2 pipes k4"
      using e e1 e2 e3 e4 Inr by (simp add: launch_pipeline_def)
    have pipes: "both r = pipes" "length pipes = length S1 - 1" using g(7) Inr by (simp_all add: both_def)
    have "copier_inv ?base S0 ?p0 ?p1 ?p2 pipes 0 S1 k2 g (replicate (length ps) Writer)"
      using g w unfolding copier_inv_def pipes by simp
    from start_copiers_inv[OF this e3] obtain g3 tags where g3:
      "copier_inv ?base S0 ?p0 ?p1 ?p2 pipes (length S2) S2 k3 g3 tags" "length S2 = length S1" by blast
    then have rd: "ready ?base S0 ?p0 ?p1 ?p2 (next_pipe k3) pipes S2 (fds k3) g3"
      and tg: "list_all2 (good ?base ?p0 ?p1 ?p2) tags (procs k3)"
      using k(2,3) pipes unfolding copier_inv_def ready_def by auto
    note f = fork_stages_good[OF rd tg e4]
    have "fds k' = close_fds (pipe_fds pipes @ concat (map parent_ends S2)) (fds k3)"
      by (simp add: k' close_parent_fds_def close_all_def f(1))
    then have table: "map_of (fds k') = map_of (fds k3) |` (- closed_fds S2 pipes)"
      by (simp only: map_of_close_fds parent_ends_closed[OF rd])
    have "holds (fds k) n" if "holds (fds k') n" for n
    proof -
      from that obtain fd where "map_of (fds k') fd = Some (Pipe_write n)" unfolding holds_def by blast
      then have fd: "map_of (fds k3) fd = Some (Pipe_write n)" "fd \<notin> closed_fds S2 pipes"
        unfolding table by (simp_all add: restrict_map_def split: if_splits)
      have own: "owns ?base (fds k3) g3 (owned_ok S0 ?p0 ?p1 ?p2 (next_pipe k3))"
        using rd unfolding ready_def by blast
      have "?base fd = Some (Pipe_write n)"
        using fd(1) by (rule owned_write[OF own]) (use closed_fds_owned(2,3)[OF rd, of fd] fd(2) in blast)+
      then show ?thesis by (auto simp: holds_def)
    qed
    moreover have "procs k' = procs k4" by (simp add: k' close_parent_fds_def close_all_def)
    moreover obtain tags' where "list_all2 (good ?base ?p0 ?p1 ?p2) tags' (procs k4)" using f(2) by blast
    ultimately show ?thesis using g(11) unfolding launched_well_def
      by (intro conjI exI[of _ ?p1] exI[of _ ?p2] exI[of _ tags']) simp_all
  qed
qed

section \<open>When every call succeeds\<close>

definition plenty :: "nat \<Rightarrow> kernel \<Rightarrow> bool" where
  "plenty m k \<longleftrightarrow> refuse k = [] \<and> list_all (\<lambda>p. p \<noteq> - 1) (forks k) \<and> m \<le> length (forks k)"

lemma plenty_mono: "plenty m k \<Longrightarrow> m' \<le> m \<Longrightarrow> plenty m' k"
  by (simp add: plenty_def)

lemma plenty_close [simp]: "plenty m (close_all L k) = plenty m k" "plenty m (k_close fd k) = plenty m k"
    "plenty m (spawn pid pg t prog k) = plenty m k"
  by (simp_all add: plenty_def close_all_def k_close_def spawn_def)

lemma plenty_open:
  assumes "plenty m k" "k_open obj k = (fd, k')"
  shows "fd \<noteq> - 1" "plenty m k'"
  using assms free_fd_unused(2)[of "fds k"] by (auto simp: plenty_def k_open_def Let_def refused_def)

lemma plenty_pipe:
  assumes "plenty m k"
  shows "\<exists>r w k'. k_pipe k = (Some (r, w), k') \<and> plenty m k'"
  using assms by (simp add: plenty_def k_pipe_def Let_def refused_def)

lemma plenty_fork:
  assumes "plenty (Suc m) k" "k_fork k = (pid, k')"
  shows "pid \<noteq> - 1" "plenty m k'" "pid = hd (forks k)" "forks k' = tl (forks k)"
  using assms by (cases "forks k"; auto simp: plenty_def k_fork_def)+

lemma plenty_inputs: "plenty m k \<Longrightarrow> \<exists>L k'. open_inputs files sofar k = (Some L, k') \<and> plenty m k'"
proof (induction files arbitrary: sofar k)
  case (Cons f files)
  obtain fd k1 where o: "k_open (File_in f) k = (fd, k1)" by fastforce
  from plenty_open[OF Cons.prems o] Cons.IH[of k1] o show ?case by simp
qed simp

lemma plenty_outputs: "plenty m k \<Longrightarrow> \<exists>L k'. open_outputs files sofar k = (Some L, k') \<and> plenty m k'"
proof (induction files arbitrary: sofar k)
  case (Cons f files)
  obtain fd k1 where o: "k_open (File_out (of_name f) (of_append f)) k = (fd, k1)" by fastforce
  from plenty_open[OF Cons.prems o] Cons.IH[of k1] o show ?case by simp
qed simp

lemma plenty_setup_input:
  assumes "plenty (Suc m) k" "setup_input files k = (fd, pid, k')"
  shows "fd \<noteq> - 1 \<and> plenty m k'"
proof -
  obtain L k1 where o: "open_inputs files [] k = (Some L, k1)" "plenty (Suc m) k1"
    using plenty_inputs[OF assms(1)] by blast
  obtain r w k2 where p: "k_pipe k1 = (Some (r, w), k2)" "plenty (Suc m) k2" using plenty_pipe[OF o(2)] by blast
  obtain f k3 where k: "k_fork k2 = (f, k3)" by fastforce
  note fk = plenty_fork[OF p(2) k]
  have "fd = r" "plenty m k'" using assms(2) o(1) p(1) k fk by (auto simp: setup_input_def Let_def)
  with k_pipe_Some(5)[OF p(1)] show ?thesis by simp
qed

lemma plenty_setup_stage:
  assumes "plenty (Suc m) k" "pristine st" "setup_stage st k = (st', k')"
  shows "\<not> st_setup_failed st' \<and> plenty m k'"
proof -
  obtain st1 k1 where i: "stage_input st k = (st1, k1)" by fastforce
  have s1: "\<not> st_setup_failed st1" "plenty m k1"
    using i assms(1,2) plenty_setup_input[OF assms(1), of "st_input_files st"] plenty_mono[OF assms(1), of m]
    by (auto simp: stage_input_def Let_def pristine_def split: prod.splits if_splits)
  from plenty_outputs[OF s1(2), of "st_output_files st1" "[]"] i s1 assms(3) show ?thesis
    by (auto simp: setup_stage_def stage_outputs_def open_output_files_def split: if_splits)
qed

lemma plenty_setup_stages:
  assumes "plenty (length S + m) k" "list_all pristine S" "setup_stages S k = (S', k')"
  shows "list_all (\<lambda>st. \<not> st_setup_failed st) S' \<and> plenty m k'"
  using assms
proof (induction S arbitrary: k S')
  case (Cons st S)
  obtain st1 k1 where s: "setup_stage st k = (st1, k1)" by fastforce
  obtain S1 where r: "setup_stages S k1 = (S1, k')" "S' = st1 # S1"
    using Cons.prems(3) s by (auto split: prod.splits)
  have p: "plenty (Suc (length S + m)) k" and st: "pristine st" "list_all pristine S"
    using Cons.prems(1,2) by simp_all
  from plenty_setup_stage[OF p st(1) s] Cons.IH[OF _ st(2) r(1)] r(2) show ?case by simp
qed simp

lemma plenty_make_pipes: "plenty m k \<Longrightarrow> \<exists>ps k'. make_pipes n pipes k = (Inr ps, k') \<and> plenty m k'"
proof (induction n arbitrary: pipes k)
  case (Suc n)
  from plenty_pipe[OF Suc.prems] obtain r w k1 where "k_pipe k = (Some (r, w), k1)" "plenty m k1" by blast
  with Suc.IH[of k1] show ?case by simp
qed simp

lemma plenty_copier_step:
  assumes "plenty (Suc m) k" "copier_step pipes i (S, k) = (S', k')"
    and "list_all (\<lambda>st. \<not> st_setup_failed st) S" "i < length S"
  shows "list_all (\<lambda>st. \<not> st_setup_failed st) S' \<and> plenty m k' \<and> length S' = length S"
proof (cases "1 < length (st_output_files (S ! i))")
  case False
  with assms plenty_mono[OF assms(1), of m] show ?thesis by (auto simp: copier_step_def)
next
  case True
  obtain r w k1 where p: "k_pipe k = (Some (r, w), k1)" "plenty (Suc m) k1" using plenty_pipe[OF assms(1)] by blast
  obtain f k2 where k: "k_fork k1 = (f, k2)" by fastforce
  note fk = plenty_fork[OF p(2) k]
  have ok: "\<not> st_setup_failed (S ! i)" using assms(3,4) by (simp add: list_all_length)
  have "S' = S[i := (S ! i)\<lparr>st_output_writer := f, st_output_pipe := (r, w)\<rparr>]" "plenty m k'"
    using assms(2) p(1) k fk True ok by (auto simp: copier_step_def start_output_copier_def Let_def)
  with assms(3) ok show ?thesis
    by (auto simp: list_all_iff dest!: subsetD[OF set_update_subset_insert])
qed

lemma plenty_copiers:
  assumes "plenty (length S + m) k" "start_copiers pipes S k = (S', k')"
    and "list_all (\<lambda>st. \<not> st_setup_failed st) S"
  shows "list_all (\<lambda>st. \<not> st_setup_failed st) S' \<and> plenty m k' \<and> length S' = length S"
proof -
  have "\<exists>S1 k1. fold (copier_step pipes) [0 ..< i] (S, k) = (S1, k1) \<and> length S1 = length S \<and>
      list_all (\<lambda>st. \<not> st_setup_failed st) S1 \<and> plenty (length S - i + m) k1" if "i \<le> length S" for i
    using that
  proof (induction i)
    case (Suc i)
    then obtain S1 k1 where s: "fold (copier_step pipes) [0 ..< i] (S, k) = (S1, k1)" "length S1 = length S"
      "list_all (\<lambda>st. \<not> st_setup_failed st) S1" "plenty (length S - i + m) k1" by auto
    obtain S2 k2 where c: "copier_step pipes i (S1, k1) = (S2, k2)" by fastforce
    have "plenty (Suc (length S - Suc i + m)) k1" using s(4) Suc.prems by (simp add: Suc_diff_Suc)
    from plenty_copier_step[OF this c s(3)] s(1,2) c Suc.prems show ?case by simp
  qed (use assms in simp)
  from this[of "length S"] assms(2) show ?thesis by (auto simp: start_copiers_def)
qed

text \<open>Closing what has an owner gives the table back.\<close>

lemma ready_restrict:
  assumes rd: "ready base S0 p0 p1 p2 hi pipes S t g" and ok: "list_all (\<lambda>st. \<not> st_setup_failed st) S"
  shows "map_of t |` (- closed_fds S pipes) = base"
proof
  fix fd
  have own: "owns base t g (owned_ok S0 p0 p1 p2 hi)" and b: "bounded g (length S)"
    using rd unfolding ready_def by blast+
  show "(map_of t |` (- closed_fds S pipes)) fd = base fd"
  proof (cases "g fd")
    case None
    then have "fd \<notin> closed_fds S pipes" using closed_fds_owned(1)[OF rd] by blast
    with ownsD_None[OF own None] show ?thesis by simp
  next
    case (Some ow)
    have lt: "\<not> is_link ow \<Longrightarrow> owner_index ow < length S" using b Some unfolding bounded_def by blast
    have "fd \<in> closed_fds S pipes"
    proof (cases ow)
      case (Inp i)
      with Some lt closed_fds_owned(4)[OF rd, of i fd] show ?thesis by simp
    next
      case (Outp i j)
      with lt ok have "i < length S" "\<not> st_setup_failed (S ! i)" by (auto simp: list_all_length)
      with Some Outp closed_fds_owned(5)[OF rd] show ?thesis by blast
    qed (use Some closed_fds_owned(2,3)[OF rd] in blast)+
    with ownsD_Some[OF own Some] show ?thesis by simp
  qed
qed

lemma fork_stages_success:
  assumes "plenty (length S) k" "fork_stages env S pipes k = (children, k')"
  shows "children = take (length S) (forks k)"
    "procs k' = procs k @ map (\<lambda>i. let (t, prog) = stage_child env S i pipes (fds k) in
       \<lparr>p_pid = forks k ! i, p_pgid = Some (hd (forks k)), p_fds = t, p_prog = prog\<rparr>) [0 ..< length S]"
proof -
  let ?step = "fork_step (\<lambda>i t. stage_child env S i pipes t)"
  let ?p = "\<lambda>i. let (t, prog) = stage_child env S i pipes (fds k) in
       \<lparr>p_pid = forks k ! i, p_pgid = Some (hd (forks k)), p_fds = t, p_prog = prog\<rparr>"
  have len: "length S \<le> length (forks k)" and good: "list_all (\<lambda>p. p \<noteq> - 1) (forks k)"
    using assms(1) by (simp_all add: plenty_def)
  have "\<exists>k1. fold ?step [0 ..< i] ([], k) = (take i (forks k), k1) \<and> fds k1 = fds k \<and>
      forks k1 = drop i (forks k) \<and> procs k1 = procs k @ map ?p [0 ..< i]" if "i \<le> length S" for i
    using that
  proof (induction i)
    case (Suc i)
    then obtain k1 where k1: "fold ?step [0 ..< i] ([], k) = (take i (forks k), k1)" "fds k1 = fds k"
      "forks k1 = drop i (forks k)" "procs k1 = procs k @ map ?p [0 ..< i]" by auto
    have i: "i < length (forks k)" using Suc.prems len by simp
    then have ne: "forks k1 \<noteq> []" "hd (forks k1) = forks k ! i" "tl (forks k1) = drop (Suc i) (forks k)"
      using k1(3) by (simp_all add: hd_drop_conv_nth drop_Suc tl_drop)
    let ?k2 = "k1\<lparr>forks := drop (Suc i) (forks k)\<rparr>"
    have fk: "k_fork k1 = (forks k ! i, ?k2)" using ne by (simp add: k_fork_def)
    have pid: "forks k ! i \<noteq> - 1" using good i by (simp add: list_all_length)
    have pid: "forks k ! i \<noteq> - 1" "hd (forks k) \<noteq> - 1"
      using pid good i by (cases "forks k"; simp)+
    have grp: "stage_group (forks k ! i) (take i (forks k)) = Some (hd (forks k))"
      using pid i by (cases i; cases "forks k") (simp_all add: stage_group_def)
    obtain t prog where c: "stage_child env S i pipes (fds k) = (t, prog)" by fastforce
    have "?step i (take i (forks k), k1) = (take i (forks k) @ [forks k ! i],
        spawn (forks k ! i) (Some (hd (forks k))) t prog ?k2)"
      using fk pid(1) c k1(2) grp by (simp add: fork_step_def)
    then show ?case
      using k1 c by (simp add: spawn_def take_Suc_conv_app_nth[OF i])
  qed simp
  from this[of "length S"] assms(2) show "children = take (length S) (forks k)"
    "procs k' = procs k @ map ?p [0 ..< length S]"
    unfolding fork_stages_def by auto
qed

section \<open>Nobody waits in a circle\<close>

text \<open>
  A process waits for the end of the pipe it reads (its standard input, or the pipe it copies from)
  as long as another one keeps a write end open.  Processes that only leave keep nothing open.
\<close>

definition reads_pipe :: "process \<Rightarrow> nat \<Rightarrow> bool" where
  "reads_pipe p n \<longleftrightarrow>
     (case p_prog p of
        Copy_to_all r L \<Rightarrow> map_of (p_fds p) r = Some (Pipe_read n)
      | Exec path argv \<Rightarrow> map_of (p_fds p) 0 = Some (Pipe_read n)
      | _ \<Rightarrow> False)"

definition holds_pipe :: "process \<Rightarrow> nat \<Rightarrow> bool" where
  "holds_pipe p n \<longleftrightarrow>
     (case p_prog p of Exit_now m \<Rightarrow> False | Fault f \<Rightarrow> False | _ \<Rightarrow> holds (p_fds p) n)"

definition may_wait :: "process \<Rightarrow> process \<Rightarrow> bool" where
  "may_wait p q \<longleftrightarrow> (\<exists>n. reads_pipe p n \<and> holds_pipe q n)"

fun tag_rank :: "nat \<Rightarrow> nat \<Rightarrow> tag \<Rightarrow> nat" where
  "tag_rank N M Writer = 0"
| "tag_rank N M (Stage_proc i) = Suc i"
| "tag_rank N M (Copier c) = Suc N + (M - c)"

fun tag_number :: "tag \<Rightarrow> nat" where
  "tag_number Writer = 0"
| "tag_number (Stage_proc i) = i"
| "tag_number (Copier c) = c"

text \<open>What a process with a tag reads and holds.\<close>

lemma good_reads:
  assumes "good base p0 p1 p2 t p" "reads_pipe p n"
  shows "case t of
      Writer \<Rightarrow> False
    | Copier c \<Rightarrow> n = c \<and> p2 \<le> c
    | Stage_proc i \<Rightarrow> p0 \<le> n \<and> n < p1 \<or> 0 < i \<and> n = p1 + (i - 1) \<and> n < p2 \<or> base 0 = Some (Pipe_read n)"
  using assms by (cases t) (auto simp: reads_pipe_def writer_ok_def)

lemma good_holds:
  assumes "good base p0 p1 p2 t p" "holds_pipe p n"
  shows "base_write base n \<or>
    (case t of
       Writer \<Rightarrow> p0 \<le> n \<and> n < p1
     | Copier c \<Rightarrow> p2 \<le> n \<and> n < c
     | Stage_proc i \<Rightarrow> n = p1 + i \<and> n < p2 \<or> p2 \<le> n)"
  using assms
  by (cases t) (auto simp: holds_pipe_def writer_ok_def base_write_def split: program.splits)

lemma good_rank:
  assumes "good base p0 p1 p2 t p" "good base p0 p1 p2 u q" "may_wait p q"
    and "p0 \<le> p1" "p1 \<le> p2" "tag_number t < N" "tag_number u < N"
    and "\<And>n. base_write base n \<Longrightarrow> n < p0"
    and "\<And>n. base 0 = Some (Pipe_read n) \<Longrightarrow> n < p0 \<and> \<not> base_write base n"
  shows "tag_rank N N u < tag_rank N N t"
proof -
  from assms(3) obtain n where n: "reads_pipe p n" "holds_pipe q n" by (auto simp: may_wait_def)
  note r = good_reads[OF assms(1) n(1)] and h = good_holds[OF assms(2) n(2)]
  show ?thesis
  proof (cases t)
    case (Copier c)
    with r h assms(4,5,6,7) assms(8)[of n] show ?thesis by (cases u) auto
  next
    case (Stage_proc i)
    with r h assms(4,5) assms(8,9)[of n] show ?thesis by (cases u) auto
  qed (use r in simp)
qed

lemma tag_number_bound: "\<exists>N. \<forall>t \<in> set tags. tag_number t < N"
proof -
  have "tag_number t < Suc (sum_list (map tag_number tags))" if "t \<in> set tags" for t
    using member_le_sum_list[of "tag_number t" "map tag_number tags"] that by (simp add: less_Suc_eq_le)
  then show ?thesis by blast
qed

text \<open>The shell's own descriptors: open for 0 and 1, and it does not write to its own input.\<close>

definition shell_table_ok :: "kernel \<Rightarrow> bool" where
  "shell_table_ok k \<longleftrightarrow>
     map_of (fds k) 0 \<noteq> None \<and> map_of (fds k) 1 \<noteq> None \<and>
     list_all (\<lambda>(fd, obj). case obj of Pipe_read n \<Rightarrow> n < next_pipe k | Pipe_write n \<Rightarrow> n < next_pipe k | _ \<Rightarrow> True) (fds k) \<and>
     (case map_of (fds k) 0 of Some (Pipe_read n) \<Rightarrow> Pipe_write n \<notin> snd ` set (fds k) | _ \<Rightarrow> True)"

lemma good_acyclic:
  assumes "shell_table_ok k" and t: "list_all2 (good (map_of (fds k)) (next_pipe k) p1 p2) tags ps"
    "next_pipe k \<le> p1" "p1 \<le> p2"
  shows "\<exists>rank :: nat \<Rightarrow> nat. \<forall>a < length ps. \<forall>b < length ps.
    may_wait (ps ! a) (ps ! b) \<longrightarrow> rank b < rank a"
proof -
  let ?base = "map_of (fds k)" and ?p0 = "next_pipe k"
  have low: "n < ?p0" if "?base fd = Some (Pipe_write n) \<or> ?base fd = Some (Pipe_read n)" for fd n
  proof -
    from that have "(fd, Pipe_write n) \<in> set (fds k) \<or> (fd, Pipe_read n) \<in> set (fds k)"
      by (auto dest: map_of_SomeD)
    with assms(1) show ?thesis by (auto simp: shell_table_ok_def list_all_iff)
  qed
  have w: "n < ?p0" if "base_write ?base n" for n
    using that low unfolding base_write_def by (metis rangeE)
  have z: "n < ?p0 \<and> \<not> base_write ?base n" if "?base 0 = Some (Pipe_read n)" for n
  proof -
    have "Pipe_write n \<notin> snd ` set (fds k)" using assms(1) that by (simp add: shell_table_ok_def)
    then have "?base fd \<noteq> Some (Pipe_write n)" for fd using map_of_SomeD[of "fds k" fd "Pipe_write n"] by force
    then have "\<not> base_write ?base n" unfolding base_write_def by (metis rangeE)
    with low that show ?thesis by blast
  qed
  obtain N where N: "\<forall>t \<in> set tags. tag_number t < N" using tag_number_bound by blast
  have "tag_rank N N (tags ! b) < tag_rank N N (tags ! a)"
    if ab: "a < length ps" "b < length ps" "may_wait (ps ! a) (ps ! b)" for a b
  proof (rule good_rank[OF _ _ ab(3) t(2,3) _ _ w z])
    show "good ?base ?p0 p1 p2 (tags ! a) (ps ! a)" "good ?base ?p0 p1 p2 (tags ! b) (ps ! b)"
      "tag_number (tags ! a) < N" "tag_number (tags ! b) < N"
      using t(1) N ab by (simp_all add: list_all2_conv_all_nth)
  qed
  then show ?thesis by (intro exI[of _ "\<lambda>a. tag_rank N N (tags ! a)"]) blast
qed


definition tty_kernel :: kernel where
  "tty_kernel = \<lparr>fds = [(0, Device 0), (1, Device 1), (2, Device 2)], next_pipe = 0, refuse = [],
     forks = [101, 102, 103, 104, 105, 106], procs = [], printed = []\<rparr>"

definition find_all :: search_env where
  "find_all = \<lparr>stat_regular = (\<lambda>p. Some True), x_access = (\<lambda>p. True), env_PATH = None, env_cwd = None\<rparr>"

definition ls_cat :: "pipeline_stage list" where
  "ls_cat = [fresh_stage [''/ls''] [] [],
     fresh_stage [''/cat''] [] [\<lparr>of_name = ''a'', of_append = False\<rparr>, \<lparr>of_name = ''b'', of_append = True\<rparr>]]"


text \<open>
  Stage \<open>i\<close> of \<open>n\<close> runs its program with the shell's descriptors and the right input and output;
  \<open>link\<close> is the number of the first pipe between stages.
\<close>

definition stage_connected :: "search_env \<Rightarrow> kernel \<Rightarrow> nat \<Rightarrow> nat \<Rightarrow> pipeline_stage \<Rightarrow> nat \<Rightarrow> process \<Rightarrow> bool" where
  "stage_connected env k link n st i p \<longleftrightarrow>
     (\<forall>argv0 path. resolve_command env (hd (st_argv st)) = Inr (argv0, Some path) \<longrightarrow>
        p_prog p = Exec path (argv0 # tl (st_argv st)) \<and>
        (\<exists>stdin stdout. map_of (p_fds p) = (map_of (fds k))(0 \<mapsto> stdin, 1 \<mapsto> stdout) \<and>
           (if st_input_files st \<noteq> [] then \<exists>m. stdin = Pipe_read m \<and> next_pipe k \<le> m \<and> m < link
            else if 0 < i then stdin = Pipe_read (link + (i - 1))
            else map_of (fds k) 0 = Some stdin) \<and>
           (if length (st_output_files st) > 1 then \<exists>m. stdout = Pipe_write m \<and> link + (n - 1) \<le> m
            else if length (st_output_files st) = 1 then stdout = out_obj (hd (st_output_files st))
            else if i < n - 1 then stdout = Pipe_write (link + i)
            else map_of (fds k) 1 = Some stdout)))"

lemma stage_connected:
  assumes rd: "ready (map_of (fds k)) S0 (next_pipe k) p1 p2 hi pipes S t g"
    and ok: "list_all (\<lambda>st. \<not> st_setup_failed st) S" and i: "i < length S"
  shows "stage_connected env k p1 (length S) (S0 ! i) i
    (let (t, prog) = stage_child env S i pipes t in \<lparr>p_pid = pid, p_pgid = pg, p_fds = t, p_prog = prog\<rparr>)"
  unfolding stage_connected_def
proof (intro allI impI)
  let ?base = "map_of (fds k)"
  fix argv0 path assume r0: "resolve_command env (hd (st_argv (S0 ! i))) = Inr (argv0, Some path)"
  have oki: "\<not> st_setup_failed (S ! i)" using ok i by (simp add: list_all_length)
  have same: "same_command (S ! i) (S0 ! i)" and si: "stage_own g i (S ! i)"
    and p2: "p2 = p1 + length pipes" "length pipes = length S - 1"
    using rd i unfolding ready_def all_own_def by auto
  then have c: "st_argv (S ! i) = st_argv (S0 ! i)" "st_input_files (S ! i) = st_input_files (S0 ! i)"
    "st_output_files (S ! i) = st_output_files (S0 ! i)" by (simp_all add: same_command_def)
  have r: "resolve_command env (hd (st_argv (S ! i))) = Inr (argv0, Some path)" using r0 c by simp
  from enter_stage_table[OF rd i oki r] obtain t' o1 o2 where t':
    "stage_child env S i pipes t = (t', Exec path (argv0 # tl (st_argv (S ! i))))"
    "map_of t' = (map_of t)(0 \<mapsto> o1, 1 \<mapsto> o2) |` (- closed_fds S pipes)"
    "input_obj ?base (next_pipe k) p1 (S ! i) i o1" "output_obj ?base p1 p2 (length S - 1) (S ! i) i o2"
    using oki by (auto simp: stage_child_def)
  have std: "0 \<notin> closed_fds S pipes" "1 \<notin> closed_fds S pipes"
    using closed_fds_owned(1)[OF rd] ready_std[OF rd] by blast+
  have "map_of t' = (map_of t |` (- closed_fds S pipes))(0 \<mapsto> o1, 1 \<mapsto> o2)"
    unfolding t'(2) using std by (auto simp: fun_eq_iff restrict_map_def)
  also have "\<dots> = ?base(0 \<mapsto> o1, 1 \<mapsto> o2)" by (simp only: ready_restrict[OF rd ok])
  finally have table: "map_of t' = ?base(0 \<mapsto> o1, 1 \<mapsto> o2)" .
  have inp: "st_input_fd (S ! i) \<noteq> - 1 \<longleftrightarrow> st_input_files (S0 ! i) \<noteq> []"
    using stage_ownD(6,7)[OF si] oki c by auto
  let ?p = "let (t, prog) = stage_child env S i pipes t
    in \<lparr>p_pid = pid, p_pgid = pg, p_fds = t, p_prog = prog\<rparr>"
  have pp: "p_prog ?p = Exec path (argv0 # tl (st_argv (S0 ! i)))" "p_fds ?p = t'"
    using t'(1) c by simp_all
  have ins: "if st_input_files (S0 ! i) \<noteq> [] then \<exists>m. o1 = Pipe_read m \<and> next_pipe k \<le> m \<and> m < p1
      else if 0 < i then o1 = Pipe_read (p1 + (i - 1)) else ?base 0 = Some o1"
    using t'(3) unfolding input_obj_def inp .
  have outs: "if length (st_output_files (S0 ! i)) > 1 then \<exists>m. o2 = Pipe_write m \<and> p1 + (length S - 1) \<le> m
      else if length (st_output_files (S0 ! i)) = 1 then o2 = out_obj (hd (st_output_files (S0 ! i)))
      else if i < length S - 1 then o2 = Pipe_write (p1 + i) else ?base 1 = Some o2"
    using t'(4) p2 unfolding output_obj_def c
    by (cases "st_output_files (S0 ! i)"; cases "tl (st_output_files (S0 ! i))") (auto split: if_splits)
  show "p_prog ?p = Exec path (argv0 # tl (st_argv (S0 ! i))) \<and>
      (\<exists>stdin stdout. map_of (p_fds ?p) = ?base(0 \<mapsto> stdin, 1 \<mapsto> stdout) \<and>
         (if st_input_files (S0 ! i) \<noteq> [] then \<exists>m. stdin = Pipe_read m \<and> next_pipe k \<le> m \<and> m < p1
          else if 0 < i then stdin = Pipe_read (p1 + (i - 1)) else ?base 0 = Some stdin) \<and>
         (if length (st_output_files (S0 ! i)) > 1 then \<exists>m. stdout = Pipe_write m \<and> p1 + (length S - 1) \<le> m
          else if length (st_output_files (S0 ! i)) = 1 then stdout = out_obj (hd (st_output_files (S0 ! i)))
          else if i < length S - 1 then stdout = Pipe_write (p1 + i) else ?base 1 = Some stdout))"
    unfolding pp table using ins outs by blast
qed

lemma fork_stages_table:
  assumes "fork_stages env S pipes k = (cs, k')"
  shows "fds k' = fds k"
proof -
  have "fds (snd (fold (fork_step (\<lambda>i t. stage_child env S i pipes t)) xs ck)) = fds (snd ck)" for xs ck
  proof (induction xs arbitrary: ck)
    case (Cons x xs)
    obtain cs k1 where ck: "ck = (cs, k1)" by fastforce
    obtain pid k2 where f: "k_fork k1 = (pid, k2)" by fastforce
    have "fds (snd (fork_step (\<lambda>i t. stage_child env S i pipes t) x ck)) = fds (snd ck)"
      using k_fork_frame(1)[OF f] f by (simp add: ck fork_step_def spawn_def split: prod.split)
    with Cons show ?case by simp
  qed simp
  from this[of "[0 ..< length S]" "([], k)"] assms show ?thesis by (simp add: fork_stages_def)
qed

lemma launch_ready:
  assumes k: "shell_table_ok k" "procs k = []" and S0: "list_all pristine stages"
    and ok: "refuse k = []" "list_all (\<lambda>p. p \<noteq> - 1) (forks k)" "3 * length stages \<le> length (forks k)"
  shows "\<exists>S pipes k3 g p1.
    ready (map_of (fds k)) stages (next_pipe k) p1 (p1 + (length stages - 1)) (next_pipe k3) pipes S (fds k3) g \<and>
    list_all (\<lambda>st. \<not> st_setup_failed st) S \<and> plenty (length S) k3 \<and> length S = length stages \<and>
    (\<forall>env. launch_pipeline env stages k = (let (cs, k4) = fork_stages env S pipes k3
      in (Some cs, close_parent_fds S pipes k4)))"
proof -
  let ?base = "map_of (fds k)" and ?p0 = "next_pipe k" and ?n = "length stages"
  have pl: "plenty (?n + (?n + ?n)) k" using ok by (simp add: plenty_def)
  have std: "?base 0 \<noteq> None" "?base 1 \<noteq> None" using k(1) by (auto simp: shell_table_ok_def)
  obtain S1 k1 where e1: "setup_stages stages k = (S1, k1)" by fastforce
  note s1 = plenty_setup_stages[OF pl S0 e1]
  obtain pipes k2 where e2: "make_pipes (length S1 - 1) [] k1 = (Inr pipes, k2)" "plenty (?n + ?n) k2"
    using plenty_make_pipes[of "?n + ?n" k1] s1 by blast
  let ?p1 = "next_pipe k1"
  from launch_setup[OF k(2) S0 e1 e2(1)] obtain g ps where g:
    "owns ?base (fds k2) g (owned_ok stages ?p0 ?p1 (?p1 + length pipes) (next_pipe k2))" "link_own g pipes"
    "all_own g stages S1" "bounded g (length S1)" "\<forall>i < length S1. st_output_pipe (S1 ! i) = (- 1, - 1)"
    "next_pipe k2 = ?p1 + length pipes" "length pipes = length S1 - 1" "procs k2 = ps"
    "list_all (writer_ok ?base ?p0 ?p1) ps"
    unfolding both_def sum.case by blast
  have n1: "length S1 = ?n" using g(3) by (simp add: all_own_def)
  let ?p2 = "?p1 + length pipes"
  have "list_all2 (good ?base ?p0 ?p1 ?p2) (replicate (length ps) Writer) (procs k2)"
    using g(8,9) by (simp add: list_all2_conv_all_nth list_all_length)
  with g have inv: "copier_inv ?base stages ?p0 ?p1 ?p2 pipes 0 S1 k2 g (replicate (length ps) Writer)"
    unfolding copier_inv_def by simp
  obtain S2 k3 where e3: "start_copiers pipes S1 k2 = (S2, k3)" by fastforce
  have "plenty (length S1 + ?n) k2" using e2(2) n1 by simp
  from plenty_copiers[OF this e3] s1 n1 have s2: "list_all (\<lambda>st. \<not> st_setup_failed st) S2"
    "plenty (length S2) k3" "length S2 = ?n" by auto
  from start_copiers_inv[OF inv e3] obtain g3 tags where
    "copier_inv ?base stages ?p0 ?p1 ?p2 pipes (length S2) S2 k3 g3 tags" by blast
  then have "ready ?base stages ?p0 ?p1 ?p2 (next_pipe k3) pipes S2 (fds k3) g3"
    using std g(7) s2(3) n1 unfolding copier_inv_def ready_def by simp
  moreover have "?p2 = ?p1 + (?n - 1)" using g(7) n1 by simp
  moreover have "launch_pipeline env stages k = (let (cs, k4) = fork_stages env S2 pipes k3
      in (Some cs, close_parent_fds S2 pipes k4))" for env
    using e1 e2(1) e3 by (simp add: launch_pipeline_def)
  ultimately show ?thesis using s2 by metis
qed



end
