(* ===== verification/Background_Run.thy ===== *)
theory Background_Run
  imports Pipeline_Wiring
begin

text \<open>
  Commands in the background: \<open>run_background\<close> of \<open>c-shell/src/background.c\<close> for a single command and
  \<open>run_pipeline_background\<close> of \<open>c-shell/src/command.c\<close> for a pipeline.  Kernel and processes are
  those of the foreground pipelines.
\<close>

section \<open>A single command\<close>

text \<open>From \<open>fork\<close> to \<open>execv\<close> in the child.\<close>

definition background_child :: "cstring \<Rightarrow> cstring list \<Rightarrow> int \<Rightarrow> int list \<Rightarrow> int \<times> int \<Rightarrow> fdtab \<Rightarrow>
    fdtab \<times> program" where
  "background_child path argv input_fd outs output_pipe t =
     (case (if input_fd \<noteq> - 1 then map_option (AList.delete input_fd) (dup2 input_fd 0 t) else Some t) of
        None \<Rightarrow> (t, Exit_now [])
      | Some t \<Rightarrow>
          (case (if length outs = 1 then map_option (AList.delete (hd outs)) (dup2 (hd outs) 1 t)
                 else if 1 < length outs then
                   map_option (\<lambda>t. close_fds outs (AList.delete (snd output_pipe) t))
                     (dup2 (snd output_pipe) 1 (AList.delete (fst output_pipe) t))
                 else Some t) of
             None \<Rightarrow> (t, Exit_now [])
           | Some t \<Rightarrow> (t, Exec path argv)))"

definition close_input :: "int \<Rightarrow> kernel \<Rightarrow> kernel" where
  "close_input input_fd k = (if input_fd \<noteq> - 1 then k_close input_fd k else k)"

text \<open>
  The output pipe and its copier, for more than one file: None if it cannot be started (everything
  is closed then).
\<close>

definition background_copier :: "int \<Rightarrow> int list \<Rightarrow> kernel \<Rightarrow> (int \<times> int) option \<times> kernel" where
  "background_copier input_fd outs k =
     (if 1 < length outs then
        (case k_pipe k of
           (None, k) \<Rightarrow> (None, close_all outs (close_input input_fd k))
         | (Some (r, w), k) \<Rightarrow>
             let (pid, k) = k_fork k
             in if pid = - 1
                then (None, close_all outs (close_input input_fd (close_all [r, w] k)))
                else (Some (r, w), spawn pid None (AList.delete w (fds k)) (Copy_to_all r outs) k))
      else (Some (- 1, - 1), k))"

definition background_close :: "int \<Rightarrow> int list \<Rightarrow> int \<times> int \<Rightarrow> kernel \<Rightarrow> kernel" where
  "background_close input_fd outs output_pipe k =
     (let k = close_input input_fd k
      in if length outs = 1 then k_close (hd outs) k
         else if 1 < length outs then close_all ([fst output_pipe, snd output_pipe] @ outs) k
         else k)"

text \<open>The result code, the pid of the command (-1 if there is none), the messages, the kernel.\<close>

definition launch_background :: "cstring \<Rightarrow> cstring list \<Rightarrow> cstring list \<Rightarrow> output_file list \<Rightarrow> kernel \<Rightarrow>
    int \<times> int \<times> cstring \<times> kernel" where
  "launch_background path argv input_files files k =
     (let (input_fd, writer_pid, k) =
            (if input_files \<noteq> [] then setup_input input_files k else (- 1, - 1, k))
      in if input_files \<noteq> [] \<and> input_fd = - 1
         then (1, - 1, ''cshell: no such file or directory'' @ [CHR 0x0A], k)
         else case (if files \<noteq> [] then open_output_files files k else (Some [], k)) of
                (None, k) \<Rightarrow> (1, - 1, [], close_input input_fd k)
              | (Some outs, k) \<Rightarrow>
                  (case background_copier input_fd outs k of
                     (None, k) \<Rightarrow> (1, - 1, [], k)
                   | (Some output_pipe, k) \<Rightarrow>
                       let (pid, k) = k_fork k
                       in if pid = - 1 then (1, - 1, [],
                            close_all outs
                              (if 1 < length outs
                               then close_all [fst output_pipe, snd output_pipe] (close_input input_fd k)
                               else close_input input_fd k))
                          else
                            let (t, prog) = background_child path argv input_fd outs output_pipe (fds k)
                            in (0, pid, [],
                                background_close input_fd outs output_pipe (spawn pid (Some pid) t prog k))))"

definition run_background :: "cstring \<Rightarrow> cstring list \<Rightarrow> cstring list \<Rightarrow> output_file list \<Rightarrow> kernel \<Rightarrow> shell \<Rightarrow>
    int \<times> kernel \<times> shell" where
  "run_background path argv input_files files k sh =
     (let (res, pid, msg, k') = launch_background path argv input_files files (k\<lparr>printed := []\<rparr>);
          sh = puts_err msg (puts_out (printed k') sh)
      in (res, k',
          if pid = - 1 then sh
          else (register_background_job pid [pid] [hd argv] 1 (Some (join_args argv [])) (fst sh), snd sh)))"

section \<open>A pipeline\<close>

definition bg_copier_step :: "nat \<Rightarrow> pipeline_stage list \<times> kernel \<Rightarrow> pipeline_stage list \<times> kernel" where
  "bg_copier_step i =
     (\<lambda>(stages, k).
        let st = stages ! i in
        if length (st_output_files st) > 1 \<and> \<not> st_setup_failed st then
          (case k_pipe k of
             (None, k) \<Rightarrow> (stages[i := st\<lparr>st_setup_failed := True\<rparr>], k)
           | (Some (r, w), k) \<Rightarrow>
               let (pid, k) = k_fork k
               in if pid = - 1 then
                    (stages[i := st\<lparr>st_output_pipe := (r, w), st_output_writer := - 1,
                                    st_setup_failed := True\<rparr>], close_all [r, w] k)
                  else
                    (stages[i := st\<lparr>st_output_pipe := (r, w), st_output_writer := pid\<rparr>],
                     spawn pid None (AList.delete w (fds k)) (Copy_to_all r (st_output_fds st)) k))
        else (stages, k))"

definition bg_start_copiers :: "pipeline_stage list \<Rightarrow> kernel \<Rightarrow> pipeline_stage list \<times> kernel" where
  "bg_start_copiers stages k = fold bg_copier_step [0 ..< length stages] (stages, k)"

definition bg_stage_child :: "search_env \<Rightarrow> pipeline_stage list \<Rightarrow> nat \<Rightarrow> (int \<times> int) list \<Rightarrow> fdtab \<Rightarrow>
    fdtab \<times> program" where
  "bg_stage_child env stages i pipes t =
     (if st_setup_failed (stages ! i) then (t, Exit_now []) else enter_stage env stages i pipes t)"

definition bg_fork_stages :: "search_env \<Rightarrow> pipeline_stage list \<Rightarrow> (int \<times> int) list \<Rightarrow> kernel \<Rightarrow>
    int list \<times> kernel" where
  "bg_fork_stages env stages pipes k =
     fold (fork_step (\<lambda>i t. bg_stage_child env stages i pipes t)) [0 ..< length stages] ([], k)"

definition launch_pipeline_background :: "search_env \<Rightarrow> pipeline_stage list \<Rightarrow> kernel \<Rightarrow>
    int list option \<times> kernel" where
  "launch_pipeline_background env stages k =
     (let (stages, k) = setup_stages stages k in
      case make_pipes (length stages - 1) [] k of
        (Inl pipes, k) \<Rightarrow> (None, close_all (concat (map input_end stages)) k)
      | (Inr pipes, k) \<Rightarrow>
          let (stages, k) = bg_start_copiers stages k;
              (children, k) = bg_fork_stages env stages pipes k
          in (Some children, close_parent_fds stages pipes k))"

definition run_pipeline_background :: "search_env \<Rightarrow> pipeline_stage list \<Rightarrow> kernel \<Rightarrow> shell \<Rightarrow>
    fault + int \<times> kernel \<times> shell" where
  "run_pipeline_background env stages k sh =
     (if ARR < length stages then Inl Array_Overflow
      else
        let (started, k') = launch_pipeline_background env stages (k\<lparr>printed := []\<rparr>);
            sh = puts_out (printed k') sh
        in case started of
             None \<Rightarrow> Inr (1, k', sh)
           | Some children \<Rightarrow>
               let live = live_children children stages
               in Inr (0, k',
                    if hd children \<noteq> - 1
                    then (register_background_job (hd children) (map fst live) (map snd live) (length live)
                            (Some (pipeline_cmdline (map st_argv stages) True [])) (fst sh), snd sh)
                    else sh))"

section \<open>The table of a single command\<close>

definition bg_closed :: "int \<Rightarrow> int list \<Rightarrow> int \<times> int \<Rightarrow> int set" where
  "bg_closed input_fd outs p =
     (if input_fd \<noteq> - 1 then {input_fd} else {}) \<union> set outs \<union>
     (if 1 < length outs then {fst p, snd p} else {})"

lemma map_close_input [simp]:
  "map_of (fds (close_input fd k)) = map_of (fds k) |` (- (if fd \<noteq> - 1 then {fd} else {}))"
  by (auto simp: close_input_def k_close_def fun_eq_iff restrict_map_def)

lemma map_close_all [simp]: "map_of (fds (close_all L k)) = map_of (fds k) |` (- set L)"
  by (simp add: close_all_def)

lemma procs_close [simp]:
  "procs (close_input fd k) = procs k" "procs (close_all L k) = procs k" "procs (k_close fd k) = procs k"
  by (simp_all add: close_input_def close_all_def k_close_def)

lemma background_close_table:
  "map_of (fds (background_close input_fd outs p k)) = map_of (fds k) |` (- bg_closed input_fd outs p)"
proof -
  consider "outs = []" | x where "outs = [x]" | "1 < length outs" by (cases outs; cases "tl outs") auto
  then show ?thesis
    by cases (auto simp: background_close_def bg_closed_def k_close_def Let_def fun_eq_iff restrict_map_def)
qed

text \<open>The descriptors that the shell has set up for the command; \<open>oi\<close> and \<open>oo\<close> are its input and output.\<close>

definition bg_ready :: "int \<Rightarrow> int list \<Rightarrow> int \<times> int \<Rightarrow> file_obj option \<Rightarrow> file_obj option \<Rightarrow>
    (int \<rightharpoonup> file_obj) \<Rightarrow> bool" where
  "bg_ready input_fd outs p oi oo m \<longleftrightarrow>
     0 \<notin> bg_closed input_fd outs p \<and> 1 \<notin> bg_closed input_fd outs p \<and>
     oi = (if input_fd \<noteq> - 1 then m input_fd else m 0) \<and> oi \<noteq> None \<and>
     oo = (if outs = [] then m 1 else if length outs = 1 then m (hd outs) else m (snd p)) \<and> oo \<noteq> None \<and>
     (input_fd \<noteq> - 1 \<longrightarrow> input_fd \<notin> set outs \<and> (1 < length outs \<longrightarrow> input_fd \<noteq> fst p \<and> input_fd \<noteq> snd p)) \<and>
     (1 < length outs \<longrightarrow> fst p \<noteq> snd p)"

lemma background_child_table:
  assumes "bg_ready input_fd outs p oi oo (map_of t)"
  shows "\<exists>t'. background_child path argv input_fd outs p t = (t', Exec path argv) \<and>
    map_of t' = (map_of t |` (- bg_closed input_fd outs p))(0 := oi, 1 := oo)"
proof -
  let ?t1 = "if input_fd \<noteq> - 1 then map_option (AList.delete input_fd) (dup2 input_fd 0 t) else Some t"
  have "\<exists>t1. ?t1 = Some t1 \<and> map_of t1 = (map_of t |` (- (if input_fd \<noteq> - 1 then {input_fd} else {})))(0 := oi)"
    using assms by (auto simp: bg_ready_def bg_closed_def dup2_def fun_eq_iff restrict_map_def)
  then obtain t1 where t1: "?t1 = Some t1"
    "map_of t1 = (map_of t |` (- (if input_fd \<noteq> - 1 then {input_fd} else {})))(0 := oi)" by blast
  let ?t2 = "if length outs = 1 then map_option (AList.delete (hd outs)) (dup2 (hd outs) 1 t1)
     else if 1 < length outs then map_option (\<lambda>t. close_fds outs (AList.delete (snd p) t))
       (dup2 (snd p) 1 (AList.delete (fst p) t1))
     else Some t1"
  have "\<exists>t2. ?t2 = Some t2 \<and> map_of t2 = (map_of t |` (- bg_closed input_fd outs p))(0 := oi, 1 := oo)"
  proof -
    consider "outs = []" | x where "outs = [x]" | "1 < length outs" by (cases outs; cases "tl outs") auto
    then show ?thesis
    proof cases
      case 1
      then show ?thesis using assms t1(2)
        by (auto simp: bg_ready_def bg_closed_def fun_eq_iff restrict_map_def)
    next
      case (2 x)
      have "map_of t1 x = oo"
        using assms 2 t1(2) by (auto simp: bg_ready_def bg_closed_def restrict_map_def split: if_splits)
      moreover obtain o2 where o2: "oo = Some o2" using assms by (auto simp: bg_ready_def)
      ultimately have "?t2 = Some (AList.delete x (AList.update 1 o2 t1))" using 2 by (simp add: dup2_def)
      moreover have "map_of (AList.delete x (AList.update 1 o2 t1)) =
          (map_of t |` (- bg_closed input_fd outs p))(0 := oi, 1 := oo)"
        using assms 2 t1(2) o2 by (auto simp: bg_ready_def bg_closed_def fun_eq_iff restrict_map_def)
      ultimately show ?thesis by blast
    next
      case 3
      have "map_of t1 (snd p) = oo" "outs \<noteq> []" "length outs \<noteq> 1"
        using assms 3 t1(2) by (auto simp: bg_ready_def bg_closed_def restrict_map_def split: if_splits)
      moreover obtain o2 where o2: "oo = Some o2" using assms by (auto simp: bg_ready_def)
      moreover have "fst p \<noteq> snd p" using assms 3 by (simp add: bg_ready_def)
      ultimately have "?t2 = Some (close_fds outs (AList.delete (snd p) (AList.update 1 o2 (AList.delete (fst p) t1))))"
        using 3 by (simp add: dup2_def)
      moreover have "map_of (close_fds outs (AList.delete (snd p) (AList.update 1 o2 (AList.delete (fst p) t1)))) =
          (map_of t |` (- bg_closed input_fd outs p))(0 := oi, 1 := oo)"
        using assms 3 t1(2) o2 by (auto simp: bg_ready_def bg_closed_def fun_eq_iff restrict_map_def)
      ultimately show ?thesis by blast
    qed
  qed
  with t1(1) show ?thesis by (auto simp: background_child_def)
qed


section \<open>A single command from start to end\<close>

text \<open>
  The state before the copier: \<open>inp\<close> is the descriptor for the input files (or -1), \<open>outs\<close> those of
  the output files.
\<close>

definition bg_opened :: "kernel \<Rightarrow> output_file list \<Rightarrow> int \<Rightarrow> int list \<Rightarrow> kernel \<Rightarrow> bool" where
  "bg_opened k files inp outs k2 \<longleftrightarrow>
     length outs = length files \<and>
     (\<forall>j < length outs. map_of (fds k) (outs ! j) = None \<and> outs ! j \<noteq> inp \<and>
        map_of (fds k2) (outs ! j) = Some (out_obj (files ! j))) \<and>
     (inp \<noteq> - 1 \<longrightarrow> map_of (fds k) inp = None \<and> map_of (fds k2) inp = Some (Pipe_read (next_pipe k)) \<and>
        next_pipe k < next_pipe k2) \<and>
     (\<forall>fd. fd \<notin> set outs \<longrightarrow> inp = - 1 \<or> fd \<noteq> inp \<longrightarrow> map_of (fds k2) fd = map_of (fds k) fd) \<and>
     list_all (writer_ok (map_of (fds k)) (next_pipe k) (next_pipe k2)) (procs k2) \<and>
     next_pipe k \<le> next_pipe k2"

lemma bg_openedD:
  assumes "bg_opened k files inp outs k2"
  shows "fd \<in> set outs \<Longrightarrow> map_of (fds k) fd = None \<and> fd \<noteq> inp \<and> (\<exists>f. map_of (fds k2) fd = Some (out_obj f))"
    and "inp \<noteq> - 1 \<Longrightarrow> map_of (fds k) inp = None \<and> map_of (fds k2) inp = Some (Pipe_read (next_pipe k)) \<and>
      next_pipe k < next_pipe k2"
    and "fd \<notin> set outs \<Longrightarrow> inp = - 1 \<or> fd \<noteq> inp \<Longrightarrow> map_of (fds k2) fd = map_of (fds k) fd"
    and "map_of (fds k2) fd = None \<Longrightarrow> map_of (fds k) fd = None"
    and "length files = 1 \<Longrightarrow> map_of (fds k2) (hd outs) = Some (out_obj (hd files))"
proof -
  note D = assms[unfolded bg_opened_def]
  have len: "length outs = length files" by (rule D[THEN conjunct1])
  have at: "\<forall>j < length outs. map_of (fds k) (outs ! j) = None \<and> outs ! j \<noteq> inp \<and>
        map_of (fds k2) (outs ! j) = Some (out_obj (files ! j))" by (rule D[THEN conjunct2, THEN conjunct1])
  show o: "map_of (fds k) fd = None \<and> fd \<noteq> inp \<and> (\<exists>f. map_of (fds k2) fd = Some (out_obj f))"
    if in_outs: "fd \<in> set outs" for fd
  proof -
    obtain j where "j < length outs" "fd = outs ! j" using in_outs by (metis in_set_conv_nth)
    with at show ?thesis by (intro conjI exI[of _ "files ! j"]) simp_all
  qed
  show i: "map_of (fds k) inp = None \<and> map_of (fds k2) inp = Some (Pipe_read (next_pipe k)) \<and>
      next_pipe k < next_pipe k2" if "inp \<noteq> - 1"
    using D[THEN conjunct2, THEN conjunct2, THEN conjunct1] that by (rule mp)
  show old: "map_of (fds k2) fd = map_of (fds k) fd" if "fd \<notin> set outs" "inp = - 1 \<or> fd \<noteq> inp" for fd
    using D[THEN conjunct2, THEN conjunct2, THEN conjunct2, THEN conjunct1, rule_format, OF that] .
  show "map_of (fds k) fd = None" if "map_of (fds k2) fd = None" for fd
  proof (cases "fd \<in> set outs")
    case False
    have "inp = - 1 \<or> fd \<noteq> inp" using i that by auto
    from old[OF False this] that show ?thesis by simp
  qed (use o in blast)
  show "map_of (fds k2) (hd outs) = Some (out_obj (hd files))" if one: "length files = 1"
  proof -
    obtain f where f: "files = [f]" using one by (auto simp: length_Suc_conv)
    obtain x where x: "outs = [x]" using len f by (auto simp: length_Suc_conv)
    from at show ?thesis by (simp add: f x)
  qed
qed

lemma bg_input:
  assumes "procs k = []" "(if ins \<noteq> [] then setup_input ins k else (- 1, - 1, k)) = (inp, w, k1)"
  shows "bg_opened k [] inp [] k1"
proof (cases "ins \<noteq> []")
  case False
  with assms show ?thesis by (auto simp: bg_opened_def)
next
  case True
  then have e: "setup_input ins k = (inp, w, k1)" using assms(2) by simp
  have "owns (map_of (fds k)) (fds k) Map.empty (early [] (next_pipe k) (next_pipe k))" by (simp add: owns_def)
  from setup_input_own[OF this order_refl e] obtain ps where
    "procs k1 = ps" "list_all (writer_ok (map_of (fds k)) (next_pipe k) (next_pipe k1)) ps"
    using assms(1) by auto
  with setup_input_effect[OF e] show ?thesis by (auto simp: bg_opened_def split: if_splits)
qed

lemma bg_outputs:
  assumes "bg_opened k [] inp [] k1" "open_outputs files [] k1 = (Some outs, k2)"
  shows "bg_opened k files inp outs k2"
proof -
  from open_outputs_effect[OF assms(2)] have o: "opened (map out_obj files) outs k1 k2" by simp
  then have len: "length outs = length files" and rest: "map_of (fds k2) |` (- set outs) = map_of (fds k1)"
    and at: "\<And>j. j < length outs \<Longrightarrow> map_of (fds k1) (outs ! j) = None \<and> 0 \<le> outs ! j \<and>
      map_of (fds k2) (outs ! j) = Some (out_obj (files ! j))"
    and pr: "procs k2 = procs k1" "next_pipe k2 = next_pipe k1" by (auto simp: opened_def)
  have old: "map_of (fds k2) fd = map_of (fds k1) fd" if "fd \<notin> set outs" for fd
    using fun_cong[OF rest, of fd] that by simp
  have b: "map_of (fds k1) fd = map_of (fds k) fd" if "inp = - 1 \<or> fd \<noteq> inp" for fd
    using assms(1) that by (intro bg_openedD(3)) auto
  have ip: "map_of (fds k) inp = None \<and> map_of (fds k1) inp = Some (Pipe_read (next_pipe k)) \<and> next_pipe k < next_pipe k1"
    if "inp \<noteq> - 1" using assms(1) that by (simp add: bg_opened_def)
  have "map_of (fds k) (outs ! j) = None \<and> outs ! j \<noteq> inp" if "j < length outs" for j
  proof -
    have "outs ! j \<noteq> inp" using at[OF that] ip by (cases "inp = - 1") auto
    with at[OF that] b[of "outs ! j"] show ?thesis by simp
  qed
  moreover have "inp \<notin> set outs" if "inp \<noteq> - 1" using ip[OF that] at by (fastforce simp: in_set_conv_nth)
  then have "map_of (fds k2) inp = Some (Pipe_read (next_pipe k))" if "inp \<noteq> - 1" using ip[OF that] old that by simp
  ultimately show ?thesis using len at old b ip pr assms(1) by (auto simp: bg_opened_def)
qed

text \<open>Closing the input and the output files gives the table back.\<close>

lemma bg_opened_close:
  assumes "bg_opened k files inp outs k2"
    and "set outs \<union> (if inp \<noteq> - 1 then {inp} else {}) \<subseteq> C"
    and "\<And>fd. fd \<in> C \<Longrightarrow> fd \<in> set outs \<or> inp \<noteq> - 1 \<and> fd = inp \<or> map_of (fds k2) fd = None"
  shows "map_of (fds k2) |` (- C) = map_of (fds k)"
proof
  fix fd
  note o = bg_openedD[OF assms(1)]
  show "(map_of (fds k2) |` (- C)) fd = map_of (fds k) fd"
  proof (cases "fd \<in> C")
    case True
    then show ?thesis using assms(3)[OF True] o(1,4)[of fd] o(2) by auto
  next
    case False
    then have "fd \<notin> set outs" "inp = - 1 \<or> fd \<noteq> inp" using assms(2) by (auto split: if_splits)
    with False o(3) show ?thesis by simp
  qed
qed

text \<open>The copier, and the state in which the command is forked.\<close>

definition bg_set_up :: "kernel \<Rightarrow> output_file list \<Rightarrow> int \<Rightarrow> int list \<Rightarrow> int \<times> int \<Rightarrow> kernel \<Rightarrow> bool" where
  "bg_set_up k files inp outs p k3 \<longleftrightarrow>
     map_of (fds k3) |` (- bg_closed inp outs p) = map_of (fds k) \<and>
     (\<exists>oi oo p1. bg_ready inp outs p oi oo (map_of (fds k3)) \<and> next_pipe k \<le> p1 \<and>
        (if inp \<noteq> - 1 then \<exists>n. oi = Some (Pipe_read n) \<and> next_pipe k \<le> n \<and> n < p1 else oi = map_of (fds k) 0) \<and>
        (if files = [] then oo = map_of (fds k) 1
         else if length files = 1 then oo = Some (out_obj (hd files)) else oo = Some (Pipe_write p1)) \<and>
        (\<exists>tags. list_all2 (good (map_of (fds k)) (next_pipe k) p1 p1) tags (procs k3)))"

lemma bg_copier_failed:
  assumes "bg_opened k files inp outs k2" "background_copier inp outs k2 = (None, k3)"
  shows "map_of (fds k3) = map_of (fds k)" "procs k3 = procs k2"
proof -
  let ?C = "set outs \<union> (if inp \<noteq> - 1 then {inp} else {})"
  have restored: "map_of (fds k2) |` (- ?C) = map_of (fds k)" by (rule bg_opened_close[OF assms(1)]) (auto split: if_splits)
  obtain res k4 where pp: "k_pipe k2 = (res, k4)" by fastforce
  have "map_of (fds k3) = map_of (fds k2) |` (- ?C) \<and> procs k3 = procs k2"
  proof (cases res)
    case None
    note f = k_pipe_None[OF pp[unfolded None]]
    have "k3 = close_all outs (close_input inp k4)"
      using assms(2) pp None by (auto simp: background_copier_def split: if_splits)
    with f show ?thesis by (auto simp: fun_eq_iff restrict_map_def)
  next
    case (Some rw)
    obtain r w where rw: "rw = (r, w)" by fastforce
    note f = k_pipe_Some[OF pp[unfolded Some rw]]
    obtain pid k5 where fk: "k_fork k4 = (pid, k5)" by fastforce
    note ff = k_fork_frame[OF fk]
    have "k3 = close_all outs (close_input inp (close_all [r, w] k5))"
      using assms(2) pp Some rw fk by (auto simp: background_copier_def Let_def split: if_splits)
    with f(1-3,7) ff(1,2) show ?thesis by (auto simp: fun_eq_iff restrict_map_def)
  qed
  with restored show "map_of (fds k3) = map_of (fds k)" "procs k3 = procs k2" by simp_all
qed

lemma bg_std:
  assumes "bg_opened k files inp outs k2" "map_of (fds k) c \<noteq> None"
  shows "c \<notin> set outs" "inp \<noteq> - 1 \<Longrightarrow> c \<noteq> inp" "map_of (fds k2) c = map_of (fds k) c"
proof -
  show o: "c \<notin> set outs" using bg_openedD(1)[OF assms(1), of c] assms(2) by blast
  show i: "c \<noteq> inp" if "inp \<noteq> - 1" using bg_openedD(2)[OF assms(1) that] assms(2) by auto
  show "map_of (fds k2) c = map_of (fds k) c" by (rule bg_openedD(3)[OF assms(1) o]) (use i in blast)
qed

lemma bg_holds:
  assumes "bg_opened k files inp outs k2" "map_of (fds k2) fd = Some (Pipe_write n)"
  shows "base_write (map_of (fds k)) n"
proof -
  have "fd \<notin> set outs" using bg_openedD(1)[OF assms(1), of fd] assms(2) by (auto simp: out_obj_def)
  moreover have "inp = - 1 \<or> fd \<noteq> inp" using bg_openedD(2)[OF assms(1)] assms(2) by auto
  ultimately have "map_of (fds k) fd = Some (Pipe_write n)" using bg_openedD(3)[OF assms(1)] assms(2) by simp
  then show ?thesis unfolding base_write_def by (metis rangeI)
qed

lemma bg_writers:
  assumes "bg_opened k files inp outs k2"
  shows "list_all2 (good (map_of (fds k)) (next_pipe k) (next_pipe k2) (next_pipe k2))
      (replicate (length (procs k2)) Writer) (procs k2)" "next_pipe k \<le> next_pipe k2"
    "length outs = length files"
proof -
  note D = assms[unfolded bg_opened_def]
  have "list_all (writer_ok (map_of (fds k)) (next_pipe k) (next_pipe k2)) (procs k2)"
    by (rule D[THEN conjunct2, THEN conjunct2, THEN conjunct2, THEN conjunct2, THEN conjunct1])
  then show "list_all2 (good (map_of (fds k)) (next_pipe k) (next_pipe k2) (next_pipe k2))
      (replicate (length (procs k2)) Writer) (procs k2)"
    by (simp add: list_all2_conv_all_nth list_all_length)
  show "next_pipe k \<le> next_pipe k2"
    by (rule D[THEN conjunct2, THEN conjunct2, THEN conjunct2, THEN conjunct2, THEN conjunct2])
  show "length outs = length files" by (rule D[THEN conjunct1])
qed

lemma bg_set_upI:
  assumes "map_of (fds k3) |` (- bg_closed inp outs p) = map_of (fds k)"
    "bg_ready inp outs p oi oo (map_of (fds k3))" "next_pipe k \<le> p1"
    "if inp \<noteq> - 1 then \<exists>n. oi = Some (Pipe_read n) \<and> next_pipe k \<le> n \<and> n < p1 else oi = map_of (fds k) 0"
    "if files = [] then oo = map_of (fds k) 1
     else if length files = 1 then oo = Some (out_obj (hd files)) else oo = Some (Pipe_write p1)"
    "list_all2 (good (map_of (fds k)) (next_pipe k) p1 p1) tags (procs k3)"
  shows "bg_set_up k files inp outs p k3"
  unfolding bg_set_up_def
  by (rule conjI[OF assms(1)], rule exI[of _ oi], rule exI[of _ oo], rule exI[of _ p1])
    (intro conjI assms exI[of _ tags])

lemma bg_no_copier:
  assumes o: "bg_opened k files inp outs k2" and few: "\<not> 1 < length outs"
    and std: "map_of (fds k) 0 \<noteq> None" "map_of (fds k) 1 \<noteq> None"
  shows "bg_set_up k files inp outs (- 1, - 1) k2"
proof -
  note s0 = bg_std[OF o std(1)] and s1 = bg_std[OF o std(2)] and w = bg_writers[OF o]
  let ?oi = "if inp \<noteq> - 1 then map_of (fds k2) inp else map_of (fds k2) 0"
  let ?oo = "if outs = [] then map_of (fds k2) 1 else map_of (fds k2) (hd outs)"
  have C: "bg_closed inp outs (- 1, - 1) = set outs \<union> (if inp \<noteq> - 1 then {inp} else {})"
    using few by (auto simp: bg_closed_def)
  have restored: "map_of (fds k2) |` (- bg_closed inp outs (- 1, - 1)) = map_of (fds k)"
    by (rule bg_opened_close[OF o]) (auto simp: C split: if_splits)
  have inp: "?oi = (if inp \<noteq> - 1 then Some (Pipe_read (next_pipe k)) else map_of (fds k) 0)"
    using bg_openedD(2)[OF o] s0(3) by simp
  have out: "?oo = (if files = [] then map_of (fds k) 1 else Some (out_obj (hd files)))"
  proof (cases "files = []")
    case True
    then show ?thesis using w(3) s1(3) by simp
  next
    case False
    then have "length files = 1" "outs \<noteq> []" using few w(3) by (cases files; force)+
    then show ?thesis using bg_openedD(5)[OF o] False by simp
  qed
  have "inp \<noteq> - 1 \<Longrightarrow> inp \<notin> set outs" using bg_openedD(1)[OF o] by blast
  then have "bg_ready inp outs (- 1, - 1) ?oi ?oo (map_of (fds k2))"
    using s0 s1 inp out std few unfolding bg_ready_def C by (cases outs) (auto split: if_splits)
  moreover have "inp \<noteq> - 1 \<Longrightarrow> next_pipe k < next_pipe k2" using bg_openedD(2)[OF o] by blast
  moreover have "files \<noteq> [] \<Longrightarrow> length files = 1" using few w(3) by (cases files) auto
  ultimately show ?thesis
    using inp out
    by (intro bg_set_upI[OF restored _ w(2) _ _ w(1), where oi = ?oi and oo = ?oo]) auto
qed

lemma bg_copier_starts:
  assumes o: "bg_opened k files inp outs k2" and many: "1 < length outs"
    and std: "map_of (fds k) 0 \<noteq> None" "map_of (fds k) 1 \<noteq> None"
    and p: "k_pipe k2 = (Some (r, w), k4)" and f: "k_fork k4 = (pid, k5)"
  shows "bg_set_up k files inp outs (r, w)
    (spawn pid None (AList.delete w (fds k5)) (Copy_to_all r outs) k5)"
proof -
  note s0 = bg_std[OF o std(1)] and s1 = bg_std[OF o std(2)] and wr = bg_writers[OF o]
    and P = k_pipe_Some[OF p] and F = k_fork_frame[OF f]
  let ?k3 = "spawn pid None (AList.delete w (fds k5)) (Copy_to_all r outs) k5"
  let ?p1 = "next_pipe k2" and ?base = "map_of (fds k)"
  let ?oi = "if inp \<noteq> - 1 then map_of (fds k2) inp else map_of (fds k2) 0"
  have tab: "map_of (fds ?k3) = (map_of (fds k2))(r \<mapsto> Pipe_read ?p1, w \<mapsto> Pipe_write ?p1)"
    using P(1) F(1) by (simp add: spawn_def)
  have rw: "r \<notin> set outs" "w \<notin> set outs" "inp \<noteq> - 1 \<Longrightarrow> r \<noteq> inp \<and> w \<noteq> inp"
    using bg_openedD(1)[OF o, of r] bg_openedD(1)[OF o, of w] bg_openedD(2)[OF o] P(2,3) by auto
  have r01: "r \<noteq> 0" "w \<noteq> 0" "r \<noteq> 1" "w \<noteq> 1" using P(2,3) s0(3) s1(3) std by auto
  have C: "bg_closed inp outs (r, w) = set outs \<union> (if inp \<noteq> - 1 then {inp} else {}) \<union> {r, w}"
    using many by (auto simp: bg_closed_def)
  have "map_of (fds k2) |` (- bg_closed inp outs (r, w)) = ?base"
    by (rule bg_opened_close[OF o]) (use P(2,3) in \<open>auto simp: C split: if_splits\<close>)
  moreover have "map_of (fds ?k3) |` (- bg_closed inp outs (r, w)) =
      map_of (fds k2) |` (- bg_closed inp outs (r, w))"
    by (auto simp: tab C restrict_map_def fun_eq_iff)
  ultimately have restored: "map_of (fds ?k3) |` (- bg_closed inp outs (r, w)) = ?base" by simp
  have inp: "?oi = (if inp \<noteq> - 1 then Some (Pipe_read (next_pipe k)) else ?base 0)"
    using bg_openedD(2)[OF o] s0(3) by simp
  have inouts: "inp \<noteq> - 1 \<Longrightarrow> inp \<notin> set outs" using bg_openedD(1)[OF o] by blast
  have ready: "bg_ready inp outs (r, w) ?oi (Some (Pipe_write ?p1)) (map_of (fds ?k3))"
    using s0 s1 inp std rw r01 P(4) inouts many unfolding bg_ready_def C tab
    by (auto split: if_splits)
  have lt: "inp \<noteq> - 1 \<Longrightarrow> next_pipe k < ?p1" using bg_openedD(2)[OF o] by blast
  have "holds (AList.delete w (fds k5)) n \<Longrightarrow> base_write ?base n" for n
    using P(1) F(1) bg_holds[OF o] by (auto simp: holds_def split: if_splits)
  moreover have "map_of (AList.delete w (fds k5)) r = Some (Pipe_read ?p1)"
    using P(1,4) F(1) by simp
  ultimately have "good ?base (next_pipe k) ?p1 ?p1 (Copier ?p1)
      \<lparr>p_pid = pid, p_pgid = None, p_fds = AList.delete w (fds k5), p_prog = Copy_to_all r outs\<rparr>"
    by simp
  then have "list_all2 (good ?base (next_pipe k) ?p1 ?p1)
      (replicate (length (procs k2)) Writer @ [Copier ?p1]) (procs ?k3)"
    using wr(1) P(7) F(2) by (simp add: spawn_def list_all2_appendI)
  moreover have "files \<noteq> []" "length files \<noteq> 1" using many wr(3) by auto
  ultimately show ?thesis
    using inp lt by (intro bg_set_upI[OF restored ready wr(2)]) auto
qed

lemma bg_copier_ok:
  assumes o: "bg_opened k files inp outs k2"
    and std: "map_of (fds k) 0 \<noteq> None" "map_of (fds k) 1 \<noteq> None"
    and c: "background_copier inp outs k2 = (Some p, k3)"
  shows "bg_set_up k files inp outs p k3"
proof (cases "1 < length outs")
  case False
  then show ?thesis using bg_no_copier[OF o False std] c by (simp add: background_copier_def)
next
  case True
  obtain res k4 where pp: "k_pipe k2 = (res, k4)" by fastforce
  obtain pid k5 where ff: "k_fork k4 = (pid, k5)" by fastforce
  obtain r w where rw: "res = Some (r, w)" using c pp True by (cases res) (auto simp: background_copier_def)
  have "p = (r, w)" "k3 = spawn pid None (AList.delete w (fds k5)) (Copy_to_all r outs) k5"
    using c pp ff rw True by (auto simp: background_copier_def Let_def split: if_splits)
  then show ?thesis using bg_copier_starts[OF o True std pp[unfolded rw] ff] by simp
qed

text \<open>The process of the command.\<close>

lemma bg_command_good:
  assumes r: "bg_ready inp outs p oi oo (map_of t)"
    and restored: "map_of t |` (- bg_closed inp outs p) = map_of (fds k)"
    and oi: "if inp \<noteq> - 1 then \<exists>n. oi = Some (Pipe_read n) \<and> next_pipe k \<le> n \<and> n < p1 else oi = map_of (fds k) 0"
    and oo: "if files = [] then oo = map_of (fds k) 1
     else if length files = 1 then oo = Some (out_obj (hd files)) else oo = Some (Pipe_write p1)"
    and c: "background_child path argv inp outs p t = (t', prog)"
  shows "prog = Exec path argv" "map_of t' = (map_of (fds k))(0 := oi, 1 := oo)"
    "good (map_of (fds k)) (next_pipe k) p1 p1 (Stage_proc 0) \<lparr>p_pid = pid, p_pgid = g, p_fds = t', p_prog = prog\<rparr>"
proof -
  let ?base = "map_of (fds k)"
  show prog: "prog = Exec path argv" and t': "map_of t' = ?base(0 := oi, 1 := oo)"
    using background_child_table[OF r, of path argv] c restored by auto
  have bw: "base_write ?base n" if "?base fd = Some (Pipe_write n)" for fd n
    using that unfolding base_write_def by (metis rangeI)
  have "base_write ?base n \<or> p1 \<le> n" if "holds t' n" for n
  proof -
    obtain fd where fd: "(?base(0 := oi, 1 := oo)) fd = Some (Pipe_write n)"
      using \<open>holds t' n\<close> t' by (auto simp: holds_def)
    consider "fd = 1" | "fd = 0" | "fd \<noteq> 0" "fd \<noteq> 1" by blast
    then show ?thesis
    proof cases
      case 1
      then show ?thesis using fd oo bw by (auto simp: out_obj_def split: if_splits)
    next
      case 2
      then show ?thesis using fd oi bw by (auto split: if_splits)
    next
      case 3
      then show ?thesis using fd bw by simp
    qed
  qed
  moreover have "next_pipe k \<le> n \<and> n < p1 \<or> ?base 0 = Some (Pipe_read n)"
    if "map_of t' 0 = Some (Pipe_read n)" for n
    using that t' oi by (auto split: if_splits)
  ultimately show "good ?base (next_pipe k) p1 p1 (Stage_proc 0)
      \<lparr>p_pid = pid, p_pgid = g, p_fds = t', p_prog = prog\<rparr>"
    using prog by auto
qed

text \<open>What is left when the command is forked, or cannot be.\<close>

definition bg_done :: "kernel \<Rightarrow> kernel \<Rightarrow> bool" where
  "bg_done k k' \<longleftrightarrow> map_of (fds k') = map_of (fds k) \<and>
     (\<exists>p1 tags. next_pipe k \<le> p1 \<and> list_all2 (good (map_of (fds k)) (next_pipe k) p1 p1) tags (procs k'))"

definition bg_command :: "kernel \<Rightarrow> cstring \<Rightarrow> cstring list \<Rightarrow> cstring list \<Rightarrow> output_file list \<Rightarrow> int \<Rightarrow> process \<Rightarrow> bool" where
  "bg_command k path argv ins files pid q \<longleftrightarrow>
     p_pid q = pid \<and> p_pgid q = Some pid \<and> p_prog q = Exec path argv \<and>
     (\<exists>oi oo. map_of (p_fds q) = (map_of (fds k))(0 := oi, 1 := oo) \<and>
        (if ins = [] then oi = map_of (fds k) 0 else \<exists>n \<ge> next_pipe k. oi = Some (Pipe_read n)) \<and>
        (if files = [] then oo = map_of (fds k) 1
         else if length files = 1 then oo = Some (out_obj (hd files))
         else \<exists>n \<ge> next_pipe k. oo = Some (Pipe_write n)))"

lemma bg_forked:
  assumes u: "bg_set_up k files inp outs p k3" and f: "k_fork k3 = (pid, k4)"
    and inp: "inp \<noteq> - 1 \<longleftrightarrow> ins \<noteq> []"
    and c: "background_child path argv inp outs p (fds k4) = (t, prog)"
    and k': "k' = background_close inp outs p (spawn pid (Some pid) t prog k4)"
  shows "bg_done k k'" "procs k' \<noteq> []" "bg_command k path argv ins files pid (last (procs k'))"
proof -
  let ?base = "map_of (fds k)" and ?q = "\<lparr>p_pid = pid, p_pgid = Some pid, p_fds = t, p_prog = prog\<rparr>"
  note F = k_fork_frame[OF f]
  have restored: "map_of (fds k3) |` (- bg_closed inp outs p) = ?base"
    by (rule u[unfolded bg_set_up_def, THEN conjunct1])
  obtain oi oo p1 tags where r: "bg_ready inp outs p oi oo (map_of (fds k3))" "next_pipe k \<le> p1"
    and oi: "if inp \<noteq> - 1 then \<exists>n. oi = Some (Pipe_read n) \<and> next_pipe k \<le> n \<and> n < p1 else oi = ?base 0"
    and oo: "if files = [] then oo = ?base 1
      else if length files = 1 then oo = Some (out_obj (hd files)) else oo = Some (Pipe_write p1)"
    and tg: "list_all2 (good ?base (next_pipe k) p1 p1) tags (procs k3)"
    using u[unfolded bg_set_up_def, THEN conjunct2] by (elim exE conjE)
  note G = bg_command_good[OF r(1) restored oi oo c[unfolded F(1)]]
  have pr: "procs k' = procs k3 @ [?q]"
    by (simp add: k' background_close_def Let_def spawn_def F(2))
  from tg have "list_all2 (good ?base (next_pipe k) p1 p1) (tags @ [Stage_proc 0]) (procs k')"
    unfolding pr by (rule list_all2_appendI) (use G(3) in simp)
  moreover have "map_of (fds k') = ?base"
    using restored by (simp add: k' background_close_table spawn_def F(1))
  ultimately show "bg_done k k'" unfolding bg_done_def using r(2) by blast
  show "procs k' \<noteq> []" by (simp add: pr)
  have "if ins = [] then oi = ?base 0 else \<exists>n \<ge> next_pipe k. oi = Some (Pipe_read n)"
    using oi inp by (auto split: if_splits)
  moreover have "if files = [] then oo = ?base 1 else if length files = 1 then oo = Some (out_obj (hd files))
      else \<exists>n \<ge> next_pipe k. oo = Some (Pipe_write n)"
    using oo r(2) by auto
  ultimately show "bg_command k path argv ins files pid (last (procs k'))"
    unfolding bg_command_def pr using G(1,2)
    by (simp only: last_snoc process.simps simp_thms) (rule exI[of _ oi], rule exI[of _ oo], blast)
qed

lemma bg_done_opened:
  assumes "bg_opened k files inp outs k2" "map_of (fds k') = map_of (fds k)" "procs k' = procs k2"
  shows "bg_done k k'"
  unfolding bg_done_def using assms(2,3) bg_writers(1,2)[OF assms(1)] by auto

lemma bg_not_forked:
  assumes u: "bg_set_up k files inp outs p k3" and f: "k_fork k3 = (pid, k4)"
  shows "bg_done k (close_all outs
    (if 1 < length outs then close_all [fst p, snd p] (close_input inp k4) else close_input inp k4))"
    (is "bg_done k ?k'")
proof -
  note F = k_fork_frame[OF f]
  have "map_of (fds ?k') = map_of (fds k3) |` (- bg_closed inp outs p)"
    by (auto simp: F(1) bg_closed_def fun_eq_iff restrict_map_def)
  moreover have "procs ?k' = procs k3" by (simp add: F(2))
  ultimately show ?thesis using u unfolding bg_done_def bg_set_up_def by (elim conjE exE) auto
qed

lemma launch_background_cases:
  assumes std: "map_of (fds k) 0 \<noteq> None" "map_of (fds k) 1 \<noteq> None" and "procs k = []"
    and l: "launch_background path argv ins files k = (res, pid, msg, k')"
  shows "bg_done k k' \<and>
    (res = 1 \<and> pid = - 1 \<or>
     res = 0 \<and> pid \<noteq> - 1 \<and> procs k' \<noteq> [] \<and> bg_command k path argv ins files pid (last (procs k')))"
proof -
  obtain inp w k1 where i: "(if ins \<noteq> [] then setup_input ins k else (- 1, - 1, k)) = (inp, w, k1)"
    by (metis prod_cases3)
  note o1 = bg_input[OF assms(3) i]
  show ?thesis
  proof (cases "ins \<noteq> [] \<and> inp = - 1")
    case True
    then have "res = 1" "pid = - 1" "k' = k1" using l i by (auto simp: launch_background_def Let_def)
    moreover have "map_of (fds k1) = map_of (fds k)"
      using bg_openedD(3)[OF o1] True by (auto simp: fun_eq_iff)
    ultimately show ?thesis using bg_done_opened[OF o1] by simp
  next
    case False
    then have inp: "inp \<noteq> - 1 \<longleftrightarrow> ins \<noteq> []" using i by auto
    obtain ro k2 where oo: "(if files \<noteq> [] then open_output_files files k1 else (Some [], k1)) = (ro, k2)"
      by fastforce
    then have eff: "open_outputs files [] k1 = (ro, k2)"
      by (cases files) (auto simp: open_output_files_def)
    have L: "launch_background path argv ins files k =
      (case (ro, k2) of
         (None, k) \<Rightarrow> (1, - 1, [], close_input inp k)
       | (Some outs, k) \<Rightarrow>
           (case background_copier inp outs k of
              (None, k) \<Rightarrow> (1, - 1, [], k)
            | (Some output_pipe, k) \<Rightarrow>
                let (pid, k) = k_fork k
                in if pid = - 1 then (1, - 1, [],
                     close_all outs
                       (if 1 < length outs
                        then close_all [fst output_pipe, snd output_pipe] (close_input inp k)
                        else close_input inp k))
                   else
                     let (t, prog) = background_child path argv inp outs output_pipe (fds k)
                     in (0, pid, [],
                         background_close inp outs output_pipe (spawn pid (Some pid) t prog k))))"
      unfolding launch_background_def i by (simp only: Let_def prod.case if_not_P[OF False] oo)
    show ?thesis
    proof (cases ro)
      case None
      have "map_of (fds k2) = map_of (fds k1)" "procs k2 = procs k1"
        using open_outputs_effect[OF eff] None by simp_all
      moreover have "map_of (fds k1) |` (- (if inp \<noteq> - 1 then {inp} else {})) = map_of (fds k)"
        by (rule bg_opened_close[OF o1]) (auto split: if_splits)
      ultimately show ?thesis
        using L l None bg_done_opened[OF o1, of k'] by auto
    next
      case (Some outs)
      note o2 = bg_outputs[OF o1 eff[unfolded Some]]
      obtain rp k3 where c: "background_copier inp outs k2 = (rp, k3)" by fastforce
      show ?thesis
      proof (cases rp)
        case None
        note c' = bg_copier_failed[OF o2 c[unfolded None]]
        show ?thesis using L l Some c None bg_done_opened[OF o2 c'] by simp
      next
        case (Some p)
        note u = bg_copier_ok[OF o2 std c[unfolded Some]]
        obtain pid' k4 where f: "k_fork k3 = (pid', k4)" by fastforce
        obtain t prog where ch: "background_child path argv inp outs p (fds k4) = (t, prog)" by fastforce
        show ?thesis
        proof (cases "pid' = - 1")
          case True
          then show ?thesis using L l \<open>ro = Some outs\<close> c Some f bg_not_forked[OF u f] by simp
        next
          case False
          then have "res = 0" "pid = pid'" "k' = background_close inp outs p (spawn pid' (Some pid') t prog k4)"
            using L l \<open>ro = Some outs\<close> c Some f ch by simp_all
          then show ?thesis using bg_forked[OF u f inp ch] False by simp
        qed
      qed
    qed
  qed
qed

text \<open>
  C8.  A single command in the background, whichever calls of \<open>open\<close>, \<open>pipe\<close> and \<open>fork\<close> fail: the shell
  has its own descriptors back afterwards, in every case; the call reports success exactly if the
  command was forked; the processes it started never wait for each other in a circle.  The command
  runs in a group of its own with the shell's descriptors, its input from a pipe that is fed from the
  input files and its output into the file, or into a pipe for the copier if there are several.
\<close>

theorem background_command_sound:
  assumes "shell_table_ok k" "procs k = []"
    and "launch_background path argv ins files k = (res, pid, msg, k')"
  shows "map_of (fds k') = map_of (fds k) \<and>
    (\<exists>rank :: nat \<Rightarrow> nat. \<forall>a < length (procs k'). \<forall>b < length (procs k').
       may_wait (procs k' ! a) (procs k' ! b) \<longrightarrow> rank b < rank a) \<and>
    (res = 1 \<and> pid = - 1 \<or>
     res = 0 \<and> pid \<noteq> - 1 \<and> procs k' \<noteq> [] \<and> bg_command k path argv ins files pid (last (procs k')))"
proof -
  have std: "map_of (fds k) 0 \<noteq> None" "map_of (fds k) 1 \<noteq> None"
    using assms(1) by (auto simp: shell_table_ok_def)
  note c = launch_background_cases[OF std assms(2,3)]
  obtain p1 tags where "next_pipe k \<le> p1"
    "list_all2 (good (map_of (fds k)) (next_pipe k) p1 p1) tags (procs k')"
    using c unfolding bg_done_def by blast
  then have "\<exists>rank :: nat \<Rightarrow> nat. \<forall>a < length (procs k'). \<forall>b < length (procs k').
      may_wait (procs k' ! a) (procs k' ! b) \<longrightarrow> rank b < rank a"
    using good_acyclic[OF assms(1)] by blast
  with c show ?thesis unfolding bg_done_def by blast
qed

theorem background_command_sound_witness:
  "map_of (fds (snd (snd (snd (launch_background ''/ls'' [''/ls''] [''in''] [] tty_kernel))))) =
   map_of (fds tty_kernel)"
proof -
  have "shell_table_ok tty_kernel" "procs tty_kernel = []"
    by (simp_all add: shell_table_ok_def tty_kernel_def)
  then show ?thesis
    using background_command_sound[of tty_kernel "''/ls''" "[''/ls'']" "[''in'']" "[]"]
    by (cases "launch_background ''/ls'' [''/ls''] [''in''] [] tty_kernel") auto
qed

section \<open>Background pipelines may block themselves\<close>

definition ls_cat_procs :: "process list" where
  "ls_cat_procs = procs (snd (launch_pipeline_background find_all ls_cat tty_kernel))"

lemma ls_cat_procs_eq:
  "map p_prog ls_cat_procs = [Copy_to_all 7 [3, 4], Exec ''/ls'' [''/ls''], Exec ''/cat'' [''/cat'']]"
  "map (\<lambda>p. map_of (p_fds p) 0) ls_cat_procs = [Some (Device 0), Some (Device 0), Some (Pipe_read 0)]"
  "map (\<lambda>p. map_of (p_fds p) 7) ls_cat_procs = [Some (Pipe_read 1), None, None]"
  "map (\<lambda>p. map_of (p_fds p) 6) ls_cat_procs = [Some (Pipe_write 0), None, None]"
  "map (\<lambda>p. map_of (p_fds p) 1) ls_cat_procs = [Some (Device 1), Some (Pipe_write 0), Some (Pipe_write 1)]"
  unfolding ls_cat_procs_def by code_simp+

lemma ls_cat_nth:
  "length ls_cat_procs = 3"
  "p_prog (ls_cat_procs ! 0) = Copy_to_all 7 [3, 4]" "p_prog (ls_cat_procs ! 2) = Exec ''/cat'' [''/cat'']"
  "map_of (p_fds (ls_cat_procs ! 2)) 0 = Some (Pipe_read 0)"
  "map_of (p_fds (ls_cat_procs ! 0)) 7 = Some (Pipe_read 1)"
  "map_of (p_fds (ls_cat_procs ! 0)) 6 = Some (Pipe_write 0)"
  "map_of (p_fds (ls_cat_procs ! 2)) 1 = Some (Pipe_write 1)"
proof -
  show len: "length ls_cat_procs = 3" using arg_cong[OF ls_cat_procs_eq(1), of length] by simp
  note nth = nth_map[of _ ls_cat_procs, unfolded len, symmetric]
  show "p_prog (ls_cat_procs ! 0) = Copy_to_all 7 [3, 4]" "p_prog (ls_cat_procs ! 2) = Exec ''/cat'' [''/cat'']"
    using nth[of 0 p_prog] nth[of 2 p_prog] ls_cat_procs_eq(1) by simp_all
  show "map_of (p_fds (ls_cat_procs ! 2)) 0 = Some (Pipe_read 0)"
    using nth[of 2 "\<lambda>p. map_of (p_fds p) 0"] ls_cat_procs_eq(2) by simp
  show "map_of (p_fds (ls_cat_procs ! 0)) 7 = Some (Pipe_read 1)"
    using nth[of 0 "\<lambda>p. map_of (p_fds p) 7"] ls_cat_procs_eq(3) by simp
  show "map_of (p_fds (ls_cat_procs ! 0)) 6 = Some (Pipe_write 0)"
    using nth[of 0 "\<lambda>p. map_of (p_fds p) 6"] ls_cat_procs_eq(4) by simp
  show "map_of (p_fds (ls_cat_procs ! 2)) 1 = Some (Pipe_write 1)"
    using nth[of 2 "\<lambda>p. map_of (p_fds p) 1"] ls_cat_procs_eq(5) by simp
qed


end
