(* ===== verification/Executor.thy ===== *)
theory Executor
  imports Background_Run
begin

text \<open>
  From tokens to processes: \<open>exec_command\<close> and \<open>exec_background_command\<close> of
  \<open>c-shell/src/command.c\<close> and \<open>sequence_command\<close> of \<open>c-shell/src/sequence.c\<close>, composed of the
  parsers of redirections and pipelines, the search for a command and the launchers.
\<close>

lemma bind_fault_cong: "(\<And>x. f x = g x) \<Longrightarrow> bind_fault m f = bind_fault m g"
  by (cases m) simp_all

section \<open>One command\<close>

text \<open>
  What a command meets: the file system and \<open>PATH\<close>, whether \<open>calloc\<close> succeeds, and what happens
  while the shell waits.
\<close>

record cmd_env =
  ce_search :: search_env
  ce_calloc :: bool
  ce_wait :: wait_env

text \<open>The return value, kernel and shell; None when a wait does not return.\<close>

type_synonym outcome = "fault + (int \<times> kernel \<times> shell) option"

definition invalid_syntax :: "shell \<Rightarrow> shell" where
  "invalid_syntax = puts_out (''cshell: invalid syntax'' @ NL)"

definition not_found :: "cstring \<Rightarrow> shell \<Rightarrow> shell" where
  "not_found name = puts_out (''cshell: command not found ('' @ name @ '')'' @ NL)"

definition run_foreground :: "cmd_env \<Rightarrow> pipeline_stage list \<Rightarrow> kernel \<Rightarrow> shell \<Rightarrow> outcome" where
  "run_foreground ce stages k sh =
     bind_fault (run_pipeline (ce_search ce) (ce_wait ce) stages k sh) (\<lambda>r. Inr (map_option (Pair 0) r))"

definition exec_command :: "cmd_env \<Rightarrow> token list \<Rightarrow> kernel \<Rightarrow> shell \<Rightarrow> outcome" where
  "exec_command ce current k sh =
     (if has_pipeline current then
        bind_fault (parse_pipeline (ce_calloc ce) current) (\<lambda>r.
          case r of
            None \<Rightarrow> Inr (Some (0, k, invalid_syntax sh))
          | Some (stages, stage_count) \<Rightarrow> run_foreground ce stages k sh)
      else
        bind_fault (parse_input_redirect current) (\<lambda>r.
          case r of
            None \<Rightarrow> Inr (Some (0, k, invalid_syntax sh))
          | Some (argv, input_files) \<Rightarrow>
              bind_fault (parse_output_redirection argv) (\<lambda>r.
                case r of
                  None \<Rightarrow> Inr (Some (0, k, sh))
                | Some (argv, files) \<Rightarrow>
                    if argv = [] then Inr (Some (0, k, sh))
                    else bind_fault (resolve_command (ce_search ce) (hd argv)) (\<lambda>(argv0, path).
                           case path of
                             None \<Rightarrow> Inr (Some (1, k, not_found argv0 sh))
                           | Some p \<Rightarrow>
                               run_foreground ce [fresh_stage (argv0 # tl argv) input_files files] k sh))))"

definition exec_background_command :: "cmd_env \<Rightarrow> token list \<Rightarrow> kernel \<Rightarrow> shell \<Rightarrow>
    fault + int \<times> kernel \<times> shell" where
  "exec_background_command ce current k sh =
     bind_fault (parse_input_redirect current) (\<lambda>r.
       case r of
         None \<Rightarrow> Inr (1, k, invalid_syntax sh)
       | Some (argv, input_files) \<Rightarrow>
           bind_fault (parse_output_redirection argv) (\<lambda>r.
             case r of
               None \<Rightarrow> Inr (1, k, invalid_syntax sh)
             | Some (argv, files) \<Rightarrow>
                 if argv = [] then Inr (1, k, invalid_syntax sh)
                 else bind_fault (resolve_command (ce_search ce) (hd argv)) (\<lambda>(argv0, path).
                        case path of
                          None \<Rightarrow> Inr (1, k, not_found argv0 sh)
                        | Some p \<Rightarrow> Inr (run_background p (argv0 # tl argv) input_files files k sh))))"

section \<open>A line\<close>

definition separator :: "token \<Rightarrow> bool" where
  "separator t \<longleftrightarrow> tok_type t = OP_SEMI \<or> tok_type t = OP_AMP"

text \<open>What is done for a command that \<open>&\<close> ends; results are not looked at.\<close>

definition background_item :: "cmd_env \<Rightarrow> token list \<Rightarrow> kernel \<Rightarrow> shell \<Rightarrow> outcome" where
  "background_item ce start k sh =
     (if has_pipeline start then
        bind_fault (parse_pipeline (ce_calloc ce) start) (\<lambda>r.
          case r of
            None \<Rightarrow> Inr (Some (0, k, invalid_syntax sh))
          | Some (stages, stage_count) \<Rightarrow>
              bind_fault (run_pipeline_background (ce_search ce) stages k sh)
                (\<lambda>(res, k, sh). Inr (Some (0, k, sh))))
      else
        bind_fault (exec_background_command ce start k sh) (\<lambda>(res, k, sh). Inr (Some (0, k, sh))))"

text \<open>
  \<open>ce n\<close> is what the n-th command meets.  Commands are given the tokens up to the end of the line, as
  in the code.
\<close>

function sequence_command :: "(nat \<Rightarrow> cmd_env) \<Rightarrow> token list \<Rightarrow> kernel \<Rightarrow> shell \<Rightarrow> outcome" where
  "sequence_command ce start k sh =
     (if start = [] then Inr (Some (0, k, sh))
      else
        let current = dropWhile (\<lambda>t. \<not> separator t) start in
        bind_fault
          (if current \<noteq> [] \<and> tok_type (hd current) = OP_AMP then background_item (ce 0) start k sh
           else exec_command (ce 0) start k sh)
          (\<lambda>r. case r of
                 None \<Rightarrow> Inr None
               | Some (res, k, sh) \<Rightarrow>
                   if res \<noteq> 0 then Inr (Some (res, k, sh))
                   else if current = [] then Inr (Some (0, k, sh))
                   else sequence_command (\<lambda>n. ce (Suc n)) (tl current) k sh))"
  by auto
termination
proof (relation "measure (length \<circ> (fst \<circ> snd))", goal_cases)
  case (2 ce start k sh current)
  have "length current \<le> length start" unfolding 2(2) by (rule length_dropWhile_le)
  moreover have "current \<noteq> []" using 2 by simp
  ultimately show ?case by (cases current) simp_all
qed simp

declare sequence_command.simps [simp del]

section \<open>The commands of a line\<close>

text \<open>The line cut at \<open>;\<close> and \<open>&\<close>, with a mark at the commands for the background.\<close>

function segments :: "token list \<Rightarrow> (token list \<times> bool) list" where
  "segments ts =
     (if ts = [] then []
      else case dropWhile (\<lambda>t. \<not> separator t) ts of
             [] \<Rightarrow> [(ts, False)]
           | s # rest \<Rightarrow> (takeWhile (\<lambda>t. \<not> separator t) ts, tok_type s = OP_AMP) # segments rest)"
  by auto
termination
proof (relation "measure length", goal_cases)
  case (2 ts s rest)
  then show ?case using length_dropWhile_le[of "\<lambda>t. \<not> separator t" ts] by simp
qed simp

declare segments.simps [simp del]

text \<open>
  What the line means: commands one after the other, each in the foreground or the background, until
  one is not found.
\<close>

definition run_item :: "cmd_env \<Rightarrow> pipeline_stage list \<Rightarrow> bool \<Rightarrow> kernel \<Rightarrow> shell \<Rightarrow> outcome" where
  "run_item ce stages bg k sh =
     (if length stages = 1 then
        let st = hd stages in
        case resolve_command (ce_search ce) (hd (st_argv st)) of
          Inl f \<Rightarrow> Inl f
        | Inr (name, None) \<Rightarrow> Inr (Some (if bg then 0 else 1, k, not_found name sh))
        | Inr (name, Some path) \<Rightarrow>
            if bg then
              Inr (Some (0, snd (run_background path (name # tl (st_argv st)) (st_input_files st)
                (st_output_files st) k sh)))
            else run_foreground ce [st\<lparr>st_argv := name # tl (st_argv st)\<rparr>] k sh
      else if bg then
        bind_fault (run_pipeline_background (ce_search ce) stages k sh) (\<lambda>(res, w). Inr (Some (0, w)))
      else run_foreground ce stages k sh)"

fun run_line :: "(nat \<Rightarrow> cmd_env) \<Rightarrow> (pipeline_stage list \<times> bool) list \<Rightarrow> kernel \<Rightarrow> shell \<Rightarrow> outcome" where
  "run_line ce [] k sh = Inr (Some (0, k, sh))"
| "run_line ce ((stages, bg) # rest) k sh =
     bind_fault (run_item (ce 0) stages bg k sh) (\<lambda>r.
       case r of
         None \<Rightarrow> Inr None
       | Some (res, k, sh) \<Rightarrow>
           if res \<noteq> 0 then Inr (Some (res, k, sh)) else run_line (\<lambda>n. ce (Suc n)) rest k sh)"

lemma has_pipeline_segment:
  "\<forall>t \<in> set ts. \<not> separator t \<Longrightarrow> at_end rest \<Longrightarrow> has_pipeline (ts @ rest) \<longleftrightarrow> OP_PIPE \<in> set (types ts)"
proof (induction ts)
  case Nil
  then show ?case by (cases rest) auto
qed (auto simp: separator_def)

lemma g_pipeline_no_pipe:
  assumes "g_pipeline (types ts)" "OP_PIPE \<notin> set (types ts)"
  shows "g_command (types ts)" "split_pipes ts = [ts]"
  using g_pipeline_split[OF assms(1) refl] split_pipes_none[OF assms(2)] by simp_all

lemma split_pipes_several: "OP_PIPE \<in> set (types ts) \<Longrightarrow> length (split_pipes ts) \<noteq> 1"
proof (induction ts)
  case (Cons t ts)
  then show ?case by (cases "split_pipes ts") (auto split: if_splits)
qed simp

lemma cmd_argv_nonempty: "g_command (types ts) \<Longrightarrow> cmd_argv ts \<noteq> []"
  using g_command_first[of "types ts"] g_command_nonempty[of "types ts"] by (cases ts) auto

text \<open>One command of the line.\<close>

lemma item_correct:
  assumes "g_pipeline (types ts)" "\<forall>t \<in> set ts. plain_token t"
    and "rest = [] \<or> plain_token (hd rest) \<and> separator (hd rest)"
    and "\<forall>seg \<in> set (split_pipes ts). within_limits seg" "ce_calloc ce"
  shows "exec_command ce (ts @ rest) k sh = run_item ce (map stage_of (split_pipes ts)) False k sh"
    and "background_item ce (ts @ rest) k sh = run_item ce (map stage_of (split_pipes ts)) True k sh"
proof -
  have "\<forall>t \<in> set ts. \<not> separator t" using g_pipeline_no_sep[OF assms(1)] by (force simp: separator_def)
  moreover have e: "at_end rest" using assms(3) by (auto simp: separator_def)
  ultimately have has: "has_pipeline (ts @ rest) \<longleftrightarrow> OP_PIPE \<in> set (types ts)" by (rule has_pipeline_segment)
  have "exec_command ce (ts @ rest) k sh = run_item ce (map stage_of (split_pipes ts)) False k sh \<and>
      background_item ce (ts @ rest) k sh = run_item ce (map stage_of (split_pipes ts)) True k sh"
  proof (cases "OP_PIPE \<in> set (types ts)")
    case True
    with parse_pipeline_grammar[OF assms(1,2) e assms(4)] split_pipes_several[OF True] assms(5) has
    show ?thesis by (simp add: exec_command_def background_item_def run_item_def case_prod_unfold)
  next
    case False
    note c = g_pipeline_no_pipe[OF assms(1) False]
    have r: "rest = [] \<or> plain_token (hd rest) \<and> tok_type (hd rest) \<in> {OP_SEMI, OP_AMP}"
      using assms(3) by (auto simp: separator_def)
    have "within_limits ts" using assms(4) c(2) by simp
    with parse_input_redirect_command[OF c(1) assms(2) r] has False c(2) cmd_argv_nonempty[OF c(1)]
    show ?thesis
      by (cases "resolve_command (ce_search ce) (hd (cmd_argv ts))")
        (simp_all add: exec_command_def background_item_def exec_background_command_def run_item_def
          stage_of_def fresh_stage_def case_prod_unfold Let_def split: option.split)
  qed
  then show "exec_command ce (ts @ rest) k sh = run_item ce (map stage_of (split_pipes ts)) False k sh"
    and "background_item ce (ts @ rest) k sh = run_item ce (map stage_of (split_pipes ts)) True k sh" by blast+
qed

section \<open>The whole line\<close>

lemma segments_cons:
  assumes "\<forall>t \<in> set ts. \<not> separator t" "separator s"
  shows "segments (ts @ s # rest) = (ts, tok_type s = OP_AMP) # segments rest"
  using assms by (subst segments.simps) (simp add: dropWhile_append takeWhile_append)

lemma segments_none: "ts \<noteq> [] \<Longrightarrow> \<forall>t \<in> set ts. \<not> separator t \<Longrightarrow> segments ts = [(ts, False)]"
  by (subst segments.simps) (simp add: dropWhile_eq_Nil_conv[THEN iffD2])

lemma segments_Nil [simp]: "segments [] = []"
  by (simp add: segments.simps)

lemma segments_append:
  "us \<noteq> [] \<Longrightarrow> \<not> separator (last us) \<Longrightarrow> separator s \<Longrightarrow>
     map fst (segments (us @ s # vs)) = map fst (segments us) @ map fst (segments vs)"
proof (induction us rule: segments.induct)
  case (1 us)
  let ?u = "takeWhile (\<lambda>t. \<not> separator t) us"
  have no: "\<forall>t \<in> set ?u. \<not> separator t" by (auto dest: set_takeWhileD)
  show ?case
  proof (cases "dropWhile (\<lambda>t. \<not> separator t) us")
    case Nil
    then have "\<forall>t \<in> set us. \<not> separator t" by (simp add: dropWhile_eq_Nil_conv)
    with 1 show ?thesis by (simp add: segments_cons segments_none)
  next
    case (Cons s' rest)
    have s': "separator s'" using Cons hd_dropWhile[of "\<lambda>t. \<not> separator t" us] by auto
    have us: "us = ?u @ s' # rest" using Cons takeWhile_dropWhile_id[of "\<lambda>t. \<not> separator t" us] by simp
    then have "last us = last (s' # rest)" by (metis last_appendR list.distinct(1))
    then have rest: "rest \<noteq> []" "\<not> separator (last rest)" using 1(3) s' by (auto split: if_splits)
    have "map fst (segments (?u @ s' # (rest @ s # vs))) = ?u # map fst (segments rest) @ map fst (segments vs)"
      using segments_cons[OF no s'] 1(1)[OF 1(2) Cons rest 1(4)] by simp
    moreover have "map fst (segments (?u @ s' # rest)) = ?u # map fst (segments rest)"
      using segments_cons[OF no s'] by simp
    ultimately show ?thesis using us by (metis append_Cons append_assoc)
  qed
qed

lemma g_pipeline_ends: "g_pipeline p \<Longrightarrow> p \<noteq> [] \<and> last p \<noteq> OP_SEMI \<and> last p \<noteq> OP_AMP"
proof -
  assume g: "g_pipeline p"
  have "p \<noteq> []" using g by cases (auto dest: g_command_nonempty)
  moreover from this have "last p \<in> set p" by simp
  ultimately show ?thesis using g_pipeline_no_sep[OF g] by (metis IntI empty_iff insertCI)
qed

lemma segments_pipeline:
  assumes "g_pipeline (types ts)"
  shows "segments ts = [(ts, False)]"
  using g_pipeline_ends[OF assms] g_pipeline_no_sep[OF assms]
  by (intro segments_none) (auto simp: separator_def image_iff)

lemma segments_sequence:
  "g_sequence tys \<Longrightarrow> types ts = tys \<Longrightarrow>
     ts \<noteq> [] \<and> \<not> separator (last ts) \<and> (\<forall>seg \<in> set (map fst (segments ts)). g_pipeline (types seg))"
proof (induction arbitrary: ts rule: g_sequence.induct)
  case (single p)
  then show ?case using segments_pipeline[of ts] g_pipeline_ends[of p] by (auto simp: separator_def last_map)
next
  case (more q sep p)
  then obtain us s vs where ts: "ts = us @ s # vs" "types us = q" "tok_type s = sep" "types vs = p"
    by (auto simp: map_eq_append_conv map_eq_Cons_conv)
  have "separator s" using ts(3) more(2) by (auto simp: separator_def)
  with more.IH[OF ts(2)] have "map fst (segments ts) = map fst (segments us) @ map fst (segments vs)"
    unfolding ts(1) by (intro segments_append) auto
  moreover have "segments vs = [(vs, False)]" using more(3) ts(4) by (intro segments_pipeline) simp
  moreover have "vs \<noteq> []" "\<not> separator (last vs)"
    using g_pipeline_ends[OF more(3)] ts(4) by (auto simp: separator_def last_map)
  ultimately show ?case using more.IH[OF ts(2)] more(3) ts by auto
qed

lemma segments_line:
  assumes "g_line (types ts)" "seg \<in> set (map fst (segments ts))"
  shows "g_pipeline (types seg)"
  using assms(1)
proof cases
  case empty
  then show ?thesis using assms(2) by simp
next
  case sequence
  then show ?thesis using segments_sequence[OF sequence refl] assms(2) by blast
next
  case (background p)
  then obtain us s where ts: "ts = us @ [s]" "types us = p" "tok_type s = OP_AMP"
    by (auto simp: map_eq_append_conv map_eq_Cons_conv)
  note us = segments_sequence[OF background(2) ts(2)]
  have "map fst (segments ts) = map fst (segments us) @ map fst (segments [])"
    using us unfolding ts(1) by (intro segments_append) (simp_all add: separator_def ts(3))
  then show ?thesis using us assms(2) by auto
qed

lemma line_correct:
  assumes "\<forall>t \<in> set ts. plain_token t" "\<forall>n. ce_calloc (ce n)"
    and "\<forall>(seg, bg) \<in> set (segments ts). g_pipeline (types seg) \<and> (\<forall>c \<in> set (split_pipes seg). within_limits c)"
  shows "sequence_command ce ts k sh =
    run_line ce (map (\<lambda>(seg, bg). (map stage_of (split_pipes seg), bg)) (segments ts)) k sh"
  using assms
proof (induction ts arbitrary: ce k sh rule: segments.induct)
  case (1 ts)
  show ?case
  proof (cases "ts = []")
    case True
    then show ?thesis by (simp add: sequence_command.simps segments.simps)
  next
    case ne: False
    let ?u = "takeWhile (\<lambda>t. \<not> separator t) ts" and ?v = "dropWhile (\<lambda>t. \<not> separator t) ts"
    show ?thesis
    proof (cases ?v)
      case Nil
      then have seg: "segments ts = [(ts, False)]" using ne by (intro segments_none) (auto simp: dropWhile_eq_Nil_conv)
      with 1(4) have g: "g_pipeline (types ts)" "\<forall>c \<in> set (split_pipes ts). within_limits c" by auto
      have "exec_command (ce 0) (ts @ []) k sh = run_item (ce 0) (map stage_of (split_pipes ts)) False k sh"
        by (rule item_correct(1)[OF g(1) 1(2) _ g(2)]) (use 1(3) in auto)
      with Nil ne show ?thesis
        by (subst sequence_command.simps) (simp add: seg Let_def del: dropWhile_eq_Nil_conv,
            rule bind_fault_cong, simp split: option.split)
    next
      case (Cons s rest)
      have s: "separator s" using Cons hd_dropWhile[of "\<lambda>t. \<not> separator t" ts] by auto
      have seg: "segments ts = (?u, tok_type s = OP_AMP) # segments rest"
        using ne Cons by (subst segments.simps) simp
      with 1(4) have g: "g_pipeline (types ?u)" "\<forall>c \<in> set (split_pipes ?u). within_limits c" by auto
      have ts: "ts = ?u @ s # rest" using Cons takeWhile_dropWhile_id[of "\<lambda>t. \<not> separator t" ts] by simp
      have plain: "\<forall>t \<in> set ?u. plain_token t" "plain_token s" "\<forall>t \<in> set rest. plain_token t"
        using 1(2) ts by (metis Un_iff set_append, metis in_set_conv_decomp, metis Un_iff set_append list.set_intros(2))
      have r: "s # rest = [] \<or> plain_token (hd (s # rest)) \<and> separator (hd (s # rest))" using plain(2) s by simp
      have calloc: "ce_calloc (ce 0)" "\<forall>n. ce_calloc (ce (Suc n))" using 1(3) by auto
      note item = item_correct[OF g(1) plain(1) r g(2) calloc(1), of k sh, folded ts]
      have IH: "sequence_command (\<lambda>n. ce (Suc n)) rest k' sh' =
          run_line (\<lambda>n. ce (Suc n)) (map (\<lambda>(seg, bg). (map stage_of (split_pipes seg), bg)) (segments rest)) k' sh'"
        for k' sh'
        using 1(1)[OF ne Cons plain(3) calloc(2)] 1(4) seg by simp
      show ?thesis
        by (subst sequence_command.simps) (simp add: ne Cons seg item IH Let_def, (intro impI conjI bind_fault_cong; simp add: IH split: option.split)?)
    qed
  qed
qed

section \<open>Properties\<close>

text \<open>
  C10.  An accepted line of plain words is executed as written.  Its commands, separated by \<open>;\<close> and
  \<open>&\<close>, are run in order, each with exactly its own arguments and files; the ones before \<open>&\<close> are
  started in the background and the others waited for.  A single command that is not found in the
  foreground ends the line; in the background, or inside a pipeline, the line goes on.
\<close>

theorem sequence_command_correct:
  assumes "parsing toks" "\<forall>t \<in> set toks. plain_token t" "\<forall>n. ce_calloc (ce n)"
    and "\<forall>(seg, bg) \<in> set (segments toks). \<forall>c \<in> set (split_pipes seg). within_limits c"
  shows "sequence_command ce toks k sh =
    run_line ce (map (\<lambda>(seg, bg). (map stage_of (split_pipes seg), bg)) (segments toks)) k sh"
proof (rule line_correct[OF assms(2,3)])
  show "\<forall>(seg, bg) \<in> set (segments toks). g_pipeline (types seg) \<and> (\<forall>c \<in> set (split_pipes seg). within_limits c)"
    using segments_line[OF parsing_sound[OF assms(1)]] assms(4) by force
qed

definition only_ls :: "nat \<Rightarrow> cmd_env" where
  "only_ls n = \<lparr>ce_search = find_all\<lparr>stat_regular := (\<lambda>p. if p = ''/ls'' then Some True else None)\<rparr>,
     ce_calloc = True, ce_wait = \<lparr>give_result = None, reclaim_result = None, wait_events = []\<rparr>\<rparr>"

definition ls_no_ls :: "token list" where
  "ls_no_ls = [word_tok ''/ls'', op_tok OP_AMP, word_tok ''/no'', op_tok OP_SEMI, word_tok ''/ls'']"

theorem sequence_command_correct_witness:
  "case sequence_command only_ls ls_no_ls tty_kernel (init_background, idle_tty) of
     Inr (Some (res, k, sh)) \<Rightarrow>
       res = 1 \<and> map p_prog (procs k) = [Exec ''/ls'' [''/ls'']] \<and>
       out (snd sh) = ''cshell: command not found (/no)'' @ NL
   | _ \<Rightarrow> False"
proof -
  have "parsing ls_no_ls" by code_simp
  moreover have "\<forall>t \<in> set ls_no_ls. plain_token t" by (simp add: ls_no_ls_def plain_token_def)
  moreover have "\<forall>n. ce_calloc (only_ls n)" by (simp add: only_ls_def)
  moreover have seg: "segments ls_no_ls =
      [([word_tok ''/ls''], True), ([word_tok ''/no''], False), ([word_tok ''/ls''], False)]"
    by code_simp
  moreover have "\<forall>(seg, bg) \<in> set (segments ls_no_ls). \<forall>c \<in> set (split_pipes seg). within_limits c"
    by (simp add: seg within_limits_def ARR_def)
  ultimately have "sequence_command only_ls ls_no_ls tty_kernel (init_background, idle_tty) =
      run_line only_ls (map (\<lambda>(seg, bg). (map stage_of (split_pipes seg), bg)) (segments ls_no_ls))
        tty_kernel (init_background, idle_tty)"
    by (intro sequence_command_correct)
  also have "\<dots> = run_line only_ls [([stage_of [word_tok ''/ls'']], True), ([stage_of [word_tok ''/no'']], False),
      ([stage_of [word_tok ''/ls'']], False)] tty_kernel (init_background, idle_tty)"
    by (simp add: seg)
  finally show ?thesis by (rule ssubst) code_simp
qed

definition two_ls :: cmd_env where
  "two_ls = \<lparr>ce_search = \<lparr>stat_regular = (\<lambda>p. if p \<in> {''./ls'', ''/bin/ls''} then Some True else None),
       x_access = (\<lambda>p. True), env_PATH = Some ''/bin'', env_cwd = Some ''/h''\<rparr>,
     ce_calloc = True,
     ce_wait = \<lparr>give_result = None, reclaim_result = None, wait_events = [Status 101 (WExited 0)]\<rparr>\<rparr>"


end
