(* ===== verification/Main_Loop.thy ===== *)
theory Main_Loop
  imports Executor Job_Commands Hop Peek Locate Reveal Spy Snoop
begin

text \<open>
  The shell as a whole: \<open>main\<close> of \<open>c-shell/src/main.c\<close>, with the state of all its parts.  What the
  outside does in one turn of the loop is a record: the line typed, the children that change state
  and the signals that arrive while the shell waits for it, and what each command meets.
\<close>

section \<open>State and surroundings\<close>

record world =
  w_kernel :: kernel
  w_shell :: shell
  w_hop :: hop_state
  w_curr_dir :: cstring
  w_home_dir :: cstring
  w_user :: cstring
  w_host :: cstring
  w_tokens :: "token list"

text \<open>
  The result of \<open>fgets\<close>: at most 1023 characters, the newline the last of them; or NULL, at the end of
  the input or when a signal interrupts the call.
\<close>

datatype reading = is_Line: Line cstring | End_of_input | Read_interrupted

record turn =
  t_read :: reading
  t_children :: "(int \<times> wstatus) list"
  t_signal :: bool
  t_fs :: fs_env
  t_dirs :: dir_env
  t_depth :: nat
  t_files :: "cstring \<Rightarrow> peek_file"
  t_stdin :: "cstring list"
  t_search :: search_env
  t_resume :: resume_env
  t_proc :: proc_env
  t_snoop :: snoop_env
  t_cmds :: "nat \<Rightarrow> cmd_env"

definition print_lines :: "cstring list \<Rightarrow> world \<Rightarrow> world" where
  "print_lines ls w = w\<lparr>w_shell := puts_out (concat (map (\<lambda>l. l @ NL) ls)) (w_shell w)\<rparr>"

definition print_text :: "cstring \<Rightarrow> world \<Rightarrow> world" where
  "print_text s w = w\<lparr>w_shell := puts_out s (w_shell w)\<rparr>"

definition on_tty :: "(tty \<Rightarrow> tty) \<Rightarrow> world \<Rightarrow> world" where
  "on_tty f w = w\<lparr>w_shell := (fst (w_shell w), f (snd (w_shell w)))\<rparr>"

section \<open>Start\<close>

text \<open>
  \<open>home\<close> is what \<open>getcwd\<close> returns (None leaves the zeroed array), \<open>pid\<close> the pid of the shell and
  \<open>res\<close> the outcome of \<open>tcsetpgrp\<close>.
\<close>

definition main_init :: "cstring option \<Rightarrow> cstring \<Rightarrow> cstring \<Rightarrow> int \<Rightarrow> cstring option \<Rightarrow> kernel \<Rightarrow> tty \<Rightarrow>
    hop_state \<Rightarrow> fault + world" where
  "main_init home user host pid res k t hop =
     (let sh = init_job_control pid res (init_background, snd (consume_signal_newline t));
          home_dir = (case home of None \<Rightarrow> [] | Some d \<Rightarrow> d)
      in bind_fault (init_hop home_dir hop) (\<lambda>hop.
           Inr \<lparr>w_kernel = k, w_shell = sh, w_hop = hop, w_curr_dir = [], w_home_dir = home_dir,
                w_user = user, w_host = host, w_tokens = []\<rparr>))"

section \<open>The loop\<close>

definition prompt :: "turn \<Rightarrow> world \<Rightarrow> world" where
  "prompt e w =
     (let w = w\<lparr>w_curr_dir := (case getcwd_of (t_fs e) (cwd (w_hop w)) of
                                None \<Rightarrow> w_curr_dir w | Some d \<Rightarrow> d)\<rparr>;
          path = get_path (w_home_dir w) (w_curr_dir w);
          w = on_tty (\<lambda>t. snd (consume_signal_newline t)) w
      in print_text (''<'' @ w_user w @ ''@'' @ w_host w @ '':'' @ path @ ''>'') w)"

text \<open>What happens during \<open>fgets\<close>.\<close>

definition await_line :: "turn \<Rightarrow> world \<Rightarrow> world" where
  "await_line e w =
     w\<lparr>w_shell := (sigchld_handler (t_children e) (fst (w_shell w)),
                   if t_signal e then shell_signal_handler (snd (w_shell w)) else snd (w_shell w))\<rparr>"

text \<open>Running the command that the tokens name; None when it does not return.\<close>

definition dispatch_line :: "turn \<Rightarrow> world \<Rightarrow> fault + world option" where
  "dispatch_line e w =
     (let toks = w_tokens w; name = tok_value (hd toks) in
      if name = ''hop'' then
        bind_fault (exec_hop (t_fs e) toks ((w_hop w)\<lparr>hop_out := []\<rparr>)) (\<lambda>h.
          Inr (Some (print_text (hop_out h) (w\<lparr>w_hop := h\<rparr>))))
      else if name = ''reveal'' then
        Inr (map_option (\<lambda>ls. print_lines ls w) (exec_reveal (t_depth e) (t_dirs e) (w_hop w) toks))
      else if name = ''peek'' then
        bind_fault (exec_peak (t_files e) (t_stdin e) toks) (\<lambda>s. Inr (Some (print_text s w)))
      else if name = ''locate'' then
        bind_fault (exec_locate (t_search e) toks) (\<lambda>ls. Inr (Some (print_lines ls w)))
      else if name = ''activities'' then Inr (Some (w\<lparr>w_shell := exec_activities (w_shell w)\<rparr>))
      else if name = ''resume'' then
        Inr (map_option (\<lambda>(res, sh). w\<lparr>w_shell := sh\<rparr>) (exec_resume toks (t_resume e) (w_shell w)))
      else if name = ''ping'' then Inr (Some (w\<lparr>w_shell := snd (exec_ping toks (w_shell w))\<rparr>))
      else if name = ''spy'' then Inr (Some (print_lines (exec_spy (t_proc e) toks) w))
      else if name = ''snoop'' then
        Inr (map_option (\<lambda>ls. print_lines ls w) (exec_snoop (t_snoop e) toks))
      else
        bind_fault (sequence_command (t_cmds e) toks (w_kernel w) (w_shell w)) (\<lambda>r.
          Inr (map_option (\<lambda>(res, k, sh). w\<lparr>w_kernel := k, w_shell := sh\<rparr>) r)))"

definition drain_jobs :: "world \<Rightarrow> world" where
  "drain_jobs w = w\<lparr>w_shell := (drain_background_notifications (fst (w_shell w)), snd (w_shell w))\<rparr>"

datatype status = Running | Left | Hangs

definition end_of_input :: "world \<Rightarrow> status \<times> world" where
  "end_of_input w =
     (let w = on_tty (\<lambda>t. snd (consume_signal_newline t)) w; (leave, sh) = handle_eof (w_shell w)
      in (if leave then Left else Running, w\<lparr>w_shell := sh\<rparr>))"

definition handle_line :: "turn \<Rightarrow> cstring \<Rightarrow> world \<Rightarrow> fault + status \<times> world" where
  "handle_line e input w =
     (let w = on_tty reset_eof_state w; line = takeWhile (\<lambda>c. c \<noteq> CHR 0x0A) input in
      case lexing line (free_tokens (w_tokens w)) of
        None \<Rightarrow> Inl Array_Overflow
      | Some (ok, toks, msg) \<Rightarrow>
          let w = print_text msg (w\<lparr>w_tokens := toks\<rparr>) in
          if ok = 0 \<or> toks = [] then Inr (Running, w)
          else if \<not> parsing toks then
            Inr (Running, drain_jobs (print_text (''cshell: invalid syntax'' @ NL) w))
          else bind_fault (dispatch_line e w) (\<lambda>r.
                 Inr (case r of None \<Rightarrow> (Hangs, w) | Some w' \<Rightarrow> (Running, drain_jobs w'))))"

definition main_turn :: "turn \<Rightarrow> world \<Rightarrow> fault + status \<times> world" where
  "main_turn e w =
     (let w = await_line e (prompt e w) in
      case t_read e of Line input \<Rightarrow> handle_line e input w | _ \<Rightarrow> Inr (end_of_input w))"

text \<open>The loop over the turns, up to the one that ends it; the turns left are returned too.\<close>

fun main_loop :: "turn list \<Rightarrow> world \<Rightarrow> fault + status \<times> world \<times> turn list" where
  "main_loop [] w = Inr (Running, w, [])"
| "main_loop (e # es) w =
     bind_fault (main_turn e w) (\<lambda>(st, w). if st = Running then main_loop es w else Inr (st, w, es))"

end
