(* ===== verification/Main_Inv.thy ===== *)
theory Main_Inv
  imports Main_Loop "HOL-Library.Sublist"
begin

text \<open>
  What holds at every prompt of the shell, whatever is typed: the job table is well formed and the
  terminal belongs to the shell; and the end of the loop.
\<close>

section \<open>The pids that a launch uses\<close>

text \<open>The calls of \<open>fork\<close> between two states, the pids in the second part being those in \<open>ps\<close>.\<close>

definition spent :: "kernel \<Rightarrow> kernel \<Rightarrow> int list \<Rightarrow> bool" where
  "spent k k' ps \<longleftrightarrow>
     (\<exists>v u. forks k = v @ u @ forks k' \<and> filter (\<lambda>p. p \<noteq> - 1) ps = filter (\<lambda>p. p \<noteq> - 1) u)"

lemma forks_simps [simp]:
  "forks (snd (k_open obj k)) = forks k" "forks (snd (k_pipe k)) = forks k"
  "forks (k_close fd k) = forks k" "forks (close_all L k) = forks k" "forks (close_input fd k) = forks k"
  "forks (spawn pid pgid t prog k) = forks k" "forks (say s k) = forks k"
  by (simp_all add: k_open_def k_pipe_def k_close_def close_all_def close_input_def spawn_def say_def Let_def)

lemma k_fork_forks: "k_fork k = (pid, k') \<Longrightarrow> suffix (forks k') (forks k)"
  by (auto simp: k_fork_def suffix_def split: if_splits intro: exI[of _ "[pid]"])

lemma k_open_forks: "k_open obj k = (fd, k') \<Longrightarrow> forks k' = forks k"
  using forks_simps(1)[of obj k] by simp

lemma k_pipe_forks: "k_pipe k = (r, k') \<Longrightarrow> forks k' = forks k"
  using forks_simps(2)[of k] by simp

lemma open_outputs_forks: "open_outputs fs ds k = (r, k') \<Longrightarrow> forks k' = forks k"
  by (induction fs ds k rule: open_outputs.induct)
     (auto simp: Let_def split: prod.splits if_splits dest: k_open_forks)

lemma open_inputs_forks: "open_inputs fs ds k = (r, k') \<Longrightarrow> forks k' = forks k"
  by (induction fs ds k rule: open_inputs.induct)
     (auto simp: Let_def split: prod.splits if_splits dest: k_open_forks)

lemma setup_input_forks: "setup_input fs k = (fd, pid, k') \<Longrightarrow> suffix (forks k') (forks k)"
  by (auto simp: setup_input_def Let_def split: prod.splits option.splits if_splits
      dest!: open_inputs_forks k_pipe_forks k_fork_forks)

lemma stage_outputs_forks: "stage_outputs st k = (st', k') \<Longrightarrow> forks k' = forks k"
  by (auto simp: stage_outputs_def open_output_files_def split: prod.splits option.splits if_splits
      dest!: open_outputs_forks)

lemma setup_stages_forks: "setup_stages sts k = (sts', k') \<Longrightarrow> suffix (forks k') (forks k)"
proof (induction sts arbitrary: k sts' k')
  case (Cons st sts)
  obtain st1 k1 where 1: "stage_input st k = (st1, k1)" by fastforce
  obtain st2 k2 where 2: "stage_outputs st1 k1 = (st2, k2)" by fastforce
  obtain sts2 k3 where 3: "setup_stages sts k2 = (sts2, k3)" by fastforce
  have "suffix (forks k1) (forks k)"
    using 1 by (auto simp: stage_input_def Let_def split: prod.splits if_splits dest: setup_input_forks)
  moreover have "forks k2 = forks k1" using stage_outputs_forks[OF 2] .
  moreover have "suffix (forks k3) (forks k2)" by (rule Cons.IH[OF 3])
  moreover have "k3 = k'" using Cons.prems by (simp add: setup_stage_def 1 2 3)
  ultimately show ?case by (metis suffix_order.trans)
qed simp

lemma make_pipes_forks: "make_pipes n ps k = (r, k') \<Longrightarrow> forks k' = forks k"
  by (induction n ps k rule: make_pipes.induct)
     (auto split: prod.splits option.splits dest!: k_pipe_forks)

text \<open>The steps that start copiers keep the number of stages and use pids from the front.\<close>

definition fork_only :: "(nat \<Rightarrow> pipeline_stage list \<times> kernel \<Rightarrow> pipeline_stage list \<times> kernel) \<Rightarrow> bool" where
  "fork_only f \<longleftrightarrow>
     (\<forall>i S k S' k'. f i (S, k) = (S', k') \<longrightarrow> suffix (forks k') (forks k) \<and> length S' = length S)"

lemma copier_step_forks: "fork_only (copier_step pipes)"
  unfolding fork_only_def
  by (auto simp: copier_step_def start_output_copier_def Let_def split: prod.splits option.splits if_splits
      dest!: k_pipe_forks k_fork_forks)

lemma bg_copier_step_forks: "fork_only bg_copier_step"
  unfolding fork_only_def
  by (auto simp: bg_copier_step_def Let_def split: prod.splits option.splits if_splits
      dest!: k_pipe_forks k_fork_forks)

lemma fold_forks:
  assumes "fork_only f"
  shows "fold f is (S, k) = (S', k') \<Longrightarrow> suffix (forks k') (forks k) \<and> length S' = length S"
proof (induction "is" arbitrary: S k)
  case (Cons i "is")
  obtain S1 k1 where 1: "f i (S, k) = (S1, k1)" by fastforce
  have "suffix (forks k1) (forks k) \<and> length S1 = length S"
    using assms 1 unfolding fork_only_def by blast
  moreover have "fold f is (S1, k1) = (S', k')" using Cons.prems by (simp add: 1)
  ultimately show ?case using Cons.IH[of S1 k1] by (metis suffix_order.trans)
qed simp

lemma fork_steps_forks:
  "fold (fork_step child) is (cs, k) = (cs', k') \<Longrightarrow>
     \<exists>u. forks k = u @ forks k' \<and> (\<exists>new. cs' = cs @ new \<and> length new = length is \<and>
       filter (\<lambda>p. p \<noteq> - 1) new = filter (\<lambda>p. p \<noteq> - 1) u)"
proof (induction "is" arbitrary: cs k)
  case (Cons i "is")
  obtain c1 k1 where 1: "fork_step child i (cs, k) = (c1, k1)" by fastforce
  have "\<exists>u p. forks k = u @ forks k1 \<and> c1 = cs @ [p] \<and> filter (\<lambda>p. p \<noteq> - 1) [p] = filter (\<lambda>p. p \<noteq> - 1) u"
  proof (cases "forks k")
    case Nil
    with 1 show ?thesis by (auto simp: fork_step_def k_fork_def)
  next
    case (Cons p ps)
    with 1 show ?thesis
      by (intro exI[of _ "[p]"] exI[of _ p]) (auto simp: fork_step_def k_fork_def Let_def split: if_splits prod.splits)
  qed
  then obtain u p where u: "forks k = u @ forks k1" "c1 = cs @ [p]"
    "filter (\<lambda>p. p \<noteq> - 1) [p] = filter (\<lambda>p. p \<noteq> - 1) u" by blast
  have "fold (fork_step child) is (c1, k1) = (cs', k')" using Cons.prems by (simp add: 1)
  from Cons.IH[OF this] obtain v new where v: "forks k1 = v @ forks k'" "cs' = c1 @ new" "length new = length is"
    "filter (\<lambda>p. p \<noteq> - 1) new = filter (\<lambda>p. p \<noteq> - 1) v" by blast
  have "forks k = (u @ v) @ forks k'" unfolding u(1) v(1) by simp
  moreover have "cs' = cs @ [p] @ new" unfolding v(2) u(2) by simp
  moreover have "length ([p] @ new) = length (i # is)" using v(3) by simp
  moreover have "filter (\<lambda>p. p \<noteq> - 1) ([p] @ new) = filter (\<lambda>p. p \<noteq> - 1) (u @ v)"
    unfolding filter_append u(3) v(4) ..
  ultimately show ?case by blast
qed simp

lemma fork_stages_spent:
  assumes "fold (fork_step child) [0 ..< n] ([], k) = (cs, k')"
  shows "spent k k' cs \<and> length cs = n"
proof -
  obtain u where u: "forks k = [] @ u @ forks k'" "length cs = n"
    "filter (\<lambda>p. p \<noteq> - 1) cs = filter (\<lambda>p. p \<noteq> - 1) u"
    using fork_steps_forks[OF assms] by auto
  then show ?thesis unfolding spent_def by blast
qed

lemma spent_suffix:
  assumes "suffix (forks k1) (forks k)" "spent k1 k' ps"
  shows "spent k k' ps"
proof -
  obtain w v u where w: "forks k = w @ forks k1" and v: "forks k1 = v @ u @ forks k'"
    "filter (\<lambda>p. p \<noteq> - 1) ps = filter (\<lambda>p. p \<noteq> - 1) u"
    using assms by (auto simp: spent_def suffix_def)
  then have "forks k = (w @ v) @ u @ forks k'" by simp
  then show ?thesis unfolding spent_def using v(2) by blast
qed

lemma spent_none:
  assumes "suffix (forks k') (forks k)"
  shows "spent k k' []"
proof -
  obtain w where "forks k = w @ [] @ forks k'" using assms by (auto simp: suffix_def)
  then show ?thesis unfolding spent_def by (intro exI[of _ w] exI[of _ "[]"]) simp
qed

lemma spent_forks: "forks k2 = forks k \<Longrightarrow> forks k2' = forks k' \<Longrightarrow> spent k2 k2' ps = spent k k' ps"
  by (simp add: spent_def)

lemma setup_stages_length: "setup_stages sts k = (sts', k') \<Longrightarrow> length sts' = length sts"
  by (induction sts arbitrary: k sts' k') (auto simp: Let_def split: prod.splits)

lemma launch_spent:
  assumes "setup_stages S k = (S1, k1)" "make_pipes n [] k1 = (p, k2)" "fork_only f"
    and "fold f is (S1, k2) = (S3, k3)" "fold (fork_step child) [0 ..< length S3] ([], k3) = (cs, k4)"
    and "forks k' = forks k4"
  shows "spent k k' cs \<and> length cs = length S"
proof -
  note f = fold_forks[OF assms(3,4)] fork_stages_spent[OF assms(5)]
  have "suffix (forks k3) (forks k)"
    using f(1) setup_stages_forks[OF assms(1)] make_pipes_forks[OF assms(2)] by (metis suffix_order.trans)
  then have "spent k k4 cs" using f(2) by (blast intro: spent_suffix)
  then show ?thesis
    using spent_forks[OF refl assms(6), of k cs] f setup_stages_length[OF assms(1)] by simp
qed

definition pids_of :: "int list option \<Rightarrow> int list" where
  "pids_of r = (case r of None \<Rightarrow> [] | Some cs \<Rightarrow> cs)"

lemma launch_pipeline_spent:
  assumes "launch_pipeline env S k = (r, k')"
  shows "spent k k' (pids_of r) \<and> (\<forall>cs. r = Some cs \<longrightarrow> length cs = length S)"
proof -
  obtain S1 k1 where 1: "setup_stages S k = (S1, k1)" by fastforce
  obtain p k2 where 2: "make_pipes (length S1 - 1) [] k1 = (p, k2)" by fastforce
  show ?thesis
  proof (cases p)
    case (Inl pipes)
    then have "forks k' = forks k2" "r = None"
      using assms 1 2 by (auto simp: launch_pipeline_def abandon_pipes_def)
    then show ?thesis
      using setup_stages_forks[OF 1] make_pipes_forks[OF 2] by (simp add: pids_of_def spent_none)
  next
    case (Inr pipes)
    obtain S3 k3 where 3: "start_copiers pipes S1 k2 = (S3, k3)" by fastforce
    obtain cs k4 where 4: "fork_stages env S3 pipes k3 = (cs, k4)" by fastforce
    have "r = Some cs" "forks k' = forks k4"
      using assms 1 2 3 4 Inr by (auto simp: launch_pipeline_def close_parent_fds_def)
    with launch_spent[OF 1 2 copier_step_forks 3[unfolded start_copiers_def] 4[unfolded fork_stages_def]]
    show ?thesis by (simp add: pids_of_def)
  qed
qed

lemma launch_pipeline_background_spent:
  assumes "launch_pipeline_background env S k = (r, k')"
  shows "spent k k' (pids_of r) \<and> (\<forall>cs. r = Some cs \<longrightarrow> length cs = length S)"
proof -
  obtain S1 k1 where 1: "setup_stages S k = (S1, k1)" by fastforce
  obtain p k2 where 2: "make_pipes (length S1 - 1) [] k1 = (p, k2)" by fastforce
  show ?thesis
  proof (cases p)
    case (Inl pipes)
    then have "forks k' = forks k2" "r = None"
      using assms 1 2 by (auto simp: launch_pipeline_background_def)
    then show ?thesis
      using setup_stages_forks[OF 1] make_pipes_forks[OF 2] by (simp add: pids_of_def spent_none)
  next
    case (Inr pipes)
    obtain S3 k3 where 3: "bg_start_copiers S1 k2 = (S3, k3)" by fastforce
    obtain cs k4 where 4: "bg_fork_stages env S3 pipes k3 = (cs, k4)" by fastforce
    have "r = Some cs" "forks k' = forks k4"
      using assms 1 2 3 4 Inr by (auto simp: launch_pipeline_background_def close_parent_fds_def)
    with launch_spent[OF 1 2 bg_copier_step_forks 3[unfolded bg_start_copiers_def] 4[unfolded bg_fork_stages_def]]
    show ?thesis by (simp add: pids_of_def)
  qed
qed

lemma k_fork_spent:
  assumes "k_fork k = (pid, k')"
  shows "spent k k' [pid]"
proof (cases "forks k")
  case Nil
  with assms have "forks k = [] @ [] @ forks k'" "pid = - 1" by (auto simp: k_fork_def)
  then show ?thesis unfolding spent_def by (intro exI[of _ "[]"]) simp
next
  case (Cons p ps)
  with assms have "forks k = [] @ [pid] @ forks k'" by (auto simp: k_fork_def)
  then show ?thesis unfolding spent_def by blast
qed

lemma launch_background_spent:
  assumes "launch_background path argv ins files k = (res, pid, msg, k')"
  shows "spent k k' [pid]"
proof -
  obtain inp wp k1 where 1: "(if ins \<noteq> [] then setup_input ins k else (- 1, - 1, k)) = (inp, wp, k1)"
    by (cases "if ins \<noteq> [] then setup_input ins k else (- 1, - 1, k)") auto
  have s1: "suffix (forks k1) (forks k)" using 1 by (auto split: if_splits dest: setup_input_forks)
  have fail: "spent k k' [- 1]" if "suffix (forks k') (forks k)"
    using spent_none[OF that] by (simp add: spent_def)
  show ?thesis
  proof (cases "ins \<noteq> [] \<and> inp = - 1")
    case True
    with assms 1 s1 show ?thesis by (auto simp: launch_background_def Let_def intro!: fail)
  next
    case False
    obtain oo k2 where 2: "(if files \<noteq> [] then open_output_files files k1 else (Some [], k1)) = (oo, k2)"
      by fastforce
    have s2: "forks k2 = forks k1"
      using 2 by (auto simp: open_output_files_def split: if_splits dest: open_outputs_forks)
    show ?thesis
    proof (cases oo)
      case None
      with assms 1 2 False s1 s2 show ?thesis by (auto simp: launch_background_def Let_def intro!: fail)
    next
      case (Some outs)
      obtain q k3 where 3: "background_copier inp outs k2 = (q, k3)" by fastforce
      have s3: "suffix (forks k3) (forks k2)"
        using 3 by (auto simp: background_copier_def Let_def split: if_splits prod.splits option.splits
            dest!: k_pipe_forks k_fork_forks)
      have s13: "suffix (forks k3) (forks k)" using s1 s2 s3 by (metis suffix_order.trans)
      show ?thesis
      proof (cases q)
        case None
        with assms 1 2 3 False Some s13 show ?thesis by (auto simp: launch_background_def Let_def intro!: fail)
      next
        case (Some op)
        obtain pid' k4 where 4: "k_fork k3 = (pid', k4)" by fastforce
        have "pid = pid' \<and> forks k' = forks k4"
          using assms 1 2 3 4 False \<open>oo = Some outs\<close> Some
          by (auto simp: launch_background_def background_close_def Let_def split: if_splits prod.splits)
        then show ?thesis
          using spent_suffix[OF s13 k_fork_spent[OF 4]] spent_forks[of k k k' k4] by simp
      qed
    qed
  qed
qed

section \<open>The pids that the job table knows\<close>

definition known :: "job_table \<Rightarrow> int set" where
  "known T = pi_pid ` (\<Union>j \<in> set (jobs T). set (bj_procs j)) \<union> notif_pid ` set (notification_pipe T)"

text \<open>Changes of the table that keep it well formed and bring no pids in.\<close>

definition tame :: "job_table \<Rightarrow> job_table \<Rightarrow> bool" where
  "tame T T' \<longleftrightarrow> (wf_table T \<longrightarrow> wf_table T') \<and> known T' \<subseteq> known T"

lemma tame_refl [simp]: "tame T T"
  by (simp add: tame_def)

lemma tame_trans [trans]: "tame T T' \<Longrightarrow> tame T' T'' \<Longrightarrow> tame T T''"
  by (auto simp: tame_def)

lemma known_err [simp]: "known (T\<lparr>err_out := e\<rparr>) = known T"
  by (simp add: known_def)

lemma tame_err [simp]: "tame T (T\<lparr>err_out := e\<rparr>)"
  by (simp add: tame_def wf_table_def)

lemma set_upd_first:
  "x \<in> set (upd_first P f xs) \<Longrightarrow> x \<in> set xs \<or> (\<exists>y \<in> set xs. P y \<and> x = f y)"
  by (induction xs) (auto split: if_splits)

lemma set_swap_remove_first: "set (swap_remove_first P xs) \<subseteq> set xs"
proof (cases "list_ex P xs")
  case True
  then obtain us x vs where "xs = us @ x # vs" "mset (swap_remove_first P xs) = mset (us @ vs)"
    by (rule swap_remove_first_split)
  then show ?thesis by (metis Un_iff mset_eq_setD set_append set_subset_Cons subsetI subset_code(1))
qed (simp add: swap_remove_first_none)

lemma known_upd_first:
  assumes "\<And>j. pi_pid ` set (bj_procs (f j)) \<subseteq> pi_pid ` set (bj_procs j)"
  shows "known (T\<lparr>jobs := upd_first P f (jobs T)\<rparr>) \<subseteq> known T"
proof
  fix p assume "p \<in> known (T\<lparr>jobs := upd_first P f (jobs T)\<rparr>)"
  then consider j where "j \<in> set (upd_first P f (jobs T))" "p \<in> pi_pid ` set (bj_procs j)"
    | "p \<in> notif_pid ` set (notification_pipe T)" by (auto simp: known_def)
  then show "p \<in> known T"
  proof cases
    case (1 j)
    obtain i where "i \<in> set (jobs T)" "p \<in> pi_pid ` set (bj_procs i)"
      using set_upd_first[OF 1(1)] 1(2) assms by blast
    then show ?thesis by (auto simp: known_def)
  qed (simp add: known_def)
qed

lemma known_mono:
  assumes "set (jobs T') \<subseteq> set (jobs T)" "set (notification_pipe T') \<subseteq> set (notification_pipe T)"
  shows "known T' \<subseteq> known T"
  unfolding known_def by (intro Un_mono image_mono UN_mono assms subset_refl)

lemma known_remove: "known (T\<lparr>jobs := swap_remove_first P (jobs T)\<rparr>) \<subseteq> known T"
  by (rule known_mono) (simp_all add: set_swap_remove_first)

lemma set_states_pids: "pi_pid ` set (bj_procs (set_states st j)) = pi_pid ` set (bj_procs j)"
proof -
  have "map pi_pid (bj_procs (set_states st j)) = map pi_pid (bj_procs j)" by (simp add: set_states_def)
  from arg_cong[OF this, of set] show ?thesis by simp
qed

lemma tame_mark [simp]: "tame T (snd (mark_job_running n T))" "tame T (snd (mark_job_stopped n T))"
  unfolding tame_def using mark_wf known_upd_first set_states_pids
  by (simp_all add: mark_job_running_def mark_job_stopped_def)

lemma tame_remove [simp]: "tame T (snd (remove_job_by_number n T))"
  unfolding tame_def using remove_wf known_remove by (auto simp: remove_job_by_number_def)

lemma job_event_pids: "pi_pid ` set (bj_procs (job_event pid st j)) \<subseteq> pi_pid ` set (bj_procs j)"
proof -
  have "map pi_pid (upd_first (proc_matches pid) (proc_event st) (bj_procs j)) = map pi_pid (bj_procs j)"
    by (rule map_upd_first_id) (simp add: proc_event_def)
  from arg_cong[OF this, of set] show ?thesis by (simp add: job_event_def Let_def)
qed

lemma known_reap: "known (reap_event ev T) \<subseteq> known T"
proof (cases "find (job_matches (fst ev)) (jobs T)")
  case None
  then show ?thesis by (simp add: reap_event_def case_prod_unfold)
next
  case (Some j)
  then have j: "j \<in> set (jobs T)" "job_matches (fst ev) j" by (auto simp: find_Some_iff)
  let ?T = "T\<lparr>jobs := upd_first (job_matches (fst ev)) (job_event (fst ev) (snd ev)) (jobs T)\<rparr>"
  have "known ?T \<subseteq> known T" by (rule known_upd_first) (rule job_event_pids)
  moreover have "notif_pid ` set (job_notification (snd ev) (job_event (fst ev) (snd ev) j)) \<subseteq> known T"
  proof -
    let ?j = "job_event (fst ev) (snd ev) j"
    have "bj_procs ?j \<noteq> []" using j(2) by (auto simp: job_matches_def job_event_def Let_def)
    then have "pi_pid (hd (bj_procs ?j)) \<in> pi_pid ` set (bj_procs ?j)" by simp
    then have "pi_pid (hd (bj_procs ?j)) \<in> pi_pid ` set (bj_procs j)" using job_event_pids by blast
    then show ?thesis using j(1) by (auto simp: known_def job_notification_def)
  qed
  ultimately show ?thesis using Some by (auto simp: reap_event_def case_prod_unfold known_def)
qed

lemma tame_sigchld [simp]: "tame T (sigchld_handler evs T)"
proof -
  have "known (fold reap_event evs T) \<subseteq> known T"
  proof (induction evs arbitrary: T)
    case (Cons e evs)
    then show ?case using known_reap[of e T] by fastforce
  qed simp
  then show ?thesis unfolding tame_def using sigchld_handler_wf by (simp add: sigchld_handler_def)
qed

lemma known_drain: "known (drain_loop ns T) \<subseteq> known T \<union> notif_pid ` set ns"
proof (induction ns arbitrary: T)
  case (Cons n ns)
  have "known (drain_one n (T\<lparr>notification_pipe := ns\<rparr>)) \<subseteq> known (T\<lparr>notification_pipe := ns\<rparr>)"
    by (rule known_mono) (simp_all add: drain_one_def set_swap_remove_first split: option.split)
  also have "\<dots> \<subseteq> known T \<union> notif_pid ` set ns" unfolding known_def by (simp, blast)
  finally have "known (drain_one n (T\<lparr>notification_pipe := ns\<rparr>)) \<subseteq> known T \<union> notif_pid ` set ns" .
  then show ?case using Cons.IH[of "drain_one n (T\<lparr>notification_pipe := ns\<rparr>)"] by auto
qed simp

lemma tame_drain [simp]: "tame T (drain_background_notifications T)"
proof -
  have "known (drain_loop (notification_pipe T) T) \<subseteq> known T"
    using known_drain[of "notification_pipe T" T] by (auto simp: known_def)
  then show ?thesis unfolding tame_def using drain_wf(1)[of T] by (simp add: drain_background_notifications_def)
qed

section \<open>The invariant of kernel and shell\<close>

text \<open>The pids to come are new: no two are the same, and the job table has none of them.\<close>

definition pid_inv :: "kernel \<Rightarrow> job_table \<Rightarrow> bool" where
  "pid_inv k T \<longleftrightarrow>
     distinct (filter (\<lambda>p. p \<noteq> - 1) (forks k)) \<and> (\<forall>p \<in> set (forks k). p \<noteq> - 1 \<longrightarrow> p \<notin> known T)"

definition shell_inv :: "kernel \<Rightarrow> shell \<Rightarrow> bool" where
  "shell_inv k sh \<longleftrightarrow>
     wf_table (fst sh) \<and> pid_inv k (fst sh) \<and> tty_pgrp (snd sh) = shell_pgid (snd sh)"

lemma pid_inv_tame: "pid_inv k T \<Longrightarrow> tame T T' \<Longrightarrow> pid_inv k T'"
  by (auto simp: pid_inv_def tame_def)

lemma known_contains:
  assumes "wf_table T"
  shows "set (concat (map live (jobs T))) \<union> leader ` set (jobs T) \<union> notif_pid ` set (notification_pipe T) \<subseteq> known T"
proof -
  have "live j \<noteq> [] \<Longrightarrow> set (live j) \<subseteq> pi_pid ` set (bj_procs j)" for j by (auto simp: live_def)
  then have live: "set (live j) \<subseteq> pi_pid ` set (bj_procs j)" for j by (cases "live j = []") auto
  have leader: "leader j \<in> pi_pid ` set (bj_procs j)" if "j \<in> set (jobs T)" for j
  proof -
    have "bj_procs j \<noteq> []" using assms that by (simp add: wf_table_def wf_jobs_def wf_job_def)
    then show ?thesis by (simp add: leader_def)
  qed
  have all: "pi_pid ` set (bj_procs j) \<subseteq> known T" if "j \<in> set (jobs T)" for j
    using that by (auto simp: known_def)
  have "set (concat (map live (jobs T))) \<subseteq> known T" using live all by fastforce
  moreover have "leader ` set (jobs T) \<subseteq> known T" using leader all by blast
  ultimately show ?thesis by (simp add: known_def)
qed

lemma spent_pids:
  assumes "pid_inv k T" "spent k k' ps"
  shows "distinct (filter (\<lambda>p. p \<noteq> - 1) ps)" "set (filter (\<lambda>p. p \<noteq> - 1) ps) \<inter> known T = {}"
    "known T' \<subseteq> known T \<union> set (filter (\<lambda>p. p \<noteq> - 1) ps) \<Longrightarrow> pid_inv k' T'"
proof -
  obtain v u where f: "forks k = v @ u @ forks k'"
    and u: "filter (\<lambda>p. p \<noteq> - 1) ps = filter (\<lambda>p. p \<noteq> - 1) u" using assms(2) by (auto simp: spent_def)
  have d: "distinct (filter (\<lambda>p. p \<noteq> - 1) u)" "distinct (filter (\<lambda>p. p \<noteq> - 1) (forks k'))"
    "set (filter (\<lambda>p. p \<noteq> - 1) u) \<inter> set (filter (\<lambda>p. p \<noteq> - 1) (forks k')) = {}"
    using assms(1) f by (auto simp: pid_inv_def)
  have n: "p \<notin> known T" if "p \<in> set u \<union> set (forks k')" "p \<noteq> - 1" for p
    using assms(1) f that by (auto simp: pid_inv_def)
  show "distinct (filter (\<lambda>p. p \<noteq> - 1) ps)" using u d(1) by simp
  show "set (filter (\<lambda>p. p \<noteq> - 1) ps) \<inter> known T = {}" unfolding u using n by auto
  show "pid_inv k' T'" if "known T' \<subseteq> known T \<union> set (filter (\<lambda>p. p \<noteq> - 1) ps)"
    unfolding pid_inv_def
  proof (intro conjI ballI impI)
    show "distinct (filter (\<lambda>p. p \<noteq> - 1) (forks k'))" by (rule d(2))
    fix p assume p: "p \<in> set (forks k')" "p \<noteq> - 1"
    then have "p \<notin> set (filter (\<lambda>p. p \<noteq> - 1) u)" using d(3) by auto
    then show "p \<notin> known T'" using that n p unfolding u by blast
  qed
qed

lemma spent_fresh:
  assumes "wf_table T" "pid_inv k T" "spent k k' ps"
  shows "fresh_pids (filter (\<lambda>p. p \<noteq> - 1) ps) T"
  unfolding fresh_pids_def using spent_pids(1,2)[OF assms(2,3)] known_contains[OF assms(1)] by blast

lemma new_procs_pids: "pi_pid ` set (new_procs st pids names (min (length pids) n)) \<subseteq> set pids"
  by (auto simp: new_procs_def)

lemma known_register:
  "known (register_background_job pgid pids names (length pids) cmd T) \<subseteq> known T \<union> set pids"
  "known (register_stopped_job pgid pids names (length pids) cmd T) \<subseteq> known T \<union> set pids"
proof -
  have "known (T\<lparr>jobs := jobs T @ [j], next_job_number := n\<rparr>) \<subseteq>
      known T \<union> pi_pid ` set (bj_procs j)" for j n
    by (simp add: known_def) blast
  note k = subset_trans[OF this Un_mono[OF subset_refl]]
  show "known (register_background_job pgid pids names (length pids) cmd T) \<subseteq> known T \<union> set pids"
    "known (register_stopped_job pgid pids names (length pids) cmd T) \<subseteq> known T \<union> set pids"
    unfolding register_background_job_def register_stopped_job_def Let_def
    by (simp_all add: k new_procs_pids)
qed

lemma register_inv:
  assumes "shell_inv k sh" "spent k k' ps" "pids = filter (\<lambda>p. p \<noteq> - 1) ps" "pids \<noteq> []"
  shows "shell_inv k' (register_background_job pgid pids names (length pids) cmd (fst sh), snd sh)"
    "shell_inv k' (register_stopped_job pgid pids names (length pids) cmd (fst sh), snd sh)"
proof -
  have wf: "wf_table (fst sh)" "pid_inv k (fst sh)" "tty_pgrp (snd sh) = shell_pgid (snd sh)"
    using assms(1) by (simp_all add: shell_inv_def)
  note f = spent_fresh[OF wf(1,2) assms(2), folded assms(3)]
  note p = spent_pids(3)[OF wf(2) assms(2), folded assms(3)]
  show "shell_inv k' (register_background_job pgid pids names (length pids) cmd (fst sh), snd sh)"
    unfolding shell_inv_def
    using register_background_job_wf[OF wf(1) assms(4) f] p[OF known_register(1)] wf(3) by simp
  show "shell_inv k' (register_stopped_job pgid pids names (length pids) cmd (fst sh), snd sh)"
    unfolding shell_inv_def
    using register_stopped_job_wf[OF wf(1) assms(4) f] p[OF known_register(2)] wf(3) by simp
qed

lemma spent_inv: "shell_inv k sh \<Longrightarrow> spent k k' ps \<Longrightarrow> shell_inv k' sh"
  unfolding shell_inv_def using spent_pids(3)[of k "fst sh" k' ps "fst sh"] by simp

lemma puts_inv [simp]:
  "shell_inv k (puts_out s sh) = shell_inv k sh" "shell_inv k (puts_err s sh) = shell_inv k sh"
  "shell_inv (k\<lparr>printed := p\<rparr>) sh = shell_inv k sh"
  by (simp_all add: shell_inv_def pid_inv_def puts_err_def) (simp add: wf_table_def)

lemma spent_printed [simp]: "spent (k\<lparr>printed := p\<rparr>) k' ps = spent k k' ps"
  by (simp add: spent_def)

text \<open>What a command does between giving the terminal away and getting it back.\<close>

lemma terminal_inv:
  assumes "shell_inv k sh"
  shows "shell_inv k (reclaim_terminal None (give_terminal_to res pgid sh))"
  using assms
  by (simp add: shell_inv_def reclaim_terminal_def give_terminal_to_def tcsetpgrp_def puts_err_def wf_table_def
      pid_inv_def split: option.split)

lemma filter_zip_fst:
  "length cs = length ns \<Longrightarrow> map fst (filter (\<lambda>(pid, name). P pid) (zip cs ns)) = filter P cs"
  by (induction cs ns rule: list_induct2) auto

lemma live_children_pids:
  "length cs = length S \<Longrightarrow> map fst (live_children cs S) = filter (\<lambda>p. p \<noteq> - 1) cs"
  by (simp add: live_children_def filter_zip_fst)

lemma live_children_length:
  "length cs = length S \<Longrightarrow> length (live_children cs S) = length (filter (\<lambda>p. p \<noteq> - 1) cs)"
  using live_children_pids[of cs S] by (metis length_map)

lemma run_pipeline_inv:
  assumes "shell_inv k sh" "reclaim_result we = None" "S \<noteq> []"
    and "run_pipeline env we S k sh = Inr (Some (k', sh'))"
  shows "shell_inv k' sh'"
proof -
  obtain r k1 where l: "launch_pipeline env S (k\<lparr>printed := []\<rparr>) = (r, k1)" by fastforce
  note s = launch_pipeline_spent[OF l, simplified]
  show ?thesis
  proof (cases r)
    case None
    then have "k' = k1" "sh' = puts_out (printed k1) sh"
      using assms(4) l by (auto simp: run_pipeline_def split: if_splits)
    then show ?thesis using spent_inv[OF assms(1), of k1 "pids_of r"] s by simp
  next
    case (Some cs)
    then have sp: "spent k k1 cs" "length cs = length S" using s by (simp_all add: pids_of_def)
    then have ne: "cs \<noteq> []" using assms(3) by auto
    let ?sh = "puts_out (printed k1) sh"
    have fin: "finish_pipeline we S cs ?sh = Inr (Some sh')" "k' = k1"
      using assms(4) l Some by (auto simp: run_pipeline_def bind_fault_Inr split: if_splits)
    have inv: "shell_inv k ?sh" using assms(1) by simp
    show ?thesis
    proof (cases "hd cs = - 1")
      case True
      then show ?thesis using fin spent_inv[OF inv sp(1)] by (simp add: finish_pipeline_def)
    next
      case False
      let ?pids = "filter (\<lambda>p. p \<noteq> - 1) cs"
      have "?pids \<noteq> []" using False ne by (cases cs) auto
      note reg = register_inv(2)[OF _ sp(1) refl this]
      let ?sh1 = "reclaim_terminal None (give_terminal_to (give_result we) (hd cs) ?sh)"
      have t: "shell_inv k ?sh1" "shell_inv k (puts_out [CHR 0x0A] ?sh1)" using terminal_inv[OF inv] by simp_all
      obtain st rest where "wait_foreground_group cs (wait_events we) = Returned st rest"
        using fin(1) False by (auto simp: finish_pipeline_def Let_def split: wait_outcome.splits)
      then have "sh' = (let sh = (if st = 2 then puts_out [CHR 0x0A] ?sh1 else ?sh1)
          in if st = 1 then (register_stopped_job (hd cs) ?pids (map snd (live_children cs S)) (length ?pids)
               (Some (pipeline_cmdline (map st_argv S) True [])) (fst sh), snd sh) else sh)"
        using fin(1) False assms(2) sp(2)
        by (cases "st = 1"; cases "st = 2")
          (simp_all add: finish_pipeline_def Let_def live_children_pids live_children_length)
      then show ?thesis using reg[OF t(1)] spent_inv[OF t(1) sp(1)] spent_inv[OF t(2) sp(1)] fin(2)
        by (auto simp: Let_def)
    qed
  qed
qed

lemma run_pipeline_background_inv:
  assumes "shell_inv k sh" "S \<noteq> []" "run_pipeline_background env S k sh = Inr (res, k', sh')"
  shows "shell_inv k' sh'"
proof -
  obtain r k1 where l: "launch_pipeline_background env S (k\<lparr>printed := []\<rparr>) = (r, k1)" by fastforce
  note s = launch_pipeline_background_spent[OF l, simplified]
  let ?sh = "puts_out (printed k1) sh"
  have inv: "shell_inv k ?sh" using assms(1) by simp
  show ?thesis
  proof (cases r)
    case None
    then show ?thesis
      using assms(3) l spent_inv[OF inv] s by (auto simp: run_pipeline_background_def split: if_splits)
  next
    case (Some cs)
    then have sp: "spent k k1 cs" "length cs = length S" using s by (simp_all add: pids_of_def)
    then have ne: "cs \<noteq> []" using assms(2) by auto
    show ?thesis
    proof (cases "hd cs = - 1")
      case True
      then show ?thesis
        using assms(3) l Some spent_inv[OF inv sp(1)]
        by (auto simp: run_pipeline_background_def Let_def split: if_splits)
    next
      case False
      have "filter (\<lambda>p. p \<noteq> - 1) cs \<noteq> []" using False ne by (cases cs) auto
      from register_inv(1)[OF inv sp(1) refl this] show ?thesis
        using assms(3) l Some False sp(2)
        by (auto simp: run_pipeline_background_def Let_def live_children_pids live_children_length split: if_splits)
    qed
  qed
qed

lemma run_background_inv:
  assumes "shell_inv k sh" "run_background path argv ins files k sh = (res, k', sh')"
  shows "shell_inv k' sh'"
proof -
  obtain r pid msg k1 where l: "launch_background path argv ins files (k\<lparr>printed := []\<rparr>) = (r, pid, msg, k1)"
    by (metis prod_cases4)
  have sp: "spent k k1 [pid]" using launch_background_spent[OF l] by simp
  let ?sh = "puts_err msg (puts_out (printed k1) sh)"
  have inv: "shell_inv k ?sh" using assms(1) by simp
  show ?thesis
  proof (cases "pid = - 1")
    case True
    then show ?thesis using assms(2) l spent_inv[OF inv sp] by (auto simp: run_background_def)
  next
    case False
    then show ?thesis
      using assms(2) l register_inv(1)[OF inv sp refl, where names = "[hd argv]"]
      by (auto simp: run_background_def)
  qed
qed

section \<open>The executor\<close>

lemma pipeline_loop_nonempty: "pipeline_loop ts seg result = Inr (Some S) \<Longrightarrow> S \<noteq> []"
  by (induction ts seg result rule: pipeline_loop.induct)
     (auto split: sum.splits option.splits if_splits)

lemma parse_pipeline_nonempty: "parse_pipeline ok ts = Inr (Some (S, n)) \<Longrightarrow> S \<noteq> []"
  by (auto simp: parse_pipeline_def Let_def pipeline_loop_nonempty split: sum.splits option.splits if_splits)

lemma message_inv [simp]:
  "shell_inv k (invalid_syntax sh) = shell_inv k sh" "shell_inv k (not_found name sh) = shell_inv k sh"
  by (simp_all add: invalid_syntax_def not_found_def)

lemma run_foreground_inv:
  assumes "shell_inv k sh" "reclaim_result (ce_wait ce) = None" "S \<noteq> []"
    and "run_foreground ce S k sh = Inr (Some (res, k', sh'))"
  shows "shell_inv k' sh'"
  using assms(4) run_pipeline_inv[OF assms(1-3)] by (auto simp: run_foreground_def bind_fault_Inr)

lemma bind_fault_case: "bind_fault m f = (case m of Inl e \<Rightarrow> Inl e | Inr x \<Rightarrow> f x)"
  by (cases m) simp_all

lemma exec_command_inv:
  assumes "shell_inv k sh" "reclaim_result (ce_wait ce) = None"
    and "exec_command ce ts k sh = Inr (Some (res, k', sh'))"
  shows "shell_inv k' sh'"
proof -
  have run: "shell_inv k' sh'" if "S \<noteq> []" "run_foreground ce S k sh = Inr (Some (res, k', sh'))" for S
    using run_foreground_inv[OF assms(1,2) that] .
  show ?thesis
  proof (cases "has_pipeline ts")
    case True
    then show ?thesis
      using assms(1,3)
      by (auto simp: exec_command_def bind_fault_Inr split: option.splits intro: run dest: parse_pipeline_nonempty)
  next
    case False
    then show ?thesis
      using assms(1,3)
      by (auto simp: exec_command_def bind_fault_case split: sum.splits option.splits prod.splits if_splits intro: run)
  qed
qed

lemma exec_background_command_inv:
  assumes "shell_inv k sh" "exec_background_command ce ts k sh = Inr (res, k', sh')"
  shows "shell_inv k' sh'"
  using assms
  by (auto simp: exec_background_command_def bind_fault_case split: sum.splits option.splits prod.splits if_splits
      intro: run_background_inv)

lemma background_item_inv:
  assumes "shell_inv k sh" "background_item ce ts k sh = Inr (Some (res, k', sh'))"
  shows "shell_inv k' sh'"
proof (cases "has_pipeline ts")
  case True
  then show ?thesis
    using assms
    by (auto simp: background_item_def bind_fault_case split: sum.splits option.splits
        dest!: parse_pipeline_nonempty intro: run_pipeline_background_inv[of k sh])
next
  case False
  then show ?thesis
    using assms by (auto simp: background_item_def bind_fault_Inr intro: exec_background_command_inv)
qed

lemma sequence_command_inv:
  assumes "shell_inv k sh" "\<forall>n. reclaim_result (ce_wait (ce n)) = None"
    and "sequence_command ce ts k sh = Inr (Some (res, k', sh'))"
  shows "shell_inv k' sh'"
  using assms
proof (induction ce ts k sh rule: sequence_command.induct)
  case (1 ce ts k sh)
  let ?c = "dropWhile (\<lambda>t. \<not> separator t) ts"
  show ?case
  proof (cases "ts = []")
    case True
    with 1 show ?thesis by (simp add: sequence_command.simps)
  next
    case False
    let ?m = "if ?c \<noteq> [] \<and> tok_type (hd ?c) = OP_AMP then background_item (ce 0) ts k sh
      else exec_command (ce 0) ts k sh"
    obtain r where m: "?m = Inr r" and r: "(case r of None \<Rightarrow> Inr None
        | Some (res, k, sh) \<Rightarrow> if res \<noteq> 0 then Inr (Some (res, k, sh)) else if ?c = [] then Inr (Some (0, k, sh))
            else sequence_command (\<lambda>n. ce (Suc n)) (tl ?c) k sh) = Inr (Some (res, k', sh'))"
      using 1(4) False by (subst (asm) sequence_command.simps) (auto simp: Let_def bind_fault_Inr)
    then obtain res1 k1 sh1 where r1: "r = Some (res1, k1, sh1)" by (auto split: option.splits)
    have inv: "shell_inv k1 sh1"
      using m r1 exec_command_inv[OF 1(2), of "ce 0" ts res1 k1 sh1]
        background_item_inv[OF 1(2), of "ce 0" ts res1 k1 sh1] 1(3) by (auto split: if_splits)
    show ?thesis
    proof (cases "res1 \<noteq> 0 \<or> ?c = []")
      case True
      then show ?thesis using r r1 inv by (auto split: if_splits)
    next
      case False
      then have "sequence_command (\<lambda>n. ce (Suc n)) (tl ?c) k1 sh1 = Inr (Some (res, k', sh'))"
        using r r1 by (simp del: dropWhile_eq_Nil_conv)
      with 1(1)[OF \<open>ts \<noteq> []\<close> refl _ _ inv, of 0] False 1(3) show ?thesis
        by (simp del: dropWhile_eq_Nil_conv)
    qed
  qed
qed

section \<open>The main loop\<close>

definition world_inv :: "world \<Rightarrow> bool" where
  "world_inv w \<longleftrightarrow> shell_inv (w_kernel w) (w_shell w)"

text \<open>Changes of the shell that launch nothing and leave the terminal alone.\<close>

lemma tame_inv:
  assumes "shell_inv k sh" "tame (fst sh) (fst sh')"
    and "tty_pgrp (snd sh') = tty_pgrp (snd sh)" "shell_pgid (snd sh') = shell_pgid (snd sh)"
  shows "shell_inv k sh'"
  using assms pid_inv_tame[OF _ assms(2)] by (simp add: shell_inv_def) (simp add: tame_def)

lemma tame_puts [simp]: "tame (fst sh) (fst (puts_err s sh))" "tame (fst sh) (fst (puts_out s sh))"
  by (simp_all add: puts_err_def)

lemma kill_inv [simp]: "shell_inv k (kill pid sig sh) = shell_inv k sh"
  by (simp add: shell_inv_def kill_def)

lemma on_table_inv:
  "shell_inv k sh \<Longrightarrow> (\<And>T. tame T (snd (f T))) \<Longrightarrow> shell_inv k (on_table f sh)"
  by (rule tame_inv[of k sh]) (simp_all add: on_table_def)

lemma fold_inv:
  assumes "\<And>x s. shell_inv k s \<Longrightarrow> shell_inv k (f x s)"
  shows "shell_inv k s \<Longrightarrow> shell_inv k (fold f xs s)"
  using assms by (induction xs arbitrary: s) auto

lemma resume_finish_inv: "shell_inv k sh \<Longrightarrow> shell_inv k (resume_finish r n g c sh)"
  unfolding resume_finish_def by (simp add: on_table_inv)

lemma exec_resume_inv:
  assumes "shell_inv k sh" "re_reclaim env = None" "exec_resume toks env sh = Some (res, sh')"
  shows "shell_inv k sh'"
proof -
  let ?sh1 = "(sigchld_handler (re_events env) (fst sh), snd sh)"
  have 1: "shell_inv k ?sh1" by (rule tame_inv[OF assms(1)]) simp_all
  have 2: "shell_inv k (on_table (mark_job_running n) (kill p sig ?sh1))" for n p sig
    using 1 by (intro on_table_inv) simp_all
  have 3: "shell_inv k (resume_finish r n g c (reclaim_terminal None (give_terminal_to x g' (puts_out s
      (on_table (mark_job_running n') (kill p sig ?sh1))))))" for r n g c x g' s n' p sig
    using 2 by (intro resume_finish_inv terminal_inv) simp
  have 4: "shell_inv k (on_table (remove_job_by_number n) ?sh1)" for n
    using 1 by (intro on_table_inv) simp_all
  show ?thesis
    using assms(1,2,3) 2 3 4
    by (auto simp: exec_resume_def Let_def split: option.splits prod.splits if_splits wait_outcome.splits)
qed

lemma exec_ping_inv: "shell_inv k sh \<Longrightarrow> shell_inv k (snd (exec_ping toks sh))"
  by (auto simp: exec_ping_def ping_syntax_def ping_missing_def ping_job_def ping_pid_def Let_def
      split: list.split option.split prod.split)

lemma exec_activities_inv: "shell_inv k sh \<Longrightarrow> shell_inv k (exec_activities sh)"
  unfolding exec_activities_def by (intro fold_inv) simp_all

lemma handle_eof_inv: "shell_inv k sh \<Longrightarrow> shell_inv k (snd (handle_eof sh))"
proof -
  assume inv: "shell_inv k sh"
  have "shell_inv k (send_sighup_to_all_jobs sh)"
    unfolding send_sighup_to_all_jobs_def using inv by (intro fold_inv) simp_all
  moreover have "shell_inv k (let sh' = puts_err s sh in (fst sh', (snd sh')\<lparr>previous_eof := True\<rparr>))" for s
    using inv puts_inv(2)[of k s sh] by (simp add: shell_inv_def Let_def del: puts_inv)
  ultimately show ?thesis by (simp add: handle_eof_def Let_def)
qed

lemma on_tty_inv:
  "world_inv w \<Longrightarrow> (\<And>t. tty_pgrp (f t) = tty_pgrp t \<and> shell_pgid (f t) = shell_pgid t) \<Longrightarrow> world_inv (on_tty f w)"
  by (simp add: world_inv_def on_tty_def shell_inv_def)

lemma consume_tty [simp]:
  "tty_pgrp (snd (consume_signal_newline t)) = tty_pgrp t" "shell_pgid (snd (consume_signal_newline t)) = shell_pgid t"
  by (simp_all add: consume_signal_newline_def)

lemma print_inv [simp]:
  "world_inv (print_lines ls w) = world_inv w" "world_inv (print_text s w) = world_inv w"
  "world_inv (w\<lparr>w_hop := h\<rparr>) = world_inv w" "world_inv (w\<lparr>w_curr_dir := d\<rparr>) = world_inv w"
  "world_inv (w\<lparr>w_tokens := toks\<rparr>) = world_inv w"
  by (simp_all add: world_inv_def print_lines_def print_text_def)

lemma drain_jobs_inv: "world_inv w \<Longrightarrow> world_inv (drain_jobs w)"
  unfolding world_inv_def drain_jobs_def by simp (erule tame_inv; simp)

lemma prompt_inv: "world_inv w \<Longrightarrow> world_inv (prompt e w)"
  by (simp add: prompt_def Let_def on_tty_inv)

lemma await_inv: "world_inv w \<Longrightarrow> world_inv (await_line e w)"
  unfolding world_inv_def await_line_def
  by (auto simp: shell_signal_handler_def intro: tame_inv[of "w_kernel w" "w_shell w"])

text \<open>In the turn the calls that take the terminal back succeed.\<close>

definition reclaims :: "turn \<Rightarrow> bool" where
  "reclaims e \<longleftrightarrow> re_reclaim (t_resume e) = None \<and> (\<forall>n. reclaim_result (ce_wait (t_cmds e n)) = None)"

lemma dispatch_inv:
  assumes "world_inv w" "reclaims e" "dispatch_line e w = Inr (Some w')"
  shows "world_inv w'"
proof -
  have inv: "shell_inv (w_kernel w) (w_shell w)" using assms(1) by (simp add: world_inv_def)
  have res: "world_inv (w\<lparr>w_shell := sh\<rparr>)" if "exec_resume (w_tokens w) (t_resume e) (w_shell w) = Some (r, sh)" for r sh
    using exec_resume_inv[OF inv _ that] assms(2) by (simp add: world_inv_def reclaims_def)
  have seq: "world_inv (w\<lparr>w_kernel := k, w_shell := sh\<rparr>)"
    if "sequence_command (t_cmds e) (w_tokens w) (w_kernel w) (w_shell w) = Inr (Some (r, k, sh))" for r k sh
    using sequence_command_inv[OF inv _ that] assms(2) by (simp add: world_inv_def reclaims_def)
  have ping: "world_inv (w\<lparr>w_shell := snd (exec_ping (w_tokens w) (w_shell w))\<rparr>)"
    and act: "world_inv (w\<lparr>w_shell := exec_activities (w_shell w)\<rparr>)"
    using exec_ping_inv[OF inv] exec_activities_inv[OF inv] by (simp_all add: world_inv_def)
  show ?thesis
    using assms(1,3) ping act
    by (auto simp: dispatch_line_def Let_def bind_fault_Inr split: if_splits intro: res seq)
qed

lemma handle_line_inv:
  assumes "world_inv w" "reclaims e" "handle_line e input w = Inr (st, w')"
  shows "world_inv w'" "st \<noteq> Left"
proof -
  let ?w = "on_tty reset_eof_state w"
  have inv: "world_inv ?w" using assms(1) by (intro on_tty_inv) (simp_all add: reset_eof_state_def)
  obtain ok toks msg where l: "lexing (takeWhile (\<lambda>c. c \<noteq> CHR 0x0A) input) (free_tokens (w_tokens ?w)) = Some (ok, toks, msg)"
    using assms(3) by (auto simp: handle_line_def Let_def split: option.splits)
  let ?v = "print_text msg (?w\<lparr>w_tokens := toks\<rparr>)"
  have v: "world_inv ?v" using inv by simp
  have d: "world_inv w1" if "dispatch_line e ?v = Inr (Some w1)" for w1
    using dispatch_inv[OF v assms(2) that] .
  show "world_inv w'" "st \<noteq> Left"
    using assms(3) l v
    by (auto simp: handle_line_def Let_def bind_fault_Inr split: if_splits option.splits
        intro!: drain_jobs_inv intro: d)
qed

lemma main_turn_inv:
  assumes "world_inv w" "reclaims e" "main_turn e w = Inr (st, w')"
  shows "world_inv w'"
proof -
  let ?w = "await_line e (prompt e w)"
  have w: "world_inv ?w" using assms(1) by (simp add: await_inv prompt_inv)
  let ?v = "on_tty (\<lambda>t. snd (consume_signal_newline t)) ?w"
  have "world_inv ?v" using w by (intro on_tty_inv) simp_all
  then have eof: "world_inv (snd (end_of_input ?w))"
    using handle_eof_inv[of "w_kernel ?v" "w_shell ?v"]
    by (simp add: end_of_input_def Let_def case_prod_unfold world_inv_def)
  show ?thesis
  proof (cases "t_read e")
    case (Line input)
    then show ?thesis using handle_line_inv(1)[OF w assms(2)] assms(3) by (simp add: main_turn_def Let_def)
  qed (use eof assms(3) in \<open>auto simp: main_turn_def Let_def\<close>)
qed

lemma main_loop_inv:
  "world_inv w \<Longrightarrow> \<forall>e \<in> set es. reclaims e \<Longrightarrow> main_loop es w = Inr (st, w', rest) \<Longrightarrow> world_inv w'"
proof (induction es arbitrary: w)
  case (Cons e es)
  then obtain st1 w1 where t: "main_turn e w = Inr (st1, w1)"
    and r: "(if st1 = Running then main_loop es w1 else Inr (st1, w1, es)) = Inr (st, w', rest)"
    by (auto simp: bind_fault_Inr)
  have "world_inv w1" using main_turn_inv[OF Cons.prems(1) _ t] Cons.prems(2) by simp
  then show ?case using Cons.IH[of w1] Cons.prems(2) r by (auto split: if_splits)
qed simp

lemma main_init_inv:
  assumes "main_init home user host pid None k t hop = Inr w" "distinct (filter (\<lambda>p. p \<noteq> - 1) (forks k))"
  shows "world_inv w"
proof -
  have "known init_background = {}" by (simp add: known_def init_background_def)
  then show ?thesis
    using assms
    by (auto simp: main_init_def bind_fault_Inr world_inv_def shell_inv_def pid_inv_def Let_def
        init_job_control_def tcsetpgrp_def init_background_wf)
qed

text \<open>A line that starts with a built-in starts no process of the executor, whatever follows.\<close>

lemma builtin_line:
  assumes "tok_value (hd (w_tokens w)) \<in> {''hop'', ''reveal'', ''peek'', ''locate'', ''activities'', ''resume'',
      ''ping'', ''spy'', ''snoop''}"
    and "dispatch_line e w = Inr (Some w')"
  shows "w_kernel w' = w_kernel w"
  using assms
  by (auto simp: dispatch_line_def Let_def bind_fault_Inr print_text_def print_lines_def)

lemma handle_line_stays: "handle_line e input w \<noteq> Inr (Left, w')"
  by (auto simp: handle_line_def Let_def bind_fault_Inr split: option.splits)

lemma end_of_input_stays:
  assumes "end_of_input w = (st, w')"
  shows "st = Left \<or> st = Running \<and> previous_eof (snd (w_shell w')) "
  using assms by (auto simp: end_of_input_def handle_eof_def Let_def split: if_splits)

lemma end_of_input_twice:
  assumes "previous_eof (snd (w_shell w))"
  shows "fst (end_of_input w) = Left"
  using assms
  by (simp add: end_of_input_def handle_eof_def Let_def on_tty_def consume_signal_newline_def)

lemma prompt_eof [simp]: "previous_eof (snd (w_shell (await_line e (prompt e w)))) = previous_eof (snd (w_shell w))"
  by (simp add: await_line_def prompt_def Let_def print_text_def puts_out_def on_tty_def
      consume_signal_newline_def shell_signal_handler_def)

section \<open>Properties\<close>

text \<open>
  C5.  Whatever lines are typed, whatever the commands meet and however children change state between
  them: at every prompt the job table is well formed and the terminal belongs to the shell.  The
  hypotheses are that \<open>fork\<close> gives new pids and that \<open>tcsetpgrp\<close> does not refuse the shell its own
  terminal.
\<close>

theorem main_loop_invariant:
  assumes "main_init home user host pid None k t hop = Inr w" "distinct (filter (\<lambda>p. p \<noteq> - 1) (forks k))"
    and "\<forall>e \<in> set es. reclaims e" "main_loop es w = Inr (st, w', rest)"
  shows "wf_table (fst (w_shell w')) \<and> tty_pgrp (snd (w_shell w')) = shell_pgid (snd (w_shell w'))"
  using main_loop_inv[OF main_init_inv[OF assms(1,2)] assms(3,4)] by (simp add: world_inv_def shell_inv_def)

definition quiet_turn :: "reading \<Rightarrow> turn" where
  "quiet_turn r = \<lparr>t_read = r, t_children = [], t_signal = False,
     t_fs = \<lparr>chdir_to = (\<lambda>_ _. None), getcwd_of = Some, exists_at = (\<lambda>_ _. False), log_writable = (\<lambda>_. False)\<rparr>,
     t_dirs = \<lparr>dir_entries = (\<lambda>_. None), stat_dir = (\<lambda>_. None)\<rparr>, t_depth = 0, t_files = (\<lambda>_. Missing),
     t_stdin = [], t_search = find_all,
     t_resume = \<lparr>re_events = [], re_give = None, re_reclaim = None, re_wait = [],
       re_clock = \<lparr>on_alarm = SIG_DFL, alarm_set = False, resume_alarm_fired = False\<rparr>\<rparr>,
     t_proc = \<lparr>stat_type = (\<lambda>_. None), read_link = (\<lambda>_. None), file_text = (\<lambda>_. None), dir_names = (\<lambda>_. None),
       getpid = 2\<rparr>,
     t_snoop = \<lparr>alive = (\<lambda>_. False), attach = (\<lambda>_. Attached), first_wait = None, pipe_ok = False, fork_ok = False,
       exec_reports = (\<lambda>_. False), trace_events = []\<rparr>,
     t_cmds = only_ls\<rparr>"

definition first_world :: "fault + world" where
  "first_world = main_init (Some ''/h'') ''u'' ''m'' 2 None tty_kernel idle_tty
     \<lparr>home_Dir = [], prev_dir = [], prev_dir_flag = False, cwd = ''/h'', frec = no_frecency, logs = (\<lambda>_. None),
      hop_out = []\<rparr>"

definition ls_turns :: "turn list" where
  "ls_turns = [quiet_turn (Line (''/ls &'' @ NL))]"

theorem main_loop_invariant_witness:
  "case bind_fault first_world (main_loop ls_turns) of
     Inr (st, w, rest) \<Rightarrow> wf_table (fst (w_shell w)) \<and> length (jobs (fst (w_shell w))) = 1
   | _ \<Rightarrow> False"
proof -
  have "case bind_fault first_world (main_loop ls_turns) of
      Inr (st, w, rest) \<Rightarrow> length (jobs (fst (w_shell w))) = 1 | _ \<Rightarrow> False"
    by code_simp
  then obtain w st w' rest where w: "first_world = Inr w"
    and l: "main_loop ls_turns w = Inr (st, w', rest)" and one: "length (jobs (fst (w_shell w'))) = 1"
    by (auto simp: bind_fault_Inr split: sum.splits)
  have "distinct (filter (\<lambda>p. p \<noteq> - 1) (forks tty_kernel))" by (simp add: tty_kernel_def)
  moreover have "\<forall>e \<in> set ls_turns. reclaims e"
    by (simp add: ls_turns_def quiet_turn_def reclaims_def only_ls_def)
  ultimately have "wf_table (fst (w_shell w'))"
    using main_loop_invariant[OF w[unfolded first_world_def] _ _ l] by blast
  then show ?thesis by (simp add: w l one)
qed

text \<open>
  C33.  The shell leaves its loop at the end of the input and only there: two ends of input in a row
  always end it, the second one even with stopped jobs; no line does.
\<close>

theorem main_loop_leaves:
  assumes "\<not> is_Line (t_read e1)" "\<not> is_Line (t_read e2)"
  shows "(\<exists>w' rest. main_loop (e1 # e2 # es) w = Inr (Left, w', rest) \<and> rest \<in> {e2 # es, es}) \<and>
    (\<forall>e input w'. t_read e = Line input \<longrightarrow> main_turn e w \<noteq> Inr (Left, w'))"
proof
  obtain st1 w1 where t1: "end_of_input (await_line e1 (prompt e1 w)) = (st1, w1)" by fastforce
  then have m1: "main_turn e1 w = Inr (st1, w1)"
    using assms(1) by (cases "t_read e1") (simp_all add: main_turn_def Let_def)
  show "\<exists>w' rest. main_loop (e1 # e2 # es) w = Inr (Left, w', rest) \<and> rest \<in> {e2 # es, es}"
  proof (cases "st1 = Left")
    case True
    then show ?thesis by (simp add: m1)
  next
    case False
    with end_of_input_stays[OF t1] have "previous_eof (snd (w_shell w1))" and r: "st1 = Running" by simp_all
    then have "fst (end_of_input (await_line e2 (prompt e2 w1))) = Left" by (simp add: end_of_input_twice)
    then obtain w2 where "main_turn e2 w1 = Inr (Left, w2)"
      using assms(2) by (cases "t_read e2"; cases "end_of_input (await_line e2 (prompt e2 w1))")
        (simp_all add: main_turn_def Let_def)
    then show ?thesis by (simp add: m1 r)
  qed
  show "\<forall>e input w'. t_read e = Line input \<longrightarrow> main_turn e w \<noteq> Inr (Left, w')"
    by (simp add: main_turn_def Let_def handle_line_stays)
qed

theorem main_loop_leaves_witness:
  "\<exists>w' rest. main_loop [quiet_turn Read_interrupted, quiet_turn End_of_input] (projr first_world) =
     Inr (Left, w', rest) \<and> rest \<in> {[quiet_turn End_of_input], []}"
  using main_loop_leaves[of "quiet_turn Read_interrupted" "quiet_turn End_of_input" "[]" "projr first_world"]
  by (simp add: quiet_turn_def)

end
