(* ===== verification/Proc_Queue.thy ===== *)
theory Proc_Queue
  imports Shell_Prelude "HOL-Library.Word"
begin

text \<open>
  The process table and the four ready queues of the multi-level feedback queue
  (\<^verbatim>\<open>xv6/kernel/proc.h\<close>, \<^verbatim>\<open>xv6/kernel/proc.c\<close>).  A pointer into
  \<^verbatim>\<open>proc[NPROC]\<close> is the index of the entry, a null pointer is \<^term>\<open>None\<close>.  A
  queue is a head and a tail pointer, and its links run through the \<^verbatim>\<open>next\<close>
  fields of the process table, which all four queues share.  \<open>queues_rep\<close> says
  that the pointers represent four disjoint lists; the operations on the pointers refine
  appending to a list and taking its head (locale \<open>fifo_queues\<close>).
\<close>

section \<open>Process table\<close>

datatype procstate = UNUSED | USED | SLEEPING | RUNNABLE | RUNNING | ZOMBIE

text \<open>The channels the kernel sleeps on: an address, here the tick counter, an entry of
  the process table, or another address.\<close>

datatype channel = No_chan | Ticks_chan | Proc_chan nat | Other_chan nat

record proc =
  pstate :: procstate
  chan :: channel
  killed :: int
  xstate :: int
  pid :: int
  parent :: "nat option"
  priority :: nat
  ticks_used :: nat
  rtime :: "32 word"
  nxt :: "nat option"
  arrival_tick :: "32 word"
  first_run_tick :: "32 word"
  completion_tick :: "32 word"
  waiting_ticks :: "32 word"

record proc_queue =
  head :: "nat option"
  tail :: "nat option"

text \<open>The lines that the kernel prints for the analysis of the schedule.\<close>

datatype trace =
    Arrival "32 word" int
  | Dispatch "32 word" int
  | Tick "32 word" int nat
  | Metric int "32 word" "32 word" "32 word" "32 word"

record xv6 =
  ptable :: "proc list"
  queues :: "proc_queue list"
  ticks :: "32 word"
  nextpid :: int
  initproc :: "nat option"
  trace_log :: "trace list"

definition NPROC :: nat where "NPROC = 64"

definition time_slice :: "nat \<Rightarrow> nat" where
  "time_slice q = [1, 4, 8, 16] ! q"

definition upd_proc :: "nat \<Rightarrow> (proc \<Rightarrow> proc) \<Rightarrow> xv6 \<Rightarrow> xv6" where
  "upd_proc i f s = s\<lparr>ptable := (ptable s)[i := f (ptable s ! i)]\<rparr>"

definition upd_queue :: "nat \<Rightarrow> (proc_queue \<Rightarrow> proc_queue) \<Rightarrow> xv6 \<Rightarrow> xv6" where
  "upd_queue q f s = s\<lparr>queues := (queues s)[q := f (queues s ! q)]\<rparr>"

lemma upd_proc_fields [simp]:
  "queues (upd_proc i f s) = queues s" "ticks (upd_proc i f s) = ticks s"
  "nextpid (upd_proc i f s) = nextpid s" "initproc (upd_proc i f s) = initproc s"
  "trace_log (upd_proc i f s) = trace_log s" "length (ptable (upd_proc i f s)) = length (ptable s)"
  by (simp_all add: upd_proc_def)

lemma upd_queue_fields [simp]:
  "ptable (upd_queue q f s) = ptable s" "ticks (upd_queue q f s) = ticks s"
  "nextpid (upd_queue q f s) = nextpid s" "initproc (upd_queue q f s) = initproc s"
  "trace_log (upd_queue q f s) = trace_log s"
  "length (queues (upd_queue q f s)) = length (queues s)"
  by (simp_all add: upd_queue_def)

lemma ptable_upd_proc:
  "i < length (ptable s) \<Longrightarrow>
   ptable (upd_proc i f s) ! j = (if j = i then f (ptable s ! i) else ptable s ! j)"
  by (simp add: upd_proc_def)

lemma queues_upd_queue:
  "q < length (queues s) \<Longrightarrow>
   queues (upd_queue q f s) ! r = (if r = q then f (queues s ! q) else queues s ! r)"
  by (simp add: upd_queue_def)

section \<open>Queue operations\<close>

definition enqueue :: "nat \<Rightarrow> nat \<Rightarrow> xv6 \<Rightarrow> xv6" where
  "enqueue q p s =
     (let s = upd_proc p (\<lambda>r. r\<lparr>nxt := None\<rparr>) s in
      case tail (queues s ! q) of
        None \<Rightarrow> upd_queue q (\<lambda>u. u\<lparr>head := Some p, tail := Some p\<rparr>) s
      | Some t \<Rightarrow>
          upd_queue q (\<lambda>u. u\<lparr>tail := Some p\<rparr>) (upd_proc t (\<lambda>r. r\<lparr>nxt := Some p\<rparr>) s))"

definition deque :: "nat \<Rightarrow> xv6 \<Rightarrow> nat option \<times> xv6" where
  "deque q s =
     (case head (queues s ! q) of
        None \<Rightarrow> (None, s)
      | Some p \<Rightarrow>
          (let h = nxt (ptable s ! p);
               s = upd_queue q (\<lambda>u. u\<lparr>head := h\<rparr>) s;
               s = (if h = None then upd_queue q (\<lambda>u. u\<lparr>tail := None\<rparr>) s else s)
           in (Some p, upd_proc p (\<lambda>r. r\<lparr>nxt := None\<rparr>) s)))"

function deque_from :: "nat \<Rightarrow> xv6 \<Rightarrow> nat option \<times> xv6" where
  "deque_from i s =
     (if i < 4 then
        (case deque i s of
           (Some p, s') \<Rightarrow> (Some p, s')
         | (None, s') \<Rightarrow> deque_from (Suc i) s')
      else (None, s))"
  by pat_completeness auto

termination
  by (relation "measure (\<lambda>(i, s). 4 - i)") auto

declare deque_from.simps [simp del]

definition deque_highest_priority_p :: "xv6 \<Rightarrow> nat option \<times> xv6" where
  "deque_highest_priority_p s = deque_from 0 s"

section \<open>What the pointers represent\<close>

fun chain :: "(nat \<Rightarrow> nat option) \<Rightarrow> nat option \<Rightarrow> nat list \<Rightarrow> bool" where
  "chain nx h [] \<longleftrightarrow> h = None"
| "chain nx h (x # xs) \<longleftrightarrow> h = Some x \<and> chain nx (nx x) xs"

abbreviation next_of :: "xv6 \<Rightarrow> nat \<Rightarrow> nat option" where
  "next_of s i \<equiv> nxt (ptable s ! i)"

definition last_opt :: "nat list \<Rightarrow> nat option" where
  "last_opt xs = (if xs = [] then None else Some (last xs))"

definition queues_rep :: "xv6 \<Rightarrow> nat list list \<Rightarrow> bool" where
  "queues_rep s qs \<longleftrightarrow>
     length qs = 4 \<and> length (queues s) = 4 \<and> length (ptable s) = NPROC \<and>
     distinct (concat qs) \<and> (\<forall>p \<in> set (concat qs). p < NPROC) \<and>
     (\<forall>q < 4. chain (next_of s) (head (queues s ! q)) (qs ! q) \<and>
              tail (queues s ! q) = last_opt (qs ! q))"

lemma chain_cong: "(\<And>x. x \<in> set xs \<Longrightarrow> f x = g x) \<Longrightarrow> chain f h xs = chain g h xs"
  by (induction xs arbitrary: h) auto

lemma chain_unique: "chain nx h xs \<Longrightarrow> chain nx h ys \<Longrightarrow> xs = ys"
proof (induction xs arbitrary: h ys)
  case (Cons x xs)
  then show ?case by (cases ys) auto
qed (use chain.elims(2) in fastforce)

lemma chain_snoc:
  "xs \<noteq> [] \<Longrightarrow> chain nx h xs \<Longrightarrow> distinct xs \<Longrightarrow> p \<notin> set xs \<Longrightarrow>
   chain (nx(p := None, last xs := Some p)) h (xs @ [p])"
proof (induction xs arbitrary: h)
  case (Cons x xs)
  show ?case
  proof (cases "xs = []")
    case False
    have "chain (nx(p := None, last xs := Some p)) (nx x) (xs @ [p])"
      using Cons.prems by (intro Cons.IH False) auto
    moreover have "x \<noteq> last xs" "x \<noteq> p" using False Cons.prems by auto
    ultimately show ?thesis using False Cons.prems(2) by (simp add: fun_upd_def)
  qed (use Cons.prems in auto)
qed simp

lemma concat_split_nth:
  "i < length qs \<Longrightarrow> concat qs = concat (take i qs) @ qs ! i @ concat (drop (Suc i) qs)"
  by (subst id_take_nth_drop[of i qs]) simp_all

lemma mset_concat_update:
  "i < length qs \<Longrightarrow> mset (concat (qs[i := xs])) + mset (qs ! i) = mset (concat qs) + mset xs"
  using concat_split_nth[of i qs] concat_split_nth[of i "qs[i := xs]"] by simp

lemma queues_disjoint_less:
  assumes "distinct (concat qs)" "i < j" "j < length qs"
  shows "set (qs ! i) \<inter> set (qs ! j) = {}"
proof -
  have "qs ! j = drop (Suc i) qs ! (j - Suc i)" using assms(2,3) by simp
  then have "qs ! j \<in> set (drop (Suc i) qs)" using assms(2,3) by (metis diff_less_mono less_Suc_eq_le
    linorder_not_less nth_mem length_drop)
  moreover have "i < length qs" using assms(2,3) by simp
  ultimately have "set (qs ! j) \<subseteq> set (concat (drop (Suc i) qs))"
    "set (qs ! i) \<inter> set (concat (drop (Suc i) qs)) = {}"
    using assms(1) concat_split_nth[of i qs] by auto
  then show ?thesis by blast
qed

lemma queues_disjoint:
  assumes "distinct (concat qs)" "i < length qs" "j < length qs" "i \<noteq> j"
  shows "set (qs ! i) \<inter> set (qs ! j) = {}"
  using queues_disjoint_less[OF assms(1), of i j] queues_disjoint_less[OF assms(1), of j i] assms
  by (auto simp: neq_iff)

lemma nth_in_concat: "i < length qs \<Longrightarrow> x \<in> set (qs ! i) \<Longrightarrow> x \<in> set (concat qs)"
  by (auto intro!: bexI[of _ "qs ! i"])

lemma in_concat_nth: "x \<in> set (concat qs) \<Longrightarrow> \<exists>i < length qs. x \<in> set (qs ! i)"
  unfolding set_concat by (metis UN_E in_set_conv_nth)

lemma queues_repD:
  assumes "queues_rep s qs"
  shows "length qs = 4" "length (queues s) = 4" "length (ptable s) = NPROC"
    "distinct (concat qs)" "p \<in> set (concat qs) \<Longrightarrow> p < NPROC"
    "q < 4 \<Longrightarrow> chain (next_of s) (head (queues s ! q)) (qs ! q)"
    "q < 4 \<Longrightarrow> tail (queues s ! q) = last_opt (qs ! q)"
  using assms by (auto simp: queues_rep_def)

lemma queues_rep_unique:
  assumes "queues_rep s qs" "queues_rep s rs" shows "qs = rs"
proof (rule nth_equalityI)
  show "length qs = length rs" using assms[THEN queues_repD(1)] by simp
  show "qs ! i = rs ! i" if "i < length qs" for i
    using chain_unique[OF assms[THEN queues_repD(6)]] that queues_repD(1)[OF assms(1)] by simp
qed

text \<open>Only the links, the heads and the tails matter.\<close>

lemma queues_rep_frame:
  assumes "queues_rep s qs" "queues t = queues s" "length (ptable t) = length (ptable s)"
    and "\<And>p. p \<in> set (concat qs) \<Longrightarrow> next_of t p = next_of s p"
  shows "queues_rep t qs"
proof -
  note D = queues_repD[OF assms(1)]
  have "chain (next_of t) (head (queues s ! q)) (qs ! q)" if "q < 4" for q
    using D(6)[OF that] chain_cong[of "qs ! q" "next_of t" "next_of s"]
      assms(4) nth_in_concat[of q qs] that D(1) by simp
  then show ?thesis using assms(2,3) D by (simp add: queues_rep_def)
qed

section \<open>The queue operations on lists\<close>

lemma next_of_upd_proc:
  "i < length (ptable s) \<Longrightarrow>
   next_of (upd_proc i f s) = (next_of s)(i := nxt (f (ptable s ! i)))"
  by (auto simp: ptable_upd_proc)

lemma enqueue_lengths [simp]:
  "length (queues (enqueue q p s)) = length (queues s)"
  "length (ptable (enqueue q p s)) = length (ptable s)"
  by (simp_all add: enqueue_def Let_def split: option.split)

lemma enqueue_rep:
  assumes rep: "queues_rep s qs" and q: "q < length qs" and p: "p < NPROC"
    and new: "p \<notin> set (concat qs)"
  shows "queues_rep (enqueue q p s) (qs[q := qs ! q @ [p]])"
proof -
  note D = queues_repD[OF rep]
  define t where "t = enqueue q p s"
  have mset: "mset (concat (qs[q := qs ! q @ [p]])) = mset (p # concat qs)"
    using mset_concat_update[OF q, of "qs ! q @ [p]"] by simp
  have set': "set (concat (qs[q := qs ! q @ [p]])) = insert p (set (concat qs))"
    using mset_eq_setD[OF mset] by simp
  have dist: "distinct (concat (qs[q := qs ! q @ [p]]))"
    using mset_eq_imp_distinct_iff[OF mset] new D(4) by simp
  have nx: "next_of t = (if qs ! q = [] then (next_of s)(p := None)
      else (next_of s)(p := None, last (qs ! q) := Some p))"
  proof (cases "qs ! q = []")
    case False
    then have "last (qs ! q) < NPROC" using D(5) nth_in_concat[OF q] by simp
    then show ?thesis using False p D(3) D(7)[of q] q D(1)
      by (simp add: t_def enqueue_def Let_def last_opt_def next_of_upd_proc)
  qed (use p D(3) D(7)[of q] q D(1) in
        \<open>simp add: t_def enqueue_def Let_def last_opt_def next_of_upd_proc\<close>)
  have ends: "head (queues t ! r) = (if r = q \<and> qs ! q = [] then Some p else head (queues s ! r))"
    "tail (queues t ! r) = (if r = q then Some p else tail (queues s ! r))" for r
    using D(1,2) D(7)[of q] q
    by (auto simp: t_def enqueue_def Let_def last_opt_def queues_upd_queue split: option.split)
  have "chain (next_of t) (head (queues t ! r)) (qs[q := qs ! q @ [p]] ! r) \<and>
      tail (queues t ! r) = last_opt (qs[q := qs ! q @ [p]] ! r)" if r: "r < 4" for r
  proof (cases "r = q")
    case True
    have "p \<notin> set (qs ! q)" "distinct (qs ! q)"
      using new nth_in_concat[OF q] D(4) concat_split_nth[OF q] by auto
    then show ?thesis
      using True q ends nx D(6)[OF r] chain_snoc[of "qs ! q" "next_of s" "head (queues s ! q)" p]
      by (cases "qs ! q = []") (simp_all add: last_opt_def)
  next
    case False
    have "set (qs ! r) \<inter> set (qs ! q) = {}" using queues_disjoint[OF D(4) _ q False] r D(1) by simp
    then have "x \<noteq> p \<and> (qs ! q \<noteq> [] \<longrightarrow> x \<noteq> last (qs ! q))" if "x \<in> set (qs ! r)" for x
      using that new nth_in_concat[of r qs x] r D(1) last_in_set[of "qs ! q"] by auto
    then have "chain (next_of t) (head (queues s ! r)) (qs ! r)"
      using D(6)[OF r] by (subst chain_cong[of "qs ! r" _ "next_of s"]) (auto simp: fun_cong[OF nx])
    then show ?thesis using False ends D(7)[OF r] by simp
  qed
  then show ?thesis
    using dist set' p D t_def unfolding queues_rep_def by simp
qed

lemma deque_rep_empty:
  "queues_rep s qs \<Longrightarrow> q < length qs \<Longrightarrow> qs ! q = [] \<Longrightarrow> deque q s = (None, s)"
  using queues_repD(1)[of s qs] queues_repD(6)[of s qs q] by (simp add: deque_def)

lemma deque_rep_front:
  assumes rep: "queues_rep s qs" and q: "q < length qs" and front: "qs ! q = p # ps"
  shows "fst (deque q s) = Some p \<and> queues_rep (snd (deque q s)) (qs[q := ps])"
proof -
  note D = queues_repD[OF rep]
  define t where "t = snd (deque q s)"
  have q4: "q < 4" using q D(1) by simp
  have h: "head (queues s ! q) = Some p" and c: "chain (next_of s) (next_of s p) ps"
    using D(6)[OF q4] front by auto
  have p: "p < NPROC" using D(5) nth_in_concat[OF q] front by simp
  have nps: "next_of s p = None \<longleftrightarrow> ps = []" using c by (cases ps) auto
  have mset: "mset (concat qs) = mset (p # concat (qs[q := ps]))"
    using mset_concat_update[OF q, of ps] front by simp
  have dist: "distinct (concat (qs[q := ps]))" "p \<notin> set (concat (qs[q := ps]))"
    using mset_eq_imp_distinct_iff[OF mset] D(4) by auto
  have sub: "set (concat (qs[q := ps])) \<subseteq> set (concat qs)" using mset_eq_setD[OF mset] by auto
  have nx: "next_of t = (next_of s)(p := None)"
    using h p D(3) by (auto simp: t_def deque_def Let_def ptable_upd_proc)
  have len: "length (queues t) = 4" "length (ptable t) = NPROC"
    using h D(2,3) by (simp_all add: t_def deque_def Let_def)
  have ends: "head (queues t ! r) = (if r = q then next_of s p else head (queues s ! r))"
    "tail (queues t ! r) = (if r = q \<and> ps = [] then None else tail (queues s ! r))" for r
    using h nps D(2) q4 by (auto simp: t_def deque_def Let_def queues_upd_queue)
  have "chain (next_of t) (head (queues t ! r)) (qs[q := ps] ! r) \<and>
      tail (queues t ! r) = last_opt (qs[q := ps] ! r)" if r: "r < 4" for r
  proof -
    have "x \<noteq> p" if "x \<in> set (qs[q := ps] ! r)" for x
      using dist(2) nth_in_concat[of r "qs[q := ps]" x] that r D(1) by auto
    then have "chain (next_of t) h' (qs[q := ps] ! r) = chain (next_of s) h' (qs[q := ps] ! r)" for h'
      by (intro chain_cong) (simp add: fun_cong[OF nx])
    then show ?thesis
      using D(6,7)[OF r] c ends front q by (cases "r = q") (simp_all add: last_opt_def)
  qed
  moreover have "\<forall>x \<in> set (concat (qs[q := ps])). x < NPROC" using sub D(5) by blast
  ultimately have "queues_rep t (qs[q := ps])"
    using dist(1) len D(1) by (simp only: queues_rep_def length_list_update) blast
  then show ?thesis using h by (simp add: t_def deque_def Let_def)
qed

text \<open>The contract between the queues and the scheduler: each queue is first in, first
  out, and the queues do not disturb each other.\<close>

locale fifo_queues =
  fixes enq :: "nat \<Rightarrow> nat \<Rightarrow> 's \<Rightarrow> 's"
    and deq :: "nat \<Rightarrow> 's \<Rightarrow> nat option \<times> 's"
    and rep :: "'s \<Rightarrow> nat list list \<Rightarrow> bool"
    and size :: nat
  assumes enq: "rep s qs \<Longrightarrow> q < length qs \<Longrightarrow> p < size \<Longrightarrow> p \<notin> set (concat qs) \<Longrightarrow>
      rep (enq q p s) (qs[q := qs ! q @ [p]])"
    and deq_empty: "rep s qs \<Longrightarrow> q < length qs \<Longrightarrow> qs ! q = [] \<Longrightarrow> deq q s = (None, s)"
    and deq_front: "rep s qs \<Longrightarrow> q < length qs \<Longrightarrow> qs ! q = p # ps \<Longrightarrow>
      fst (deq q s) = Some p \<and> rep (snd (deq q s)) (qs[q := ps])"
begin

lemma deq_some:
  "rep s qs \<Longrightarrow> q < length qs \<Longrightarrow> fst (deq q s) = Some p \<Longrightarrow>
   \<exists>ps. qs ! q = p # ps \<and> rep (snd (deq q s)) (qs[q := ps])"
  using deq_empty[of s qs q] deq_front[of s qs q] by (cases "qs ! q") auto

lemma deq_none:
  "rep s qs \<Longrightarrow> q < length qs \<Longrightarrow> fst (deq q s) = None \<Longrightarrow> qs ! q = [] \<and> snd (deq q s) = s"
  using deq_empty[of s qs q] deq_front[of s qs q] by (cases "qs ! q") auto

end

interpretation ready: fifo_queues enqueue deque queues_rep NPROC
  by unfold_locales (use enqueue_rep deque_rep_empty deque_rep_front in auto)

text \<open>The scheduler takes the first process of the highest non-empty queue.\<close>

lemma deque_from_rep:
  assumes "queues_rep s qs" "i \<le> 4" "\<forall>r < i. qs ! r = []"
  shows "case fst (deque_from i s) of
      None \<Rightarrow> concat qs = [] \<and> snd (deque_from i s) = s
    | Some p \<Rightarrow> \<exists>q ps. q < 4 \<and> (\<forall>r < q. qs ! r = []) \<and> qs ! q = p # ps \<and>
        queues_rep (snd (deque_from i s)) (qs[q := ps])"
  using assms
proof (induction i s rule: deque_from.induct)
  case (1 i s)
  note D = queues_repD[OF 1(2)]
  show ?case
  proof (cases "i < 4")
    case False
    then have "concat qs = []" using 1(4) D(1) 1(3) by (auto simp: in_set_conv_nth)
    then show ?thesis using False by (simp add: deque_from.simps[of i])
  next
    case i: True
    obtain o' s' where d: "deque i s = (o', s')" by (cases "deque i s")
    show ?thesis
    proof (cases o')
      case None
      then have e: "qs ! i = []" "s' = s" using ready.deq_none[OF 1(2), of i] d i D(1) by auto
      have "\<forall>r < Suc i. qs ! r = []" using e 1(4) less_Suc_eq by auto
      moreover have eq: "deque_from i s = deque_from (Suc i) s"
        using d None e i by (simp add: deque_from.simps[of i])
      ultimately show ?thesis unfolding eq using 1(1)[OF i] d None e i 1(2) by simp
    next
      case (Some p)
      then obtain ps where "qs ! i = p # ps" "queues_rep s' (qs[i := ps])"
        using ready.deq_some[OF 1(2), of i p] d i D(1) by auto
      then show ?thesis using Some d i 1(4) by (auto simp: deque_from.simps[of i])
    qed
  qed
qed

lemma deque_highest_some:
  assumes "queues_rep s qs" "deque_highest_priority_p s = (Some p, s')"
  obtains q ps where "q < 4" "\<forall>r < q. qs ! r = []" "qs ! q = p # ps" "queues_rep s' (qs[q := ps])"
  using deque_from_rep[OF assms(1), of 0] assms(2) by (auto simp: deque_highest_priority_p_def)

lemma deque_highest_none:
  assumes "queues_rep s qs" "deque_highest_priority_p s = (None, s')"
  shows "concat qs = []" "s' = s"
  using deque_from_rep[OF assms(1), of 0] assms(2) by (auto simp: deque_highest_priority_p_def)

text \<open>The contents of a queue, read off its pointers.\<close>

fun walk :: "nat \<Rightarrow> xv6 \<Rightarrow> nat option \<Rightarrow> nat list" where
  "walk 0 k h = []"
| "walk (Suc n) k h = (case h of None \<Rightarrow> [] | Some p \<Rightarrow> p # walk n k (next_of k p))"

definition ready_queue :: "xv6 \<Rightarrow> nat \<Rightarrow> nat list" where
  "ready_queue k q = walk NPROC k (head (queues k ! q))"

lemma walk_chain: "chain (next_of k) h xs \<Longrightarrow> length xs \<le> n \<Longrightarrow> walk n k h = xs"
proof (induction xs arbitrary: n h)
  case Nil
  then show ?case by (cases n) auto
next
  case (Cons x xs)
  then show ?case by (cases n) auto
qed

lemma length_walk: "length (walk n k h) \<le> n"
  by (induction n arbitrary: h) (simp_all split: option.split)

lemma ready_queue_rep:
  assumes "queues_rep k qs" "q < 4" shows "ready_queue k q = qs ! q"
proof -
  note D = queues_repD[OF assms(1)]
  have len: "q < length qs" using D(1) assms(2) by simp
  have "distinct (qs ! q)" using D(4) concat_split_nth[OF len] by simp
  moreover have "set (qs ! q) \<subseteq> {..<NPROC}" using D(5) nth_in_concat[OF len] by auto
  ultimately have "length (qs ! q) \<le> NPROC"
    using card_mono[of "{..<NPROC}" "set (qs ! q)"] by (simp add: distinct_card)
  then show ?thesis using walk_chain[OF D(6)[OF assms(2)]] by (simp add: ready_queue_def)
qed

lemma ready_queues_rep:
  assumes "queues_rep k qs" shows "map (ready_queue k) [0..<4] = qs"
proof (rule nth_equalityI)
  show "map (ready_queue k) [0..<4] ! i = qs ! i" if "i < length (map (ready_queue k) [0..<4])" for i
    using that ready_queue_rep[OF assms, of i] by simp
qed (use queues_repD(1)[OF assms] in simp)

end
