(* ===== verification/Mlfq.thy ===== *)
theory Mlfq
  imports Proc_Queue
begin

text \<open>
  The life of a process under the multi-level feedback queue: the operations of
  \<^verbatim>\<open>xv6/kernel/proc.c\<close> that change the state of a process or a queue, and the timer
  paths of \<^verbatim>\<open>xv6/kernel/trap.c\<close>, in the build with \<^verbatim>\<open>MLFQ\<close> defined.  Each
  loop over the process table is a fold of the body of the loop, which is one critical section
  of \<^verbatim>\<open>p->lock\<close>; \<open>Mlfq_Smp\<close> interleaves the critical sections of several
  processors.  Memory (\<^verbatim>\<open>kalloc\<close>, page tables, \<^verbatim>\<open>uvmcopy\<close>, \<^verbatim>\<open>copyout\<close>)
  enters as the outcome of the calls; open files and the working directory are left out.
\<close>

section \<open>Accounting and queues\<close>

definition mlfq_tick :: "nat \<Rightarrow> xv6 \<Rightarrow> bool \<times> xv6" where
  "mlfq_tick p s =
     (let s = upd_proc p (\<lambda>r. r\<lparr>ticks_used := Suc (ticks_used r)\<rparr>) s;
          r = ptable s ! p
      in (time_slice (priority r) \<le> ticks_used r, s))"

definition mlfq_timeslice_expired :: "nat \<Rightarrow> xv6 \<Rightarrow> xv6" where
  "mlfq_timeslice_expired p s =
     upd_proc p (\<lambda>r. (if priority r < 3 then r\<lparr>priority := Suc (priority r)\<rparr> else r)
                     \<lparr>ticks_used := 0\<rparr>) s"

definition mlfq_requeue :: "nat \<Rightarrow> xv6 \<Rightarrow> xv6" where
  "mlfq_requeue p s = enqueue (priority (ptable s ! p)) p s"

definition mlfq_highest_priority_ready :: "nat \<Rightarrow> xv6 \<Rightarrow> bool" where
  "mlfq_highest_priority_ready p s =
     list_ex (\<lambda>q. head (queues s ! q) \<noteq> None) [0..<priority (ptable s ! p)]"

definition boost_reset :: "nat \<Rightarrow> xv6 \<Rightarrow> xv6" where
  "boost_reset p s = upd_proc p (\<lambda>r. r\<lparr>priority := 0, ticks_used := 0\<rparr>) s"

definition boost_move :: "nat \<Rightarrow> xv6 \<Rightarrow> xv6" where
  "boost_move p s =
     (if pstate (ptable s ! p) = RUNNABLE then enqueue 0 p (boost_reset p s) else s)"

partial_function (option) boost_queue :: "nat \<Rightarrow> xv6 \<Rightarrow> xv6 option" where
  "boost_queue q s =
     (case deque q s of
        (None, s') \<Rightarrow> Some s'
      | (Some p, s') \<Rightarrow> boost_queue q (boost_move p s'))"

definition mlfq_boost :: "xv6 \<Rightarrow> xv6 option" where
  "mlfq_boost s =
     Option.bind (boost_queue 1 s) (\<lambda>s.
     Option.bind (boost_queue 2 s) (\<lambda>s.
     Option.bind (boost_queue 3 s) (\<lambda>s.
     Some (fold boost_reset [0..<NPROC] s))))"

definition count_waiting :: "nat \<Rightarrow> xv6 \<Rightarrow> xv6" where
  "count_waiting p s =
     (if pstate (ptable s ! p) = RUNNABLE
      then upd_proc p (\<lambda>r. r\<lparr>waiting_ticks := waiting_ticks r + 1\<rparr>) s else s)"

definition update_waiting_ticks :: "xv6 \<Rightarrow> xv6" where
  "update_waiting_ticks s = fold count_waiting [0..<NPROC] s"

section \<open>Choosing and leaving\<close>

definition dispatch :: "nat \<Rightarrow> xv6 \<Rightarrow> xv6" where
  "dispatch p s =
     (let s = upd_proc p (\<lambda>r. r\<lparr>pstate := RUNNING\<rparr>) s;
          s = (if first_run_tick (ptable s ! p) = - 1
               then upd_proc p (\<lambda>r. r\<lparr>first_run_tick := ticks s\<rparr>) s else s)
      in s\<lparr>trace_log := trace_log s @ [Dispatch (ticks s) (pid (ptable s ! p))]\<rparr>)"

text \<open>One round of the loop, up to the switch to the process that it returns.\<close>

definition scheduler_round :: "xv6 \<Rightarrow> nat option \<times> xv6" where
  "scheduler_round s =
     (case deque_highest_priority_p s of
        (None, s') \<Rightarrow> (None, s')
      | (Some p, s') \<Rightarrow>
          if pstate (ptable s' ! p) = RUNNABLE then (Some p, dispatch p s') else (None, s'))"

definition yield_cpu :: "nat \<Rightarrow> xv6 \<Rightarrow> xv6" where
  "yield_cpu p s = mlfq_requeue p (upd_proc p (\<lambda>r. r\<lparr>pstate := RUNNABLE\<rparr>) s)"

text \<open>\<^term>\<open>None\<close> is a panic.  \<^verbatim>\<open>sleep\<close> returns whether it gave up the
  processor.\<close>

definition sleep_prepare :: "nat \<Rightarrow> channel \<Rightarrow> xv6 \<Rightarrow> xv6 option" where
  "sleep_prepare p c s =
     (if c = No_chan then None else Some (upd_proc p (\<lambda>r. r\<lparr>chan := c\<rparr>) s))"

definition sleep :: "nat \<Rightarrow> xv6 \<Rightarrow> bool \<times> xv6" where
  "sleep p s =
     (if chan (ptable s ! p) \<noteq> No_chan
      then (True, upd_proc p (\<lambda>r. r\<lparr>pstate := SLEEPING\<rparr>) s) else (False, s))"

definition wake_one :: "channel \<Rightarrow> nat \<Rightarrow> xv6 \<Rightarrow> xv6" where
  "wake_one c p s =
     (if chan (ptable s ! p) = c
      then let s = upd_proc p (\<lambda>r. r\<lparr>chan := No_chan\<rparr>) s
           in if pstate (ptable s ! p) = SLEEPING
              then let s = upd_proc p (\<lambda>r. r\<lparr>pstate := RUNNABLE\<rparr>) s
                   in enqueue (priority (ptable s ! p)) p s
              else s
      else s)"

definition wakeup :: "channel \<Rightarrow> xv6 \<Rightarrow> xv6" where
  "wakeup c s = fold (wake_one c) [0..<NPROC] s"

definition kill_one :: "nat \<Rightarrow> xv6 \<Rightarrow> xv6" where
  "kill_one p s =
     (let s = upd_proc p (\<lambda>r. r\<lparr>killed := 1\<rparr>) s
      in if pstate (ptable s ! p) = SLEEPING
         then let s = upd_proc p (\<lambda>r. r\<lparr>pstate := RUNNABLE\<rparr>) s
              in enqueue (priority (ptable s ! p)) p s
         else s)"

definition kkill :: "int \<Rightarrow> xv6 \<Rightarrow> int \<times> xv6" where
  "kkill i s =
     (case find (\<lambda>p. pid (ptable s ! p) = i) [0..<NPROC] of
        None \<Rightarrow> (- 1, s)
      | Some p \<Rightarrow> (0, kill_one p s))"

section \<open>Creation and end of a process\<close>

definition freeproc :: "nat \<Rightarrow> xv6 \<Rightarrow> xv6" where
  "freeproc p s =
     upd_proc p (\<lambda>r. r\<lparr>pid := 0, chan := No_chan, killed := 0, xstate := 0, pstate := UNUSED,
       priority := 0, ticks_used := 0, nxt := None, rtime := 0\<rparr>) s"

definition alloc_slot :: "nat \<Rightarrow> xv6 \<Rightarrow> xv6" where
  "alloc_slot p s =
     (let i = nextpid s;
          s = s\<lparr>nextpid := nextpid s + 1\<rparr>;
          s = upd_proc p (\<lambda>r. r\<lparr>pid := i, pstate := USED, ticks_used := 0, priority := 0, rtime := 0,
                nxt := None, arrival_tick := ticks s, first_run_tick := - 1,
                completion_tick := - 1, waiting_ticks := 0\<rparr>) s
      in s\<lparr>trace_log := trace_log s @ [Arrival (ticks s) i]\<rparr>)"

definition allocproc :: "bool \<Rightarrow> bool \<Rightarrow> xv6 \<Rightarrow> nat option \<times> xv6" where
  "allocproc got_page got_table s =
     (case find (\<lambda>p. pstate (ptable s ! p) = UNUSED) [0..<NPROC] of
        None \<Rightarrow> (None, s)
      | Some p \<Rightarrow>
          (let s = alloc_slot p s
           in if \<not> got_page then (None, freeproc p s)
              else if \<not> got_table then (None, freeproc p s)
              else (Some p, s)))"

definition start_child :: "nat \<Rightarrow> xv6 \<Rightarrow> xv6" where
  "start_child np s = enqueue 0 np (upd_proc np (\<lambda>r. r\<lparr>pstate := RUNNABLE\<rparr>) s)"

definition kfork :: "nat \<Rightarrow> bool \<Rightarrow> bool \<Rightarrow> bool \<Rightarrow> xv6 \<Rightarrow> int \<times> xv6" where
  "kfork p got_page got_table copied s =
     (case allocproc got_page got_table s of
        (None, s') \<Rightarrow> (- 1, s')
      | (Some np, s') \<Rightarrow>
          if \<not> copied then (- 1, freeproc np s')
          else (pid (ptable s' ! np),
                start_child np (upd_proc np (\<lambda>r. r\<lparr>parent := Some p\<rparr>) s')))"

definition userinit :: "xv6 \<Rightarrow> xv6 option" where
  "userinit s =
     (case allocproc True True s of
        (None, s') \<Rightarrow> None
      | (Some p, s') \<Rightarrow> Some (start_child p (s'\<lparr>initproc := Some p\<rparr>)))"

text \<open>A null \<^verbatim>\<open>parent\<close> or \<^verbatim>\<open>initproc\<close> as a channel is \<^const>\<open>No_chan\<close>.\<close>

definition proc_chan :: "nat option \<Rightarrow> channel" where
  "proc_chan i = (case i of None \<Rightarrow> No_chan | Some p \<Rightarrow> Proc_chan p)"

definition reparent_one :: "nat \<Rightarrow> nat \<Rightarrow> xv6 \<Rightarrow> xv6" where
  "reparent_one p pp s =
     (if parent (ptable s ! pp) = Some p
      then wakeup (proc_chan (initproc s)) (upd_proc pp (\<lambda>r. r\<lparr>parent := initproc s\<rparr>) s)
      else s)"

definition reparent :: "nat \<Rightarrow> xv6 \<Rightarrow> xv6" where
  "reparent p s = fold (reparent_one p) [0..<NPROC] s"

definition exit_proc :: "nat \<Rightarrow> int \<Rightarrow> xv6 \<Rightarrow> xv6" where
  "exit_proc p status s =
     (let s = upd_proc p (\<lambda>r. r\<lparr>xstate := status, completion_tick := ticks s\<rparr>) s;
          r = ptable s ! p;
          s = s\<lparr>trace_log := trace_log s @
                [Metric (pid r) (arrival_tick r) (first_run_tick r) (completion_tick r) (waiting_ticks r)]\<rparr>
      in upd_proc p (\<lambda>r. r\<lparr>pstate := ZOMBIE\<rparr>) s)"

definition kexit :: "nat \<Rightarrow> int \<Rightarrow> xv6 \<Rightarrow> xv6 option" where
  "kexit p status s =
     (if initproc s = Some p then None
      else let s = reparent p s;
               s = wakeup (proc_chan (parent (ptable s ! p))) s
           in Some (exit_proc p status s))"

text \<open>One pass of \<^verbatim>\<open>kwait\<close> over the table: \<^term>\<open>Some\<close> is the value it
  returns, \<^term>\<open>None\<close> that it goes to sleep on its own entry.\<close>

definition kwait_pass :: "nat \<Rightarrow> bool \<Rightarrow> xv6 \<Rightarrow> int option \<times> xv6" where
  "kwait_pass p copied s =
     (case find (\<lambda>pp. parent (ptable s ! pp) = Some p \<and> pstate (ptable s ! pp) = ZOMBIE) [0..<NPROC] of
        Some pp \<Rightarrow>
          if \<not> copied then (Some (- 1), s)
          else (Some (pid (ptable s ! pp)), freeproc pp (upd_proc pp (\<lambda>r. r\<lparr>parent := None\<rparr>) s))
      | None \<Rightarrow>
          if \<not> list_ex (\<lambda>pp. parent (ptable s ! pp) = Some p) [0..<NPROC] \<or> killed (ptable s ! p) \<noteq> 0
          then (Some (- 1), s)
          else (None, upd_proc p (\<lambda>r. r\<lparr>chan := Proc_chan p\<rparr>) s))"

section \<open>Timer\<close>

definition timer_tick :: "nat \<Rightarrow> xv6 \<Rightarrow> bool \<times> xv6" where
  "timer_tick p s =
     (let s = upd_proc p (\<lambda>r. r\<lparr>rtime := rtime r + 1\<rparr>) s;
          s = s\<lparr>trace_log := trace_log s @
                [Tick (ticks s) (pid (ptable s ! p)) (priority (ptable s ! p))]\<rparr>;
          (expired, s) = mlfq_tick p s
      in if expired then (True, mlfq_timeslice_expired p s)
         else (mlfq_highest_priority_ready p s, s))"

datatype trap_outcome = Resumes xv6 | Gives_up xv6 | Exits "xv6 option"

definition kerneltrap_timer :: "nat \<Rightarrow> xv6 \<Rightarrow> trap_outcome" where
  "kerneltrap_timer p s =
     (case timer_tick p s of (give, s') \<Rightarrow> if give then Gives_up (yield_cpu p s') else Resumes s')"

definition usertrap_timer :: "nat \<Rightarrow> xv6 \<Rightarrow> trap_outcome" where
  "usertrap_timer p s =
     (if killed (ptable s ! p) \<noteq> 0 then Exits (kexit p (- 1) s) else kerneltrap_timer p s)"

definition clockintr :: "nat \<Rightarrow> xv6 \<Rightarrow> xv6 option" where
  "clockintr cpu s =
     (if cpu = 0 then
        (let s = s\<lparr>ticks := ticks s + 1\<rparr>;
             do_boost = (ticks s mod 48 = 0);
             s = update_waiting_ticks (wakeup Ticks_chan s)
         in if do_boost then mlfq_boost s else Some s)
      else Some s)"

definition empty_proc :: proc where
  "empty_proc = \<lparr>pstate = UNUSED, chan = No_chan, killed = 0, xstate = 0, pid = 0, parent = None,
     priority = 0, ticks_used = 0, rtime = 0, nxt = None, arrival_tick = 0, first_run_tick = 0,
     completion_tick = 0, waiting_ticks = 0\<rparr>"

definition procinit :: xv6 where
  "procinit = \<lparr>ptable = replicate NPROC empty_proc, queues = replicate 4 \<lparr>head = None, tail = None\<rparr>,
     ticks = 0, nextpid = 1, initproc = None, trace_log = []\<rparr>"

end
