(* ===== verification/Mlfq_Inv.thy ===== *)
theory Mlfq_Inv
  imports Mlfq
begin

text \<open>
  The invariant of the process table and the queues, that every operation of \<open>Mlfq\<close> keeps
  it, and what the operations do on the states that satisfy it: the order of the scheduler,
  the time slices, the priority boost and wakeups.
\<close>

section \<open>The invariant of the kernel state\<close>

text \<open>What every process satisfies by itself.  \<^term>\<open>ticks_used r < time_slice (priority r)\<close>
  keeps the index into \<^verbatim>\<open>time_slice\<close> in range and the counter small.\<close>

definition proc_ok :: "proc \<Rightarrow> bool" where
  "proc_ok r \<longleftrightarrow> priority r < 4 \<and> ticks_used r < time_slice (priority r) \<and>
     (pstate r = SLEEPING \<longrightarrow> chan r \<noteq> No_chan)"

text \<open>The queues represent \<open>qs\<close>, \<open>H\<close> are the runnable processes that somebody has
  taken off a queue, and \<open>R\<close> the processes that processors run.\<close>

definition kinv :: "xv6 \<Rightarrow> nat list list \<Rightarrow> nat list \<Rightarrow> nat list \<Rightarrow> bool" where
  "kinv k qs H R \<longleftrightarrow> queues_rep k qs \<and> distinct (concat qs @ H) \<and> distinct R \<and>
     (\<forall>p \<in> set (H @ R). p < NPROC) \<and>
     (\<forall>p < NPROC. (pstate (ptable k ! p) = RUNNABLE \<longleftrightarrow> p \<in> set (concat qs @ H)) \<and>
        (pstate (ptable k ! p) = RUNNING \<longleftrightarrow> p \<in> set R) \<and> proc_ok (ptable k ! p))"

lemma kinvD:
  assumes "kinv k qs H R"
  shows "queues_rep k qs" "distinct (concat qs @ H)" "distinct R"
    "p \<in> set H \<Longrightarrow> p < NPROC" "p \<in> set R \<Longrightarrow> p < NPROC"
    "p < NPROC \<Longrightarrow> pstate (ptable k ! p) = RUNNABLE \<longleftrightarrow> p \<in> set (concat qs @ H)"
    "p < NPROC \<Longrightarrow> pstate (ptable k ! p) = RUNNING \<longleftrightarrow> p \<in> set R"
    "p < NPROC \<Longrightarrow> proc_ok (ptable k ! p)"
  using assms unfolding kinv_def by (simp_all only: set_append Un_iff ball_Un)

lemma kinvI:
  assumes "queues_rep k qs" "distinct (concat qs @ H)" "distinct R"
    "\<And>p. p \<in> set H \<Longrightarrow> p < NPROC" "\<And>p. p \<in> set R \<Longrightarrow> p < NPROC"
    "\<And>p. p < NPROC \<Longrightarrow> pstate (ptable k ! p) = RUNNABLE \<longleftrightarrow> p \<in> set (concat qs @ H)"
    "\<And>p. p < NPROC \<Longrightarrow> pstate (ptable k ! p) = RUNNING \<longleftrightarrow> p \<in> set R"
    "\<And>p. p < NPROC \<Longrightarrow> proc_ok (ptable k ! p)"
  shows "kinv k qs H R"
  using assms unfolding kinv_def by (simp only: set_append ball_Un) blast

lemma kinv_perm:
  assumes "kinv k qs H R" "mset H = mset H'" "mset R = mset R'"
  shows "kinv k qs H' R'"
proof -
  have "set H = set H'" "set R = set R'" using assms(2,3) by (auto dest: mset_eq_setD)
  moreover have "distinct H = distinct H'" using assms(2) by (rule mset_eq_imp_distinct_iff)
  moreover have "distinct R = distinct R'" using assms(3) by (rule mset_eq_imp_distinct_iff)
  ultimately show ?thesis using assms(1) by (simp add: kinv_def)
qed

lemma kinv_cong:
  assumes "kinv k qs H R" "ptable k' = ptable k" "queues k' = queues k"
  shows "kinv k' qs H R"
  using assms queues_rep_frame[of k qs k'] by (simp add: kinv_def)

lemma kinv_table: "kinv k qs H R \<Longrightarrow> length (ptable k) = NPROC"
  using kinvD(1) queues_repD(3) by blast

lemma kinv_queued: "kinv k qs H R \<Longrightarrow> p \<in> set (concat qs) \<Longrightarrow> p < NPROC"
  using kinvD(1) queues_repD(5) by blast

text \<open>A change of one process that keeps it where it is.\<close>

lemma kinv_upd_same:
  assumes inv: "kinv k qs H R" and p: "p < NPROC"
    and "pstate (f (ptable k ! p)) = pstate (ptable k ! p)" "nxt (f (ptable k ! p)) = nxt (ptable k ! p)"
      "proc_ok (f (ptable k ! p))"
  shows "kinv (upd_proc p f k) qs H R"
proof (rule kinvI)
  show "queues_rep (upd_proc p f k) qs"
    using assms kinv_table[OF inv] by (intro queues_rep_frame[OF kinvD(1)[OF inv]])
      (simp_all add: ptable_upd_proc)
  fix i assume i: "i < NPROC"
  show "pstate (ptable (upd_proc p f k) ! i) = RUNNABLE \<longleftrightarrow> i \<in> set (concat qs @ H)"
    using kinvD(6)[OF inv i] p assms(3) kinv_table[OF inv]
    by (cases "i = p") (simp_all add: ptable_upd_proc)
  show "pstate (ptable (upd_proc p f k) ! i) = RUNNING \<longleftrightarrow> i \<in> set R"
    using kinvD(7)[OF inv i] p assms(3) kinv_table[OF inv]
    by (cases "i = p") (simp_all add: ptable_upd_proc)
  show "proc_ok (ptable (upd_proc p f k) ! i)"
    using kinvD(8)[OF inv i] p assms(5) kinv_table[OF inv]
    by (cases "i = p") (simp_all add: ptable_upd_proc)
qed (fact kinvD[OF inv])+

text \<open>A process that is neither runnable nor running may change in any way that keeps
  it so.\<close>

lemma kinv_upd_idle:
  assumes inv: "kinv k qs H R" and p: "p < NPROC"
    and "pstate (ptable k ! p) \<noteq> RUNNABLE" "pstate (f (ptable k ! p)) \<noteq> RUNNABLE"
      "pstate (f (ptable k ! p)) \<noteq> RUNNING" "proc_ok (f (ptable k ! p))"
  shows "kinv (upd_proc p f k) qs H (removeAll p R)"
proof (rule kinvI)
  have "p \<notin> set (concat qs)" using kinvD(6)[OF inv p] assms(3) by simp
  then show "queues_rep (upd_proc p f k) qs"
    using p kinv_table[OF inv] by (intro queues_rep_frame[OF kinvD(1)[OF inv]])
      (auto simp: ptable_upd_proc)
  show "distinct (removeAll p R)" using kinvD(3)[OF inv] by (rule distinct_removeAll)
  show "i < NPROC" if "i \<in> set (removeAll p R)" for i using kinvD(5)[OF inv] that by simp
  fix i assume i: "i < NPROC"
  show "pstate (ptable (upd_proc p f k) ! i) = RUNNABLE \<longleftrightarrow> i \<in> set (concat qs @ H)"
    using kinvD(6)[OF inv i] p assms(3,4) kinv_table[OF inv]
    by (cases "i = p") (simp_all add: ptable_upd_proc)
  show "pstate (ptable (upd_proc p f k) ! i) = RUNNING \<longleftrightarrow> i \<in> set (removeAll p R)"
    using kinvD(7)[OF inv i] p assms(5) kinv_table[OF inv]
    by (cases "i = p") (simp_all add: ptable_upd_proc)
  show "proc_ok (ptable (upd_proc p f k) ! i)"
    using kinvD(8)[OF inv i] p assms(6) kinv_table[OF inv]
    by (cases "i = p") (simp_all add: ptable_upd_proc)
qed (fact kinvD[OF inv])+

text \<open>The queue operations change nothing of a process but its link.\<close>

definition unlinked :: "proc \<Rightarrow> proc" where
  "unlinked r = r\<lparr>nxt := None\<rparr>"

lemma unlinked_fields:
  "pstate (unlinked r) = pstate r" "chan (unlinked r) = chan r" "priority (unlinked r) = priority r"
  "ticks_used (unlinked r) = ticks_used r" "parent (unlinked r) = parent r"
  "pid (unlinked r) = pid r" "killed (unlinked r) = killed r"
  by (simp_all add: unlinked_def)

lemma unlinkedD:
  assumes "unlinked r = unlinked t"
  shows "pstate r = pstate t" "chan r = chan t" "priority r = priority t" "ticks_used r = ticks_used t"
    "proc_ok r = proc_ok t" "parent r = parent t" "pid r = pid t" "killed r = killed t"
  using unlinked_fields[of r] unlinked_fields[of t] assms by (simp_all add: proc_ok_def)

lemma unlinked_upd_nxt [simp]:
  "unlinked (ptable (upd_proc p (\<lambda>r. r\<lparr>nxt := v\<rparr>) s) ! i) = unlinked (ptable s ! i)"
  by (cases "i = p \<and> p < length (ptable s)") (auto simp: upd_proc_def unlinked_def list_update_beyond)

lemma unlinked_enqueue [simp]: "unlinked (ptable (enqueue q p s) ! i) = unlinked (ptable s ! i)"
  by (simp add: enqueue_def Let_def split: option.split)

lemma unlinked_deque [simp]: "unlinked (ptable (snd (deque q s)) ! i) = unlinked (ptable s ! i)"
  by (simp add: deque_def Let_def split: option.split)

lemmas enqueue_proc [simp] = unlinked_enqueue[THEN unlinkedD(1)] unlinked_enqueue[THEN unlinkedD(2)]
  unlinked_enqueue[THEN unlinkedD(3)] unlinked_enqueue[THEN unlinkedD(4)]
  unlinked_enqueue[THEN unlinkedD(5)] unlinked_enqueue[THEN unlinkedD(6)]
  unlinked_enqueue[THEN unlinkedD(7)] unlinked_enqueue[THEN unlinkedD(8)]

lemmas deque_proc [simp] = unlinked_deque[THEN unlinkedD(1)] unlinked_deque[THEN unlinkedD(2)]
  unlinked_deque[THEN unlinkedD(3)] unlinked_deque[THEN unlinkedD(4)]
  unlinked_deque[THEN unlinkedD(5)] unlinked_deque[THEN unlinkedD(6)]
  unlinked_deque[THEN unlinkedD(7)] unlinked_deque[THEN unlinkedD(8)]

lemma set_concat_snoc:
  "q < length qs \<Longrightarrow> set (concat (qs[q := qs ! q @ [p]])) = insert p (set (concat qs))"
  using mset_eq_setD[of "concat (qs[q := qs ! q @ [p]])" "p # concat qs"]
    mset_concat_update[of q qs "qs ! q @ [p]"] by simp

lemma distinct_concat_snoc:
  "q < length qs \<Longrightarrow> p \<notin> set (concat qs) \<Longrightarrow>
   distinct (concat (qs[q := qs ! q @ [p]])) = distinct (concat qs)"
  using mset_eq_imp_distinct_iff[of "concat (qs[q := qs ! q @ [p]])" "p # concat qs"]
    mset_concat_update[of q qs "qs ! q @ [p]"] by simp

lemma kinv_ready:
  assumes inv: "kinv k qs H R" and p: "p < NPROC" and q: "q < 4"
    and "pstate (ptable k ! p) \<noteq> RUNNABLE" "pstate (f (ptable k ! p)) = RUNNABLE"
      "proc_ok (f (ptable k ! p))"
  shows "kinv (enqueue q p (upd_proc p f k)) (qs[q := qs ! q @ [p]]) H (removeAll p R)"
proof -
  note D = kinvD[OF inv]
  have new: "p \<notin> set (concat qs)" "p \<notin> set H" using D(6)[OF p] assms(4) by simp_all
  have len: "q < length qs" using queues_repD(1)[OF D(1)] q by simp
  have "queues_rep (upd_proc p f k) qs"
    using new p kinv_table[OF inv] by (intro queues_rep_frame[OF D(1)]) (auto simp: ptable_upd_proc)
  then have "queues_rep (enqueue q p (upd_proc p f k)) (qs[q := qs ! q @ [p]])"
    by (rule enqueue_rep[OF _ len p new(1)])
  moreover have "distinct (concat (qs[q := qs ! q @ [p]]) @ H)"
    using D(2) new set_concat_snoc[OF len, of p] distinct_concat_snoc[OF len new(1)]
    by (simp only: distinct_append) blast
  ultimately show ?thesis
  proof (rule kinvI)
    fix i assume i: "i < NPROC"
    show "pstate (ptable (enqueue q p (upd_proc p f k)) ! i) = RUNNABLE \<longleftrightarrow>
        i \<in> set (concat (qs[q := qs ! q @ [p]]) @ H)"
      using D(6)[OF i] assms(5) p kinv_table[OF inv] set_concat_snoc[OF len, of p]
      by (cases "i = p") (simp_all add: ptable_upd_proc del: set_concat)
    show "pstate (ptable (enqueue q p (upd_proc p f k)) ! i) = RUNNING \<longleftrightarrow> i \<in> set (removeAll p R)"
      using D(7)[OF i] assms(5) p kinv_table[OF inv]
      by (cases "i = p") (simp_all add: ptable_upd_proc)
    show "proc_ok (ptable (enqueue q p (upd_proc p f k)) ! i)"
      using D(8)[OF i] assms(6) p kinv_table[OF inv]
      by (cases "i = p") (simp_all add: ptable_upd_proc)
  qed (use D(3,4,5) in \<open>auto simp: distinct_removeAll\<close>)
qed

text \<open>Taking a process off a queue, putting it back, running it.\<close>

lemma kinv_deque:
  assumes inv: "kinv k qs H R" and q: "q < 4" and d: "deque q k = (Some p, k')"
  shows "\<exists>ps. qs ! q = p # ps \<and> kinv k' (qs[q := ps]) (p # H) R"
proof -
  note D = kinvD[OF inv]
  have len: "q < length qs" using queues_repD(1)[OF D(1)] q by simp
  have k': "k' = snd (deque q k)" using d by simp
  obtain ps where ps: "qs ! q = p # ps" "queues_rep k' (qs[q := ps])"
    using ready.deq_some[OF D(1) len] d by auto
  have mset: "mset (concat qs @ H) = mset (concat (qs[q := ps]) @ p # H)"
    using mset_concat_update[OF len, of ps] ps(1) by simp
  have seteq: "set (concat (qs[q := ps]) @ p # H) = set (concat qs @ H)"
    using mset_eq_setD[OF mset] by (rule sym)
  have "p < NPROC" using kinv_queued[OF inv] nth_in_concat[OF len, of p] ps(1) by simp
  then have "kinv k' (qs[q := ps]) (p # H) R"
  proof (intro kinvI ps(2))
    show "distinct (concat (qs[q := ps]) @ p # H)"
      using mset_eq_imp_distinct_iff[OF mset] D(2) by (rule iffD1)
    fix i assume i: "i < NPROC"
    show "pstate (ptable k' ! i) = RUNNABLE \<longleftrightarrow> i \<in> set (concat (qs[q := ps]) @ p # H)"
      unfolding seteq using D(6)[OF i] by (simp add: k' del: set_concat)
    show "pstate (ptable k' ! i) = RUNNING \<longleftrightarrow> i \<in> set R" "proc_ok (ptable k' ! i)"
      using D(7,8)[OF i] by (simp_all add: k')
  qed (use D(3,4,5) in auto)
  then show ?thesis using ps(1) by blast
qed

lemma kinv_deque_none: "kinv k qs H R \<Longrightarrow> q < 4 \<Longrightarrow> deque q k = (None, k') \<Longrightarrow> k' = k"
  using ready.deq_none[of k qs q] kinvD(1) queues_repD(1) by fastforce

lemma kinv_put_back:
  assumes inv: "kinv k qs (p # H) R" and q: "q < 4"
  shows "kinv (enqueue q p k) (qs[q := qs ! q @ [p]]) H R"
proof -
  note D = kinvD[OF inv]
  have len: "q < length qs" using queues_repD(1)[OF D(1)] q by simp
  have p: "p < NPROC" "p \<notin> set (concat qs)" using D(2,4) by auto
  have "distinct (concat (qs[q := qs ! q @ [p]]) @ H)"
    using D(2) set_concat_snoc[OF len, of p] distinct_concat_snoc[OF len p(2)]
    by (simp only: distinct_append list.set distinct.simps) blast
  then show ?thesis
  proof (intro kinvI enqueue_rep[OF D(1) len p])
    fix i assume i: "i < NPROC"
    show "pstate (ptable (enqueue q p k) ! i) = RUNNABLE \<longleftrightarrow>
        i \<in> set (concat (qs[q := qs ! q @ [p]]) @ H)"
      using D(6)[OF i] set_concat_snoc[OF len, of p] by (auto simp del: set_concat)
    show "pstate (ptable (enqueue q p k) ! i) = RUNNING \<longleftrightarrow> i \<in> set R"
      "proc_ok (ptable (enqueue q p k) ! i)"
      using D(7,8)[OF i] by simp_all
  qed (use D(3,4,5) in auto)
qed

lemma kinv_run:
  assumes inv: "kinv k qs (p # H) R"
  shows "kinv (dispatch p k) qs H (p # R)"
proof -
  note D = kinvD[OF inv]
  define f :: "proc \<Rightarrow> proc" where "f = (\<lambda>r. let r = r\<lparr>pstate := RUNNING\<rparr>
    in if first_run_tick r = - 1 then r\<lparr>first_run_tick := ticks k\<rparr> else r)"
  have p: "p < NPROC" "p \<notin> set (concat qs)" "p \<notin> set H" using D(2,4) by auto
  then have "pstate (ptable k ! p) = RUNNABLE" using D(6)[of p] by simp
  then have notR: "p \<notin> set R" using D(7)[OF p(1)] by simp
  have eq: "ptable (dispatch p k) = ptable (upd_proc p f k)"
    using p(1) kinv_table[OF inv] by (simp add: dispatch_def Let_def f_def upd_proc_def)
  have eq': "queues (dispatch p k) = queues (upd_proc p f k)"
    by (simp add: dispatch_def Let_def)
  have f: "pstate (f r) = RUNNING" "nxt (f r) = nxt r" "proc_ok r \<Longrightarrow> proc_ok (f r)" for r
    by (simp_all add: f_def proc_ok_def Let_def)
  have "kinv (upd_proc p f k) qs H (p # R)"
  proof (rule kinvI)
    show "queues_rep (upd_proc p f k) qs"
      using p(1) kinv_table[OF inv] by (intro queues_rep_frame[OF D(1)])
        (simp_all add: ptable_upd_proc f)
    fix i assume i: "i < NPROC"
    show "pstate (ptable (upd_proc p f k) ! i) = RUNNABLE \<longleftrightarrow> i \<in> set (concat qs @ H)"
      using D(6)[OF i] p f kinv_table[OF inv]
      by (cases "i = p") (simp_all add: ptable_upd_proc del: set_concat)
    show "pstate (ptable (upd_proc p f k) ! i) = RUNNING \<longleftrightarrow> i \<in> set (p # R)"
      using D(7)[OF i] p f kinv_table[OF inv] by (cases "i = p") (simp_all add: ptable_upd_proc)
    show "proc_ok (ptable (upd_proc p f k) ! i)"
      using D(8)[OF i] p f kinv_table[OF inv] by (cases "i = p") (simp_all add: ptable_upd_proc)
  qed (use D(2,3,4,5) p(1) notR in auto)
  then show ?thesis by (rule kinv_cong) (simp_all add: eq eq')
qed

section \<open>Every operation keeps the invariant\<close>

text \<open>An operation adds processes at the ends of the queues only, and leaves a process that
  is being created alone.\<close>

definition moves :: "xv6 \<Rightarrow> nat list list \<Rightarrow> xv6 \<Rightarrow> nat list list \<Rightarrow> bool" where
  "moves k qs k' qs' \<longleftrightarrow> length qs' = length qs \<and>
     (\<forall>q < length qs. \<exists>arr. qs' ! q = qs ! q @ arr) \<and>
     (\<forall>i < NPROC. pstate (ptable k ! i) = USED \<longrightarrow> pstate (ptable k' ! i) = USED)"

definition keeps_kinv :: "xv6 \<Rightarrow> nat list list \<Rightarrow> nat list \<Rightarrow> xv6 \<Rightarrow> nat list \<Rightarrow> bool" where
  "keeps_kinv k qs H k' R' \<longleftrightarrow> (\<exists>qs'. kinv k' qs' H R' \<and> moves k qs k' qs')"

lemma moves_refl [simp]: "moves k qs k qs"
  by (simp add: moves_def)

lemma keeps_kinv_refl: "kinv k qs H R \<Longrightarrow> keeps_kinv k qs H k R"
  by (auto simp: keeps_kinv_def)

lemma keeps_kinv_cong:
  assumes "keeps_kinv k qs H k1 R" "ptable k' = ptable k1" "queues k' = queues k1"
  shows "keeps_kinv k qs H k' R"
  using assms kinv_cong[of k1 _ H R k'] unfolding keeps_kinv_def moves_def by auto

lemma keeps_upd_same:
  assumes "kinv k qs H R" "p < NPROC" "pstate (f (ptable k ! p)) = pstate (ptable k ! p)"
    "nxt (f (ptable k ! p)) = nxt (ptable k ! p)" "proc_ok (f (ptable k ! p))"
  shows "keeps_kinv k qs H (upd_proc p f k) R"
proof -
  have "moves k qs (upd_proc p f k) qs"
    using assms(2,3) kinv_table[OF assms(1)] by (simp add: moves_def ptable_upd_proc)
  then show ?thesis using kinv_upd_same[where f = f, OF assms] unfolding keeps_kinv_def by blast
qed

lemma keeps_upd_idle:
  assumes "kinv k qs H R" "p < NPROC" "pstate (ptable k ! p) \<noteq> RUNNABLE"
    "pstate (f (ptable k ! p)) \<noteq> RUNNABLE" "pstate (f (ptable k ! p)) \<noteq> RUNNING"
    "proc_ok (f (ptable k ! p))" "pstate (ptable k ! p) \<noteq> USED"
  shows "keeps_kinv k qs H (upd_proc p f k) (removeAll p R)"
proof -
  have "moves k qs (upd_proc p f k) qs"
    using assms(2,7) kinv_table[OF assms(1)] by (auto simp: moves_def ptable_upd_proc)
  then show ?thesis using kinv_upd_idle[where f = f, OF assms(1-6)] unfolding keeps_kinv_def by blast
qed

lemma moves_ready:
  assumes "length qs = 4" "q < 4" "length (ptable k) = NPROC" "p < NPROC" "pstate (ptable k ! p) \<noteq> USED"
  shows "moves k qs (enqueue q p (upd_proc p f k)) (qs[q := qs ! q @ [p]])"
  using assms by (auto simp: moves_def ptable_upd_proc nth_list_update)

lemma kinv_lengths: "kinv k qs H R \<Longrightarrow> length qs = 4"
  using kinvD(1) queues_repD(1) by blast

lemma keeps_ready:
  assumes "kinv k qs H R" "p < NPROC" "q < 4" "pstate (ptable k ! p) \<noteq> RUNNABLE"
    "pstate (f (ptable k ! p)) = RUNNABLE" "proc_ok (f (ptable k ! p))" "pstate (ptable k ! p) \<noteq> USED"
  shows "keeps_kinv k qs H (enqueue q p (upd_proc p f k)) (removeAll p R)"
  using kinv_ready[where f = f, OF assms(1-6)] moves_ready[OF kinv_lengths[OF assms(1)] assms(3)
      kinv_table[OF assms(1)] assms(2,7)]
  unfolding keeps_kinv_def by blast

lemma time_slice_pos: "q < 4 \<Longrightarrow> 0 < time_slice q"
  by (auto simp: time_slice_def less_Suc_eq numeral_eq_Suc)

lemma upd_proc_twice:
  "upd_proc p g (upd_proc p f k) = upd_proc p (\<lambda>r. g (f r)) k"
  by (cases "p < length (ptable k)") (simp_all add: upd_proc_def list_update_beyond)

lemma not_in_running:
  "kinv k qs H R \<Longrightarrow> p < NPROC \<Longrightarrow> pstate (ptable k ! p) \<noteq> RUNNING \<Longrightarrow> removeAll p R = R"
  using kinvD(7) removeAll_id by fastforce

lemma keeps_wake_one:
  assumes inv: "kinv k qs H R" and p: "p < NPROC"
  shows "keeps_kinv k qs H (wake_one c p k) R"
proof (cases "chan (ptable k ! p) = c")
  case False
  then show ?thesis using keeps_kinv_refl[OF inv] by (simp add: wake_one_def)
next
  case True
  note ok = kinvD(8)[OF inv p]
  have len: "p < length (ptable k)" using p kinv_table[OF inv] by simp
  show ?thesis
  proof (cases "pstate (ptable k ! p) = SLEEPING")
    case S: True
    have "wake_one c p k = enqueue (priority (ptable k ! p)) p
        (upd_proc p (\<lambda>r. r\<lparr>chan := No_chan, pstate := RUNNABLE\<rparr>) k)"
      using True S len by (simp add: wake_one_def Let_def upd_proc_twice ptable_upd_proc)
    moreover have "keeps_kinv k qs H (enqueue (priority (ptable k ! p)) p
        (upd_proc p (\<lambda>r. r\<lparr>chan := No_chan, pstate := RUNNABLE\<rparr>) k)) (removeAll p R)"
      using S ok by (intro keeps_ready[OF inv p]) (simp_all add: proc_ok_def)
    ultimately show ?thesis using not_in_running[OF inv p] S by simp
  next
    case S: False
    have "wake_one c p k = upd_proc p (\<lambda>r. r\<lparr>chan := No_chan\<rparr>) k"
      using True S len by (simp add: wake_one_def Let_def ptable_upd_proc)
    moreover have "keeps_kinv k qs H (upd_proc p (\<lambda>r. r\<lparr>chan := No_chan\<rparr>) k) R"
      using S ok by (intro keeps_upd_same[OF inv p]) (simp_all add: proc_ok_def)
    ultimately show ?thesis by simp
  qed
qed

lemma keeps_kill_one:
  assumes inv: "kinv k qs H R" and p: "p < NPROC"
  shows "keeps_kinv k qs H (kill_one p k) R"
proof (cases "pstate (ptable k ! p) = SLEEPING")
  note ok = kinvD(8)[OF inv p]
  have len: "p < length (ptable k)" using p kinv_table[OF inv] by simp
  case S: True
  have "kill_one p k = enqueue (priority (ptable k ! p)) p
      (upd_proc p (\<lambda>r. r\<lparr>killed := 1, pstate := RUNNABLE\<rparr>) k)"
    using S len by (simp add: kill_one_def Let_def upd_proc_twice ptable_upd_proc)
  moreover have "keeps_kinv k qs H (enqueue (priority (ptable k ! p)) p
      (upd_proc p (\<lambda>r. r\<lparr>killed := 1, pstate := RUNNABLE\<rparr>) k)) (removeAll p R)"
    using S ok by (intro keeps_ready[OF inv p]) (simp_all add: proc_ok_def)
  ultimately show ?thesis using not_in_running[OF inv p] S by simp
next
  have len: "p < length (ptable k)" using p kinv_table[OF inv] by simp
  case S: False
  have "kill_one p k = upd_proc p (\<lambda>r. r\<lparr>killed := 1\<rparr>) k"
    using S len by (simp add: kill_one_def Let_def ptable_upd_proc)
  moreover have "keeps_kinv k qs H (upd_proc p (\<lambda>r. r\<lparr>killed := 1\<rparr>) k) R"
    using kinvD(8)[OF inv p] by (intro keeps_upd_same[OF inv p]) (simp_all add: proc_ok_def)
  ultimately show ?thesis by simp
qed

lemma keeps_small_updates:
  assumes inv: "kinv k qs H R" and p: "p < NPROC"
  shows "keeps_kinv k qs H (boost_reset p k) R" "keeps_kinv k qs H (count_waiting p k) R"
    "keeps_kinv k qs H (upd_proc p (\<lambda>r. r\<lparr>parent := v\<rparr>) k) R"
proof -
  note ok = kinvD(8)[OF inv p]
  show "keeps_kinv k qs H (boost_reset p k) R"
    unfolding boost_reset_def using ok time_slice_pos
    by (intro keeps_upd_same[OF inv p]) (simp_all add: proc_ok_def)
  show "keeps_kinv k qs H (count_waiting p k) R"
    unfolding count_waiting_def using ok keeps_kinv_refl[OF inv]
    by (auto intro!: keeps_upd_same[OF inv p] simp: proc_ok_def)
  show "keeps_kinv k qs H (upd_proc p (\<lambda>r. r\<lparr>parent := v\<rparr>) k) R"
    using ok by (intro keeps_upd_same[OF inv p]) (simp_all add: proc_ok_def)
qed

text \<open>Operations of a running process on itself.\<close>

definition tick_proc :: "proc \<Rightarrow> proc" where
  "tick_proc r =
     (let r = r\<lparr>rtime := rtime r + 1, ticks_used := Suc (ticks_used r)\<rparr>
      in if time_slice (priority r) \<le> ticks_used r
         then (if priority r < 3 then r\<lparr>priority := Suc (priority r)\<rparr> else r)\<lparr>ticks_used := 0\<rparr>
         else r)"

lemma timer_tick_table:
  assumes "p < length (ptable k)"
  shows "ptable (snd (timer_tick p k)) = ptable (upd_proc p tick_proc k)"
    "queues (snd (timer_tick p k)) = queues k"
  using assms
  by (simp_all add: timer_tick_def mlfq_tick_def mlfq_timeslice_expired_def tick_proc_def Let_def upd_proc_def)

lemma tick_proc_ok: "proc_ok r \<Longrightarrow> proc_ok (tick_proc r)"
  using time_slice_pos[of "priority r"] time_slice_pos[of "Suc (priority r)"]
  by (auto simp: proc_ok_def tick_proc_def Let_def)

lemma tick_proc_same [simp]:
  "pstate (tick_proc r) = pstate r" "nxt (tick_proc r) = nxt r" "chan (tick_proc r) = chan r"
  by (simp_all add: tick_proc_def Let_def)

lemma keeps_timer_tick:
  assumes inv: "kinv k qs H R" and p: "p < NPROC"
  shows "keeps_kinv k qs H (snd (timer_tick p k)) R"
proof -
  have "keeps_kinv k qs H (upd_proc p tick_proc k) R"
    using tick_proc_ok kinvD(8)[OF inv p] by (intro keeps_upd_same[OF inv p]) simp_all
  then show ?thesis
    by (rule keeps_kinv_cong) (use timer_tick_table[of p k] p kinv_table[OF inv] in simp_all)
qed

lemma running_state:
  assumes "kinv k qs H R" "p \<in> set R"
  shows "p < NPROC" "pstate (ptable k ! p) = RUNNING"
  using kinvD(5,7)[OF assms(1), of p] assms(2) by auto

lemma keeps_yield:
  assumes inv: "kinv k qs H R" and p: "p \<in> set R"
  shows "keeps_kinv k qs H (yield_cpu p k) (removeAll p R)"
proof -
  note r = running_state[OF inv p]
  have "keeps_kinv k qs H (enqueue (priority (ptable k ! p)) p
      (upd_proc p (\<lambda>r. r\<lparr>pstate := RUNNABLE\<rparr>) k)) (removeAll p R)"
    using r kinvD(8)[OF inv r(1)] by (intro keeps_ready[OF inv r(1)]) (simp_all add: proc_ok_def)
  then show ?thesis
    using r(1) kinv_table[OF inv] by (simp add: yield_cpu_def mlfq_requeue_def ptable_upd_proc)
qed

lemma keeps_sleep_prepare:
  assumes inv: "kinv k qs H R" and p: "p \<in> set R" and k': "sleep_prepare p c k = Some k'"
  shows "keeps_kinv k qs H k' R"
proof -
  note r = running_state[OF inv p]
  have "c \<noteq> No_chan" "k' = upd_proc p (\<lambda>r. r\<lparr>chan := c\<rparr>) k"
    using k' by (simp_all add: sleep_prepare_def split: if_splits)
  moreover from this have "keeps_kinv k qs H (upd_proc p (\<lambda>r. r\<lparr>chan := c\<rparr>) k) R"
    using kinvD(8)[OF inv r(1)] by (intro keeps_upd_same[OF inv r(1)]) (simp_all add: proc_ok_def)
  ultimately show ?thesis by simp
qed

lemma keeps_sleep:
  assumes inv: "kinv k qs H R" and p: "p \<in> set R" and k': "sleep p k = (True, k')"
  shows "keeps_kinv k qs H k' (removeAll p R)"
proof -
  note r = running_state[OF inv p]
  have c: "chan (ptable k ! p) \<noteq> No_chan" "k' = upd_proc p (\<lambda>r. r\<lparr>pstate := SLEEPING\<rparr>) k"
    using k' by (simp_all add: sleep_def split: if_splits)
  have "keeps_kinv k qs H (upd_proc p (\<lambda>r. r\<lparr>pstate := SLEEPING\<rparr>) k) (removeAll p R)"
    using r(2) kinvD(8)[OF inv r(1)] c(1)
    by (intro keeps_upd_idle[OF inv r(1)]) (simp_all add: proc_ok_def)
  then show ?thesis using c(2) by simp
qed

lemma keeps_exit:
  assumes inv: "kinv k qs H R" and p: "p \<in> set R"
  shows "keeps_kinv k qs H (exit_proc p st k) (removeAll p R)"
proof -
  note r = running_state[OF inv p]
  let ?f = "\<lambda>r. r\<lparr>xstate := st, completion_tick := ticks k, pstate := ZOMBIE\<rparr>"
  have "keeps_kinv k qs H (upd_proc p ?f k) (removeAll p R)"
    using r(2) kinvD(8)[OF inv r(1)] by (intro keeps_upd_idle[OF inv r(1)]) (simp_all add: proc_ok_def)
  then show ?thesis
    by (rule keeps_kinv_cong)
      (use r(1) kinv_table[OF inv] in \<open>simp_all add: exit_proc_def Let_def upd_proc_def\<close>)
qed

text \<open>Operations on an entry that is not in use, or no longer.\<close>

lemma fresh_proc_ok: "priority r = 0 \<Longrightarrow> ticks_used r = 0 \<Longrightarrow> pstate r \<noteq> SLEEPING \<Longrightarrow> proc_ok r"
  by (simp add: proc_ok_def time_slice_def)

lemma kinv_freeproc:
  assumes inv: "kinv k qs H R" and p: "p < NPROC"
    and "pstate (ptable k ! p) \<noteq> RUNNABLE" "pstate (ptable k ! p) \<noteq> RUNNING"
  shows "kinv (freeproc p k) qs H R"
proof -
  have "kinv (freeproc p k) qs H (removeAll p R)"
    unfolding freeproc_def using assms(3)
    by (intro kinv_upd_idle[OF inv p]) (simp_all add: fresh_proc_ok)
  then show ?thesis using not_in_running[OF inv p assms(4)] by simp
qed

lemma keeps_reap:
  assumes inv: "kinv k qs H R" and p: "p < NPROC" and z: "pstate (ptable k ! p) = ZOMBIE"
  shows "keeps_kinv k qs H (freeproc p k) R"
proof -
  have "moves k qs (freeproc p k) qs"
    using p z kinv_table[OF inv] by (auto simp: moves_def freeproc_def ptable_upd_proc)
  then show ?thesis using kinv_freeproc[OF inv p] z unfolding keeps_kinv_def by auto
qed

lemma alloc_slot_table:
  assumes "p < length (ptable k)"
  shows "ptable (alloc_slot p k) ! i =
      (if i = p then (ptable k ! p)\<lparr>pid := nextpid k, pstate := USED, ticks_used := 0, priority := 0,
         rtime := 0, nxt := None, arrival_tick := ticks k, first_run_tick := - 1,
         completion_tick := - 1, waiting_ticks := 0\<rparr> else ptable k ! i)"
  using assms by (simp add: alloc_slot_def Let_def upd_proc_def)

lemma kinv_alloc:
  assumes inv: "kinv k qs H R" and p: "p < NPROC" and u: "pstate (ptable k ! p) = UNUSED"
  shows "kinv (alloc_slot p k) qs H R"
proof -
  let ?f = "\<lambda>r. r\<lparr>pid := nextpid k, pstate := USED, ticks_used := 0, priority := 0, rtime := 0,
    nxt := None, arrival_tick := ticks k, first_run_tick := - 1, completion_tick := - 1,
    waiting_ticks := 0\<rparr>"
  have "kinv (upd_proc p ?f k) qs H (removeAll p R)"
    using u by (intro kinv_upd_idle[OF inv p]) (simp_all add: fresh_proc_ok)
  then have "kinv (upd_proc p ?f k) qs H R" using not_in_running[OF inv p] u by simp
  then show ?thesis by (rule kinv_cong) (simp_all add: alloc_slot_def Let_def upd_proc_def)
qed

lemma kinv_start_child:
  assumes inv: "kinv k qs H R" and p: "p < NPROC" and u: "pstate (ptable k ! p) = USED"
  shows "kinv (start_child p k) (qs[0 := qs ! 0 @ [p]]) H R"
proof -
  have "kinv (start_child p k) (qs[0 := qs ! 0 @ [p]]) H (removeAll p R)"
    unfolding start_child_def using u kinvD(8)[OF inv p]
    by (intro kinv_ready[OF inv p]) (simp_all add: proc_ok_def)
  then show ?thesis using not_in_running[OF inv p] u by simp
qed

section \<open>Priority boost\<close>

text \<open>A process up to what the boost changes.\<close>

definition unranked :: "proc \<Rightarrow> proc" where
  "unranked r = r\<lparr>priority := 0, ticks_used := 0, nxt := None\<rparr>"

lemma unranked_unlinked: "unlinked r = unlinked t \<Longrightarrow> unranked r = unranked t"
proof -
  assume "unlinked r = unlinked t"
  then have "unranked (unlinked r) = unranked (unlinked t)" by simp
  then show ?thesis by (simp add: unranked_def unlinked_def)
qed

lemma unranked_boost_reset [simp]: "unranked (ptable (boost_reset p k) ! i) = unranked (ptable k ! i)"
  by (cases "i = p \<and> p < length (ptable k)")
    (auto simp: boost_reset_def upd_proc_def unranked_def list_update_beyond)

lemmas unranked_queue_ops [simp] = unlinked_enqueue[THEN unranked_unlinked]
  unlinked_deque[THEN unranked_unlinked]

lemma unranked_fields:
  "pstate (unranked r) = pstate r" "chan (unranked r) = chan r" "killed (unranked r) = killed r"
  "pid (unranked r) = pid r" "waiting_ticks (unranked r) = waiting_ticks r" "rtime (unranked r) = rtime r"
  by (simp_all add: unranked_def)

lemma unranked_state: "unranked r = unranked t \<Longrightarrow> pstate r = pstate t"
  by (metis unranked_fields(1))

lemma kinv_boost_reset: "kinv k qs H R \<Longrightarrow> p < NPROC \<Longrightarrow> kinv (boost_reset p k) qs H R"
  unfolding boost_reset_def using kinvD(8)[of k qs H R p] time_slice_pos
  by (intro kinv_upd_same) (simp_all add: proc_ok_def)

lemma boost_move_step:
  assumes inv: "kinv k qs H R" and q: "q < 4" "0 < q" and qq: "qs ! q = p # ps"
  obtains k1 where "deque q k = (Some p, k1)"
    "kinv (boost_move p k1) (qs[0 := qs ! 0 @ [p], q := ps]) H R"
    "\<And>i. unranked (ptable (boost_move p k1) ! i) = unranked (ptable k ! i)"
proof -
  have len: "q < length qs" using kinv_lengths[OF inv] q by simp
  define k1 where "k1 = snd (deque q k)"
  have d: "deque q k = (Some p, k1)"
    using ready.deq_front[OF kinvD(1)[OF inv] len qq] by (simp add: k1_def prod_eq_iff)
  then have k1: "kinv k1 (qs[q := ps]) (p # H) R" using kinv_deque[OF inv q(1) d] qq by auto
  have p: "p < NPROC" "pstate (ptable k1 ! p) = RUNNABLE"
    using kinvD(4,6)[OF k1, of p] by auto
  have "kinv (enqueue 0 p (boost_reset p k1)) (qs[q := ps, 0 := (qs[q := ps]) ! 0 @ [p]]) H R"
    by (rule kinv_put_back[OF kinv_boost_reset[OF k1 p(1)]]) simp
  moreover have "qs[q := ps, 0 := (qs[q := ps]) ! 0 @ [p]] = qs[0 := qs ! 0 @ [p], q := ps]"
    using q(2) by (simp add: list_update_swap)
  ultimately have "kinv (boost_move p k1) (qs[0 := qs ! 0 @ [p], q := ps]) H R"
    using p(2) by (simp add: boost_move_def)
  moreover have "unranked (ptable (boost_move p k1) ! i) = unranked (ptable k ! i)" for i
    by (simp add: boost_move_def k1_def)
  ultimately show thesis using that d by blast
qed

lemma boost_queue_ok:
  assumes "kinv k qs H R" "q < 4" "0 < q"
  shows "\<exists>k'. boost_queue q k = Some k' \<and> kinv k' (qs[0 := qs ! 0 @ qs ! q, q := []]) H R \<and>
    (\<forall>i. unranked (ptable k' ! i) = unranked (ptable k ! i))"
  using assms
proof (induction "qs ! q" arbitrary: k qs)
  case Nil
  have len: "q < length qs" using kinv_lengths[OF Nil(2)] Nil(3) by simp
  have "deque q k = (None, k)" using ready.deq_empty[OF kinvD(1)[OF Nil(2)] len] Nil(1) by simp
  then have "boost_queue q k = Some k" by (simp add: boost_queue.simps)
  moreover have "qs[0 := qs ! 0 @ qs ! q, q := []] = qs"
    using Nil(1) by (metis append_Nil2 list_update_id)
  ultimately show ?case using Nil(2) by simp
next
  case (Cons p ps)
  obtain k1 where k1: "deque q k = (Some p, k1)"
    "kinv (boost_move p k1) (qs[0 := qs ! 0 @ [p], q := ps]) H R"
    "\<And>i. unranked (ptable (boost_move p k1) ! i) = unranked (ptable k ! i)"
    using boost_move_step[OF Cons(3,4,5) Cons(2)[symmetric]] by blast
  let ?qs = "qs[0 := qs ! 0 @ [p], q := ps]"
  have len: "0 < length qs" "q < length qs" using kinv_lengths[OF Cons(3)] Cons(4) by auto
  have n: "?qs ! q = ps" "?qs ! 0 = qs ! 0 @ [p]" using len Cons(5) by simp_all
  have "qs[0 := qs ! 0 @ qs ! q, q := []] = ?qs[0 := ?qs ! 0 @ ?qs ! q, q := []]"
    unfolding n using Cons(5) Cons(2)[symmetric] by (simp add: list_update_swap[of q 0])
  moreover have "boost_queue q k = boost_queue q (boost_move p k1)"
    using k1(1) by (subst boost_queue.simps) simp
  ultimately show ?case using Cons(1)[of ?qs "boost_move p k1"] n k1(2,3) Cons(4,5) by simp
qed

lemma kinv_fold_boost_reset:
  "kinv k qs H R \<Longrightarrow> n \<le> NPROC \<Longrightarrow> kinv (fold boost_reset [0..<n] k) qs H R"
  by (induction n) (simp_all add: kinv_boost_reset)

lemma boost_reset_table:
  "p < length (ptable k) \<Longrightarrow> ptable (boost_reset p k) ! i =
     (if i = p then (ptable k ! p)\<lparr>priority := 0, ticks_used := 0\<rparr> else ptable k ! i)"
  by (simp add: boost_reset_def ptable_upd_proc)

lemma fold_boost_reset_table:
  "kinv k qs H R \<Longrightarrow> n \<le> NPROC \<Longrightarrow> ptable (fold boost_reset [0..<n] k) ! i =
     (if i < n then (ptable k ! i)\<lparr>priority := 0, ticks_used := 0\<rparr> else ptable k ! i)"
proof (induction n arbitrary: i)
  case (Suc n)
  have "kinv (fold boost_reset [0..<n] k) qs H R" using kinv_fold_boost_reset Suc(2,3) by simp
  then have "length (ptable (fold boost_reset [0..<n] k)) = NPROC" by (rule kinv_table)
  then show ?case
    using Suc(1)[OF Suc(2)] Suc(3) by (simp add: boost_reset_table less_Suc_eq)
qed simp

lemma mlfq_boost_ok:
  assumes inv: "kinv k qs H R"
  shows "\<exists>k'. mlfq_boost k = Some k' \<and> kinv k' [concat qs, [], [], []] H R \<and>
    (\<forall>i < NPROC. priority (ptable k' ! i) = 0 \<and> ticks_used (ptable k' ! i) = 0 \<and>
       unranked (ptable k' ! i) = unranked (ptable k ! i))"
proof -
  obtain a b c d where qs: "qs = [a, b, c, d]"
    using kinv_lengths[OF inv] by (auto simp: length_Suc_conv numeral_eq_Suc)
  obtain k1 where k1: "boost_queue 1 k = Some k1" "kinv k1 [a @ b, [], c, d] H R"
    "\<forall>i. unranked (ptable k1 ! i) = unranked (ptable k ! i)"
    using boost_queue_ok[OF inv, of 1] by (auto simp: qs)
  obtain k2 where k2: "boost_queue 2 k1 = Some k2" "kinv k2 [(a @ b) @ c, [], [], d] H R"
    "\<forall>i. unranked (ptable k2 ! i) = unranked (ptable k1 ! i)"
    using boost_queue_ok[OF k1(2), of 2] by (auto simp: numeral_2_eq_2)
  obtain k3 where k3: "boost_queue 3 k2 = Some k3" "kinv k3 [((a @ b) @ c) @ d, [], [], []] H R"
    "\<forall>i. unranked (ptable k3 ! i) = unranked (ptable k2 ! i)"
    using boost_queue_ok[OF k2(2), of 3] by (auto simp: numeral_3_eq_3)
  have "mlfq_boost k = Some (fold boost_reset [0..<NPROC] k3)"
    unfolding mlfq_boost_def k1(1) by (simp add: k2(1) k3(1))
  moreover have "unranked ((ptable k3 ! i)\<lparr>priority := 0, ticks_used := 0\<rparr>) = unranked (ptable k ! i)" for i
    using k1(3) k2(3) k3(3) by (simp add: unranked_def)
  ultimately show ?thesis
    using kinv_fold_boost_reset[OF k3(2) order_refl] fold_boost_reset_table[OF k3(2) order_refl]
    by (simp add: qs)
qed


section \<open>Wakeups\<close>

definition wake_proc :: "channel \<Rightarrow> proc \<Rightarrow> proc" where
  "wake_proc c r =
     (if chan r = c then r\<lparr>chan := No_chan, pstate := if pstate r = SLEEPING then RUNNABLE else pstate r\<rparr>
      else r)"

lemma unlinked_wake_proc: "unlinked (wake_proc c r) = wake_proc c (unlinked r)"
  by (simp add: wake_proc_def unlinked_def)

lemma unlinked_upd:
  "unlinked (r\<lparr>chan := c\<rparr>) = (unlinked r)\<lparr>chan := c\<rparr>" "unlinked (r\<lparr>pstate := t\<rparr>) = (unlinked r)\<lparr>pstate := t\<rparr>"
  by (simp_all add: unlinked_def)

lemma wake_one_table:
  assumes "p < length (ptable k)"
  shows "unlinked (ptable (wake_one c p k) ! i) =
    (if i = p then wake_proc c (unlinked (ptable k ! p)) else unlinked (ptable k ! i))"
  using assms
  by (cases "chan (ptable k ! p) = c"; cases "pstate (ptable k ! p) = SLEEPING")
    (simp_all add: wake_one_def Let_def ptable_upd_proc wake_proc_def unlinked_upd upd_proc_twice
      unlinked_fields)

lemma kinv_fold_wake:
  assumes "kinv k qs H R"
  shows "n \<le> NPROC \<Longrightarrow> \<exists>qs'. kinv (fold (wake_one c) [0..<n] k) qs' H R"
proof (induction n)
  case (Suc n)
  then obtain qs' where "kinv (fold (wake_one c) [0..<n] k) qs' H R" by auto
  then show ?case using keeps_wake_one[of _ qs' H R n c] Suc(2) by (fastforce simp: keeps_kinv_def)
qed (use assms in auto)

lemma fold_wake_table:
  assumes "kinv k qs H R"
  shows "n \<le> NPROC \<Longrightarrow> unlinked (ptable (fold (wake_one c) [0..<n] k) ! i) =
    (if i < n then wake_proc c (unlinked (ptable k ! i)) else unlinked (ptable k ! i))"
proof (induction n arbitrary: i)
  case (Suc n)
  obtain qs' where "kinv (fold (wake_one c) [0..<n] k) qs' H R"
    using kinv_fold_wake[OF assms] Suc(2) by fastforce
  then have "length (ptable (fold (wake_one c) [0..<n] k)) = NPROC" by (rule kinv_table)
  then show ?case using Suc by (simp add: wake_one_table less_Suc_eq)
qed simp

lemma wakeup_ok:
  assumes inv: "kinv k qs H R"
  shows "\<exists>qs'. kinv (wakeup c k) qs' H R"
    "i < NPROC \<Longrightarrow> unlinked (ptable (wakeup c k) ! i) = wake_proc c (unlinked (ptable k ! i))"
  using kinv_fold_wake[OF inv order_refl] fold_wake_table[OF inv order_refl, of c i]
  by (simp_all add: wakeup_def)

section \<open>Time slices\<close>

abbreviation after_tick :: "nat \<Rightarrow> xv6 \<Rightarrow> xv6" where
  "after_tick p k \<equiv> snd (timer_tick p k)"

lemma timer_tick_proc:
  assumes "p < length (ptable k)"
  shows "ptable (after_tick p k) ! p = tick_proc (ptable k ! p)"
    "length (ptable (after_tick p k)) = length (ptable k)"
    "time_slice (priority (ptable k ! p)) \<le> Suc (ticks_used (ptable k ! p)) \<Longrightarrow> fst (timer_tick p k)"
  using assms timer_tick_table[OF assms]
  by (simp_all add: ptable_upd_proc timer_tick_def mlfq_tick_def Let_def)

lemma ticks_within_slice:
  assumes "p < length (ptable k)"
  shows "ticks_used (ptable k ! p) + j < time_slice (priority (ptable k ! p)) \<Longrightarrow>
    priority (ptable ((after_tick p ^^ j) k) ! p) = priority (ptable k ! p) \<and>
    ticks_used (ptable ((after_tick p ^^ j) k) ! p) = ticks_used (ptable k ! p) + j \<and>
    length (ptable ((after_tick p ^^ j) k)) = length (ptable k)"
proof (induction j)
  case (Suc j)
  then have IH: "priority (ptable ((after_tick p ^^ j) k) ! p) = priority (ptable k ! p)"
    "ticks_used (ptable ((after_tick p ^^ j) k) ! p) = ticks_used (ptable k ! p) + j"
    "length (ptable ((after_tick p ^^ j) k)) = length (ptable k)" by simp_all
  have "p < length (ptable ((after_tick p ^^ j) k))" using IH(3) assms by simp
  from timer_tick_proc[OF this] show ?case using IH Suc(2) by (simp add: tick_proc_def Let_def)
qed simp

lemma slice_expires:
  assumes p: "p < length (ptable k)" and ok: "proc_ok (ptable k ! p)"
    and j: "Suc j = time_slice (priority (ptable k ! p)) - ticks_used (ptable k ! p)"
  shows "fst (timer_tick p ((after_tick p ^^ j) k))"
    "priority (ptable ((after_tick p ^^ Suc j) k) ! p) = min 3 (Suc (priority (ptable k ! p)))"
    "ticks_used (ptable ((after_tick p ^^ Suc j) k) ! p) = 0"
proof -
  have lt: "ticks_used (ptable k ! p) + j < time_slice (priority (ptable k ! p))" using j by simp
  note I = ticks_within_slice[OF p lt]
  have p': "p < length (ptable ((after_tick p ^^ j) k))" using I p by simp
  have e: "time_slice (priority (ptable k ! p)) = Suc (ticks_used (ptable k ! p) + j)" using j by simp
  show "fst (timer_tick p ((after_tick p ^^ j) k))" using timer_tick_proc(3)[OF p'] I e by simp
  have "priority (ptable k ! p) < 4" using ok by (simp add: proc_ok_def)
  then show "priority (ptable ((after_tick p ^^ Suc j) k) ! p) = min 3 (Suc (priority (ptable k ! p)))"
    "ticks_used (ptable ((after_tick p ^^ Suc j) k) ! p) = 0"
    using timer_tick_proc(1)[OF p'] I e by (auto simp: tick_proc_def Let_def)
qed

text \<open>A tick inside the slice takes the processor away only for a process of higher
  priority.\<close>

lemma tick_preempts:
  assumes rep: "queues_rep k qs" and p: "p < NPROC" and pr: "priority (ptable k ! p) < 4"
    and lt: "Suc (ticks_used (ptable k ! p)) < time_slice (priority (ptable k ! p))"
  shows "fst (timer_tick p k) \<longleftrightarrow> (\<exists>q < priority (ptable k ! p). ready_queue k q \<noteq> [])"
proof -
  have len: "p < length (ptable k)" using queues_repD(3)[OF rep] p by simp
  have "head (queues k ! q) \<noteq> None \<longleftrightarrow> ready_queue k q \<noteq> []" if "q < 4" for q
    using queues_repD(6)[OF rep that] ready_queue_rep[OF rep that] by (cases "qs ! q") auto
  then show ?thesis
    using len lt pr by (auto simp: timer_tick_def mlfq_tick_def mlfq_highest_priority_ready_def Let_def
        ptable_upd_proc list_ex_iff)
qed

section \<open>The scheduler\<close>

lemma scheduler_round_ok:
  assumes inv: "kinv k qs H R"
  shows "case scheduler_round k of
      (None, k') \<Rightarrow> concat qs = [] \<and> k' = k
    | (Some p, k') \<Rightarrow> \<exists>q ps. q < 4 \<and> (\<forall>r < q. qs ! r = []) \<and> qs ! q = p # ps \<and>
        kinv k' (qs[q := ps]) H (p # R)"
proof (cases "deque_highest_priority_p k")
  case (Pair x k1)
  show ?thesis
  proof (cases x)
    case None
    then show ?thesis
      using deque_highest_none[OF kinvD(1)[OF inv]] Pair by (simp add: scheduler_round_def)
  next
    case (Some p)
    have len: "length qs = 4" by (rule kinv_lengths[OF inv])
    obtain q ps where q: "q < 4" "\<forall>r < q. qs ! r = []" "qs ! q = p # ps"
      using deque_highest_some[OF kinvD(1)[OF inv]] Pair Some by metis
    have "deque_from i k = deque q k" if "i \<le> q" for i
      using that
    proof (induction "q - i" arbitrary: i)
      case 0
      then show ?case using q(1,3) ready.deq_front[OF kinvD(1)[OF inv], of q p ps] len
        by (cases "deque q k") (auto simp: deque_from.simps[of i])
    next
      case (Suc n)
      have "deque i k = (None, k)" using ready.deq_empty[OF kinvD(1)[OF inv], of i] q(1,2) Suc(2) len by simp
      moreover have "deque_from (Suc i) k = deque q k" using Suc(1)[of "Suc i"] Suc(2) by simp
      moreover have "i < 4" using Suc(2) q(1) by linarith
      ultimately show ?case by (subst deque_from.simps) simp
    qed
    then have "deque q k = (Some p, k1)"
      using Pair Some by (simp add: deque_highest_priority_p_def)
    then have k1: "kinv k1 (qs[q := ps]) (p # H) R" using kinv_deque[OF inv q(1)] q(3) by fastforce
    then have "pstate (ptable k1 ! p) = RUNNABLE" using kinvD(4,6)[OF k1, of p] by auto
    then have "scheduler_round k = (Some p, dispatch p k1)"
      using Pair Some by (simp add: scheduler_round_def)
    then show ?thesis using q kinv_run[OF k1] by auto
  qed
qed


section \<open>Killing process 0\<close>

text \<open>An entry that is not in use has the process number 0, and \<^verbatim>\<open>kkill(0)\<close> finds it: it marks the
  free entry as killed.  \<^verbatim>\<open>allocproc\<close> does not clear the mark, so the next process that
  gets the entry is killed from the start and leaves at its first timer trap.\<close>

lemma kill_zero_kills_next_process:
  assumes len: "length (ptable k) = NPROC"
    and pid0: "find (\<lambda>p. pid (ptable k ! p) = 0) [0..<NPROC] = Some i"
    and free: "find (\<lambda>p. pstate (ptable k ! p) = UNUSED) [0..<NPROC] = Some i"
  shows "fst (kkill 0 k) = 0"
    "fst (kfork p True True True (snd (kkill 0 k))) = nextpid k"
    "killed (ptable (snd (kfork p True True True (snd (kkill 0 k)))) ! i) = 1"
    "\<exists>x. usertrap_timer i (snd (kfork p True True True (snd (kkill 0 k)))) = Exits x"
proof -
  have i: "i < length (ptable k)" "pstate (ptable k ! i) = UNUSED"
    using free len by (auto simp: find_Some_iff)
  define k1 where "k1 = upd_proc i (\<lambda>r. r\<lparr>killed := 1\<rparr>) k"
  have kill: "kkill 0 k = (0, k1)"
    using pid0 i by (simp add: kkill_def kill_one_def k1_def Let_def ptable_upd_proc)
  have "(\<lambda>p. pstate (ptable k1 ! p) = UNUSED) = (\<lambda>p. pstate (ptable k ! p) = UNUSED)"
    using i by (auto simp: k1_def ptable_upd_proc fun_eq_iff)
  then have alloc: "allocproc True True k1 = (Some i, alloc_slot i k1)"
    using free by (simp add: allocproc_def Let_def)
  have i1: "i < length (ptable k1)" using i by (simp add: k1_def)
  then have i2: "i < length (ptable (alloc_slot i k1))" by (simp add: alloc_slot_def Let_def)
  have "kfork p True True True k1 = (pid (ptable (alloc_slot i k1) ! i),
      start_child i (upd_proc i (\<lambda>r. r\<lparr>parent := Some p\<rparr>) (alloc_slot i k1)))"
    by (simp add: kfork_def alloc)
  moreover have "pid (ptable (alloc_slot i k1) ! i) = nextpid k"
    by (simp add: alloc_slot_table[OF i1]) (simp add: k1_def)
  moreover have "killed (ptable (start_child i (upd_proc i (\<lambda>r. r\<lparr>parent := Some p\<rparr>) (alloc_slot i k1))) ! i) = 1"
    using i2 by (simp add: start_child_def ptable_upd_proc alloc_slot_table[OF i1]) (simp add: k1_def ptable_upd_proc i(1))
  ultimately show "fst (kkill 0 k) = 0"
    "fst (kfork p True True True (snd (kkill 0 k))) = nextpid k"
    "killed (ptable (snd (kfork p True True True (snd (kkill 0 k)))) ! i) = 1"
    "\<exists>x. usertrap_timer i (snd (kfork p True True True (snd (kkill 0 k)))) = Exits x"
    using kill by (simp_all add: usertrap_timer_def)
qed

end
