(* ===== verification/Mlfq_Smp.thy ===== *)
theory Mlfq_Smp
  imports Mlfq_Inv
begin

text \<open>
  The multi-level feedback queue on several processors.  A step of \<open>smp_step\<close> is one critical
  section of the kernel: what one processor does between taking \<^verbatim>\<open>p->lock\<close> or a queue
  lock and releasing it.  Steps of the processors and of the clock interrupt, which processor 0
  takes, interleave freely.  A processor is in the loop of \<^verbatim>\<open>scheduler\<close>
  (\<open>Scanning\<close>), has taken a process off a queue and not locked it yet (\<open>Picked\<close>),
  runs a process, in user space or in the kernel (\<open>Running\<close>), or is on its way
  from \<^verbatim>\<open>sched\<close> back to \<^verbatim>\<open>scheduler\<close>, which holds the lock of the process
  (\<open>Leaving\<close>).  \<open>forking\<close> is the local variable \<^verbatim>\<open>np\<close> of a process inside
  \<^verbatim>\<open>kfork\<close>.  What a running process calls is not restricted further: it may wake,
  kill and change parents at any time.
\<close>

section \<open>States and steps\<close>

datatype phase = Scanning nat | Picked nat | Running nat | Leaving nat

datatype clock_phase =
    No_clock
  | Waking nat bool
  | Counting nat bool
  | Draining nat
  | Holding nat nat
  | Moving nat nat
  | Resetting nat

record smp =
  kern :: xv6
  cpus :: "phase list"
  clock :: clock_phase
  forking :: "nat \<Rightarrow> nat option"

text \<open>A step may take a process off a queue.\<close>

datatype event = Internal | Took nat nat

definition locked :: "smp \<Rightarrow> nat \<Rightarrow> bool" where
  "locked m p \<longleftrightarrow> Leaving p \<in> set (cpus m)"

text \<open>Processor \<open>c\<close> is in \<open>ph\<close> and not inside the clock interrupt.\<close>

definition at :: "smp \<Rightarrow> nat \<Rightarrow> phase \<Rightarrow> bool" where
  "at m c ph \<longleftrightarrow> c < length (cpus m) \<and> cpus m ! c = ph \<and> (c = 0 \<longrightarrow> clock m = No_clock)"

definition goto :: "nat \<Rightarrow> phase \<Rightarrow> xv6 \<Rightarrow> smp \<Rightarrow> smp" where
  "goto c ph k m = m\<lparr>kern := k, cpus := (cpus m)[c := ph]\<rparr>"

definition clock_to :: "clock_phase \<Rightarrow> xv6 \<Rightarrow> smp \<Rightarrow> smp" where
  "clock_to ph k m = m\<lparr>kern := k, clock := ph\<rparr>"

inductive smp_step :: "smp \<Rightarrow> event \<Rightarrow> smp \<Rightarrow> bool" where
  scan_empty: "at m c (Scanning i) \<Longrightarrow> i < 4 \<Longrightarrow> deque i (kern m) = (None, k) \<Longrightarrow>
    smp_step m Internal (goto c (Scanning (Suc i)) k m)"
| scan_take: "at m c (Scanning i) \<Longrightarrow> i < 4 \<Longrightarrow> deque i (kern m) = (Some p, k) \<Longrightarrow>
    smp_step m (Took i p) (goto c (Picked p) k m)"
| scan_again: "at m c (Scanning i) \<Longrightarrow> 4 \<le> i \<Longrightarrow>
    smp_step m Internal (goto c (Scanning 0) (kern m) m)"
| run: "at m c (Picked p) \<Longrightarrow> \<not> locked m p \<Longrightarrow> pstate (ptable (kern m) ! p) = RUNNABLE \<Longrightarrow>
    smp_step m Internal (goto c (Running p) (dispatch p (kern m)) m)"
| skip: "at m c (Picked p) \<Longrightarrow> \<not> locked m p \<Longrightarrow> pstate (ptable (kern m) ! p) \<noteq> RUNNABLE \<Longrightarrow>
    smp_step m Internal (goto c (Scanning 0) (kern m) m)"
| tick: "at m c (Running p) \<Longrightarrow>
    smp_step m Internal (goto c (Running p) (snd (timer_tick p (kern m))) m)"
| yield: "at m c (Running p) \<Longrightarrow> \<not> locked m p \<Longrightarrow>
    smp_step m Internal (goto c (Leaving p) (yield_cpu p (kern m)) m)"
| prepare: "at m c (Running p) \<Longrightarrow> \<not> locked m p \<Longrightarrow> forking m p = None \<Longrightarrow>
    sleep_prepare p ch (kern m) = Some k \<Longrightarrow> smp_step m Internal (goto c (Running p) k m)"
| sleep: "at m c (Running p) \<Longrightarrow> \<not> locked m p \<Longrightarrow> forking m p = None \<Longrightarrow>
    sleep p (kern m) = (True, k) \<Longrightarrow> smp_step m Internal (goto c (Leaving p) k m)"
| exit: "at m c (Running p) \<Longrightarrow> \<not> locked m p \<Longrightarrow> forking m p = None \<Longrightarrow>
    initproc (kern m) \<noteq> Some p \<Longrightarrow>
    smp_step m Internal (goto c (Leaving p) (exit_proc p st (kern m)) m)"
| leave: "at m c (Leaving p) \<Longrightarrow> smp_step m Internal (goto c (Scanning 0) (kern m) m)"
| wake: "i < NPROC \<Longrightarrow> \<not> locked m i \<Longrightarrow>
    smp_step m Internal (m\<lparr>kern := wake_one ch i (kern m)\<rparr>)"
| kill: "at m c (Running p) \<Longrightarrow> i < NPROC \<Longrightarrow> \<not> locked m i \<Longrightarrow>
    smp_step m Internal (m\<lparr>kern := kill_one i (kern m)\<rparr>)"
| adopt: "at m c (Running p) \<Longrightarrow> i < NPROC \<Longrightarrow>
    smp_step m Internal (m\<lparr>kern := upd_proc i (\<lambda>r. r\<lparr>parent := v\<rparr>) (kern m)\<rparr>)"
| reap: "at m c (Running p) \<Longrightarrow> i < NPROC \<Longrightarrow> \<not> locked m i \<Longrightarrow>
    pstate (ptable (kern m) ! i) = ZOMBIE \<Longrightarrow>
    smp_step m Internal (m\<lparr>kern := freeproc i (kern m)\<rparr>)"
| alloc: "at m c (Running p) \<Longrightarrow> forking m p = None \<Longrightarrow> i < NPROC \<Longrightarrow> \<not> locked m i \<Longrightarrow>
    pstate (ptable (kern m) ! i) = UNUSED \<Longrightarrow>
    smp_step m Internal (m\<lparr>kern := alloc_slot i (kern m), forking := (forking m)(p := Some i)\<rparr>)"
| alloc_fails: "at m c (Running p) \<Longrightarrow> forking m p = Some np \<Longrightarrow>
    smp_step m Internal (m\<lparr>kern := freeproc np (kern m), forking := (forking m)(p := None)\<rparr>)"
| start: "at m c (Running p) \<Longrightarrow> forking m p = Some np \<Longrightarrow> \<not> locked m np \<Longrightarrow>
    smp_step m Internal (m\<lparr>kern := start_child np (kern m), forking := (forking m)(p := None)\<rparr>)"
| clock_starts: "clock m = No_clock \<Longrightarrow> (\<forall>p. cpus m ! 0 \<noteq> Leaving p) \<Longrightarrow>
    k = (kern m)\<lparr>ticks := ticks (kern m) + 1\<rparr> \<Longrightarrow>
    smp_step m Internal (clock_to (Waking 0 (ticks k mod 48 = 0)) k m)"
| clock_wakes: "clock m = Waking i b \<Longrightarrow> i < NPROC \<Longrightarrow> \<not> locked m i \<Longrightarrow>
    smp_step m Internal (clock_to (Waking (Suc i) b) (wake_one Ticks_chan i (kern m)) m)"
| clock_woke: "clock m = Waking NPROC b \<Longrightarrow> smp_step m Internal (clock_to (Counting 0 b) (kern m) m)"
| clock_counts: "clock m = Counting i b \<Longrightarrow> i < NPROC \<Longrightarrow> \<not> locked m i \<Longrightarrow>
    smp_step m Internal (clock_to (Counting (Suc i) b) (count_waiting i (kern m)) m)"
| clock_counted: "clock m = Counting NPROC b \<Longrightarrow>
    smp_step m Internal (clock_to (if b then Draining 1 else No_clock) (kern m) m)"
| drain_empty: "clock m = Draining q \<Longrightarrow> q < 4 \<Longrightarrow> deque q (kern m) = (None, k) \<Longrightarrow>
    smp_step m Internal (clock_to (Draining (Suc q)) k m)"
| drain_take: "clock m = Draining q \<Longrightarrow> q < 4 \<Longrightarrow> deque q (kern m) = (Some p, k) \<Longrightarrow>
    smp_step m (Took q p) (clock_to (Holding q p) k m)"
| drain_reset: "clock m = Holding q p \<Longrightarrow> \<not> locked m p \<Longrightarrow>
    pstate (ptable (kern m) ! p) = RUNNABLE \<Longrightarrow>
    smp_step m Internal (clock_to (Moving q p) (boost_reset p (kern m)) m)"
| drain_drop: "clock m = Holding q p \<Longrightarrow> \<not> locked m p \<Longrightarrow>
    pstate (ptable (kern m) ! p) \<noteq> RUNNABLE \<Longrightarrow>
    smp_step m Internal (clock_to (Draining q) (kern m) m)"
| drain_move: "clock m = Moving q p \<Longrightarrow>
    smp_step m Internal (clock_to (Draining q) (enqueue 0 p (kern m)) m)"
| drain_done: "clock m = Draining q \<Longrightarrow> 4 \<le> q \<Longrightarrow>
    smp_step m Internal (clock_to (Resetting 0) (kern m) m)"
| clock_resets: "clock m = Resetting i \<Longrightarrow> i < NPROC \<Longrightarrow> \<not> locked m i \<Longrightarrow>
    smp_step m Internal (clock_to (Resetting (Suc i)) (boost_reset i (kern m)) m)"
| clock_done: "clock m = Resetting NPROC \<Longrightarrow> smp_step m Internal (clock_to No_clock (kern m) m)"

text \<open>The kernel starts with the first user process in queue 0 and every processor in the
  scheduler.\<close>

definition boot :: "nat \<Rightarrow> smp" where
  "boot n = \<lparr>kern = the (userinit procinit), cpus = replicate n (Scanning 0), clock = No_clock,
     forking = (\<lambda>_. None)\<rparr>"

inductive reachable :: "nat \<Rightarrow> smp \<Rightarrow> bool" for n where
  init: "reachable n (boot n)"
| step: "reachable n m \<Longrightarrow> smp_step m e m' \<Longrightarrow> reachable n m'"

text \<open>A run with the processes that it takes off queue \<open>q\<close>, in order.\<close>

fun took :: "nat \<Rightarrow> event \<Rightarrow> nat list" where
  "took q (Took r p) = (if r = q then [p] else [])"
| "took q Internal = []"

inductive takes :: "nat \<Rightarrow> smp \<Rightarrow> nat list \<Rightarrow> smp \<Rightarrow> bool" for q where
  start: "takes q m [] m"
| more: "takes q m ps m' \<Longrightarrow> smp_step m' e m'' \<Longrightarrow> takes q m (ps @ took q e) m''"

section \<open>The invariant of the machine\<close>

fun held_of :: "phase \<Rightarrow> nat list" where
  "held_of (Picked p) = [p]"
| "held_of _ = []"

fun running_of :: "phase \<Rightarrow> nat list" where
  "running_of (Running p) = [p]"
| "running_of _ = []"

text \<open>The process on whose kernel stack a processor is.\<close>

fun stack_of :: "phase \<Rightarrow> nat list" where
  "stack_of (Running p) = [p]"
| "stack_of (Leaving p) = [p]"
| "stack_of _ = []"

fun clock_held :: "clock_phase \<Rightarrow> nat list" where
  "clock_held (Holding q p) = [p]"
| "clock_held (Moving q p) = [p]"
| "clock_held _ = []"

definition held :: "smp \<Rightarrow> nat list" where
  "held m = concat (map held_of (cpus m)) @ clock_held (clock m)"

definition running :: "smp \<Rightarrow> nat list" where
  "running m = concat (map running_of (cpus m))"

definition stacks :: "smp \<Rightarrow> nat list" where
  "stacks m = concat (map stack_of (cpus m))"

definition fork_ok :: "smp \<Rightarrow> bool" where
  "fork_ok m \<longleftrightarrow>
     (\<forall>p np. forking m p = Some np \<longrightarrow> np < NPROC \<and> pstate (ptable (kern m) ! np) = USED) \<and>
     (\<forall>p p' np. forking m p = Some np \<longrightarrow> forking m p' = Some np \<longrightarrow> p = p')"

definition clock_ok :: "smp \<Rightarrow> bool" where
  "clock_ok m \<longleftrightarrow> (clock m \<noteq> No_clock \<longrightarrow> (\<forall>p. cpus m ! 0 \<noteq> Leaving p))"

definition smp_inv :: "smp \<Rightarrow> nat list list \<Rightarrow> bool" where
  "smp_inv m qs \<longleftrightarrow> kinv (kern m) qs (held m) (running m) \<and> distinct (stacks m) \<and>
     fork_ok m \<and> clock_ok m"

text \<open>What a step does to the queues.\<close>

definition qmoves :: "event \<Rightarrow> nat list list \<Rightarrow> nat list list \<Rightarrow> bool" where
  "qmoves e qs qs' \<longleftrightarrow> length qs' = length qs \<and>
     (\<forall>q < length qs. \<exists>arr. took q e @ qs' ! q = qs ! q @ arr)"

definition step_ok :: "event \<Rightarrow> nat list list \<Rightarrow> smp \<Rightarrow> bool" where
  "step_ok e qs m' \<longleftrightarrow> (\<exists>qs'. smp_inv m' qs' \<and> qmoves e qs qs')"

lemma smp_invD:
  assumes "smp_inv m qs"
  shows "kinv (kern m) qs (held m) (running m)" "distinct (stacks m)" "fork_ok m" "clock_ok m"
  using assms by (simp_all add: smp_inv_def)

lemma mset_phases:
  "c < length xs \<Longrightarrow> mset (concat (map f (xs[c := y]))) + mset (f (xs ! c)) =
   mset (concat (map f xs)) + mset (f y)"
  using mset_concat_update[of c "map f xs" "f y"] by (simp only: map_update nth_map length_map)

lemma atD:
  assumes "at m c ph"
  shows "c < length (cpus m)" "cpus m ! c = ph" "c = 0 \<Longrightarrow> clock m = No_clock" "ph \<in> set (cpus m)"
  using assms by (auto simp: at_def)

lemma goto_lists:
  assumes "at m c ph0"
  shows "mset (held (goto c ph k m)) + mset (held_of ph0) = mset (held m) + mset (held_of ph)"
    "mset (running (goto c ph k m)) + mset (running_of ph0) = mset (running m) + mset (running_of ph)"
    "mset (stacks (goto c ph k m)) + mset (stack_of ph0) = mset (stacks m) + mset (stack_of ph)"
  using mset_phases[OF atD(1)[OF assms], of held_of ph] mset_phases[OF atD(1)[OF assms], of running_of ph]
    mset_phases[OF atD(1)[OF assms], of stack_of ph] atD(2)[OF assms]
  by (simp_all add: held_def running_def stacks_def goto_def ac_simps)

lemma in_stacks: "p \<in> set (stacks m) \<longleftrightarrow> p \<in> set (running m) \<or> locked m p"
proof -
  have "p \<in> set (stack_of ph) \<longleftrightarrow> p \<in> set (running_of ph) \<or> ph = Leaving p" for ph
    by (cases ph) auto
  then show ?thesis unfolding stacks_def running_def locked_def by auto
qed

lemma fork_ok_keeps:
  assumes "fork_ok m" "forking m' = forking m"
    "\<And>i. i < NPROC \<Longrightarrow> pstate (ptable (kern m) ! i) = USED \<Longrightarrow> pstate (ptable (kern m') ! i) = USED"
  shows "fork_ok m'"
  using assms unfolding fork_ok_def by metis

lemma movesD:
  assumes "moves k qs k' qs'"
  shows "qmoves Internal qs qs'"
    "i < NPROC \<Longrightarrow> pstate (ptable k ! i) = USED \<Longrightarrow> pstate (ptable k' ! i) = USED"
  using assms by (auto simp: moves_def qmoves_def)

lemma smp_goto:
  assumes inv: "smp_inv m qs" and at: "at m c ph0" and k: "kinv k qs' H' R'"
    and H: "mset H' + mset (held_of ph0) = mset (held m) + mset (held_of ph)"
    and R: "mset R' + mset (running_of ph0) = mset (running m) + mset (running_of ph)"
    and S: "distinct (stacks (goto c ph k m))"
    and U: "\<And>i. i < NPROC \<Longrightarrow> pstate (ptable (kern m) ! i) = USED \<Longrightarrow> pstate (ptable k ! i) = USED"
  shows "smp_inv (goto c ph k m) qs'"
  unfolding smp_inv_def
proof (intro conjI S)
  have "mset H' = mset (held (goto c ph k m))" "mset R' = mset (running (goto c ph k m))"
    using H R goto_lists(1,2)[OF at, where ph = ph and k = k] by (metis add_right_cancel)+
  then show "kinv (kern (goto c ph k m)) qs' (held (goto c ph k m)) (running (goto c ph k m))"
    using kinv_perm[OF k] by (simp add: goto_def)
  show "fork_ok (goto c ph k m)" using fork_ok_keeps[OF smp_invD(3)[OF inv]] U by (simp add: goto_def)
  show "clock_ok (goto c ph k m)"
    using smp_invD(4)[OF inv] at by (cases "c = 0") (auto simp: clock_ok_def goto_def at_def)
qed

lemma stacks_same:
  assumes "smp_inv m qs" "at m c ph0" "stack_of ph = stack_of ph0"
  shows "distinct (stacks (goto c ph k m))"
proof -
  have "mset (stacks (goto c ph k m)) = mset (stacks m)"
    using goto_lists(3)[OF assms(2), where ph = ph and k = k] assms(3) by simp
  then show ?thesis using smp_invD(2)[OF assms(1)] by (metis mset_eq_imp_distinct_iff)
qed

text \<open>A step of a processor that keeps its process, if it has one.\<close>

lemma smp_goto_same:
  assumes inv: "smp_inv m qs" and at: "at m c ph0"
    and k: "keeps_kinv (kern m) qs (held m) k (running m)"
    and ph: "held_of ph = held_of ph0" "running_of ph = running_of ph0" "stack_of ph = stack_of ph0"
  shows "step_ok Internal qs (goto c ph k m)"
proof -
  obtain qs' where qs': "kinv k qs' (held m) (running m)" "moves (kern m) qs k qs'"
    using k unfolding keeps_kinv_def by blast
  have "smp_inv (goto c ph k m) qs'"
    by (rule smp_goto[OF inv at qs'(1)]) (use ph stacks_same[OF inv at ph(3)] movesD(2)[OF qs'(2)] in simp_all)
  then show ?thesis using movesD(1)[OF qs'(2)] unfolding step_ok_def by blast
qed

text \<open>A step in which a process leaves the processor.\<close>

lemma smp_goto_leaving:
  assumes inv: "smp_inv m qs" and at: "at m c (Running p)"
    and k: "keeps_kinv (kern m) qs (held m) k (removeAll p (running m))"
  shows "step_ok Internal qs (goto c (Leaving p) k m)"
proof -
  obtain qs' where qs': "kinv k qs' (held m) (removeAll p (running m))" "moves (kern m) qs k qs'"
    using k unfolding keeps_kinv_def by blast
  have "p \<in> set (running m)" using atD(4)[OF at] by (force simp: running_def)
  then have "mset (removeAll p (running m)) + mset (running_of (Running p)) =
      mset (running m) + mset (running_of (Leaving p))"
    using kinvD(3)[OF smp_invD(1)[OF inv]] by (simp add: distinct_remove1_removeAll[symmetric])
  then have "smp_inv (goto c (Leaving p) k m) qs'"
    by (intro smp_goto[OF inv at qs'(1)])
      (use stacks_same[OF inv at, of "Leaving p"] movesD(2)[OF qs'(2)] in simp_all)
  then show ?thesis using movesD(1)[OF qs'(2)] unfolding step_ok_def by blast
qed

lemma smp_kern:
  assumes inv: "smp_inv m qs" and k: "keeps_kinv (kern m) qs (held m) k (running m)"
  shows "step_ok Internal qs (m\<lparr>kern := k\<rparr>)"
proof -
  obtain qs' where qs': "kinv k qs' (held m) (running m)" "moves (kern m) qs k qs'"
    using k unfolding keeps_kinv_def by blast
  have "smp_inv (m\<lparr>kern := k\<rparr>) qs'"
    using inv qs'(1) fork_ok_keeps[of m "m\<lparr>kern := k\<rparr>"] movesD(2)[OF qs'(2)]
    by (simp add: smp_inv_def held_def running_def stacks_def clock_ok_def)
  then show ?thesis using movesD(1)[OF qs'(2)] unfolding step_ok_def by blast
qed

lemma smp_clock:
  assumes inv: "smp_inv m qs" and k: "kinv k qs' H' (running m)"
    and H: "mset H' + mset (clock_held (clock m)) = mset (held m) + mset (clock_held ph)"
    and U: "\<And>i. i < NPROC \<Longrightarrow> pstate (ptable (kern m) ! i) = USED \<Longrightarrow> pstate (ptable k ! i) = USED"
    and C: "clock m = No_clock \<Longrightarrow> \<forall>p. cpus m ! 0 \<noteq> Leaving p"
  shows "smp_inv (clock_to ph k m) qs'"
  unfolding smp_inv_def
proof (intro conjI)
  have "mset (held (clock_to ph k m)) + mset (clock_held (clock m)) = mset (held m) + mset (clock_held ph)"
    by (simp add: held_def clock_to_def)
  then have "mset H' = mset (held (clock_to ph k m))" using H by (metis add_right_cancel)
  then show "kinv (kern (clock_to ph k m)) qs' (held (clock_to ph k m)) (running (clock_to ph k m))"
    using kinv_perm[OF k] by (simp add: clock_to_def running_def)
  show "distinct (stacks (clock_to ph k m))" using smp_invD(2)[OF inv] by (simp add: stacks_def clock_to_def)
  show "fork_ok (clock_to ph k m)" using fork_ok_keeps[OF smp_invD(3)[OF inv]] U by (simp add: clock_to_def)
  show "clock_ok (clock_to ph k m)"
    using smp_invD(4)[OF inv] C by (auto simp: clock_ok_def clock_to_def)
qed

lemma smp_clock_same:
  assumes inv: "smp_inv m qs" and k: "keeps_kinv (kern m) qs (held m) k (running m)"
    and ph: "clock_held ph = clock_held (clock m)"
    and C: "clock m = No_clock \<Longrightarrow> \<forall>p. cpus m ! 0 \<noteq> Leaving p"
  shows "step_ok Internal qs (clock_to ph k m)"
proof -
  obtain qs' where qs': "kinv k qs' (held m) (running m)" "moves (kern m) qs k qs'"
    using k unfolding keeps_kinv_def by blast
  have "smp_inv (clock_to ph k m) qs'"
    by (rule smp_clock[OF inv qs'(1)]) (use ph C movesD(2)[OF qs'(2)] in simp_all)
  then show ?thesis using movesD(1)[OF qs'(2)] unfolding step_ok_def by blast
qed

section \<open>Every step keeps the invariant\<close>

lemma held_state:
  assumes "smp_inv m qs" "p \<in> set (held m)"
  shows "p < NPROC" "pstate (ptable (kern m) ! p) = RUNNABLE"
  using kinvD(4,6)[OF smp_invD(1)[OF assms(1)], of p] assms(2) by auto

lemma picked_held: "at m c (Picked p) \<Longrightarrow> p \<in> set (held m)"
  using atD(4)[of m c "Picked p"] by (force simp: held_def)

lemma at_running: "at m c (Running p) \<Longrightarrow> p \<in> set (running m)"
  using atD(4)[of m c "Running p"] by (force simp: running_def)

lemma qmoves_took:
  "i < length qs \<Longrightarrow> qs ! i = p # ps \<Longrightarrow> qmoves (Took i p) qs (qs[i := ps])"
  by (auto simp: qmoves_def nth_list_update)

lemma step_scan_take:
  assumes inv: "smp_inv m qs" and at: "at m c (Scanning i)" and i: "i < 4"
    and d: "deque i (kern m) = (Some p, k)"
  shows "step_ok (Took i p) qs (goto c (Picked p) k m)"
proof -
  obtain ps where ps: "qs ! i = p # ps" "kinv k (qs[i := ps]) (p # held m) (running m)"
    using kinv_deque[OF smp_invD(1)[OF inv] i d] by blast
  have "k = snd (deque i (kern m))" using d by simp
  then have "smp_inv (goto c (Picked p) k m) (qs[i := ps])"
    by (intro smp_goto[OF inv at ps(2)]) (use stacks_same[OF inv at, of "Picked p"] in simp_all)
  moreover have "i < length qs" using kinv_lengths[OF smp_invD(1)[OF inv]] i by simp
  ultimately show ?thesis using qmoves_took[OF _ ps(1)] unfolding step_ok_def by blast
qed

lemma step_drain_take:
  assumes inv: "smp_inv m qs" and at: "clock m = Draining i" and i: "i < 4"
    and d: "deque i (kern m) = (Some p, k)"
  shows "step_ok (Took i p) qs (clock_to (Holding i p) k m)"
proof -
  obtain ps where ps: "qs ! i = p # ps" "kinv k (qs[i := ps]) (p # held m) (running m)"
    using kinv_deque[OF smp_invD(1)[OF inv] i d] by blast
  have "k = snd (deque i (kern m))" using d by simp
  then have "smp_inv (clock_to (Holding i p) k m) (qs[i := ps])"
    by (intro smp_clock[OF inv ps(2)]) (use at in simp_all)
  moreover have "i < length qs" using kinv_lengths[OF smp_invD(1)[OF inv]] i by simp
  ultimately show ?thesis using qmoves_took[OF _ ps(1)] unfolding step_ok_def by blast
qed

lemma held_split:
  assumes "smp_inv m qs" "p \<in> set (held m)"
  shows "kinv (kern m) qs (p # remove1 p (held m)) (running m)"
  using kinv_perm[OF smp_invD(1)[OF assms(1)], of "p # remove1 p (held m)" "running m"] assms(2)
  by simp

lemma qmoves_snoc: "qmoves Internal qs (qs[q := qs ! q @ [p]])"
proof -
  have "\<exists>arr. qs[q := qs ! q @ [p]] ! r = qs ! r @ arr" if "r < length qs" for r
    using that by (cases "r = q") auto
  then show ?thesis by (simp add: qmoves_def)
qed

lemma qmoves_refl [simp]: "qmoves Internal qs qs"
  by (simp add: qmoves_def)

lemma unlinked_dispatch: "p \<noteq> i \<Longrightarrow> ptable (dispatch p k) ! i = ptable k ! i"
  by (simp add: dispatch_def Let_def upd_proc_def)

lemma step_run:
  assumes inv: "smp_inv m qs" and at: "at m c (Picked p)" and free: "\<not> locked m p"
  shows "step_ok Internal qs (goto c (Running p) (dispatch p (kern m)) m)"
proof -
  note ph = picked_held[OF at] and st = held_state[OF inv picked_held[OF at]]
  let ?m = "goto c (Running p) (dispatch p (kern m)) m"
  have "p \<notin> set (running m)" using kinvD(7)[OF smp_invD(1)[OF inv] st(1)] st(2) by simp
  then have "p \<notin> set (stacks m)" using free in_stacks by blast
  then have "distinct (p # stacks m)" using smp_invD(2)[OF inv] by simp
  moreover have "mset (stacks ?m) = mset (p # stacks m)" using goto_lists(3)[OF at, of "Running p"] by simp
  ultimately have S: "distinct (stacks ?m)" by (metis mset_eq_imp_distinct_iff)
  have U: "pstate (ptable (dispatch p (kern m)) ! i) = USED"
    if "pstate (ptable (kern m) ! i) = USED" for i
    using that st(2) unlinked_dispatch[of p i "kern m"] by (cases "p = i") simp_all
  have "smp_inv ?m qs"
    by (rule smp_goto[OF inv at kinv_run[OF held_split[OF inv ph]] _ _ S]) (use ph U in simp_all)
  then show ?thesis unfolding step_ok_def by auto
qed

lemma step_leave:
  assumes inv: "smp_inv m qs" and at: "at m c (Leaving p)"
  shows "step_ok Internal qs (goto c (Scanning 0) (kern m) m)"
proof -
  let ?m = "goto c (Scanning 0) (kern m) m"
  have "mset (stacks m) = mset (p # stacks ?m)" using goto_lists(3)[OF at, of "Scanning 0"] by simp
  then have "distinct (p # stacks ?m)" using smp_invD(2)[OF inv] by (metis mset_eq_imp_distinct_iff)
  then have "smp_inv ?m qs"
    by (intro smp_goto[OF inv at smp_invD(1)[OF inv]]) simp_all
  then show ?thesis unfolding step_ok_def by auto
qed

lemma step_drain_move:
  assumes inv: "smp_inv m qs" and at: "clock m = Moving q p"
  shows "step_ok Internal qs (clock_to (Draining q) (enqueue 0 p (kern m)) m)"
proof -
  have ph: "p \<in> set (held m)" using at by (simp add: held_def)
  have "smp_inv (clock_to (Draining q) (enqueue 0 p (kern m)) m) (qs[0 := qs ! 0 @ [p]])"
    by (rule smp_clock[OF inv kinv_put_back[OF held_split[OF inv ph]]]) (use at ph in simp_all)
  then show ?thesis using qmoves_snoc unfolding step_ok_def by blast
qed

text \<open>Steps of \<^verbatim>\<open>kfork\<close>.\<close>

lemma smp_fork:
  assumes inv: "smp_inv m qs" and k: "kinv k qs' (held m) (running m)"
    and F: "fork_ok (m\<lparr>kern := k, forking := f\<rparr>)"
  shows "smp_inv (m\<lparr>kern := k, forking := f\<rparr>) qs'"
  using inv k F by (simp add: smp_inv_def held_def running_def stacks_def clock_ok_def)

lemma step_alloc:
  assumes inv: "smp_inv m qs" and p: "forking m p = None" and i: "i < NPROC"
    and u: "pstate (ptable (kern m) ! i) = UNUSED"
  shows "step_ok Internal qs (m\<lparr>kern := alloc_slot i (kern m), forking := (forking m)(p := Some i)\<rparr>)"
proof -
  note K = smp_invD(1)[OF inv]
  have len: "i < length (ptable (kern m))" using i kinv_table[OF K] by simp
  have F: "np < NPROC \<and> pstate (ptable (kern m) ! np) = USED" if "forking m p' = Some np" for p' np
    using smp_invD(3)[OF inv] that unfolding fork_ok_def by blast
  then have fresh: "forking m p' \<noteq> Some i" for p' using u by fastforce
  have "fork_ok (m\<lparr>kern := alloc_slot i (kern m), forking := (forking m)(p := Some i)\<rparr>)"
    using F fresh i smp_invD(3)[OF inv] unfolding fork_ok_def
    by (auto simp: alloc_slot_table[OF len])
  then show ?thesis
    using smp_fork[OF inv kinv_alloc[OF K i u]] qmoves_refl unfolding step_ok_def by blast
qed

lemma fork_ok_done:
  assumes inv: "smp_inv m qs" and p: "forking m p = Some np"
    and k: "\<And>i. i \<noteq> np \<Longrightarrow> pstate (ptable k ! i) = pstate (ptable (kern m) ! i)"
  shows "fork_ok (m\<lparr>kern := k, forking := (forking m)(p := None)\<rparr>)"
proof -
  have F: "i < NPROC \<and> pstate (ptable (kern m) ! i) = USED" if "forking m p' = Some i" for p' i
    using smp_invD(3)[OF inv] that unfolding fork_ok_def by blast
  have J: "p' = p''" if "forking m p' = Some i" "forking m p'' = Some i" for p' p'' i
    using smp_invD(3)[OF inv] that unfolding fork_ok_def by blast
  have "pstate (ptable k ! i) = USED" if "p' \<noteq> p" "forking m p' = Some i" for p' i
    using F[OF that(2)] J[OF p, of p'] k[of i] that by metis
  then show ?thesis unfolding fork_ok_def using F J by (auto split: if_splits)
qed

lemma forking_used:
  assumes "smp_inv m qs" "forking m p = Some np"
  shows "np < NPROC" "pstate (ptable (kern m) ! np) = USED"
  using smp_invD(3)[OF assms(1)] assms(2) unfolding fork_ok_def by auto

lemma step_alloc_fails:
  assumes inv: "smp_inv m qs" and p: "forking m p = Some np"
  shows "step_ok Internal qs (m\<lparr>kern := freeproc np (kern m), forking := (forking m)(p := None)\<rparr>)"
proof -
  note K = smp_invD(1)[OF inv] and u = forking_used[OF inv p]
  have "kinv (freeproc np (kern m)) qs (held m) (running m)"
    using kinv_freeproc[OF K u(1)] u(2) by simp
  moreover have "fork_ok (m\<lparr>kern := freeproc np (kern m), forking := (forking m)(p := None)\<rparr>)"
    by (rule fork_ok_done[OF inv p]) (simp add: freeproc_def upd_proc_def)
  ultimately show ?thesis using smp_fork[OF inv] qmoves_refl unfolding step_ok_def by blast
qed

lemma step_start:
  assumes inv: "smp_inv m qs" and p: "forking m p = Some np"
  shows "step_ok Internal qs (m\<lparr>kern := start_child np (kern m), forking := (forking m)(p := None)\<rparr>)"
proof -
  note K = smp_invD(1)[OF inv] and u = forking_used[OF inv p]
  have "fork_ok (m\<lparr>kern := start_child np (kern m), forking := (forking m)(p := None)\<rparr>)"
    by (rule fork_ok_done[OF inv p]) (simp add: start_child_def upd_proc_def)
  then show ?thesis
    using smp_fork[OF inv kinv_start_child[OF K u]] qmoves_snoc unfolding step_ok_def by blast
qed

lemma smp_step_ok:
  assumes "smp_inv m qs" "smp_step m e m'"
  shows "step_ok e qs m'"
  using assms(2,1)
proof (induction rule: smp_step.induct)
  case (scan_empty m c i k)
  then have "k = kern m" using kinv_deque_none[OF smp_invD(1)] by blast
  then show ?case
    using smp_goto_same[OF scan_empty(4,1) keeps_kinv_refl[OF smp_invD(1)[OF scan_empty(4)]]] by simp
next
  case (scan_take m c i p k)
  then show ?case by (intro step_scan_take)
next
  case (scan_again m c i)
  then show ?case
    using smp_goto_same[OF scan_again(3,1) keeps_kinv_refl[OF smp_invD(1)[OF scan_again(3)]]] by simp
next
  case (run m c p)
  then show ?case by (intro step_run)
next
  case (skip m c p)
  then show ?case using held_state(2)[OF skip(4) picked_held[OF skip(1)]] by simp
next
  case (tick m c p)
  note r = running_state[OF smp_invD(1)[OF tick(2)] at_running[OF tick(1)]]
  show ?case
    by (rule smp_goto_same[OF tick(2,1) keeps_timer_tick[OF smp_invD(1)[OF tick(2)] r(1)]]) simp_all
next
  case (yield m c p)
  then show ?case by (intro smp_goto_leaving keeps_yield smp_invD(1) at_running)
next
  case (prepare m c p ch k)
  show ?case
    by (rule smp_goto_same[OF prepare(5,1) keeps_sleep_prepare[OF smp_invD(1)[OF prepare(5)]
        at_running[OF prepare(1)] prepare(4)]]) simp_all
next
  case (sleep m c p k)
  then show ?case by (intro smp_goto_leaving keeps_sleep smp_invD(1) at_running)
next
  case (exit m c p st)
  then show ?case by (intro smp_goto_leaving keeps_exit smp_invD(1) at_running)
next
  case (leave m c p)
  then show ?case by (intro step_leave)
next
  case (wake i m ch)
  then show ?case by (intro smp_kern keeps_wake_one smp_invD(1))
next
  case (kill m c p i)
  then show ?case by (intro smp_kern keeps_kill_one smp_invD(1))
next
  case (adopt m c p i v)
  then show ?case by (intro smp_kern keeps_small_updates smp_invD(1))
next
  case (reap m c p i)
  then show ?case by (intro smp_kern keeps_reap smp_invD(1))
next
  case (alloc m c p i)
  then show ?case by (intro step_alloc)
next
  case (alloc_fails m c p np)
  then show ?case by (intro step_alloc_fails)
next
  case (start m c p np)
  then show ?case by (intro step_start)
next
  case (clock_starts m k)
  have "keeps_kinv (kern m) qs (held m) k (running m)"
    by (rule keeps_kinv_cong[OF keeps_kinv_refl[OF smp_invD(1)[OF clock_starts(4)]]])
      (simp_all add: clock_starts(3))
  then show ?case by (rule smp_clock_same[OF clock_starts(4)]) (use clock_starts in simp_all)
next
  case (clock_wakes m i b)
  then show ?case by (intro smp_clock_same keeps_wake_one smp_invD(1)) simp_all
next
  case (clock_woke m b)
  then show ?case by (intro smp_clock_same keeps_kinv_refl smp_invD(1)) simp_all
next
  case (clock_counts m i b)
  then show ?case by (intro smp_clock_same keeps_small_updates smp_invD(1)) simp_all
next
  case (clock_counted m b)
  then show ?case by (intro smp_clock_same keeps_kinv_refl smp_invD(1)) simp_all
next
  case (drain_empty m q k)
  then have "k = kern m" using kinv_deque_none[OF smp_invD(1)] by blast
  then show ?case
    using drain_empty by (simp only:) (intro smp_clock_same keeps_kinv_refl smp_invD(1); simp)
next
  case (drain_take m q p k)
  then show ?case by (intro step_drain_take)
next
  case (drain_reset m q p)
  have "p \<in> set (held m)" using drain_reset(1) by (simp add: held_def)
  then have "p < NPROC" using held_state(1)[OF drain_reset(4)] by blast
  then show ?case using drain_reset by (intro smp_clock_same keeps_small_updates smp_invD(1)) simp_all
next
  case (drain_drop m q p)
  then show ?case using held_state(2)[of m qs p] by (simp add: held_def)
next
  case (drain_move m q p)
  then show ?case by (intro step_drain_move)
next
  case (drain_done m q)
  then show ?case by (intro smp_clock_same keeps_kinv_refl smp_invD(1)) simp_all
next
  case (clock_resets m i)
  then show ?case by (intro smp_clock_same keeps_small_updates smp_invD(1)) simp_all
next
  case (clock_done m)
  then show ?case by (intro smp_clock_same keeps_kinv_refl smp_invD(1)) simp_all
qed

section \<open>All reachable states\<close>

lemma queues_rep_procinit: "queues_rep procinit [[], [], [], []]"
  unfolding queues_rep_def procinit_def last_opt_def
  by (auto simp: less_Suc_eq numeral_eq_Suc)

lemma kinv_procinit: "kinv procinit [[], [], [], []] [] []"
  by (rule kinvI[OF queues_rep_procinit])
    (simp_all add: procinit_def empty_proc_def fresh_proc_ok)

lemma find_first: "P 0 \<Longrightarrow> 0 < n \<Longrightarrow> find P [0..<n] = Some 0"
  by (simp add: upt_conv_Cons)

lemma userinit_procinit:
  "userinit procinit = Some (start_child 0 ((alloc_slot 0 procinit)\<lparr>initproc := Some 0\<rparr>))"
proof -
  have "find (\<lambda>p. pstate (ptable procinit ! p) = UNUSED) [0..<NPROC] = Some 0"
    by (rule find_first) (simp_all add: procinit_def empty_proc_def NPROC_def)
  then show ?thesis by (simp add: userinit_def allocproc_def Let_def)
qed

lemma boot_inv: "smp_inv (boot n) [[0], [], [], []]"
proof -
  have p: "0 < NPROC" "pstate (ptable procinit ! 0) = UNUSED" "0 < length (ptable procinit)"
    by (simp_all add: NPROC_def procinit_def empty_proc_def)
  have "kinv ((alloc_slot 0 procinit)\<lparr>initproc := Some 0\<rparr>) [[], [], [], []] [] []"
    by (rule kinv_cong[OF kinv_alloc[OF kinv_procinit p(1,2)]]) simp_all
  then have "kinv (the (userinit procinit)) [[0], [], [], []] [] []"
    using kinv_start_child[OF _ p(1)] alloc_slot_table[OF p(3)] by (fastforce simp: userinit_procinit)
  moreover have "concat (map held_of (cpus (boot n))) = []" "concat (map running_of (cpus (boot n))) = []"
    "concat (map stack_of (cpus (boot n))) = []"
    by (simp_all add: boot_def)
  ultimately show ?thesis
    by (simp add: smp_inv_def held_def running_def stacks_def fork_ok_def clock_ok_def boot_def)
qed

lemma reachable_inv: "reachable n m \<Longrightarrow> \<exists>qs. smp_inv m qs"
proof (induction rule: reachable.induct)
  case init
  then show ?case using boot_inv by blast
next
  case (step m e m')
  then show ?case using smp_step_ok unfolding step_ok_def by blast
qed

lemma step_cpus: "smp_step m e m' \<Longrightarrow> length (cpus m') = length (cpus m)"
  by (induction rule: smp_step.induct) (simp_all add: goto_def clock_to_def)

lemma reachable_cpus: "reachable n m \<Longrightarrow> length (cpus m) = n"
  by (induction rule: reachable.induct) (simp_all add: boot_def step_cpus)

lemma concat_nth_distinct:
  assumes "distinct (concat (map f xs))" "c < length xs" "d < length xs"
    "p \<in> set (f (xs ! c))" "p \<in> set (f (xs ! d))"
  shows "c = d"
  using queues_disjoint[OF assms(1), of c d] assms(2-5) by auto

lemma count_list_distinct: "distinct xs \<Longrightarrow> count_list xs p = (if p \<in> set xs then 1 else 0)"
  by (induction xs) auto

text \<open>The first steps after booting: the processor takes the first process and runs it.\<close>

lemma boot_queue: "ready_queue (kern (boot n)) 0 = [0]"
  using ready_queue_rep[OF kinvD(1)[OF smp_invD(1)[OF boot_inv]], of 0] by simp

lemma boot_takes:
  obtains k where "smp_step (boot 2) (Took 0 0) (goto 0 (Picked 0) k (boot 2))"
proof -
  have "fst (deque 0 (kern (boot 2))) = Some 0"
    using ready.deq_front[OF kinvD(1)[OF smp_invD(1)[OF boot_inv]], of 0 0 "[]"] by simp
  then obtain k where "deque 0 (kern (boot 2)) = (Some 0, k)" by (cases "deque 0 (kern (boot 2))") auto
  then have "smp_step (boot 2) (Took 0 0) (goto 0 (Picked 0) k (boot 2))"
    by (intro scan_take) (simp_all add: at_def boot_def)
  then show thesis by (rule that)
qed

lemma boot_runs:
  "\<exists>m. reachable 2 m \<and> at m 0 (Running 0) \<and> \<not> locked m 0 \<and> forking m 0 = None"
proof -
  obtain k where s: "smp_step (boot 2) (Took 0 0) (goto 0 (Picked 0) k (boot 2))" by (rule boot_takes)
  define m1 where "m1 = goto 0 (Picked 0) k (boot 2)"
  have r1: "reachable 2 m1" unfolding m1_def by (rule reachable.step[OF reachable.init s])
  have at1: "at m1 0 (Picked 0)" and free: "\<not> locked m1 0"
    by (simp_all add: m1_def goto_def at_def boot_def locked_def numeral_2_eq_2)
  obtain qs1 where inv1: "smp_inv m1 qs1" using reachable_inv[OF r1] by blast
  have "reachable 2 (goto 0 (Running 0) (dispatch 0 (kern m1)) m1)"
    by (rule reachable.step[OF r1 run[OF at1 free]]) (rule held_state(2)[OF inv1 picked_held[OF at1]])
  moreover have "at (goto 0 (Running 0) (dispatch 0 (kern m1)) m1) 0 (Running 0)"
    "\<not> locked (goto 0 (Running 0) (dispatch 0 (kern m1)) m1) 0"
    "forking (goto 0 (Running 0) (dispatch 0 (kern m1)) m1) 0 = None"
    by (simp_all add: goto_def m1_def boot_def at_def locked_def numeral_2_eq_2)
  ultimately show ?thesis by blast
qed

text \<open>C2.  On any number of processors and under any interleaving of their critical sections with
  the clock interrupt, two processors are never on the kernel stack of the same process: not two
  that run it, and not one that runs it while the other is still switching away from it.  A
  process that a processor runs is in the state \<^verbatim>\<open>RUNNING\<close>.\<close>

theorem smp_exclusive:
  assumes "reachable n m" "c < n" "d < n"
    "p \<in> set (stack_of (cpus m ! c))" "p \<in> set (stack_of (cpus m ! d))"
  shows "c = d \<and> (cpus m ! c = Running p \<longrightarrow> pstate (ptable (kern m) ! p) = RUNNING)"
proof
  obtain qs where inv: "smp_inv m qs" using reachable_inv[OF assms(1)] by blast
  have len: "length (cpus m) = n" by (rule reachable_cpus[OF assms(1)])
  show "c = d"
    using concat_nth_distinct[of stack_of "cpus m" c d p] smp_invD(2)[OF inv] assms(2-5) len
    by (simp add: stacks_def)
  have "cpus m ! c = Running p \<Longrightarrow> p \<in> set (running m)"
    using assms(2) len nth_mem[of c "cpus m"] by (force simp: running_def)
  then show "cpus m ! c = Running p \<longrightarrow> pstate (ptable (kern m) ! p) = RUNNING"
    using running_state(2)[OF smp_invD(1)[OF inv]] by blast
qed

theorem smp_exclusive_witness:
  "\<exists>m. reachable 2 m \<and> cpus m ! 0 = Running 0 \<and> pstate (ptable (kern m) ! 0) = RUNNING"
proof -
  obtain m where "reachable 2 m" "cpus m ! 0 = Running 0" using boot_runs atD(2) by blast
  then show ?thesis using smp_exclusive[of 2 m 0 0 0] by auto
qed

text \<open>C3.  No process is lost and none is queued twice: in every reachable state a runnable process
  is in exactly one place, which is one of the four queues, the hands of one processor that
  is about to run it, or the hands of the priority boost; a process that is not runnable is in
  none of them.\<close>

theorem smp_every_process_once:
  assumes "reachable n m" "p < NPROC"
  shows "count_list (concat (map (ready_queue (kern m)) [0..<4]) @ held m) p =
    (if pstate (ptable (kern m) ! p) = RUNNABLE then 1 else 0)"
proof -
  obtain qs where inv: "smp_inv m qs" using reachable_inv[OF assms(1)] by blast
  note K = kinvD[OF smp_invD(1)[OF inv]]
  show ?thesis
    using count_list_distinct[OF K(2), of p] K(6)[OF assms(2)] ready_queues_rep[OF K(1)]
    by (simp del: set_concat count_list_append)
qed

theorem smp_every_process_once_witness:
  "count_list (concat (map (ready_queue (kern (boot 2))) [0..<4]) @ held (boot 2)) 0 = 1"
proof -
  have "pstate (ptable (kern (boot 2)) ! 0) = RUNNABLE"
    using kinvD(6)[OF smp_invD(1)[OF boot_inv], of 0 2] by (simp add: NPROC_def)
  then show ?thesis
    using smp_every_process_once[OF reachable.init, of 0 2] by (simp add: NPROC_def)
qed

lemma qmoves_trans:
  assumes "ps @ qs' ! q = qs ! q @ arr" "qmoves e qs' qs''" "q < length qs'"
  shows "\<exists>arr. (ps @ took q e) @ qs'' ! q = qs ! q @ arr"
proof -
  obtain arr' where "took q e @ qs'' ! q = qs' ! q @ arr'"
    using assms(2,3) unfolding qmoves_def by blast
  then have "(ps @ took q e) @ qs'' ! q = (qs ! q @ arr) @ arr'" using assms(1) by simp
  then show ?thesis by (metis append.assoc)
qed

lemma takes_order:
  assumes "takes q m ps m'" "smp_inv m qs" "q < 4"
  shows "\<exists>qs' arr. smp_inv m' qs' \<and> ps @ qs' ! q = qs ! q @ arr"
  using assms
proof (induction rule: takes.induct)
  case (start m)
  then show ?case by (metis append_Nil append_Nil2)
next
  case (more m ps m' e m'')
  obtain qs' arr where a: "smp_inv m' qs'" "ps @ qs' ! q = qs ! q @ arr"
    using more.IH[OF more.prems] by blast
  obtain qs'' where b: "smp_inv m'' qs''" "qmoves e qs' qs''"
    using smp_step_ok[OF a(1) more.hyps(2)] unfolding step_ok_def by blast
  have "q < length qs'" using kinv_lengths[OF smp_invD(1)[OF a(1)]] more.prems(2) by simp
  then show ?case using qmoves_trans[OF a(2) b(2)] b(1) by blast
qed

text \<open>C14.  No process overtakes another within a queue and none waits in it for ever: along every run
  the processes leave a queue in the order in which they stand in it, and later arrivals stand
  behind them.  The process at position \<open>i\<close> is the one that the \<open>i\<close>-th removal
  takes, so at most 63 processes go before it.\<close>

theorem smp_queue_order:
  assumes "reachable n m" "q < 4" "takes q m ps m'"
  shows "(\<exists>arr. ps @ ready_queue (kern m') q = ready_queue (kern m) q @ arr) \<and>
    (\<forall>i. i < length (ready_queue (kern m) q) \<and> i < length ps \<longrightarrow> ps ! i = ready_queue (kern m) q ! i) \<and>
    length (ready_queue (kern m) q) \<le> NPROC"
proof -
  obtain qs where inv: "smp_inv m qs" using reachable_inv[OF assms(1)] by blast
  obtain qs' arr where a: "smp_inv m' qs'" "ps @ qs' ! q = qs ! q @ arr"
    using takes_order[OF assms(3) inv assms(2)] by blast
  have q: "ready_queue (kern m) q = qs ! q" "ready_queue (kern m') q = qs' ! q"
    using ready_queue_rep[OF kinvD(1)[OF smp_invD(1)] assms(2)] inv a(1) by blast+
  have "ps ! i = (qs ! q) ! i" if "i < length (qs ! q)" "i < length ps" for i
    using arg_cong[OF a(2), of "\<lambda>xs. xs ! i"] that by (simp add: nth_append)
  moreover have "length (qs ! q) \<le> NPROC"
    using length_walk[of NPROC] q(1) by (metis ready_queue_def)
  ultimately show ?thesis using a(2) q by auto
qed

theorem smp_queue_order_witness:
  "\<exists>m. takes 0 (boot 2) [0] m \<and> [0] ! 0 = ready_queue (kern (boot 2)) 0 ! 0"
proof -
  obtain k where s: "smp_step (boot 2) (Took 0 0) (goto 0 (Picked 0) k (boot 2))" by (rule boot_takes)
  have "takes 0 (boot 2) [0] (goto 0 (Picked 0) k (boot 2))"
    using takes.more[OF takes.start s, of 0] by simp
  then show ?thesis
    using smp_queue_order[OF reachable.init, of 0 2 "[0]"] boot_queue by fastforce
qed


section \<open>The scheduling policy on reachable states\<close>

lemma reachable_kinv:
  assumes "reachable n m"
  obtains qs where "kinv (kern m) qs (held m) (running m)" "map (ready_queue (kern m)) [0..<4] = qs"
  using reachable_inv[OF assms] smp_invD(1) ready_queues_rep kinvD(1) by metis

lemma ready_queue_kinv: "kinv k qs H R \<Longrightarrow> q < 4 \<Longrightarrow> ready_queue k q = qs ! q"
  using ready_queue_rep kinvD(1) by blast

text \<open>C18.  Strict priority: a round of the scheduler takes the first process of the highest queue
  that is not empty and leaves the other queues alone; it finds no process only if all four
  queues are empty.  The process it takes is always runnable, and runs.\<close>

theorem scheduler_strict_priority:
  assumes "reachable n m"
  shows "case scheduler_round (kern m) of
      (None, k) \<Rightarrow> (\<forall>q < 4. ready_queue (kern m) q = []) \<and> k = kern m
    | (Some p, k) \<Rightarrow> \<exists>q ps. q < 4 \<and> (\<forall>r < q. ready_queue (kern m) r = []) \<and>
        ready_queue (kern m) q = p # ps \<and> ready_queue k q = ps \<and>
        (\<forall>r < 4. r \<noteq> q \<longrightarrow> ready_queue k r = ready_queue (kern m) r) \<and>
        pstate (ptable k ! p) = RUNNING"
proof -
  obtain qs where K: "kinv (kern m) qs (held m) (running m)"
    using reachable_kinv[OF assms] by blast
  note Q = ready_queue_kinv[OF K]
  have len: "length qs = 4" by (rule kinv_lengths[OF K])
  show ?thesis
  proof (cases "scheduler_round (kern m)")
    case (Pair x k)
    show ?thesis
    proof (cases x)
      case None
      have e: "concat qs = []" "k = kern m" using scheduler_round_ok[OF K] Pair None by simp_all
      have "qs ! q = []" if "q < 4" for q using e(1) that len by (simp add: concat_eq_Nil_conv)
      then show ?thesis using Pair None e(2) Q by simp
    next
      case (Some p)
      obtain q ps where q: "q < 4" "\<forall>r < q. qs ! r = []" "qs ! q = p # ps"
        "kinv k (qs[q := ps]) (held m) (p # running m)"
        using scheduler_round_ok[OF K] Pair Some by auto
      have "pstate (ptable k ! p) = RUNNING" using running_state(2)[OF q(4)] by simp
      moreover have "ready_queue k r = qs[q := ps] ! r" if "r < 4" for r
        using ready_queue_kinv[OF q(4) that] .
      moreover have "\<forall>r < q. ready_queue (kern m) r = []" using q(1,2) Q by simp
      ultimately have "q < 4 \<and> (\<forall>r < q. ready_queue (kern m) r = []) \<and>
        ready_queue (kern m) q = p # ps \<and> ready_queue k q = ps \<and>
        (\<forall>r < 4. r \<noteq> q \<longrightarrow> ready_queue k r = ready_queue (kern m) r) \<and>
        pstate (ptable k ! p) = RUNNING"
        using q(1,3) Q len by simp
      then show ?thesis using Pair Some by (simp only: prod.case option.case) blast
    qed
  qed
qed

theorem scheduler_strict_priority_witness:
  "\<exists>k. scheduler_round (kern (boot 1)) = (Some 0, k) \<and> ready_queue k 0 = []"
proof (cases "scheduler_round (kern (boot 1))")
  case (Pair x k)
  show ?thesis
  proof (cases x)
    case None
    then show ?thesis
      using scheduler_strict_priority[OF reachable.init, of 1] Pair boot_queue[of 1] by simp
  next
    case (Some p)
    then obtain q ps where q: "q < 4" "\<forall>r < q. ready_queue (kern (boot 1)) r = []"
      "ready_queue (kern (boot 1)) q = p # ps" "ready_queue k q = ps"
      using scheduler_strict_priority[OF reachable.init, of 1] Pair by auto
    then have "q = 0" using boot_queue[of 1] by (cases q) auto
    then show ?thesis using q(3,4) boot_queue[of 1] Pair Some by simp
  qed
qed

lemma boot_first_proc:
  "priority (ptable (kern (boot n)) ! 0) = 0" "ticks_used (ptable (kern (boot n)) ! 0) = 0"
proof -
  have "0 < length (ptable procinit)" by (simp add: procinit_def NPROC_def)
  then show "priority (ptable (kern (boot n)) ! 0) = 0" "ticks_used (ptable (kern (boot n)) ! 0) = 0"
    by (simp_all add: boot_def userinit_procinit start_child_def upd_proc_def alloc_slot_def Let_def)
qed

text \<open>C19.  Time slices: a process at level \<open>q\<close> that has used \<open>u\<close> ticks keeps its level for
  exactly \<open>time_slice q - u\<close> more of its own ticks; at the last of them it must yield and goes one
  level down, to level 3 at most, with a fresh slice.  Before that, a tick takes the
  processor away just when a process waits in a higher queue.  Giving up the processor early
  changes neither the level nor the used ticks.\<close>

theorem time_slice_exact:
  assumes "reachable n m" "p < NPROC"
    and "q = priority (ptable (kern m) ! p)" "u = ticks_used (ptable (kern m) ! p)"
  shows "q < 4 \<and> u < time_slice q \<and>
    (\<forall>j. u + j < time_slice q \<longrightarrow> priority (ptable ((after_tick p ^^ j) (kern m)) ! p) = q) \<and>
    priority (ptable ((after_tick p ^^ (time_slice q - u)) (kern m)) ! p) = min 3 (Suc q) \<and>
    ticks_used (ptable ((after_tick p ^^ (time_slice q - u)) (kern m)) ! p) = 0 \<and>
    fst (timer_tick p ((after_tick p ^^ (time_slice q - u - 1)) (kern m))) \<and>
    (Suc u < time_slice q \<longrightarrow>
       fst (timer_tick p (kern m)) = (\<exists>r < q. ready_queue (kern m) r \<noteq> [])) \<and>
    priority (ptable (yield_cpu p (kern m)) ! p) = q \<and> ticks_used (ptable (yield_cpu p (kern m)) ! p) = u"
proof -
  obtain qs where K: "kinv (kern m) qs (held m) (running m)" using reachable_kinv[OF assms(1)] by blast
  have ok: "proc_ok (ptable (kern m) ! p)" by (rule kinvD(8)[OF K assms(2)])
  then have qu: "q < 4" "u < time_slice q" using assms(3,4) by (simp_all add: proc_ok_def)
  have len: "p < length (ptable (kern m))" using kinv_table[OF K] assms(2) by simp
  have S: "Suc (time_slice q - u - 1) = time_slice q - u" using qu(2) by simp
  note E = slice_expires[OF len ok, of "time_slice q - u - 1", folded assms(3,4), OF S, unfolded S]
  have "priority (ptable (yield_cpu p (kern m)) ! p) = q" "ticks_used (ptable (yield_cpu p (kern m)) ! p) = u"
    using len assms(3,4) by (simp_all add: yield_cpu_def mlfq_requeue_def ptable_upd_proc)
  then show ?thesis
    using qu E ticks_within_slice[OF len, folded assms(3,4)]
      tick_preempts[OF kinvD(1)[OF K] assms(2), folded assms(3,4)] by blast
qed

theorem time_slice_exact_witness:
  "priority (ptable ((after_tick 0 ^^ 1) (kern (boot 1))) ! 0) = 1"
  using time_slice_exact[OF reachable.init, of 0 0 1 0] boot_first_proc[of 1]
  by (simp add: NPROC_def time_slice_def)

text \<open>C15.  The priority boost always ends, and moves every waiting process to queue 0, behind the
  processes that are already there and in the order of the queues; every process of the
  table, running and sleeping ones included, gets level 0 and a fresh slice, and nothing
  else about it changes.\<close>

theorem mlfq_boost_correct:
  assumes "reachable n m"
  shows "\<exists>k. mlfq_boost (kern m) = Some k \<and>
    ready_queue k 0 = concat (map (ready_queue (kern m)) [0..<4]) \<and>
    (\<forall>q. 0 < q \<and> q < 4 \<longrightarrow> ready_queue k q = []) \<and>
    (\<forall>p < NPROC. priority (ptable k ! p) = 0 \<and> ticks_used (ptable k ! p) = 0 \<and>
       unranked (ptable k ! p) = unranked (ptable (kern m) ! p))"
proof -
  obtain qs where K: "kinv (kern m) qs (held m) (running m)" "map (ready_queue (kern m)) [0..<4] = qs"
    using reachable_kinv[OF assms] by blast
  obtain k where k: "mlfq_boost (kern m) = Some k" "kinv k [concat qs, [], [], []] (held m) (running m)"
    "\<forall>i < NPROC. priority (ptable k ! i) = 0 \<and> ticks_used (ptable k ! i) = 0 \<and>
       unranked (ptable k ! i) = unranked (ptable (kern m) ! i)"
    using mlfq_boost_ok[OF K(1)] by blast
  have "ready_queue k q = []" if "0 < q" "q < 4" for q
    using ready_queue_kinv[OF k(2) that(2)] that by (auto simp: less_Suc_eq numeral_eq_Suc)
  then show ?thesis using k ready_queue_kinv[OF k(2), of 0] K(2) by auto
qed

theorem mlfq_boost_correct_witness: "\<exists>k. mlfq_boost (kern (boot 3)) = Some k \<and>
    ready_queue k 0 = concat (map (ready_queue (kern (boot 3))) [0..<4])"
  using mlfq_boost_correct[OF reachable.init, of 3] by blast

lemma unat_plus_nat: "unat (t + of_nat n) = (unat t + n) mod 4294967296" for t :: "32 word"
proof -
  have "unat (t + of_nat n) = (unat t + unat (of_nat n :: 32 word)) mod 2 ^ LENGTH(32)"
    by (rule unat_word_ariths(1))
  then show ?thesis by (simp add: unat_of_nat mod_add_right_eq)
qed

lemma nat_near: 
  assumes "u < (4294967296::nat)" shows "\<exists>j < 48. ((u + Suc j) mod 4294967296) mod 48 = 0"
proof (cases "u + 48 < 4294967296")
  case True
  define d r where "d = u div 48" and "r = u mod 48"
  have u: "u = d * 48 + r" "r < 48" by (simp_all add: d_def r_def)
  obtain j where j: "j < 48" "j + r = 47" using u(2) that[of "47 - r"] by simp
  then have s: "u + Suc j = 48 * (d + 1)" using u by simp
  have "(u + Suc j) mod 4294967296 = u + Suc j" using True j(1) by (intro mod_less) linarith
  then have "((u + Suc j) mod 4294967296) mod 48 = 0" unfolding s by (simp only: mod_mult_self1_is_0)
  then show ?thesis using j(1) by (intro exI[of _ j] conjI)
next
  case False
  define j where "j = 4294967295 - u"
  have j: "u + Suc j = 4294967296" using assms unfolding j_def by linarith
  have "j < 48" using j False by linarith
  moreover have "((u + Suc j) mod 4294967296) mod 48 = 0" unfolding j by (simp only: mod_self mod_0)
  ultimately show ?thesis by (intro exI[of _ j] conjI)
qed

lemma word_mod_zero:
  assumes "unat w mod 48 = 0" shows "w mod 48 = (0 :: 32 word)"
proof -
  have "unat (48 :: 32 word) = 48" by simp
  then have "w mod 48 = of_nat (unat w mod 48)" by (simp only: word_arith_nat_mod)
  then show ?thesis unfolding assms by simp
qed

lemma multiple_of_48_near: "\<exists>j < 48. (t + of_nat (Suc j)) mod 48 = (0 :: 32 word)"
proof -
  have "unat t < 4294967296" using unsigned_less[of t] by simp
  then obtain j where "j < 48" "((unat t + Suc j) mod 4294967296) mod 48 = 0" by (rule nat_near[THEN exE]) (elim conjE)
  then show ?thesis using word_mod_zero[of "t + of_nat (Suc j)", unfolded unat_plus_nat] by (intro exI[of _ j] conjI)
qed

lemma clockintr_boosts:
  "w mod 48 = 0 \<Longrightarrow> w = u + 1 \<Longrightarrow> clockintr 0 (s\<lparr>ticks := u\<rparr>) =
   mlfq_boost (update_waiting_ticks (wakeup Ticks_chan (s\<lparr>ticks := w\<rparr>)))"
  by (simp add: clockintr_def Let_def)

text \<open>There is a boost in every 48 consecutive ticks, also where the 32-bit tick counter wraps
  around.\<close>

theorem boost_every_48_ticks:
  "\<exists>j < 48. clockintr 0 (s\<lparr>ticks := t + of_nat j\<rparr>) =
     mlfq_boost (update_waiting_ticks (wakeup Ticks_chan (s\<lparr>ticks := t + of_nat (Suc j)\<rparr>)))"
proof -
  obtain j where j: "j < 48" "(t + of_nat (Suc j)) mod 48 = 0"
    by (rule multiple_of_48_near[THEN exE]) (elim conjE)
  have "t + of_nat (Suc j) = t + of_nat j + 1" by (simp only: of_nat_Suc ac_simps)
  from clockintr_boosts[OF j(2) this] show ?thesis using j(1) by (intro exI[of _ j] conjI)
qed

text \<open>C17.  No wakeup is lost: after \<^verbatim>\<open>wakeup\<close> every process that had registered the channel
  has the registration cleared, so that a process that has not gone to sleep yet does not, and one
  that was asleep is runnable and in a queue.  Processes on other channels stay as they are, and
  a sleeping process always has a channel to be woken on.\<close>

theorem wakeup_not_lost:
  assumes "reachable n m" "p < NPROC"
  shows "(pstate (ptable (kern m) ! p) = SLEEPING \<longrightarrow> chan (ptable (kern m) ! p) \<noteq> No_chan) \<and>
    (chan (ptable (kern m) ! p) = c \<longrightarrow>
       chan (ptable (wakeup c (kern m)) ! p) = No_chan \<and>
       \<not> fst (sleep p (wakeup c (kern m))) \<and>
       (pstate (ptable (kern m) ! p) = SLEEPING \<longrightarrow>
          pstate (ptable (wakeup c (kern m)) ! p) = RUNNABLE \<and>
          (\<exists>q < 4. p \<in> set (ready_queue (wakeup c (kern m)) q)))) \<and>
    (chan (ptable (kern m) ! p) \<noteq> c \<longrightarrow>
       unlinked (ptable (wakeup c (kern m)) ! p) = unlinked (ptable (kern m) ! p))"
proof -
  obtain qs where K: "kinv (kern m) qs (held m) (running m)" using reachable_kinv[OF assms(1)] by blast
  obtain qs' where W: "kinv (wakeup c (kern m)) qs' (held m) (running m)" using wakeup_ok(1)[OF K] by blast
  let ?r = "ptable (kern m) ! p" and ?r' = "ptable (wakeup c (kern m)) ! p"
  have w: "unlinked ?r' = wake_proc c (unlinked ?r)" by (rule wakeup_ok(2)[OF K assms(2)])
  have "unlinked ?r' = unlinked (wake_proc c ?r)" using w by (simp add: unlinked_wake_proc)
  then have f: "pstate ?r' = pstate (wake_proc c ?r)" "chan ?r' = chan (wake_proc c ?r)"
    using unlinkedD by blast+
  have "\<exists>q < 4. p \<in> set (ready_queue (wakeup c (kern m)) q)"
    if "chan ?r = c" "pstate ?r = SLEEPING"
  proof -
    have "p \<notin> set (held m)" using kinvD(6)[OF K assms(2)] that(2) by auto
    moreover have "pstate ?r' = RUNNABLE" using f(1) that by (simp add: wake_proc_def)
    ultimately have "p \<in> set (concat qs')" using kinvD(6)[OF W assms(2)] by auto
    then show ?thesis
      using in_concat_nth[of p qs'] kinv_lengths[OF W] ready_queue_kinv[OF W] by auto
  qed
  moreover have "pstate ?r = SLEEPING \<longrightarrow> chan ?r \<noteq> No_chan"
    using kinvD(8)[OF K assms(2)] by (simp add: proc_ok_def)
  ultimately show ?thesis
    using f w by (auto simp: wake_proc_def sleep_def unlinked_fields)
qed

theorem wakeup_not_lost_witness:
  "\<exists>m. reachable 2 m \<and> chan (ptable (kern m) ! 0) = Ticks_chan \<and>
     \<not> fst (sleep 0 (wakeup Ticks_chan (kern m)))"
proof -
  obtain m where m: "reachable 2 m" "at m 0 (Running 0)" "\<not> locked m 0" "forking m 0 = None"
    using boot_runs by blast
  obtain k where k: "sleep_prepare 0 Ticks_chan (kern m) = Some k"
    "k = upd_proc 0 (\<lambda>r. r\<lparr>chan := Ticks_chan\<rparr>) (kern m)"
    by (simp add: sleep_prepare_def)
  define m' where "m' = goto 0 (Running 0) k m"
  have r: "reachable 2 m'"
    unfolding m'_def by (rule reachable.step[OF m(1) prepare[OF m(2,3,4) k(1)]])
  obtain qs where "kinv (kern m) qs (held m) (running m)" using reachable_kinv[OF m(1)] by blast
  then have "chan (ptable (kern m') ! 0) = Ticks_chan"
    using kinv_table by (fastforce simp: m'_def goto_def k(2) ptable_upd_proc NPROC_def)
  then show ?thesis using wakeup_not_lost[OF r, of 0 Ticks_chan] r by (auto simp: NPROC_def)
qed


section \<open>The code as runs of steps\<close>

text \<open>Without interference from other processors, the functions of \<open>Mlfq\<close> are runs of
  steps.\<close>

definition quiet :: "smp \<Rightarrow> bool" where
  "quiet m \<longleftrightarrow> (\<forall>p. \<not> locked m p)"

lemma locked_clock_to [simp]: "locked (clock_to ph k m) p = locked m p"
  by (simp add: locked_def clock_to_def)

lemma quiet_clock_to [simp]: "quiet (clock_to ph k m) = quiet m"
  by (simp add: quiet_def locked_def clock_to_def)

lemma clock_to_simps [simp]:
  "kern (clock_to ph k m) = k" "clock (clock_to ph k m) = ph" "cpus (clock_to ph k m) = cpus m"
  "clock_to ph' k' (clock_to ph k m) = clock_to ph' k' m"
  by (simp_all add: clock_to_def)

lemma clock_to_same: "clock m = ph \<Longrightarrow> kern m = k \<Longrightarrow> clock_to ph k m = m"
  by (simp add: clock_to_def)

lemma clock_loop:
  assumes step: "\<And>i m. clock m = ph i \<Longrightarrow> i < NPROC \<Longrightarrow> quiet m \<Longrightarrow>
      smp_step m Internal (clock_to (ph (Suc i)) (f i (kern m)) m)"
  shows "reachable n m \<Longrightarrow> clock m = ph i \<Longrightarrow> i \<le> NPROC \<Longrightarrow> quiet m \<Longrightarrow>
    reachable n (clock_to (ph NPROC) (fold f [i..<NPROC] (kern m)) m)"
proof (induction "NPROC - i" arbitrary: i m)
  case 0
  then show ?case by (simp add: clock_to_same)
next
  case (Suc j)
  then have i: "i < NPROC" by simp
  let ?m = "clock_to (ph (Suc i)) (f i (kern m)) m"
  have "reachable n ?m" using reachable.step[OF Suc(3) step[OF Suc(4) i Suc(6)]] .
  then show ?case using Suc(1)[of "Suc i" ?m] Suc(2,6) i by (simp add: upt_conv_Cons)
qed

lemma reachable_drain:
  assumes "boost_queue q k = Some k'"
  shows "reachable n m \<and> kern m = k \<and> clock m = Draining q \<and> q < 4 \<and> quiet m \<longrightarrow>
    reachable n (clock_to (Draining (Suc q)) k' m)"
proof (rule boost_queue.raw_induct[OF _ assms, where P = "\<lambda>q k k'. \<forall>m.
    reachable n m \<and> kern m = k \<and> clock m = Draining q \<and> q < 4 \<and> quiet m \<longrightarrow>
    reachable n (clock_to (Draining (Suc q)) k' m)", THEN spec])
  fix f q k k'
  assume IH: "\<And>q k k'. f q k = Some k' \<Longrightarrow> \<forall>m. reachable n m \<and> kern m = k \<and> clock m = Draining q \<and>
      q < 4 \<and> quiet m \<longrightarrow> reachable n (clock_to (Draining (Suc q)) k' m)"
    and eq: "(case deque q k of (None, s') \<Rightarrow> Some s' | (Some p, s') \<Rightarrow> f q (boost_move p s')) = Some k'"
  show "\<forall>m. reachable n m \<and> kern m = k \<and> clock m = Draining q \<and> q < 4 \<and> quiet m \<longrightarrow>
      reachable n (clock_to (Draining (Suc q)) k' m)"
  proof (intro allI impI)
    fix m assume "reachable n m \<and> kern m = k \<and> clock m = Draining q \<and> q < 4 \<and> quiet m"
    then have m: "reachable n m" "kern m = k" "clock m = Draining q" "q < 4" "quiet m" by simp_all
    show "reachable n (clock_to (Draining (Suc q)) k' m)"
    proof (cases "deque q k")
      case (Pair x k1)
      show ?thesis
      proof (cases x)
        case None
        then show ?thesis
          using reachable.step[OF m(1) drain_empty[OF m(3,4), of k1]] Pair m(2) eq by simp
      next
        case (Some p)
        define m1 where "m1 = clock_to (Holding q p) k1 m"
        have r1: "reachable n m1"
          unfolding m1_def using reachable.step[OF m(1) drain_take[OF m(3,4), of p k1]] Pair m(2) Some by simp
        have free: "\<not> locked m1 p" using m(5) by (simp add: m1_def quiet_def locked_def clock_to_def)
        have "reachable n (clock_to (Draining q) (boost_move p k1) m)"
        proof (cases "pstate (ptable k1 ! p) = RUNNABLE")
          case True
          then have "reachable n (clock_to (Moving q p) (boost_reset p k1) m1)"
            using reachable.step[OF r1 drain_reset[of m1 q p]] free by (simp add: m1_def)
          from reachable.step[OF this drain_move[of _ q p]] show ?thesis
            using True by (simp add: m1_def boost_move_def)
        next
          case False
          then show ?thesis
            using reachable.step[OF r1 drain_drop[of m1 q p]] free by (simp add: m1_def boost_move_def)
        qed
        then show ?thesis
          using IH[of q "boost_move p k1" k', THEN spec, of "clock_to (Draining q) (boost_move p k1) m"]
            eq Pair Some m(4,5) by simp
      qed
    qed
  qed
qed

lemma reachable_clockintr:
  assumes "reachable n m" "quiet m" "clock m = No_clock" "clockintr 0 (kern m) = Some k"
    "0 < length (cpus m)"
  shows "reachable n (m\<lparr>kern := k\<rparr>)"
proof -
  let ?k0 = "(kern m)\<lparr>ticks := ticks (kern m) + 1\<rparr>"
  let ?b = "ticks ?k0 mod 48 = 0"
  let ?k1 = "wakeup Ticks_chan ?k0"
  let ?k2 = "update_waiting_ticks ?k1"
  have out: "clock_to No_clock k' m = m\<lparr>kern := k'\<rparr>" for k' using assms(3) by (simp add: clock_to_def)
  have "cpus m ! 0 \<noteq> Leaving p" for p
    using assms(2,5) nth_mem[of 0 "cpus m"] by (metis locked_def quiet_def)
  then have "reachable n (clock_to (Waking 0 ?b) ?k0 m)"
    using reachable.step[OF assms(1) clock_starts[OF assms(3) _ refl]] by blast
  from clock_loop[where ph = "\<lambda>i. Waking i ?b", OF clock_wakes this]
  have "reachable n (clock_to (Waking NPROC ?b) ?k1 m)"
    using assms(2) by (simp add: wakeup_def quiet_def)
  from reachable.step[OF this clock_woke]
  have "reachable n (clock_to (Counting 0 ?b) ?k1 m)" by simp
  from clock_loop[where ph = "\<lambda>i. Counting i ?b", OF clock_counts this]
  have "reachable n (clock_to (Counting NPROC ?b) ?k2 m)"
    using assms(2) by (simp add: update_waiting_ticks_def quiet_def)
  from reachable.step[OF this clock_counted]
  have c: "reachable n (clock_to (if ?b then Draining 1 else No_clock) ?k2 m)" by simp
  show ?thesis
  proof (cases ?b)
    case False
    then show ?thesis using c assms(4) out by (simp add: clockintr_def Let_def)
  next
    case True
    then have "mlfq_boost ?k2 = Some k" using assms(4) by (simp add: clockintr_def Let_def)
    then obtain a b d where k: "boost_queue 1 ?k2 = Some a" "boost_queue 2 a = Some b"
      "boost_queue 3 b = Some d" "k = fold boost_reset [0..<NPROC] d"
      unfolding mlfq_boost_def by (auto simp: bind_eq_Some_conv)
    have "reachable n (clock_to (Draining 1) ?k2 m)" using c True by simp
    then have "reachable n (clock_to (Draining 2) a m)"
      using reachable_drain[OF k(1), of n "clock_to (Draining 1) ?k2 m"] assms(2) by (simp add: numeral_2_eq_2)
    then have "reachable n (clock_to (Draining 3) b m)"
      using reachable_drain[OF k(2), of n "clock_to (Draining 2) a m"] assms(2) by (simp add: numeral_3_eq_3)
    then have "reachable n (clock_to (Draining 4) d m)"
      using reachable_drain[OF k(3), of n "clock_to (Draining 3) b m"] assms(2) by simp
    from reachable.step[OF this drain_done]
    have "reachable n (clock_to (Resetting 0) d m)" by simp
    from clock_loop[where ph = Resetting, OF clock_resets this]
    have "reachable n (clock_to (Resetting NPROC) k m)" using assms(2) k(4) by (simp add: quiet_def)
    from reachable.step[OF this clock_done] show ?thesis using out by simp
  qed
qed


lemma goto_simps [simp]:
  "kern (goto c ph k m) = k" "clock (goto c ph k m) = clock m" "forking (goto c ph k m) = forking m"
  "length (cpus (goto c ph k m)) = length (cpus m)" "goto c ph' k' (goto c ph k m) = goto c ph' k' m"
  by (simp_all add: goto_def)

lemma at_goto: "at m c ph0 \<Longrightarrow> at (goto c ph k m) c ph"
  by (simp add: at_def goto_def)

lemma quiet_goto: "quiet m \<Longrightarrow> (\<And>p. ph \<noteq> Leaving p) \<Longrightarrow> quiet (goto c ph k m)"
  using set_update_subset_insert[of "cpus m" c ph] by (auto simp: quiet_def locked_def goto_def)

lemma kern_simps [simp]:
  "at (m\<lparr>kern := k\<rparr>) c ph = at m c ph" "quiet (m\<lparr>kern := k\<rparr>) = quiet m"
  "at (m\<lparr>forking := g\<rparr>) c ph = at m c ph" "quiet (m\<lparr>forking := g\<rparr>) = quiet m"
  "locked (m\<lparr>kern := k\<rparr>) p = locked m p" "locked (m\<lparr>forking := g\<rparr>) p = locked m p"
  by (simp_all add: at_def quiet_def locked_def)

lemma quietD: "quiet m \<Longrightarrow> \<not> locked m p"
  by (simp add: quiet_def)

lemma reachable_deque_from:
  "reachable n m \<Longrightarrow> at m c (Scanning i) \<Longrightarrow> deque_from i (kern m) = (Some p, k) \<Longrightarrow>
   reachable n (goto c (Picked p) k m)"
proof (induction i "kern m" arbitrary: m rule: deque_from.induct)
  case (1 i)
  have i: "i < 4" using 1(4) by (simp add: deque_from.simps[of i] split: if_splits)
  obtain x k1 where d: "deque i (kern m) = (x, k1)" by (cases "deque i (kern m)")
  show ?case
  proof (cases x)
    case None
    have "reachable n (goto c (Scanning (Suc i)) k1 m)"
      using reachable.step[OF 1(2) scan_empty[OF 1(3) i]] d None by blast
    moreover have "deque_from (Suc i) k1 = (Some p, k)"
      using 1(4) d None i by (simp add: deque_from.simps[of i])
    ultimately show ?thesis
      using 1(1)[OF i, of x "goto c (Scanning (Suc i)) k1 m"] None d at_goto[OF 1(3)] by simp
  next
    case (Some p')
    then show ?thesis
      using reachable.step[OF 1(2) scan_take[OF 1(3) i]] d 1(4) i by (simp add: deque_from.simps[of i])
  qed
qed

lemma reachable_scheduler_round:
  assumes "reachable n m" "quiet m" "at m c (Scanning 0)" "scheduler_round (kern m) = (Some p, k)"
  shows "reachable n (goto c (Running p) k m)"
proof -
  obtain k1 where d: "deque_from 0 (kern m) = (Some p, k1)" "pstate (ptable k1 ! p) = RUNNABLE"
    "k = dispatch p k1"
    using assms(4) by (auto simp: scheduler_round_def deque_highest_priority_p_def
        split: prod.splits option.splits if_splits)
  have r: "reachable n (goto c (Picked p) k1 m)" by (rule reachable_deque_from[OF assms(1,3) d(1)])
  have "\<not> locked (goto c (Picked p) k1 m) p" using quiet_goto[OF assms(2)] quietD by simp
  from reachable.step[OF r run[OF at_goto[OF assms(3)] this]] show ?thesis using d(2,3) by simp
qed

lemma reachable_leave:
  "reachable n (goto c (Leaving p) k m) \<Longrightarrow> at m c ph \<Longrightarrow> reachable n (goto c (Scanning 0) k m)"
  using reachable.step[OF _ leave[OF at_goto]] by fastforce

lemma reachable_timer:
  assumes "reachable n m" "quiet m" "at m c (Running p)"
  shows "case kerneltrap_timer p (kern m) of
      Gives_up k \<Rightarrow> reachable n (goto c (Scanning 0) k m)
    | Resumes k \<Rightarrow> reachable n (goto c (Running p) k m)
    | Exits _ \<Rightarrow> False"
proof -
  let ?k = "snd (timer_tick p (kern m))"
  have r: "reachable n (goto c (Running p) ?k m)" by (rule reachable.step[OF assms(1) tick[OF assms(3)]])
  have "\<not> locked (goto c (Running p) ?k m) p" using quiet_goto[OF assms(2)] quietD by simp
  from reachable.step[OF r yield[OF at_goto[OF assms(3)] this]]
  have "reachable n (goto c (Scanning 0) (yield_cpu p ?k) m)"
    using reachable_leave[OF _ assms(3)] by simp
  then show ?thesis using r by (auto simp: kerneltrap_timer_def split: prod.split)
qed

lemma reachable_kfork:
  assumes "reachable n m" "quiet m" "at m c (Running p)" "forking m p = None"
    "kfork p got_page got_table copied (kern m) = (r, k)"
  shows "reachable n (m\<lparr>kern := k\<rparr>)"
proof (cases "find (\<lambda>p. pstate (ptable (kern m) ! p) = UNUSED) [0..<NPROC]")
  case None
  then have "k = kern m" using assms(5) by (simp add: kfork_def allocproc_def)
  then show ?thesis using assms(1) by simp
next
  case (Some i)
  then have i: "i < NPROC" "pstate (ptable (kern m) ! i) = UNUSED"
    by (auto simp: find_Some_iff)
  let ?m1 = "m\<lparr>kern := alloc_slot i (kern m), forking := (forking m)(p := Some i)\<rparr>"
  have f: "(forking m)(p := None) = forking m" using assms(4) by auto
  have m1: "reachable n ?m1" "at ?m1 c (Running p)" "quiet ?m1"
    using reachable.step[OF assms(1) alloc[OF assms(3,4) i(1) quietD[OF assms(2)] i(2)]] assms(2,3)
    by simp_all
  have fail: "reachable n (m\<lparr>kern := freeproc i (alloc_slot i (kern m))\<rparr>)"
    using reachable.step[OF m1(1) alloc_fails[OF m1(2), of i]] f by simp
  let ?m2 = "?m1\<lparr>kern := upd_proc i (\<lambda>r. r\<lparr>parent := Some p\<rparr>) (alloc_slot i (kern m))\<rparr>"
  have "reachable n ?m2" using reachable.step[OF m1(1) adopt[OF m1(2) i(1)]] by simp
  from reachable.step[OF this smp_step.start[of ?m2 c p i]]
  have "reachable n (m\<lparr>kern := start_child i (upd_proc i (\<lambda>r. r\<lparr>parent := Some p\<rparr>) (alloc_slot i (kern m)))\<rparr>)"
    using m1(2) quietD[OF assms(2)] f by simp
  then show ?thesis
    using fail assms(5) Some by (auto simp: kfork_def allocproc_def Let_def split: if_splits)
qed

lemma reachable_wakeup:
  assumes "reachable n m" "quiet m"
  shows "reachable n (m\<lparr>kern := wakeup ch (kern m)\<rparr>)"
proof -
  have "j \<le> NPROC \<Longrightarrow> reachable n (m\<lparr>kern := fold (wake_one ch) [0..<j] (kern m)\<rparr>)" for j
  proof (induction j)
    case (Suc j)
    then have "reachable n (m\<lparr>kern := fold (wake_one ch) [0..<j] (kern m)\<rparr>)" by simp
    from reachable.step[OF this wake[of j _ ch]] show ?case using Suc(2) quietD[OF assms(2)] by simp
  qed (use assms in simp)
  then show ?thesis by (simp add: wakeup_def)
qed

lemma reachable_reparent:
  assumes "reachable n m" "quiet m" "at m c (Running p)"
  shows "reachable n (m\<lparr>kern := reparent p (kern m)\<rparr>)"
proof -
  have "j \<le> NPROC \<Longrightarrow> reachable n (m\<lparr>kern := fold (reparent_one p) [0..<j] (kern m)\<rparr>)" for j
  proof (induction j)
    case (Suc j)
    let ?m = "m\<lparr>kern := fold (reparent_one p) [0..<j] (kern m)\<rparr>"
    have r: "reachable n ?m" using Suc by simp
    have "reachable n (?m\<lparr>kern := upd_proc j (\<lambda>r. r\<lparr>parent := v\<rparr>) (kern ?m)\<rparr>)" for v
      using reachable.step[OF r adopt[of ?m c p j]] assms(3) Suc(2) by simp
    from reachable_wakeup[OF this] show ?case
      using r assms(2) by (simp add: reparent_one_def[of p j])
  qed (use assms in simp)
  then show ?thesis by (simp add: reparent_def)
qed

lemma reachable_kexit:
  assumes "reachable n m" "quiet m" "at m c (Running p)" "forking m p = None"
    "kexit p st (kern m) = Some k"
  shows "reachable n (goto c (Scanning 0) k m)"
proof -
  have ini: "initproc (fold (wake_one ch) xs k) = initproc k" for ch xs k
    by (induction xs arbitrary: k)
      (simp_all add: wake_one_def enqueue_def Let_def split: option.split)
  have ini': "initproc (fold (reparent_one p) xs k) = initproc k" for xs k
    by (induction xs arbitrary: k) (simp_all add: reparent_one_def wakeup_def ini)
  define k1 where "k1 = reparent p (kern m)"
  define k2 where "k2 = wakeup (proc_chan (parent (ptable k1 ! p))) k1"
  have k: "initproc (kern m) \<noteq> Some p" "k = exit_proc p st k2"
    using assms(5) by (auto simp: kexit_def k1_def k2_def Let_def split: if_splits)
  have "reachable n (m\<lparr>kern := k1\<rparr>)" unfolding k1_def by (rule reachable_reparent[OF assms(1-3)])
  from reachable_wakeup[OF this] have r: "reachable n (m\<lparr>kern := k2\<rparr>)"
    using assms(2) by (simp add: k2_def)
  have "initproc k2 = initproc (kern m)"
    by (simp add: k2_def wakeup_def ini k1_def reparent_def ini')
  then have "smp_step (m\<lparr>kern := k2\<rparr>) Internal (goto c (Leaving p) k (m\<lparr>kern := k2\<rparr>))"
    using smp_step.exit[of "m\<lparr>kern := k2\<rparr>" c p st] k assms(3,4) quietD[OF assms(2)] by simp
  from reachable.step[OF r this] show ?thesis
    using reachable_leave[OF _ assms(3)] by (simp add: goto_def)
qed

lemma boot_schedules: obtains k where "scheduler_round (kern (boot n)) = (Some 0, k)"
proof (cases "scheduler_round (kern (boot n))")
  case (Pair x k)
  note S = scheduler_round_ok[OF smp_invD(1)[OF boot_inv[of n]]]
  show thesis
  proof (cases x)
    case None
    then show thesis using S Pair by simp
  next
    case (Some p)
    then obtain q ps where q: "\<forall>r < q. [[0 :: nat], [], [], []] ! r = []"
      "[[0], [], [], []] ! q = p # ps"
      using S Pair by auto
    then have "q = 0" by (cases q) auto
    then show thesis using q(2) that Pair Some by simp
  qed
qed



end
