(* ===== verification/Kpipe.thy ===== *)
theory Kpipe
  imports "HOL-Library.Word"
begin

text \<open>
  Pipes of xv6, \<open>xv6/kernel/pipe.c\<close>: a ring buffer of 512 bytes with two 32-bit counters that are
  never reduced.  Writers and readers run concurrently; what one of them does between taking and
  releasing the lock of the pipe is one function.
\<close>

section \<open>The ring buffer\<close>

type_synonym byte = "8 word"

definition PIPESIZE :: nat where "PIPESIZE = 512"

record pipe =
  data :: "byte list"
  nread :: "32 word"
  nwrite :: "32 word"
  readopen :: bool
  writeopen :: bool

text \<open>The fields that \<open>pipealloc\<close> sets; the bytes are those of the page.\<close>

definition pipe_init :: "byte list \<Rightarrow> pipe" where
  "pipe_init d = \<lparr>data = d, nread = 0, nwrite = 0, readopen = True, writeopen = True\<rparr>"

definition put_byte :: "byte \<Rightarrow> pipe \<Rightarrow> pipe" where
  "put_byte ch p = p\<lparr>data := (data p)[unat (nwrite p mod of_nat PIPESIZE) := ch], nwrite := nwrite p + 1\<rparr>"

definition next_byte :: "pipe \<Rightarrow> byte" where
  "next_byte p = data p ! unat (nread p mod of_nat PIPESIZE)"

definition pipe_full :: "pipe \<Rightarrow> bool" where
  "pipe_full p \<longleftrightarrow> nwrite p = nread p + of_nat PIPESIZE"

definition pipe_empty :: "pipe \<Rightarrow> bool" where
  "pipe_empty p \<longleftrightarrow> nread p = nwrite p"

section \<open>The system calls\<close>

text \<open>
  A region under the lock ends with the return of the call, or with the registration on a channel
  (the address of \<open>nread\<close> or \<open>nwrite\<close>) after which the process releases the lock and sleeps.  The
  second component are the channels woken, the last one the bytes transferred.
\<close>

datatype channel = NREAD | NWRITE

datatype region_end = Ret int | Sleeps_on channel nat

type_synonym region = "region_end \<times> channel list \<times> pipe \<times> byte list"

text \<open>
  \<open>killed i\<close> is what \<open>killed(pr)\<close> returns in the turn with index \<open>i\<close>, \<open>copyin i\<close> the byte at \<open>addr + i\<close>,
  or None when the address is bad.  Called again after the sleep, the loop goes on with its index.
\<close>

function pipewrite :: "(nat \<Rightarrow> bool) \<Rightarrow> (nat \<Rightarrow> byte option) \<Rightarrow> int \<Rightarrow> nat \<Rightarrow> pipe \<Rightarrow> byte list \<Rightarrow> region" where
  "pipewrite killed copyin n i p stored =
     (if int i < n then
        (if \<not> readopen p \<or> killed i then (Ret (- 1), [], p, stored)
         else if pipe_full p then (Sleeps_on NWRITE i, [NREAD], p, stored)
         else case copyin i of
                None \<Rightarrow> (Ret (if i = 0 then - 1 else int i), [NREAD], p, stored)
              | Some ch \<Rightarrow> pipewrite killed copyin n (Suc i) (put_byte ch p) (stored @ [ch]))
      else (Ret (int i), [NREAD], p, stored))"
  by auto
termination by (relation "measure (\<lambda>(_, _, n, i, _). nat (n - int i))") auto

declare pipewrite.simps [simp del]

text \<open>\<open>copyout i\<close> tells whether the byte can be stored at \<open>addr + i\<close>.\<close>

function piperead_copy :: "(nat \<Rightarrow> bool) \<Rightarrow> int \<Rightarrow> nat \<Rightarrow> pipe \<Rightarrow> byte list \<Rightarrow> region" where
  "piperead_copy copyout n i p out =
     (if int i < n then
        (if pipe_empty p then (Ret (int i), [NWRITE], p, out)
         else if \<not> copyout i then (Ret (if i = 0 then - 1 else int i), [NWRITE], p, out)
         else piperead_copy copyout n (Suc i) (p\<lparr>nread := nread p + 1\<rparr>) (out @ [next_byte p]))
      else (Ret (int i), [NWRITE], p, out))"
  by auto
termination by (relation "measure (\<lambda>(_, n, i, _). nat (n - int i))") auto

declare piperead_copy.simps [simp del]

definition piperead :: "bool \<Rightarrow> (nat \<Rightarrow> bool) \<Rightarrow> int \<Rightarrow> pipe \<Rightarrow> region" where
  "piperead killed copyout n p =
     (if pipe_empty p \<and> writeopen p then
        (if killed then (Ret (- 1), [], p, []) else (Sleeps_on NREAD 0, [], p, []))
      else piperead_copy copyout n 0 p [])"

text \<open>The first component tells whether the page is freed.\<close>

definition pipeclose :: "bool \<Rightarrow> pipe \<Rightarrow> bool \<times> channel list \<times> pipe" where
  "pipeclose writable p =
     (let (wk, p) = (if writable then ([NREAD], p\<lparr>writeopen := False\<rparr>) else ([NWRITE], p\<lparr>readopen := False\<rparr>))
      in (\<not> readopen p \<and> \<not> writeopen p, wk, p))"

section \<open>The bytes in the buffer\<close>

definition used :: "pipe \<Rightarrow> nat" where
  "used p = unat (nwrite p - nread p)"

definition content :: "pipe \<Rightarrow> byte list" where
  "content p = map (\<lambda>j. data p ! ((unat (nread p) + j) mod PIPESIZE)) [0 ..< used p]"

definition pipe_ok :: "pipe \<Rightarrow> bool" where
  "pipe_ok p \<longleftrightarrow> length (data p) = PIPESIZE \<and> used p \<le> PIPESIZE"

lemma PIPESIZE_word: "unat (of_nat PIPESIZE :: 32 word) = PIPESIZE"
  by (simp add: PIPESIZE_def)

text \<open>512 divides \<open>2^32\<close>, so the index does not notice the wrap-around of the counters.\<close>

lemma index_word: "unat (a mod of_nat PIPESIZE :: 32 word) = unat a mod PIPESIZE"
  by (simp add: unat_mod_distrib PIPESIZE_word)

lemma wrap_index: "(x mod 4294967296) mod PIPESIZE = x mod PIPESIZE"
  by (rule mod_mod_cancel) (simp add: PIPESIZE_def)

lemma write_index: "unat (nwrite p mod of_nat PIPESIZE) = (unat (nread p) + used p) mod PIPESIZE"
proof -
  have "unat (nwrite p) = (unat (nread p) + used p) mod 2 ^ 32"
    using unat_word_ariths(1)[of "nread p" "nwrite p - nread p"] by (simp add: used_def)
  then show ?thesis by (simp add: index_word wrap_index)
qed

lemma length_content [simp]: "length (content p) = used p"
  by (simp add: content_def)

lemma pipe_full_used: "pipe_ok p \<Longrightarrow> pipe_full p \<longleftrightarrow> used p = PIPESIZE"
proof -
  have "pipe_full p \<longleftrightarrow> nwrite p - nread p = of_nat PIPESIZE" by (auto simp: pipe_full_def algebra_simps)
  also have "\<dots> \<longleftrightarrow> used p = PIPESIZE" unfolding used_def using PIPESIZE_word by (metis word_unat_eq_iff)
  finally show "pipe_full p \<longleftrightarrow> used p = PIPESIZE" .
qed

lemma pipe_empty_used: "pipe_empty p \<longleftrightarrow> used p = 0"
  by (auto simp: pipe_empty_def used_def unat_eq_0)

lemma put_byte_used:
  assumes "pipe_ok p" "\<not> pipe_full p"
  shows "used (put_byte ch p) = Suc (used p)"
proof -
  have "used p < PIPESIZE" using assms pipe_full_used by (simp add: pipe_ok_def)
  then have "unat (nwrite p - nread p) + 1 < 2 ^ 32" by (simp add: used_def PIPESIZE_def)
  then have "unat ((nwrite p - nread p) + 1) = Suc (unat (nwrite p - nread p))"
    using unat_word_ariths(1)[of "nwrite p - nread p" 1] by simp
  moreover have "nwrite p + 1 - nread p = (nwrite p - nread p) + 1" by simp
  moreover have "used (put_byte ch p) = unat (nwrite p + 1 - nread p)" by (simp add: used_def put_byte_def)
  ultimately show ?thesis by (simp only: used_def)
qed

lemma put_byte_content:
  assumes "pipe_ok p" "\<not> pipe_full p"
  shows "content (put_byte ch p) = content p @ [ch]" "pipe_ok (put_byte ch p)"
proof -
  have u: "used p < PIPESIZE" and l: "length (data p) = PIPESIZE"
    using assms pipe_full_used by (simp_all add: pipe_ok_def)
  let ?w = "(unat (nread p) + used p) mod PIPESIZE"
  have d: "data (put_byte ch p) = (data p)[?w := ch]" "nread (put_byte ch p) = nread p"
    by (simp_all add: put_byte_def write_index)
  have ne: "?w \<noteq> (unat (nread p) + j) mod PIPESIZE" if "j < used p" for j
  proof
    assume "?w = (unat (nread p) + j) mod PIPESIZE"
    then have "PIPESIZE dvd used p - j" using that by (metis mod_eq_dvd_iff_nat add_le_mono1 diff_add_inverse2
      nat_add_left_cancel_le less_imp_le add.commute diff_cancel2)
    then show False using that u by (auto dest: dvd_imp_le)
  qed
  have "?w < length (data p)" using l by (simp add: PIPESIZE_def)
  then show "content (put_byte ch p) = content p @ [ch]"
    unfolding content_def put_byte_used[OF assms] d using ne by simp
  show "pipe_ok (put_byte ch p)"
    using put_byte_used[OF assms] u l by (simp add: pipe_ok_def d)
qed

lemma take_byte_content:
  assumes "pipe_ok p" "\<not> pipe_empty p"
  shows "content p = next_byte p # content (p\<lparr>nread := nread p + 1\<rparr>)" "pipe_ok (p\<lparr>nread := nread p + 1\<rparr>)"
proof -
  let ?p = "p\<lparr>nread := nread p + 1\<rparr>"
  have u: "0 < used p" using assms(2) by (simp add: pipe_empty_used)
  have "nwrite p - (nread p + 1) = (nwrite p - nread p) - 1" by simp
  moreover have "unat ((nwrite p - nread p) - 1) = unat (nwrite p - nread p) - 1"
    using u by (intro unat_minus_one) (auto simp: used_def)
  moreover have "used ?p = unat (nwrite p - (nread p + 1))" by (simp add: used_def)
  ultimately have "used ?p = used p - 1" by (simp only: used_def)
  then have us: "used p = Suc (used ?p)" using u by simp
  have i: "(unat (nread p + 1) + j) mod PIPESIZE = (unat (nread p) + Suc j) mod PIPESIZE" for j
  proof -
    have "unat (nread p + 1) mod PIPESIZE = (unat (nread p) + 1) mod PIPESIZE"
      by (simp add: unat_word_ariths wrap_index)
    then show ?thesis by (metis mod_add_left_eq add.assoc plus_1_eq_Suc)
  qed
  show "content p = next_byte p # content ?p"
    unfolding content_def us by (simp add: upt_conv_Cons next_byte_def index_word i map_Suc_upt[symmetric] comp_def
      del: upt_Suc)
  show "pipe_ok ?p" using assms(1) us by (simp add: pipe_ok_def)
qed

section \<open>What a region does\<close>

text \<open>The writer appends bytes of its buffer; \<open>new\<close> are those of this region.\<close>

definition wrote :: "(nat \<Rightarrow> byte option) \<Rightarrow> nat \<Rightarrow> byte list \<Rightarrow> bool" where
  "wrote copyin i new \<longleftrightarrow> (\<forall>k < length new. copyin (i + k) = Some (new ! k))"

lemma wrote_Cons: "copyin i = Some ch \<Longrightarrow> wrote copyin (Suc i) new \<Longrightarrow> wrote copyin i (ch # new)"
  by (auto simp: wrote_def nth_Cons split: nat.split)

lemma pipewrite_region:
  assumes "pipe_ok p" "pipewrite killed copyin n i p stored = (e, wk, p', out)"
  shows "\<exists>new. out = stored @ new \<and> content p' = content p @ new \<and> pipe_ok p' \<and> wrote copyin i new \<and>
    readopen p' = readopen p \<and> writeopen p' = writeopen p \<and> NWRITE \<notin> set wk \<and>
    (NREAD \<in> set wk \<or> e = Ret (- 1) \<and> (\<not> readopen p \<or> killed (i + length new))) \<and>
    (readopen p \<or> new = []) \<and>
    (e = Ret (- 1) \<or> e = Ret (int (i + length new)) \<or>
     e = Sleeps_on NWRITE (i + length new) \<and> used p' = PIPESIZE \<and> readopen p)"
  using assms
proof (induction killed copyin n i p stored rule: pipewrite.induct)
  case (1 killed copyin n i p stored)
  show ?case
  proof (cases "int i < n \<and> readopen p \<and> \<not> killed i \<and> \<not> pipe_full p \<and> copyin i \<noteq> None")
    case True
    then obtain ch where ch: "copyin i = Some ch" by blast
    have step: "pipewrite killed copyin n (Suc i) (put_byte ch p) (stored @ [ch]) = (e, wk, p', out)"
      using 1(3) True ch by (subst (asm) pipewrite.simps) simp
    have nf: "\<not> pipe_full p" using True by blast
    note put = put_byte_content[OF 1(2) nf, of ch]
    obtain new where new: "out = (stored @ [ch]) @ new" "content p' = content (put_byte ch p) @ new" "pipe_ok p'"
      "wrote copyin (Suc i) new" "readopen p' = readopen (put_byte ch p)" "writeopen p' = writeopen (put_byte ch p)"
      "NWRITE \<notin> set wk" "NREAD \<in> set wk \<or> e = Ret (- 1) \<and> (\<not> readopen (put_byte ch p) \<or> killed (Suc i + length new))"
      "e = Ret (- 1) \<or> e = Ret (int (Suc i + length new)) \<or>
       e = Sleeps_on NWRITE (Suc i + length new) \<and> used p' = PIPESIZE \<and> readopen (put_byte ch p)"
      using 1(1)[OF _ _ nf ch put(2) step] True by blast
    have rw: "readopen (put_byte ch p) = readopen p" "writeopen (put_byte ch p) = writeopen p"
      by (simp_all add: put_byte_def)
    then have "NREAD \<in> set wk \<or> e = Ret (- 1) \<and> killed (i + length (ch # new))" using new(8) True by simp
    then show ?thesis
      using new(1-7,9) put(1) rw True wrote_Cons[OF ch new(4)] by (intro exI[of _ "ch # new"]) simp
  next
    case False
    then show ?thesis
      using 1(2,3) pipe_full_used[OF 1(2)]
      by (subst (asm) pipewrite.simps) (auto simp: wrote_def split: if_splits option.splits)
  qed
qed

lemma piperead_copy_region:
  assumes "pipe_ok p" "piperead_copy copyout n i p out = (e, wk, p', out')"
  shows "\<exists>new. out' = out @ new \<and> content p = new @ content p' \<and> pipe_ok p' \<and> wk = [NWRITE] \<and>
    readopen p' = readopen p \<and> writeopen p' = writeopen p \<and>
    (e = Ret (- 1) \<and> i = 0 \<and> new = [] \<or> e = Ret (int (i + length new)))"
  using assms
proof (induction copyout n i p out rule: piperead_copy.induct)
  case (1 copyout n i p out)
  show ?case
  proof (cases "int i < n \<and> \<not> pipe_empty p \<and> copyout i")
    case True
    let ?p = "p\<lparr>nread := nread p + 1\<rparr>"
    have ne: "\<not> pipe_empty p" using True by blast
    have step: "piperead_copy copyout n (Suc i) ?p (out @ [next_byte p]) = (e, wk, p', out')"
      using 1(3) True by (subst (asm) piperead_copy.simps) simp
    note t = take_byte_content[OF 1(2) ne]
    obtain new where "out' = (out @ [next_byte p]) @ new" "content ?p = new @ content p'" "pipe_ok p'" "wk = [NWRITE]"
      "readopen p' = readopen ?p" "writeopen p' = writeopen ?p" "e = Ret (int (Suc i + length new))"
      using 1(1)[OF _ ne _ t(2) step] True by blast
    then show ?thesis using t(1) by (intro exI[of _ "next_byte p # new"]) simp
  next
    case False
    then show ?thesis
      using 1(2,3) by (subst (asm) piperead_copy.simps) (auto split: if_splits)
  qed
qed

lemma piperead_region:
  assumes "pipe_ok p" "piperead killed copyout n p = (e, wk, p', new)"
  shows "content p = new @ content p'" "pipe_ok p'" "readopen p' = readopen p" "writeopen p' = writeopen p"
    "NREAD \<notin> set wk" "new \<noteq> [] \<Longrightarrow> NWRITE \<in> set wk"
    "e = Ret (- 1) \<and> new = [] \<or> e = Ret (int (length new)) \<or>
     e = Sleeps_on NREAD 0 \<and> p' = p \<and> used p = 0 \<and> writeopen p"
proof -
  have "content p = new @ content p' \<and> pipe_ok p' \<and> readopen p' = readopen p \<and> writeopen p' = writeopen p \<and>
    NREAD \<notin> set wk \<and> (new \<noteq> [] \<longrightarrow> NWRITE \<in> set wk) \<and>
    (e = Ret (- 1) \<and> new = [] \<or> e = Ret (int (length new)) \<or>
     e = Sleeps_on NREAD 0 \<and> p' = p \<and> used p = 0 \<and> writeopen p)"
  proof (cases "pipe_empty p \<and> writeopen p")
    case True
    with assms show ?thesis by (auto simp: piperead_def pipe_empty_used split: if_splits)
  next
    case False
    then have "piperead_copy copyout n 0 p [] = (e, wk, p', new)" using assms(2) by (auto simp: piperead_def split: if_splits)
    from piperead_copy_region[OF assms(1) this] show ?thesis by auto
  qed
  then show "content p = new @ content p'" "pipe_ok p'" "readopen p' = readopen p" "writeopen p' = writeopen p"
    "NREAD \<notin> set wk" "new \<noteq> [] \<Longrightarrow> NWRITE \<in> set wk"
    "e = Ret (- 1) \<and> new = [] \<or> e = Ret (int (length new)) \<or>
     e = Sleeps_on NREAD 0 \<and> p' = p \<and> used p = 0 \<and> writeopen p" by blast+
qed

section \<open>Processes that share the pipe\<close>

datatype caller = Idle | Writing int "nat \<Rightarrow> byte option" nat | Write_sleeps int "nat \<Rightarrow> byte option" nat
  | Reading int | Read_sleeps int

text \<open>\<open>stored\<close> and \<open>taken\<close> are all bytes that went into the pipe and that came out of it so far.\<close>

record pipe_system =
  the_pipe :: pipe
  callers :: "nat \<Rightarrow> caller"
  stored :: "byte list"
  taken :: "byte list"

fun wake_caller :: "channel list \<Rightarrow> caller \<Rightarrow> caller" where
  "wake_caller wk (Write_sleeps n b i) = (if NWRITE \<in> set wk then Writing n b i else Write_sleeps n b i)"
| "wake_caller wk (Read_sleeps n) = (if NREAD \<in> set wk then Reading n else Read_sleeps n)"
| "wake_caller wk c = c"

text \<open>
  One step: a call begins, a caller runs one region, an end is closed, or a kill wakes a sleeper.
  Without \<open>kills\<close> nobody is killed.
\<close>

inductive pipe_step :: "bool \<Rightarrow> pipe_system \<Rightarrow> pipe_system \<Rightarrow> bool" for kills where
  call_write: "callers s c = Idle \<Longrightarrow> pipe_step kills s (s\<lparr>callers := (callers s)(c := Writing n b 0)\<rparr>)"
| call_read: "callers s c = Idle \<Longrightarrow> pipe_step kills s (s\<lparr>callers := (callers s)(c := Reading n)\<rparr>)"
| run_write: "callers s c = Writing n b i \<Longrightarrow> kills \<or> (\<forall>j. \<not> killed j) \<Longrightarrow>
    pipewrite killed b n i (the_pipe s) [] = (e, wk, p, new) \<Longrightarrow>
    pipe_step kills s (s\<lparr>the_pipe := p, stored := stored s @ new,
      callers := (wake_caller wk \<circ> callers s)
        (c := (case e of Ret r \<Rightarrow> Idle | Sleeps_on ch j \<Rightarrow> Write_sleeps n b j))\<rparr>)"
| run_read: "callers s c = Reading n \<Longrightarrow> kills \<or> \<not> killed \<Longrightarrow>
    piperead killed copyout n (the_pipe s) = (e, wk, p, new) \<Longrightarrow>
    pipe_step kills s (s\<lparr>the_pipe := p, taken := taken s @ new,
      callers := (wake_caller wk \<circ> callers s)
        (c := (case e of Ret r \<Rightarrow> Idle | Sleeps_on ch j \<Rightarrow> Read_sleeps n))\<rparr>)"
| close: "pipeclose writable (the_pipe s) = (freed, wk, p) \<Longrightarrow>
    pipe_step kills s (s\<lparr>the_pipe := p, callers := wake_caller wk \<circ> callers s\<rparr>)"
| kill: "kills \<Longrightarrow> pipe_step kills s (s\<lparr>callers := (callers s)(c := wake_caller [NREAD, NWRITE] (callers s c))\<rparr>)"

inductive pipe_run :: "bool \<Rightarrow> pipe_system \<Rightarrow> bool" for kills where
  start: "length d = PIPESIZE \<Longrightarrow>
    pipe_run kills \<lparr>the_pipe = pipe_init d, callers = (\<lambda>_. Idle), stored = [], taken = []\<rparr>"
| step: "pipe_run kills s \<Longrightarrow> pipe_step kills s s' \<Longrightarrow> pipe_run kills s'"

lemma pipeclose_region:
  assumes "pipeclose writable p = (freed, wk, p')"
  shows "content p' = content p" "pipe_ok p' = pipe_ok p" "used p' = used p"
    "writable \<Longrightarrow> NREAD \<in> set wk \<and> readopen p' = readopen p"
    "\<not> writable \<Longrightarrow> NWRITE \<in> set wk \<and> writeopen p' = writeopen p"
  using assms by (auto simp: pipeclose_def Let_def content_def used_def pipe_ok_def split: if_splits)

definition stream_inv :: "pipe_system \<Rightarrow> bool" where
  "stream_inv s \<longleftrightarrow> pipe_ok (the_pipe s) \<and> stored s = taken s @ content (the_pipe s)"

lemma stream_step: "pipe_step kills s s' \<Longrightarrow> stream_inv s \<Longrightarrow> stream_inv s'"
proof (induction rule: pipe_step.induct)
  case (run_write s c n b i killed e wk p new)
  then show ?case using pipewrite_region[OF _ run_write(3)] by (auto simp: stream_inv_def)
next
  case (run_read s c n killed copyout e wk p new)
  then show ?case using piperead_region(1,2)[OF _ run_read(3)] by (auto simp: stream_inv_def)
next
  case (close writable s freed wk p)
  then show ?case using pipeclose_region(1,2)[OF close(1)] by (simp add: stream_inv_def)
qed (simp_all add: stream_inv_def)

lemma stream_run: "pipe_run kills s \<Longrightarrow> stream_inv s"
proof (induction rule: pipe_run.induct)
  case (start d)
  then show ?case by (simp add: stream_inv_def pipe_ok_def pipe_init_def used_def content_def)
qed (rule stream_step)

text \<open>Without kills, who sleeps has a reason to.\<close>

definition sleep_inv :: "pipe_system \<Rightarrow> bool" where
  "sleep_inv s \<longleftrightarrow> stream_inv s \<and>
     (\<forall>c n. callers s c = Read_sleeps n \<longrightarrow> used (the_pipe s) = 0 \<and> writeopen (the_pipe s)) \<and>
     (\<forall>c n b i. callers s c = Write_sleeps n b i \<longrightarrow> used (the_pipe s) = PIPESIZE \<and> readopen (the_pipe s))"

lemma wake_caller_sleeps:
  "wake_caller wk c = Read_sleeps n \<longleftrightarrow> c = Read_sleeps n \<and> NREAD \<notin> set wk"
  "wake_caller wk c = Write_sleeps n b i \<longleftrightarrow> c = Write_sleeps n b i \<and> NWRITE \<notin> set wk"
  by (cases c; auto)+

lemma sleep_step:
  assumes "pipe_step False s s'" "sleep_inv s"
  shows "sleep_inv s'"
proof -
  have str: "stream_inv s'" using assms stream_step by (auto simp: sleep_inv_def)
  have ok: "pipe_ok (the_pipe s)" using assms(2) by (simp add: sleep_inv_def stream_inv_def)
  have rs: "used (the_pipe s) = 0" "writeopen (the_pipe s)" if "callers s d = Read_sleeps m" for d m
    using assms(2) that by (auto simp: sleep_inv_def)
  have ws: "used (the_pipe s) = PIPESIZE" "readopen (the_pipe s)" if "callers s d = Write_sleeps m b j" for d m b j
    using assms(2) that by (auto simp: sleep_inv_def)
  show ?thesis
    using assms(1)
  proof cases
    case (run_write c n b i killed e wk p new)
    obtain new' where r: "content p = content (the_pipe s) @ new'" "readopen p = readopen (the_pipe s)"
      "writeopen p = writeopen (the_pipe s)" "NWRITE \<notin> set wk" "pipe_ok p"
      "NREAD \<in> set wk \<or> new' = []"
      "e = Ret (- 1) \<or> e = Ret (int (i + length new')) \<or>
       e = Sleeps_on NWRITE (i + length new') \<and> used p = PIPESIZE \<and> readopen (the_pipe s)"
      using pipewrite_region[OF ok run_write(4)] run_write(3) by blast
    have u: "used p = used (the_pipe s) + length new'" using arg_cong[OF r(1), of length] by simp
    have "used p = 0 \<and> writeopen p" if "callers s' d = Read_sleeps m" for d m
    proof -
      have "callers s d = Read_sleeps m \<and> NREAD \<notin> set wk"
        using that unfolding run_write(1)
        by (cases "d = c") (auto simp: wake_caller_sleeps split: region_end.splits)
      then show ?thesis using rs u r(3,6) by auto
    qed
    moreover have "used p = PIPESIZE \<and> readopen p" if "callers s' d = Write_sleeps m b' j" for d m b' j
    proof (cases "d = c")
      case True
      then show ?thesis using that r(2,7) unfolding run_write(1) by auto
    next
      case False
      then have "callers s d = Write_sleeps m b' j" using that unfolding run_write(1) by (simp add: wake_caller_sleeps)
      then show ?thesis using ws u r(2,5) by (auto simp: pipe_ok_def)
    qed
    ultimately show ?thesis using str unfolding sleep_inv_def by (simp add: run_write(1))
  next
    case (run_read c n killed copyout e wk p new)
    note r = piperead_region[OF ok run_read(4)]
    have u: "used (the_pipe s) = length new + used p" using arg_cong[OF r(1), of length] by simp
    have "used p = PIPESIZE \<and> readopen p" if "callers s' d = Write_sleeps m b j" for d m b j
    proof -
      have w: "callers s d = Write_sleeps m b j" "NWRITE \<notin> set wk"
        using that unfolding run_read(1)
        by (cases "d = c"; auto simp: wake_caller_sleeps split: region_end.splits)+
      then have "new = []" using r(6) by blast
      then show ?thesis using ws[OF w(1)] u r(3) by simp
    qed
    moreover have "used p = 0 \<and> writeopen p" if "callers s' d = Read_sleeps m" for d m
    proof (cases "d = c")
      case True
      then show ?thesis using that r(7) unfolding run_read(1) by auto
    next
      case False
      then have "callers s d = Read_sleeps m" using that unfolding run_read(1) by (simp add: wake_caller_sleeps)
      then show ?thesis using rs u r(4) by auto
    qed
    ultimately show ?thesis using str unfolding sleep_inv_def by (simp add: run_read(1))
  next
    case (close writable freed wk p)
    note r = pipeclose_region[OF close(2)]
    have "used p = 0 \<and> writeopen p" if "callers s' d = Read_sleeps m" for d m
      using that rs r(3-5) unfolding close(1) by (cases writable) (auto simp: wake_caller_sleeps)
    moreover have "used p = PIPESIZE \<and> readopen p" if "callers s' d = Write_sleeps m b j" for d m b j
      using that ws r(3-5) unfolding close(1) by (cases writable) (auto simp: wake_caller_sleeps)
    ultimately show ?thesis using str unfolding sleep_inv_def by (simp add: close(1))
  qed (use str rs ws in \<open>auto simp: sleep_inv_def split: if_splits\<close>)
qed

lemma sleep_run: "pipe_run False s \<Longrightarrow> sleep_inv s"
proof (induction rule: pipe_run.induct)
  case (start d)
  then show ?case using stream_run[OF pipe_run.start[OF start]] by (simp add: sleep_inv_def)
qed (rule sleep_step)

section \<open>An example\<close>

definition empty_system :: pipe_system where
  "empty_system = \<lparr>the_pipe = pipe_init (replicate PIPESIZE 0), callers = (\<lambda>_. Idle), stored = [], taken = []\<rparr>"

definition two_bytes :: "nat \<Rightarrow> byte option" where
  "two_bytes i = (if i = 0 then Some 65 else if i = 1 then Some 66 else None)"

lemma empty_run: "pipe_run kills empty_system"
  unfolding empty_system_def by (rule pipe_run.start) simp

lemma region_step:
  assumes "pipe_run kills s" "callers s c = Writing n b i" "kills \<or> (\<forall>j. \<not> killed j)"
    and "pipewrite killed b n i (the_pipe s) [] = (Ret r, wk, p, new)"
  shows "pipe_run kills (s\<lparr>the_pipe := p, stored := stored s @ new, callers := (wake_caller wk \<circ> callers s)(c := Idle)\<rparr>)"
  using pipe_run.step[OF assms(1) pipe_step.run_write[OF assms(2-4)]] by simp

section \<open>Properties\<close>

text \<open>
  C12.  A pipe is a stream.  However readers and writers interleave, sleep, are killed and close their
  ends, and also when the 32-bit counters wrap around: the bytes read so far followed by the bytes in
  the buffer are exactly the bytes written so far, and there are never more than 512 in the buffer.
\<close>

theorem pipe_is_stream:
  assumes "pipe_run kills s"
  shows "stored s = taken s @ content (the_pipe s) \<and> length (content (the_pipe s)) \<le> 512"
  using stream_run[OF assms] by (simp add: stream_inv_def pipe_ok_def PIPESIZE_def)

theorem pipe_is_stream_witness:
  "\<exists>s. pipe_run False s \<and> stored s = [65, 66] \<and> content (the_pipe s) = [65, 66]"
proof -
  let ?s = "empty_system\<lparr>callers := (callers empty_system)(0 := Writing 2 two_bytes 0)\<rparr>"
  have run: "pipe_run False ?s"
    by (rule pipe_run.step[OF empty_run pipe_step.call_write]) (simp add: empty_system_def)
  have "case pipewrite (\<lambda>_. False) two_bytes 2 0 (pipe_init (replicate PIPESIZE 0)) [] of
      (e, wk, p, new) \<Rightarrow> e = Ret 2 \<and> new = [65, 66]" by code_simp
  then obtain wk p where w: "pipewrite (\<lambda>_. False) two_bytes 2 0 (the_pipe ?s) [] = (Ret 2, wk, p, [65, 66])"
    by (auto simp: empty_system_def)
  let ?s' = "?s\<lparr>the_pipe := p, stored := stored ?s @ [65, 66], callers := (wake_caller wk \<circ> callers ?s)(0 := Idle)\<rparr>"
  have "pipe_run False ?s'" by (rule region_step[OF run _ _ w]) simp_all
  with pipe_is_stream[OF this] show ?thesis by (intro exI[of _ ?s']) (simp add: empty_system_def)
qed

text \<open>
  C20.  As long as nobody is killed, no wakeup is lost: a reader sleeps only while the pipe is empty and
  can still be written to, a writer only while it is full and can still be read; so a reader and a
  writer never sleep at the same time.
\<close>

theorem pipe_no_lost_wakeup:
  assumes "pipe_run False s"
  shows "(callers s r = Read_sleeps n \<longrightarrow> content (the_pipe s) = [] \<and> writeopen (the_pipe s)) \<and>
    (callers s w = Write_sleeps m b i \<longrightarrow> length (content (the_pipe s)) = 512 \<and> readopen (the_pipe s)) \<and>
    \<not> (callers s r = Read_sleeps n \<and> callers s w = Write_sleeps m b i)"
proof -
  have "callers s r = Read_sleeps n \<longrightarrow> used (the_pipe s) = 0 \<and> writeopen (the_pipe s)"
    "callers s w = Write_sleeps m b i \<longrightarrow> used (the_pipe s) = PIPESIZE \<and> readopen (the_pipe s)"
    using sleep_run[OF assms] by (auto simp: sleep_inv_def)
  moreover have "used (the_pipe s) = 0 \<longleftrightarrow> content (the_pipe s) = []"
    using length_content[of "the_pipe s"] by (metis length_0_conv)
  ultimately show ?thesis by (auto simp: PIPESIZE_def)
qed

theorem pipe_no_lost_wakeup_witness:
  "\<exists>s. pipe_run False s \<and> callers s 0 = Read_sleeps 1 \<and> content (the_pipe s) = []"
proof -
  let ?s = "empty_system\<lparr>callers := (callers empty_system)(0 := Reading 1)\<rparr>"
  have run: "pipe_run False ?s"
    by (rule pipe_run.step[OF empty_run pipe_step.call_read]) (simp add: empty_system_def)
  have "piperead False (\<lambda>_. True) 1 (the_pipe ?s) = (Sleeps_on NREAD 0, [], the_pipe ?s, [])"
    by (simp add: empty_system_def pipe_init_def piperead_def pipe_empty_def)
  from pipe_run.step[OF run pipe_step.run_read[OF _ _ this, of 0]] obtain s where
    s: "pipe_run False s" "callers s 0 = Read_sleeps 1" by auto
  with pipe_no_lost_wakeup[OF s(1), of 0 1] show ?thesis by blast
qed

text \<open>
  C24.  A killed writer can strand a reader.  \<open>pipewrite\<close> checks \<open>killed\<close> in every turn and then returns
  without waking readers, also when it has stored bytes before: a reader goes on sleeping while
  there are bytes in the pipe.
\<close>

theorem killed_writer_strands_reader:
  "\<exists>s. pipe_run True s \<and> callers s 0 = Read_sleeps 1 \<and> callers s 1 = Idle \<and> stored s = [65] \<and> taken s = []"
proof -
  let ?s = "empty_system\<lparr>callers := (callers empty_system)(0 := Reading 1)\<rparr>"
  have run: "pipe_run True ?s"
    by (rule pipe_run.step[OF empty_run pipe_step.call_read]) (simp add: empty_system_def)
  have "piperead False (\<lambda>_. True) 1 (the_pipe ?s) = (Sleeps_on NREAD 0, [], the_pipe ?s, [])"
    by (simp add: empty_system_def pipe_init_def piperead_def pipe_empty_def)
  from pipe_run.step[OF run pipe_step.run_read[OF _ _ this, of 0]]
  have run1: "pipe_run True (empty_system\<lparr>callers := (\<lambda>_. Idle)(0 := Read_sleeps 1)\<rparr>)"
    by (simp add: empty_system_def comp_def fun_upd_def cong: if_cong)
  let ?s2 = "empty_system\<lparr>callers := (\<lambda>_. Idle)(0 := Read_sleeps 1, 1 := Writing 2 two_bytes 0)\<rparr>"
  have run2: "pipe_run True ?s2"
    using pipe_run.step[OF run1 pipe_step.call_write[of _ 1 _ 2 two_bytes]] by simp
  have "case pipewrite (\<lambda>i. i = 1) two_bytes 2 0 (pipe_init (replicate PIPESIZE 0)) [] of
      (e, wk, p, new) \<Rightarrow> e = Ret (- 1) \<and> wk = [] \<and> new = [65]" by code_simp
  then obtain p where w: "pipewrite (\<lambda>i. i = 1) two_bytes 2 0 (the_pipe ?s2) [] = (Ret (- 1), [], p, [65])"
    by (auto simp: empty_system_def)
  have "pipe_run True (?s2\<lparr>the_pipe := p, stored := stored ?s2 @ [65],
      callers := (wake_caller [] \<circ> callers ?s2)(1 := Idle)\<rparr>)"
    by (rule region_step[OF run2 _ _ w]) simp_all
  then show ?thesis by (intro exI conjI, assumption) (simp_all add: empty_system_def)
qed

end
