(* ===== verification/Kalloc.thy ===== *)
theory Kalloc
  imports Main
begin

text \<open>
  The physical page allocator of xv6, \<open>xv6/kernel/kalloc.c\<close>.  Free pages are linked through their own
  first word.  A page is what was last written over it: a fill, a link, or the data of its owner, of
  which the first word is kept.
\<close>

section \<open>Memory\<close>

definition PGSIZE :: nat where "PGSIZE = 4096"
definition KERNBASE :: nat where "KERNBASE = 0x80000000"
definition PHYSTOP :: nat where "PHYSTOP = KERNBASE + 128 * 1024 * 1024"

definition PGROUNDUP :: "nat \<Rightarrow> nat" where
  "PGROUNDUP sz = (sz + PGSIZE - 1) div PGSIZE * PGSIZE"

datatype page = Filled nat | Run nat | In_use nat

record kmem =
  freelist :: nat
  pages :: "nat \<Rightarrow> page"

section \<open>Operations\<close>

text \<open>\<open>kend\<close> is the linker's \<open>end\<close>; None is the panic.\<close>

definition kfree :: "nat \<Rightarrow> nat \<Rightarrow> kmem \<Rightarrow> kmem option" where
  "kfree kend pa km =
     (if pa mod PGSIZE \<noteq> 0 \<or> pa < kend \<or> pa \<ge> PHYSTOP then None
      else
        let km = km\<lparr>pages := (pages km)(pa := Filled 1)\<rparr>;
            km = km\<lparr>pages := (pages km)(pa := Run (freelist km))\<rparr>
        in Some (km\<lparr>freelist := pa\<rparr>))"

text \<open>The null pointer is 0.  The load of \<open>r->next\<close> from a page that is not a link reads what is there.\<close>

fun run_next :: "page \<Rightarrow> nat" where
  "run_next (Run n) = n"
| "run_next (Filled b) = b * 0x0101010101010101"
| "run_next (In_use w) = w"

definition kalloc :: "kmem \<Rightarrow> nat \<times> kmem" where
  "kalloc km =
     (let r = freelist km;
          km = (if r \<noteq> 0 then km\<lparr>freelist := run_next (pages km r)\<rparr> else km);
          km = (if r \<noteq> 0 then km\<lparr>pages := (pages km)(r := Filled 5)\<rparr> else km)
      in (r, km))"

function freerange_loop :: "nat \<Rightarrow> nat \<Rightarrow> nat \<Rightarrow> kmem \<Rightarrow> kmem option" where
  "freerange_loop kend p pa_end km =
     (if p + PGSIZE \<le> pa_end
      then Option.bind (kfree kend p km) (freerange_loop kend (p + PGSIZE) pa_end)
      else Some km)"
  by auto
termination by (relation "measure (\<lambda>(_, p, pa_end, _). pa_end - p)") (auto simp: PGSIZE_def)

declare freerange_loop.simps [simp del]

definition freerange :: "nat \<Rightarrow> nat \<Rightarrow> nat \<Rightarrow> kmem \<Rightarrow> kmem option" where
  "freerange kend pa_start pa_end km = freerange_loop kend (PGROUNDUP pa_start) pa_end km"

definition kinit :: "nat \<Rightarrow> (nat \<Rightarrow> page) \<Rightarrow> kmem option" where
  "kinit kend m = freerange kend kend PHYSTOP \<lparr>freelist = 0, pages = m\<rparr>"

section \<open>The list of free pages\<close>

fun runs :: "(nat \<Rightarrow> page) \<Rightarrow> nat \<Rightarrow> nat list \<Rightarrow> bool" where
  "runs m r [] \<longleftrightarrow> r = 0"
| "runs m r (a # as) \<longleftrightarrow> r = a \<and> a \<noteq> 0 \<and> (\<exists>n. m a = Run n \<and> runs m n as)"

lemma runs_upd [simp]: "a \<notin> set as \<Longrightarrow> runs (m(a := p)) r as = runs m r as"
  by (induction as arbitrary: r) auto

definition page_ok :: "nat \<Rightarrow> nat \<Rightarrow> bool" where
  "page_ok kend a \<longleftrightarrow> a mod PGSIZE = 0 \<and> kend \<le> a \<and> a < PHYSTOP"

definition kmem_ok :: "nat \<Rightarrow> kmem \<Rightarrow> nat list \<Rightarrow> bool" where
  "kmem_ok kend km fs \<longleftrightarrow> runs (pages km) (freelist km) fs \<and> distinct fs \<and> (\<forall>a \<in> set fs. page_ok kend a)"

lemma kmem_okD:
  assumes "kmem_ok kend km fs"
  shows "runs (pages km) (freelist km) fs" "distinct fs" "a \<in> set fs \<Longrightarrow> page_ok kend a"
  using assms by (simp_all add: kmem_ok_def)

lemma kalloc_empty: "kmem_ok kend km [] \<Longrightarrow> kalloc km = (0, km)"
  by (simp add: kmem_ok_def kalloc_def)

lemma kalloc_page:
  assumes "kmem_ok kend km (a # fs)"
  shows "fst (kalloc km) = a" "a \<noteq> 0" "kmem_ok kend (snd (kalloc km)) fs"
    "pages (snd (kalloc km)) = (pages km)(a := Filled 5)"
proof -
  obtain n where n: "freelist km = a" "a \<noteq> 0" "pages km a = Run n" "runs (pages km) n fs" "a \<notin> set fs"
    using assms by (auto simp: kmem_ok_def)
  then have eq: "kalloc km = (a, km\<lparr>freelist := n, pages := (pages km)(a := Filled 5)\<rparr>)" by (simp add: kalloc_def)
  then show "fst (kalloc km) = a" "a \<noteq> 0" "pages (snd (kalloc km)) = (pages km)(a := Filled 5)"
    using n(2) by simp_all
  show "kmem_ok kend (snd (kalloc km)) fs" using assms n eq by (simp add: kmem_ok_def)
qed

lemma kfree_page:
  assumes "kmem_ok kend km fs" "page_ok kend a" "a \<notin> set fs" "0 < kend"
  obtains km' where "kfree kend a km = Some km'" "kmem_ok kend km' (a # fs)"
    "pages km' = (pages km)(a := Run (freelist km))"
proof -
  let ?km = "km\<lparr>pages := (pages km)(a := Run (freelist km)), freelist := a\<rparr>"
  have "kfree kend a km = Some ?km" using assms(2) by (simp add: kfree_def page_ok_def)
  moreover have "a \<noteq> 0" using assms(2,4) by (simp add: page_ok_def)
  then have "kmem_ok kend ?km (a # fs)" using assms(1-3) by (simp add: kmem_ok_def)
  ultimately show ?thesis by (rule that) simp
qed

section \<open>Start\<close>

text \<open>The pages from \<open>p\<close> up to \<open>pa_end\<close>, the last one first.\<close>

definition page_list :: "nat \<Rightarrow> nat \<Rightarrow> nat list" where
  "page_list p pa_end = rev (map (\<lambda>i. p + i * PGSIZE) [0 ..< (pa_end - p) div PGSIZE])"

lemma page_list_step:
  assumes "p + PGSIZE \<le> pa_end"
  shows "page_list p pa_end = page_list (p + PGSIZE) pa_end @ [p]"
proof -
  have "(pa_end - p) div PGSIZE = Suc ((pa_end - (p + PGSIZE)) div PGSIZE)"
    using assms by (simp add: le_div_geq PGSIZE_def)
  then have "[0 ..< (pa_end - p) div PGSIZE] = 0 # map Suc [0 ..< (pa_end - (p + PGSIZE)) div PGSIZE]"
    by (simp add: upt_conv_Cons map_Suc_upt del: upt_Suc)
  then show ?thesis by (simp add: page_list_def algebra_simps comp_def)
qed

lemma page_list_ok:
  assumes "a \<in> set (page_list p pa_end)"
  shows "p \<le> a" "a + PGSIZE \<le> pa_end" "a mod PGSIZE = p mod PGSIZE"
proof -
  have "a \<in> (\<lambda>i. p + i * PGSIZE) ` {0 ..< (pa_end - p) div PGSIZE}" using assms by (simp add: page_list_def)
  then obtain i where i: "a = p + i * PGSIZE" "i \<in> {0 ..< (pa_end - p) div PGSIZE}" by blast
  then have "i < (pa_end - p) div PGSIZE" by simp
  then have "Suc i * PGSIZE \<le> pa_end - p"
    by (metis Suc_leI div_times_less_eq_dividend le_trans mult_le_mono1)
  then show "p \<le> a" "a + PGSIZE \<le> pa_end" "a mod PGSIZE = p mod PGSIZE"
    using i(1) by (simp_all add: PGSIZE_def)
qed

lemma page_list_distinct: "distinct (page_list p pa_end)"
  by (simp add: page_list_def distinct_map inj_on_def PGSIZE_def)

lemma freerange_loop_ok:
  assumes "kmem_ok kend km fs" "p mod PGSIZE = 0" "kend \<le> p" "pa_end \<le> PHYSTOP" "0 < kend"
    and "\<forall>a \<in> set fs. a < p"
  shows "\<exists>km'. freerange_loop kend p pa_end km = Some km' \<and> kmem_ok kend km' (page_list p pa_end @ fs)"
  using assms
proof (induction kend p pa_end km arbitrary: fs rule: freerange_loop.induct)
  case (1 kend p pa_end km)
  show ?case
  proof (cases "p + PGSIZE \<le> pa_end")
    case True
    have "page_ok kend p" using True 1(3-5) by (simp add: page_ok_def PGSIZE_def)
    moreover have "p \<notin> set fs" using 1(7) by auto
    ultimately obtain km1 where f: "kfree kend p km = Some km1" "kmem_ok kend km1 (p # fs)"
      using kfree_page[OF 1(2)] 1(6) by metis
    have "\<exists>km'. freerange_loop kend (p + PGSIZE) pa_end km1 = Some km' \<and>
        kmem_ok kend km' (page_list (p + PGSIZE) pa_end @ (p # fs))"
      using 1(3-7) by (intro 1(1)[OF True f(1,2)]) (auto simp: PGSIZE_def)
    then show ?thesis using True f(1) page_list_step[OF True] by (subst freerange_loop.simps) simp
  next
    case False
    then have "page_list p pa_end = []" by (simp add: page_list_def PGSIZE_def div_eq_0_iff)
    then show ?thesis using 1(2) False by (subst freerange_loop.simps) simp
  qed
qed

lemma PGROUNDUP_page: "PGROUNDUP sz mod PGSIZE = 0" "sz \<le> PGROUNDUP sz"
proof -
  show "PGROUNDUP sz mod PGSIZE = 0" by (simp add: PGROUNDUP_def)
  have "sz + PGSIZE - 1 < (sz + PGSIZE - 1) div PGSIZE * PGSIZE + PGSIZE"
    using dividend_less_div_times[of PGSIZE "sz + PGSIZE - 1"] by (simp add: PGSIZE_def)
  then show "sz \<le> PGROUNDUP sz" by (simp add: PGROUNDUP_def PGSIZE_def)
qed

lemma kinit_ok:
  assumes "0 < kend"
  shows "\<exists>km. kinit kend m = Some km \<and> kmem_ok kend km (page_list (PGROUNDUP kend) PHYSTOP)"
proof -
  have "kmem_ok kend \<lparr>freelist = 0, pages = m\<rparr> []" by (simp add: kmem_ok_def)
  from freerange_loop_ok[OF this PGROUNDUP_page _ assms, of PHYSTOP] show ?thesis
    by (simp add: kinit_def freerange_def)
qed

section \<open>What users of the allocator rely on\<close>

locale page_store =
  fixes ok :: "'s \<Rightarrow> nat list \<Rightarrow> bool" and alloc :: "'s \<Rightarrow> nat \<times> 's" and free :: "nat \<Rightarrow> 's \<Rightarrow> 's option"
    and valid :: "nat \<Rightarrow> bool"
  assumes alloc_none: "ok s [] \<Longrightarrow> alloc s = (0, s)"
    and alloc_some: "ok s (a # fs) \<Longrightarrow> fst (alloc s) = a \<and> a \<noteq> 0 \<and> ok (snd (alloc s)) fs"
    and free_ok: "ok s fs \<Longrightarrow> valid a \<Longrightarrow> a \<notin> set fs \<Longrightarrow> \<exists>s'. free a s = Some s' \<and> ok s' (a # fs)"
begin

lemma alloc_zero_iff: "ok s fs \<Longrightarrow> fst (alloc s) = 0 \<longleftrightarrow> fs = []"
  using alloc_none alloc_some by (cases fs) auto

lemma alloc_keeps:
  assumes "ok s fs" "distinct (own @ fs)" "set own \<union> set fs = U" "alloc s = (r, s')"
  shows "\<exists>fs'. ok s' fs' \<and> distinct ((if r \<noteq> 0 then r # own else own) @ fs') \<and>
    set (if r \<noteq> 0 then r # own else own) \<union> set fs' = U"
proof (cases fs)
  case Nil
  then have "alloc s = (0, s)" using alloc_none assms(1) by simp
  with assms Nil show ?thesis by (intro exI[of _ "[]"]) simp
next
  case (Cons a gs)
  then have "r = a" "a \<noteq> 0" "ok s' gs" using alloc_some[of s a gs] assms(1,4) by auto
  with assms(2,3) Cons show ?thesis by (intro exI[of _ gs]) auto
qed

lemma free_keeps:
  assumes "ok s fs" "distinct (own @ fs)" "set own \<union> set fs = U" "valid a" "a \<in> set own"
  shows "\<exists>s' fs'. free a s = Some s' \<and> ok s' fs' \<and> distinct (remove1 a own @ fs') \<and>
    set (remove1 a own) \<union> set fs' = U"
proof -
  have "a \<notin> set fs" using assms(2,5) by auto
  then obtain s' where "free a s = Some s'" "ok s' (a # fs)" using free_ok[OF assms(1,4)] by blast
  moreover have "set (remove1 a own) = set own - {a}" using assms(2) by simp
  ultimately show ?thesis using assms(2,3,5) by (intro exI[of _ s'] exI[of _ "a # fs"]) auto
qed

end

interpretation pgs: page_store "\<lambda>km fs. 0 < kend \<and> kmem_ok kend km fs" kalloc "kfree kend" "page_ok kend"
  for kend
proof
  show "0 < kend \<and> kmem_ok kend km [] \<Longrightarrow> kalloc km = (0, km)" for km
    using kalloc_empty by blast
  show "0 < kend \<and> kmem_ok kend km (a # fs) \<Longrightarrow>
      fst (kalloc km) = a \<and> a \<noteq> 0 \<and> 0 < kend \<and> kmem_ok kend (snd (kalloc km)) fs" for km a fs
    using kalloc_page[of kend km a fs] by simp
  show "0 < kend \<and> kmem_ok kend km fs \<Longrightarrow> page_ok kend a \<Longrightarrow> a \<notin> set fs \<Longrightarrow>
      \<exists>km'. kfree kend a km = Some km' \<and> 0 < kend \<and> kmem_ok kend km' (a # fs)" for km fs a
    using kfree_page[of kend km fs a] by metis
qed

text \<open>
  The kernel's use of pages: it allocates, writes to the pages it has, and frees pages it has.  The
  second component are the pages in use.
\<close>

inductive kuse :: "nat \<Rightarrow> kmem \<Rightarrow> nat list \<Rightarrow> bool" for kend where
  start: "kinit kend m = Some km \<Longrightarrow> kuse kend km []"
| alloc: "kuse kend km own \<Longrightarrow> kalloc km = (r, km') \<Longrightarrow> kuse kend km' (if r \<noteq> 0 then r # own else own)"
| free: "kuse kend km own \<Longrightarrow> a \<in> set own \<Longrightarrow> kfree kend a km = Some km' \<Longrightarrow> kuse kend km' (remove1 a own)"
| store: "kuse kend km own \<Longrightarrow> a \<in> set own \<Longrightarrow> kuse kend (km\<lparr>pages := (pages km)(a := In_use w)\<rparr>) own"

lemma all_pages_ok:
  assumes "a \<in> set (page_list (PGROUNDUP kend) PHYSTOP)"
  shows "page_ok kend a"
  using page_list_ok[OF assms] PGROUNDUP_page[of kend] by (simp add: page_ok_def PGSIZE_def)

lemma kuse_pages:
  assumes "kuse kend km own" "0 < kend"
  shows "\<exists>fs. (0 < kend \<and> kmem_ok kend km fs) \<and> distinct (own @ fs) \<and>
    set own \<union> set fs = set (page_list (PGROUNDUP kend) PHYSTOP)"
  using assms(1)
proof induction
  case (start m km)
  then show ?case using kinit_ok[OF assms(2), of m] page_list_distinct assms(2) by auto
next
  case (alloc km own r km')
  then show ?case using pgs.alloc_keeps[OF _ _ _ alloc(2)] by blast
next
  case (free km own a km')
  then obtain fs where fs: "0 < kend \<and> kmem_ok kend km fs" "distinct (own @ fs)"
    "set own \<union> set fs = set (page_list (PGROUNDUP kend) PHYSTOP)" by blast
  then have "page_ok kend a" using free(2) by (intro all_pages_ok) blast
  from pgs.free_keeps[OF fs this free(2)] show ?case using free(3) by auto
next
  case (store km own a w)
  then obtain fs where fs: "0 < kend \<and> kmem_ok kend km fs" "distinct (own @ fs)"
    "set own \<union> set fs = set (page_list (PGROUNDUP kend) PHYSTOP)" by blast
  then have "a \<notin> set fs" using store(2) by auto
  then show ?case using fs by (intro exI[of _ fs]) (simp add: kmem_ok_def)
qed

section \<open>Properties\<close>

text \<open>
  C21.  However the kernel allocates, uses and frees pages: no page is handed out that is in use, the
  pages in use and the free ones are together exactly the whole pages between the end of the kernel
  and \<open>PHYSTOP\<close>, \<open>kalloc\<close> fails only when all of them are in use, and freeing a page in use never panics.
\<close>

theorem kalloc_exclusive:
  assumes "kuse kend km own" "0 < kend"
  shows "distinct own \<and> fst (kalloc km) \<notin> set own \<and>
    (fst (kalloc km) = 0 \<longleftrightarrow> set own = set (page_list (PGROUNDUP kend) PHYSTOP)) \<and>
    (\<forall>a \<in> set own. kfree kend a km \<noteq> None)"
proof -
  obtain fs where fs: "0 < kend \<and> kmem_ok kend km fs" "distinct (own @ fs)"
    "set own \<union> set fs = set (page_list (PGROUNDUP kend) PHYSTOP)" using kuse_pages[OF assms] by blast
  have valid: "page_ok kend a" if "a \<in> set own" for a using that fs(3) by (intro all_pages_ok) blast
  have "0 \<notin> set own" using valid[of 0] assms(2) by (auto simp: page_ok_def)
  moreover have "fst (kalloc km) \<in> set fs" if "fs \<noteq> []"
    using that pgs.alloc_some[of kend km] fs(1) by (cases fs) auto
  moreover have zero: "fst (kalloc km) = 0 \<longleftrightarrow> fs = []" by (rule pgs.alloc_zero_iff[OF fs(1)])
  ultimately have "fst (kalloc km) \<notin> set own" using fs(2) by (cases "fs = []") auto
  moreover have "fs = [] \<longleftrightarrow> set own = set (page_list (PGROUNDUP kend) PHYSTOP)"
    using fs(2,3) by (cases fs) auto
  moreover have "kfree kend a km \<noteq> None" if "a \<in> set own" for a
    using pgs.free_keeps[OF fs valid[OF that] that] by auto
  ultimately show ?thesis using fs(2) zero by auto
qed

theorem kalloc_exclusive_witness:
  "\<exists>km. kuse (PHYSTOP - 8192) km [PHYSTOP - 4096] \<and> fst (kalloc km) \<noteq> PHYSTOP - 4096"
proof -
  let ?e = "PHYSTOP - 8192"
  have pages: "page_list (PGROUNDUP ?e) PHYSTOP = [PHYSTOP - 4096, ?e]"
    by (simp add: page_list_def PGROUNDUP_def PHYSTOP_def KERNBASE_def PGSIZE_def numeral_2_eq_2)
  have e: "0 < ?e" by (simp add: PHYSTOP_def KERNBASE_def)
  obtain km where km: "kinit ?e (\<lambda>_. In_use 0) = Some km" "kmem_ok ?e km [PHYSTOP - 4096, ?e]"
    using kinit_ok[OF e, of "\<lambda>_. In_use 0"] unfolding pages by blast
  have "kuse ?e (snd (kalloc km)) (if fst (kalloc km) \<noteq> 0 then fst (kalloc km) # [] else [])"
    by (rule kuse.alloc[OF kuse.start[OF km(1)]]) simp
  then have "kuse ?e (snd (kalloc km)) [PHYSTOP - 4096]" using kalloc_page(1,2)[OF km(2)] by simp
  with kalloc_exclusive[OF this e] show ?thesis by (intro exI[of _ "snd (kalloc km)"]) simp
qed

text \<open>The allocator does not notice a page that is freed twice: it is then handed out twice.\<close>

lemma double_free:
  assumes "kmem_ok kend km (a # fs)" "kfree kend a km = Some km'"
  shows "fst (kalloc km') = a" "fst (kalloc (snd (kalloc km'))) = a"
proof -
  have a: "freelist km = a" "a \<noteq> 0" using kmem_okD(1)[OF assms(1)] by auto
  have km': "km' = km\<lparr>pages := (pages km)(a := Run a), freelist := a\<rparr>"
    using assms(2) a(1) by (simp add: kfree_def split: if_splits)
  show "fst (kalloc km') = a" using a(2) by (simp add: km' kalloc_def)
  show "fst (kalloc (snd (kalloc km'))) = a" using a(2) by (simp add: km' kalloc_def)
qed

end
