(* ===== verification/Bcache.thy ===== *)
theory Bcache
  imports "HOL-Library.Word"
begin

text \<open>
  The buffer cache of xv6, \<open>xv6/kernel/bio.c\<close>: thirty buffers in a doubly linked list, the most
  recently used first.  The links are indices into the array, the index 30 is the head.
\<close>

section \<open>State\<close>

text \<open>A block of 1024 bytes is kept as its 256 words.\<close>

type_synonym block = "32 word list"
type_synonym blocknum = "32 word"

definition NBUF :: nat where "NBUF = 30"

abbreviation HEAD :: nat where "HEAD \<equiv> NBUF"

record sleeplock =
  locked :: bool
  pid :: nat

record buf =
  valid :: bool
  dev :: "32 word"
  blockno :: blocknum
  lock :: sleeplock
  refcnt :: "32 word"
  prev :: nat
  nxt :: nat
  data :: block

text \<open>\<open>disk\<close> is the medium and \<open>hist\<close> the writes to it so far, the last one last.\<close>

record store =
  bufs :: "nat \<Rightarrow> buf"
  disk :: "blocknum \<Rightarrow> block"
  hist :: "(blocknum \<times> block) list"

datatype io_fault = Panic string | Waits | Overrun

fun io_bind :: "io_fault + 'a \<Rightarrow> ('a \<Rightarrow> io_fault + 'b) \<Rightarrow> io_fault + 'b" where
  "io_bind (Inl e) f = Inl e"
| "io_bind (Inr x) f = f x"

definition upd :: "nat \<Rightarrow> (buf \<Rightarrow> buf) \<Rightarrow> store \<Rightarrow> store" where
  "upd b f s = s\<lparr>bufs := (bufs s)(b := f (bufs s b))\<rparr>"

section \<open>Sleep locks\<close>

definition initsleeplock :: "sleeplock \<Rightarrow> sleeplock" where
  "initsleeplock lk = lk\<lparr>locked := False, pid := 0\<rparr>"

text \<open>None means that the caller goes to sleep.\<close>

definition acquiresleep :: "nat \<Rightarrow> sleeplock \<Rightarrow> sleeplock option" where
  "acquiresleep me lk = (if locked lk then None else Some (lk\<lparr>locked := True, pid := me\<rparr>))"

definition releasesleep :: "sleeplock \<Rightarrow> sleeplock" where
  "releasesleep lk = lk\<lparr>locked := False, pid := 0\<rparr>"

definition holdingsleep :: "nat \<Rightarrow> sleeplock \<Rightarrow> bool" where
  "holdingsleep me lk \<longleftrightarrow> locked lk \<and> pid lk = me"

section \<open>Operations\<close>

text \<open>The four assignments that put \<open>b\<close> behind the head.\<close>

definition link_first :: "nat \<Rightarrow> store \<Rightarrow> store" where
  "link_first b s =
     (let s = upd b (nxt_update (\<lambda>_. nxt (bufs s HEAD))) s;
          s = upd b (prev_update (\<lambda>_. HEAD)) s;
          s = upd (nxt (bufs s HEAD)) (prev_update (\<lambda>_. b)) s
      in upd HEAD (nxt_update (\<lambda>_. b)) s)"

definition binit_link :: "nat \<Rightarrow> store \<Rightarrow> store" where
  "binit_link b s = link_first b (upd b (lock_update initsleeplock) s)"

definition binit :: "store \<Rightarrow> store" where
  "binit s =
     (let s = upd HEAD (prev_update (\<lambda>_. HEAD)) s;
          s = upd HEAD (nxt_update (\<lambda>_. HEAD)) s
      in fold binit_link [0 ..< NBUF] s)"

text \<open>The walks along the list end after at most 31 steps.\<close>

fun walk :: "(buf \<Rightarrow> nat) \<Rightarrow> (buf \<Rightarrow> bool) \<Rightarrow> store \<Rightarrow> nat \<Rightarrow> nat \<Rightarrow> nat option" where
  "walk dir hit s 0 b = None"
| "walk dir hit s (Suc k) b =
     (if b = HEAD then None
      else if hit (bufs s b) then Some b
      else walk dir hit s k (dir (bufs s b)))"

definition lock_buf :: "nat \<Rightarrow> nat \<Rightarrow> store \<Rightarrow> io_fault + nat \<times> store" where
  "lock_buf me b s =
     (case acquiresleep me (lock (bufs s b)) of
        None \<Rightarrow> Inl Waits
      | Some lk \<Rightarrow> Inr (b, upd b (lock_update (\<lambda>_. lk)) s))"

definition bget :: "nat \<Rightarrow> 32 word \<Rightarrow> blocknum \<Rightarrow> store \<Rightarrow> io_fault + nat \<times> store" where
  "bget me d bn s =
     (case walk nxt (\<lambda>b. dev b = d \<and> blockno b = bn) s (Suc NBUF) (nxt (bufs s HEAD)) of
        Some b \<Rightarrow> lock_buf me b (upd b (refcnt_update (\<lambda>r. r + 1)) s)
      | None \<Rightarrow>
        (case walk prev (\<lambda>b. refcnt b = 0) s (Suc NBUF) (prev (bufs s HEAD)) of
           Some b \<Rightarrow> lock_buf me b (upd b (\<lambda>x. x\<lparr>dev := d, blockno := bn, valid := False, refcnt := 1\<rparr>) s)
         | None \<Rightarrow> Inl (Panic ''bget: no buffers'')))"

text \<open>A request to the disk, after it is finished.\<close>

definition virtio_disk_rw :: "nat \<Rightarrow> bool \<Rightarrow> store \<Rightarrow> store" where
  "virtio_disk_rw b wr s =
     (let bn = blockno (bufs s b) in
      if wr then s\<lparr>disk := (disk s)(bn := data (bufs s b)), hist := hist s @ [(bn, data (bufs s b))]\<rparr>
      else upd b (data_update (\<lambda>_. disk s bn)) s)"

definition bread :: "nat \<Rightarrow> 32 word \<Rightarrow> blocknum \<Rightarrow> store \<Rightarrow> io_fault + nat \<times> store" where
  "bread me d bn s = io_bind (bget me d bn s) (\<lambda>(b, s).
     Inr (b, if \<not> valid (bufs s b) then upd b (valid_update (\<lambda>_. True)) (virtio_disk_rw b False s) else s))"

definition bwrite :: "nat \<Rightarrow> nat \<Rightarrow> store \<Rightarrow> io_fault + store" where
  "bwrite me b s =
     (if \<not> holdingsleep me (lock (bufs s b)) then Inl (Panic ''bwrite'') else Inr (virtio_disk_rw b True s))"

definition unlink :: "nat \<Rightarrow> store \<Rightarrow> store" where
  "unlink b s =
     (let s = upd (nxt (bufs s b)) (prev_update (\<lambda>_. prev (bufs s b))) s
      in upd (prev (bufs s b)) (nxt_update (\<lambda>_. nxt (bufs s b))) s)"

definition brelse :: "nat \<Rightarrow> nat \<Rightarrow> store \<Rightarrow> io_fault + store" where
  "brelse me b s =
     (if \<not> holdingsleep me (lock (bufs s b)) then Inl (Panic ''brelse'')
      else
        let s = upd b (lock_update releasesleep) s;
            s = upd b (refcnt_update (\<lambda>r. r - 1)) s
        in Inr (if refcnt (bufs s b) = 0 then link_first b (unlink b s) else s))"

definition bpin :: "nat \<Rightarrow> store \<Rightarrow> store" where
  "bpin b s = upd b (refcnt_update (\<lambda>r. r + 1)) s"

definition bunpin :: "nat \<Rightarrow> store \<Rightarrow> store" where
  "bunpin b s = upd b (refcnt_update (\<lambda>r. r - 1)) s"

section \<open>The list\<close>

fun chain :: "(nat \<Rightarrow> nat) \<Rightarrow> (nat \<Rightarrow> nat) \<Rightarrow> nat list \<Rightarrow> bool" where
  "chain nx pr (a # b # r) \<longleftrightarrow> nx a = b \<and> pr b = a \<and> chain nx pr (b # r)"
| "chain nx pr _ \<longleftrightarrow> True"

lemma chain_append: "chain nx pr (xs @ x # ys) \<longleftrightarrow> chain nx pr (xs @ [x]) \<and> chain nx pr (x # ys)"
proof (induction xs)
  case (Cons a xs)
  then show ?case by (cases xs) auto
qed simp

lemma chain_nx: "a \<notin> set (butlast xs) \<Longrightarrow> chain (nx(a := v)) pr xs \<longleftrightarrow> chain nx pr xs"
  by (induction nx pr xs rule: chain.induct) auto

lemma chain_pr: "a \<notin> set (tl xs) \<Longrightarrow> chain nx (pr(a := v)) xs \<longleftrightarrow> chain nx pr xs"
  by (induction nx pr xs rule: chain.induct) auto

lemma chain_upd2:
  assumes "a \<notin> set (butlast xs)" "a' \<notin> set (butlast xs)" "c \<notin> set (tl xs)" "c' \<notin> set (tl xs)"
  shows "chain (nx(a := v, a' := v')) (pr(c := w, c' := w')) xs \<longleftrightarrow> chain nx pr xs"
  using assms by (simp add: chain_nx chain_pr)

definition nx :: "store \<Rightarrow> nat \<Rightarrow> nat" where "nx s b = nxt (bufs s b)"
definition pr :: "store \<Rightarrow> nat \<Rightarrow> nat" where "pr s b = prev (bufs s b)"

text \<open>\<open>xs\<close> are the buffers in the order of the list.\<close>

definition lru :: "store \<Rightarrow> nat list \<Rightarrow> bool" where
  "lru s xs \<longleftrightarrow> chain (nx s) (pr s) (HEAD # xs @ [HEAD]) \<and> distinct (HEAD # xs)"

lemma walk_next:
  assumes "chain (nx s) (pr s) (xs @ [HEAD])" "HEAD \<notin> set xs" "length xs < k"
  shows "walk nxt hit s k (hd (xs @ [HEAD])) = find (\<lambda>b. hit (bufs s b)) xs"
  using assms
proof (induction xs arbitrary: k)
  case Nil
  then show ?case by (cases k) auto
next
  case (Cons a xs)
  from Cons.prems(3) obtain j where k: "k = Suc j" by (cases k) auto
  have "nxt (bufs s a) = hd (xs @ [HEAD])" using Cons.prems(1) by (cases xs) (auto simp: nx_def)
  moreover have "chain (nx s) (pr s) (xs @ [HEAD])" using Cons.prems(1) by (cases xs) auto
  ultimately show ?case using Cons k by auto
qed

lemma walk_prev:
  assumes "chain (nx s) (pr s) (HEAD # xs)" "HEAD \<notin> set xs" "length xs < k"
  shows "walk prev hit s k (last (HEAD # xs)) = find (\<lambda>b. hit (bufs s b)) (rev xs)"
  using assms
proof (induction xs arbitrary: k rule: rev_induct)
  case Nil
  then show ?case by (cases k) auto
next
  case (snoc a xs)
  from snoc.prems(3) obtain j where k: "k = Suc j" by (cases k) auto
  obtain ys z where yz: "HEAD # xs = ys @ [z]" by (metis append_butlast_last_id list.distinct(1))
  then have "HEAD # xs @ [a] = ys @ z # [a]" by (metis append_Cons append_assoc append_Nil)
  then have "chain (nx s) (pr s) (ys @ z # [a])" using snoc.prems(1) by (simp only:)
  then have c: "chain (nx s) (pr s) (HEAD # xs)" "prev (bufs s a) = z"
    unfolding chain_append[of _ _ ys z "[a]"] yz by (simp_all add: pr_def)
  have "z = last (HEAD # xs)" unfolding yz by simp
  then show ?case using snoc c k by auto
qed

lemma lru_walks:
  assumes "lru s xs" "length xs \<le> NBUF"
  shows "walk nxt hit s (Suc NBUF) (nxt (bufs s HEAD)) = find (\<lambda>b. hit (bufs s b)) xs"
    and "walk prev hit s (Suc NBUF) (prev (bufs s HEAD)) = find (\<lambda>b. hit (bufs s b)) (rev xs)"
proof -
  have c: "chain (nx s) (pr s) (HEAD # xs @ [HEAD])" "HEAD \<notin> set xs" using assms(1) by (auto simp: lru_def)
  then have "chain (nx s) (pr s) (xs @ [HEAD])" "nxt (bufs s HEAD) = hd (xs @ [HEAD])" by (cases xs; simp add: nx_def)+
  then show "walk nxt hit s (Suc NBUF) (nxt (bufs s HEAD)) = find (\<lambda>b. hit (bufs s b)) xs"
    using walk_next[of s xs "Suc NBUF"] c(2) assms(2) by simp
  obtain ys z where yz: "HEAD # xs = ys @ [z]" by (metis append_butlast_last_id list.distinct(1))
  then have "HEAD # xs @ [HEAD] = ys @ z # [HEAD]" by (metis append_Cons append_assoc append_Nil)
  then have "chain (nx s) (pr s) (ys @ z # [HEAD])" using c(1) by (simp only:)
  then have "chain (nx s) (pr s) (HEAD # xs)" "prev (bufs s HEAD) = last (HEAD # xs)"
    unfolding chain_append[of _ _ ys z "[HEAD]"] yz by (simp_all add: pr_def)
  then show "walk prev hit s (Suc NBUF) (prev (bufs s HEAD)) = find (\<lambda>b. hit (bufs s b)) (rev xs)"
    using walk_prev[of s xs "Suc NBUF"] c(2) assms(2) by simp
qed

lemma link_first_lru:
  assumes "lru s xs" "b \<notin> set (HEAD # xs)"
  shows "lru (link_first b s) (b # xs)"
proof -
  obtain z zs where z: "xs @ [HEAD] = z # zs" by (cases "xs @ [HEAD]") auto
  have bl: "butlast (z # zs) = xs" unfolding z[symmetric] by simp
  have c: "chain (nx s) (pr s) (HEAD # z # zs)" "distinct (HEAD # xs)" using assms(1) z by (simp_all add: lru_def)
  then have h: "nxt (bufs s HEAD) = z" by (simp add: nx_def)
  have zz: "z \<notin> set zs" using c(2) z by (cases xs) auto
  have bz: "b \<notin> set (z # zs)" using assms(2) unfolding z[symmetric] by auto
  have n: "nx (link_first b s) = (nx s)(b := z, HEAD := b)" "pr (link_first b s) = (pr s)(b := HEAD, z := b)"
    using assms(2) by (auto simp: link_first_def Let_def h upd_def nx_def pr_def)
  have "chain (nx (link_first b s)) (pr (link_first b s)) (z # zs) = chain (nx s) (pr s) (z # zs)"
    unfolding n by (rule chain_upd2; use assms(2) c(2) bz zz in \<open>simp only: bl list.sel; simp\<close>)
  moreover have "nx (link_first b s) HEAD = b" "nx (link_first b s) b = z" "pr (link_first b s) b = HEAD"
    "pr (link_first b s) z = b" using assms(2) bz unfolding n by auto
  ultimately show ?thesis using assms(2) c bz by (simp add: lru_def z)
qed

lemma unlink_lru:
  assumes "lru s (ys @ b # zs)"
  shows "lru (unlink b s) (ys @ zs)"
proof -
  obtain p ps where p: "HEAD # ys = ps @ [p]" by (metis append_butlast_last_id list.distinct(1))
  obtain q qs where q: "zs @ [HEAD] = q # qs" by (cases "zs @ [HEAD]") auto
  have d: "distinct (ps @ p # b # zs)" using assms p by (metis append.assoc append_Cons append_Nil lru_def)
  have d': "distinct (ys @ b # q # qs)"
    using assms q unfolding lru_def by (metis append.assoc append_Cons distinct_append distinct1_rotate rotate1.simps(2))
  have "HEAD # (ys @ b # zs) @ [HEAD] = ps @ p # b # q # qs"
    using p q by (metis append.assoc append_Cons append_Nil)
  then have c: "chain (nx s) (pr s) (ps @ p # b # q # qs)" using assms by (simp only: lru_def)
  then have c1: "chain (nx s) (pr s) (ps @ [p])" and c2: "nxt (bufs s p) = b" "prev (bufs s b) = p" "nxt (bufs s b) = q"
    "prev (bufs s q) = b" and c3: "chain (nx s) (pr s) (q # qs)"
    unfolding chain_append[of _ _ ps p "b # q # qs"] by (simp_all add: nx_def pr_def)
  have ne: "b \<noteq> q" "b \<noteq> p" using d d' by auto
  have n: "nx (unlink b s) = (nx s)(p := q)" "pr (unlink b s) = (pr s)(q := p)"
    using c2 ne by (auto simp: unlink_def Let_def upd_def nx_def pr_def)
  have tl1: "tl (ps @ [p]) = ys" unfolding p[symmetric] by simp
  have bl: "butlast (q # qs) = zs" unfolding q[symmetric] by simp
  have "chain (nx (unlink b s)) (pr (unlink b s)) (ps @ [p])"
    unfolding n using c1 d d' by (subst chain_nx, simp, subst chain_pr) (auto simp: tl1)
  moreover have "chain (nx (unlink b s)) (pr (unlink b s)) (q # qs)"
  proof -
    have "p \<notin> set (butlast (q # qs))" unfolding bl using d by simp
    then show ?thesis unfolding n using c3 d' by (simp add: chain_nx chain_pr)
  qed
  moreover have "nx (unlink b s) p = q" "pr (unlink b s) q = p" unfolding n by simp_all
  ultimately have "chain (nx (unlink b s)) (pr (unlink b s)) (ps @ p # q # qs)"
    unfolding chain_append[of _ _ ps p "q # qs"] by simp
  moreover have "HEAD # (ys @ zs) @ [HEAD] = ps @ p # q # qs"
    using p q by (metis append.assoc append_Cons append_Nil)
  ultimately show ?thesis using assms by (simp only: lru_def) auto
qed

section \<open>What the cache promises\<close>

text \<open>All that is in a buffer but its links.\<close>

definition core :: "store \<Rightarrow> nat \<Rightarrow> buf" where
  "core s b = (bufs s b)\<lparr>prev := 0, nxt := 0\<rparr>"

lemma core_fields:
  assumes "core s' b = core s b"
  shows "valid (bufs s' b) = valid (bufs s b)" "dev (bufs s' b) = dev (bufs s b)"
    "blockno (bufs s' b) = blockno (bufs s b)" "lock (bufs s' b) = lock (bufs s b)"
    "refcnt (bufs s' b) = refcnt (bufs s b)" "data (bufs s' b) = data (bufs s b)"
  using arg_cong[OF assms, of valid] arg_cong[OF assms, of dev] arg_cong[OF assms, of blockno]
    arg_cong[OF assms, of lock] arg_cong[OF assms, of refcnt] arg_cong[OF assms, of data]
  by (simp_all add: core_def)

lemma link_first_core [simp]: "core (link_first b s) = core s"
  by (auto simp: core_def link_first_def Let_def upd_def)

lemma unlink_core [simp]: "core (unlink b s) = core s"
  by (auto simp: core_def unlink_def Let_def upd_def)

lemma links_disk [simp]:
  "disk (link_first b s) = disk s" "hist (link_first b s) = hist s"
  "disk (unlink b s) = disk s" "hist (unlink b s) = hist s"
  "disk (upd b f s) = disk s" "hist (upd b f s) = hist s"
  by (simp_all add: link_first_def unlink_def Let_def upd_def)

definition cached :: "32 word \<Rightarrow> store \<Rightarrow> blocknum \<Rightarrow> nat \<Rightarrow> bool" where
  "cached d s bn b \<longleftrightarrow> b < NBUF \<and> dev (bufs s b) = d \<and> blockno (bufs s b) = bn"

text \<open>
  The list holds all buffers; a block has one buffer; a locked buffer is referenced; a buffer nobody
  references agrees with the disk.
\<close>

definition cache_ok :: "32 word \<Rightarrow> store \<Rightarrow> bool" where
  "cache_ok d s \<longleftrightarrow>
     (\<exists>xs. lru s xs \<and> set xs = {0 ..< NBUF}) \<and>
     (\<forall>bn b b'. cached d s bn b \<and> cached d s bn b' \<longrightarrow> b = b') \<and>
     (\<forall>b < NBUF. locked (lock (bufs s b)) \<longrightarrow> refcnt (bufs s b) \<noteq> 0) \<and>
     (\<forall>bn b. cached d s bn b \<and> valid (bufs s b) \<and> refcnt (bufs s b) = 0 \<longrightarrow> data (bufs s b) = disk s bn)"

text \<open>The content of a block, as a reader sees it.\<close>

definition view :: "32 word \<Rightarrow> store \<Rightarrow> blocknum \<Rightarrow> block" where
  "view d s bn =
     (case find (\<lambda>b. dev (bufs s b) = d \<and> blockno (bufs s b) = bn \<and> valid (bufs s b)) [0 ..< NBUF] of
        Some b \<Rightarrow> data (bufs s b)
      | None \<Rightarrow> disk s bn)"

lemma cache_okD:
  assumes "cache_ok d s"
  shows "\<exists>xs. lru s xs \<and> set xs = {0 ..< NBUF}"
    and "cached d s bn b \<Longrightarrow> cached d s bn b' \<Longrightarrow> b = b'"
    and "b < NBUF \<Longrightarrow> locked (lock (bufs s b)) \<Longrightarrow> refcnt (bufs s b) \<noteq> 0"
    and "cached d s bn b \<Longrightarrow> valid (bufs s b) \<Longrightarrow> refcnt (bufs s b) = 0 \<Longrightarrow> data (bufs s b) = disk s bn"
  using assms unfolding cache_ok_def by blast+

lemma view_cached:
  assumes "cache_ok d s" "cached d s bn b" "valid (bufs s b)"
  shows "view d s bn = data (bufs s b)"
proof -
  let ?P = "\<lambda>b. dev (bufs s b) = d \<and> blockno (bufs s b) = bn \<and> valid (bufs s b)"
  have "find ?P [0 ..< NBUF] \<noteq> None" using assms(2,3) by (auto simp: find_None_iff cached_def)
  then obtain b' where f: "find ?P [0 ..< NBUF] = Some b'" by blast
  then have "cached d s bn b'" by (auto simp: find_Some_iff cached_def)
  then have "b' = b" using cache_okD(2)[OF assms(1)] assms(2) by blast
  then show ?thesis using f by (simp add: view_def)
qed

lemma view_uncached:
  assumes "\<And>b. cached d s bn b \<Longrightarrow> \<not> valid (bufs s b)"
  shows "view d s bn = disk s bn"
proof -
  have "find (\<lambda>b. dev (bufs s b) = d \<and> blockno (bufs s b) = bn \<and> valid (bufs s b)) [0 ..< NBUF] = None"
    using assms by (auto simp: find_None_iff cached_def)
  then show ?thesis by (simp add: view_def)
qed

lemma lru_links:
  assumes "\<And>b. nxt (bufs s' b) = nxt (bufs s b)" "\<And>b. prev (bufs s' b) = prev (bufs s b)"
  shows "lru s' xs = lru s xs"
proof -
  have "nx s' = nx s" "pr s' = pr s" using assms by (auto simp: nx_def pr_def)
  then show ?thesis by (simp add: lru_def)
qed

text \<open>\<open>s'\<close> is \<open>s\<close> after \<open>b\<close> was made the locked and referenced buffer of the block.\<close>

definition fetched :: "nat \<Rightarrow> 32 word \<Rightarrow> blocknum \<Rightarrow> store \<Rightarrow> nat \<Rightarrow> store \<Rightarrow> bool" where
  "fetched me d bn s b s' \<longleftrightarrow>
     b < NBUF \<and> (cached d s bn b \<or> refcnt (bufs s b) = 0 \<and> (\<forall>b'. \<not> cached d s bn b')) \<and>
     \<not> locked (lock (bufs s b)) \<and> refcnt (bufs s b) + 1 \<noteq> 0 \<and>
     s' = s\<lparr>bufs := (bufs s)(b := (bufs s b)\<lparr>valid := True, dev := d, blockno := bn,
       lock := \<lparr>locked = True, pid = me\<rparr>, refcnt := refcnt (bufs s b) + 1, data := view d s bn\<rparr>)\<rparr>"

lemma fetchedD:
  assumes "fetched me d bn s b s'"
  shows "b < NBUF" "cached d s' bn b" "valid (bufs s' b)" "data (bufs s' b) = view d s bn"
    "holdingsleep me (lock (bufs s' b))" "refcnt (bufs s' b) = refcnt (bufs s b) + 1"
    "x \<noteq> b \<Longrightarrow> bufs s' x = bufs s x" "disk s' = disk s" "hist s' = hist s"
    "nxt (bufs s' x) = nxt (bufs s x)" "prev (bufs s' x) = prev (bufs s x)"
    "cached d s bn b \<or> refcnt (bufs s b) = 0 \<and> (\<forall>b'. \<not> cached d s bn b')"
    "\<not> locked (lock (bufs s b))" "refcnt (bufs s' b) \<noteq> 0"
proof -
  show "cached d s bn b \<or> refcnt (bufs s b) = 0 \<and> (\<forall>b'. \<not> cached d s bn b')"
    using assms unfolding fetched_def by blast
qed (use assms in \<open>simp_all add: fetched_def cached_def holdingsleep_def\<close>)

lemma fetched_cached:
  assumes "fetched me d bn s b s'" "cached d s' bn' b'"
  shows "b' = b \<and> bn' = bn \<or> b' \<noteq> b \<and> cached d s bn' b'"
  using assms by (auto simp: fetched_def cached_def split: if_splits)

lemma fetched_ok:
  assumes "cache_ok d s" "fetched me d bn s b s'"
  shows "cache_ok d s'"
  unfolding cache_ok_def
proof (intro conjI allI impI)
  note D = fetchedD[OF assms(2)]
  show "\<exists>xs. lru s' xs \<and> set xs = {0 ..< NBUF}"
    using cache_okD(1)[OF assms(1)] lru_links[of s' s] D(10,11) by simp
  have uniq: "b1 = b" if "cached d s bn b1" for b1 using that D(12) cache_okD(2)[OF assms(1)] by blast
  show "b1 = b2" if "cached d s' bn' b1 \<and> cached d s' bn' b2" for bn' b1 b2
    using that fetched_cached[OF assms(2), of bn' b1] fetched_cached[OF assms(2), of bn' b2]
      cache_okD(2)[OF assms(1), of bn' b1 b2] uniq by blast
  show "refcnt (bufs s' x) \<noteq> 0" if "x < NBUF" "locked (lock (bufs s' x))" for x
    using that D(7)[of x] D(14) cache_okD(3)[OF assms(1), of x] by (cases "x = b") auto
  show "data (bufs s' x) = disk s' bn'" if "cached d s' bn' x \<and> valid (bufs s' x) \<and> refcnt (bufs s' x) = 0" for bn' x
  proof -
    have "x \<noteq> b" using that D(14) by blast
    then show ?thesis
      using that D(7)[of x] D(8) fetched_cached[OF assms(2), of bn' x] cache_okD(4)[OF assms(1), of bn' x] by simp
  qed
qed

lemma fetched_view:
  assumes "cache_ok d s" "fetched me d bn s b s'"
  shows "view d s' = view d s"
proof
  fix bn'
  note D = fetchedD[OF assms(2)] and ok' = fetched_ok[OF assms]
  show "view d s' bn' = view d s bn'"
  proof (cases "\<exists>x. cached d s' bn' x \<and> valid (bufs s' x)")
    case True
    then obtain x where x: "cached d s' bn' x" "valid (bufs s' x)" by blast
    then have v: "view d s' bn' = data (bufs s' x)" using view_cached[OF ok'] by blast
    show ?thesis
    proof (cases "x = b")
      case True
      then show ?thesis using v D(4) fetched_cached[OF assms(2) x(1)] by simp
    next
      case False
      then show ?thesis
        using v D(7)[OF False] x view_cached[OF assms(1), of bn' x] fetched_cached[OF assms(2) x(1)] by simp
    qed
  next
    case False
    then have bn: "bn' \<noteq> bn" using D(2,3) by blast
    have "view d s bn' = disk s bn'"
    proof (cases "\<exists>x. cached d s bn' x \<and> valid (bufs s x)")
      case True
      then obtain x where x: "cached d s bn' x" "valid (bufs s x)" by blast
      have "x = b"
      proof (rule ccontr)
        assume "x \<noteq> b"
        then have "bufs s' x = bufs s x" by (rule D(7))
        then have "cached d s' bn' x \<and> valid (bufs s' x)" using x by (simp add: cached_def)
        then show False using False by blast
      qed
      then have "refcnt (bufs s x) = 0" using D(12) x(1) bn by (auto simp: cached_def)
      then show ?thesis using cache_okD(4)[OF assms(1) x] view_cached[OF assms(1) x] by simp
    next
      case False
      then show ?thesis by (intro view_uncached) blast
    qed
    then show ?thesis using view_uncached[of d s' bn'] False D(8) by simp
  qed
qed

lemma acquired_lock: "lk\<lparr>locked := True, pid := me\<rparr> = \<lparr>locked = True, pid = me\<rparr>"
  by (cases lk) simp

lemma cache_walks:
  assumes "cache_ok d s"
  obtains xs where "set xs = {0 ..< NBUF}" "lru s xs"
    "\<And>hit. walk nxt hit s (Suc NBUF) (nxt (bufs s HEAD)) = find (\<lambda>b. hit (bufs s b)) xs"
    "\<And>hit. walk prev hit s (Suc NBUF) (prev (bufs s HEAD)) = find (\<lambda>b. hit (bufs s b)) (rev xs)"
proof -
  obtain xs where xs: "lru s xs" "set xs = {0 ..< NBUF}" using cache_okD(1)[OF assms] by blast
  have "distinct xs" using xs(1) by (simp add: lru_def)
  then have "length xs \<le> NBUF" using xs(2) by (metis distinct_card card_atLeastLessThan diff_zero order_refl)
  from that[OF xs(2,1) lru_walks[OF xs(1) this]] show thesis .
qed

lemma bread_none:
  assumes "cache_ok d s" "\<And>b. \<not> cached d s bn b" "\<And>b. b < NBUF \<Longrightarrow> refcnt (bufs s b) \<noteq> 0"
  shows "bread me d bn s = Inl (Panic ''bget: no buffers'')"
proof (rule cache_walks[OF assms(1)])
  fix xs assume xs: "set xs = {0 ..< NBUF}" "lru s xs"
    and w: "\<And>hit. walk nxt hit s (Suc NBUF) (nxt (bufs s HEAD)) = find (\<lambda>b. hit (bufs s b)) xs"
      "\<And>hit. walk prev hit s (Suc NBUF) (prev (bufs s HEAD)) = find (\<lambda>b. hit (bufs s b)) (rev xs)"
  have "find (\<lambda>b. dev (bufs s b) = d \<and> blockno (bufs s b) = bn) xs = None" "find (\<lambda>b. refcnt (bufs s b) = 0) (rev xs) = None"
    using assms(2,3) xs(1) by (auto simp: find_None_iff cached_def)
  then show ?thesis unfolding bread_def bget_def w by simp
qed

lemma bread_ok:
  assumes "cache_ok d s" "\<And>b. cached d s bn b \<Longrightarrow> \<not> locked (lock (bufs s b)) \<and> refcnt (bufs s b) + 1 \<noteq> 0"
    and "(\<exists>b. cached d s bn b) \<or> (\<exists>b < NBUF. refcnt (bufs s b) = 0)"
  obtains b s' where "bread me d bn s = Inr (b, s')" "fetched me d bn s b s'"
proof (rule cache_walks[OF assms(1)])
  fix xs assume xs: "set xs = {0 ..< NBUF}" "lru s xs"
    and walks: "\<And>hit. walk nxt hit s (Suc NBUF) (nxt (bufs s HEAD)) = find (\<lambda>b. hit (bufs s b)) xs"
      "\<And>hit. walk prev hit s (Suc NBUF) (prev (bufs s HEAD)) = find (\<lambda>b. hit (bufs s b)) (rev xs)"
  let ?hit = "\<lambda>b. dev (bufs s b) = d \<and> blockno (bufs s b) = bn"
  show thesis
  proof (cases "\<exists>b. cached d s bn b")
    case True
    then have "find ?hit xs \<noteq> None" using xs(1) by (auto simp: find_None_iff cached_def)
    then obtain b where f: "find ?hit xs = Some b" by blast
    then have c: "cached d s bn b" using xs(1) by (fastforce simp: find_Some_iff cached_def)
    note a = assms(2)[OF c]
    have v: "view d s bn = (if valid (bufs s b) then data (bufs s b) else disk s bn)"
      using view_cached[OF assms(1) c] view_uncached[of d s bn] cache_okD(2)[OF assms(1) c] by auto
    have "\<exists>s'. bread me d bn s = Inr (b, s') \<and> fetched me d bn s b s'"
      using c a f unfolding bread_def bget_def walks(1) fetched_def v
      by (cases "bufs s b") (auto simp: cached_def lock_buf_def acquiresleep_def acquired_lock upd_def virtio_disk_rw_def)
    then show thesis using that by blast
  next
    case False
    then have n: "find ?hit xs = None" using xs(1) by (auto simp: find_None_iff cached_def)
    obtain b0 where "b0 < NBUF" "refcnt (bufs s b0) = 0" using False assms(3) by blast
    then have "find (\<lambda>b. refcnt (bufs s b) = 0) (rev xs) \<noteq> None" using xs(1) by (auto simp: find_None_iff)
    then obtain b where f: "find (\<lambda>b. refcnt (bufs s b) = 0) (rev xs) = Some b" by blast
    then obtain i where "i < length (rev xs)" "refcnt (bufs s (rev xs ! i)) = 0" "b = rev xs ! i"
      unfolding find_Some_iff by blast
    then have b: "b \<in> set (rev xs)" "refcnt (bufs s b) = 0" using nth_mem by blast+
    then have b': "b < NBUF" using xs(1) by simp
    have u: "\<not> locked (lock (bufs s b))" using cache_okD(3)[OF assms(1) b'] b(2) by blast
    have v: "view d s bn = disk s bn" using False by (intro view_uncached) blast
    have "\<exists>s'. bread me d bn s = Inr (b, s') \<and> fetched me d bn s b s'"
      using False b b' u n f unfolding bread_def bget_def walks fetched_def v
      by (cases "bufs s b") (auto simp: cached_def lock_buf_def acquiresleep_def acquired_lock upd_def virtio_disk_rw_def)
    then show thesis using that by blast
  qed
qed

text \<open>Stores into the data of a buffer.\<close>

definition set_data :: "nat \<Rightarrow> block \<Rightarrow> store \<Rightarrow> store" where
  "set_data b v s = upd b (data_update (\<lambda>_. v)) s"

lemma set_data_fields [simp]:
  "valid (bufs (set_data b v s) x) = valid (bufs s x)" "dev (bufs (set_data b v s) x) = dev (bufs s x)"
  "blockno (bufs (set_data b v s) x) = blockno (bufs s x)" "lock (bufs (set_data b v s) x) = lock (bufs s x)"
  "refcnt (bufs (set_data b v s) x) = refcnt (bufs s x)"
  "data (bufs (set_data b v s) x) = (if x = b then v else data (bufs s x))"
  "prev (bufs (set_data b v s) x) = prev (bufs s x)" "nxt (bufs (set_data b v s) x) = nxt (bufs s x)"
  "disk (set_data b v s) = disk s" "hist (set_data b v s) = hist s"
  "cached d (set_data b v s) bn x = cached d s bn x"
  by (simp_all add: set_data_def upd_def cached_def)

lemma set_data_ok:
  assumes "cache_ok d s" "refcnt (bufs s b) \<noteq> 0"
  shows "cache_ok d (set_data b v s)"
  unfolding cache_ok_def
proof (intro conjI)
  show "\<exists>xs. lru (set_data b v s) xs \<and> set xs = {0 ..< NBUF}"
    using cache_okD(1)[OF assms(1)] lru_links[of "set_data b v s" s] by simp
  show "\<forall>bn b1 b2. cached d (set_data b v s) bn b1 \<and> cached d (set_data b v s) bn b2 \<longrightarrow> b1 = b2"
    using cache_okD(2)[OF assms(1)] by auto
  show "\<forall>x < NBUF. locked (lock (bufs (set_data b v s) x)) \<longrightarrow> refcnt (bufs (set_data b v s) x) \<noteq> 0"
    using cache_okD(3)[OF assms(1)] by simp
  show "\<forall>bn x. cached d (set_data b v s) bn x \<and> valid (bufs (set_data b v s) x) \<and>
      refcnt (bufs (set_data b v s) x) = 0 \<longrightarrow> data (bufs (set_data b v s) x) = disk (set_data b v s) bn"
    using cache_okD(4)[OF assms(1)] assms(2) by auto
qed

lemma cache_view_eqI:
  assumes "cache_ok d s" "cache_ok d s'" "\<And>x. cached d s' bn x \<longleftrightarrow> cached d s bn x"
    "\<And>x. cached d s bn x \<Longrightarrow> valid (bufs s' x) = valid (bufs s x)"
    "\<And>x. cached d s bn x \<Longrightarrow> data (bufs s' x) = data (bufs s x)"
    "(\<And>x. cached d s bn x \<Longrightarrow> \<not> valid (bufs s x)) \<Longrightarrow> disk s' bn = disk s bn"
  shows "view d s' bn = view d s bn"
proof (cases "\<exists>x. cached d s bn x \<and> valid (bufs s x)")
  case True
  then obtain x where x: "cached d s bn x" "valid (bufs s x)" by blast
  then have x': "cached d s' bn x" "valid (bufs s' x)" using assms(3)[of x] assms(4)[of x] by simp_all
  show ?thesis using view_cached[OF assms(1) x] view_cached[OF assms(2) x'] assms(5)[OF x(1)] by simp
next
  case False
  then have "view d s bn = disk s bn" by (intro view_uncached) blast
  moreover have "view d s' bn = disk s' bn" using False assms(3,4) by (intro view_uncached) auto
  ultimately show ?thesis using assms(6) False by auto
qed

lemma set_data_view:
  assumes "cache_ok d s" "refcnt (bufs s b) \<noteq> 0" "cached d s bn b" "valid (bufs s b)"
  shows "view d (set_data b v s) = (view d s)(bn := v)"
proof
  fix bn'
  note ok' = set_data_ok[OF assms(1,2), of v]
  show "view d (set_data b v s) bn' = ((view d s)(bn := v)) bn'"
  proof (cases "bn' = bn")
    case True
    then show ?thesis using view_cached[OF ok', of bn b] assms(3,4) by simp
  next
    case False
    then have "\<not> cached d s bn' b" using assms(3) by (auto simp: cached_def)
    then have "view d (set_data b v s) bn' = view d s bn'"
      by (intro cache_view_eqI[OF assms(1) ok']) (auto split: if_splits)
    then show ?thesis using False by simp
  qed
qed

lemma bwrite_ok:
  assumes "cache_ok d s" "cached d s bn b" "valid (bufs s b)" "holdingsleep me (lock (bufs s b))"
  obtains s' where "bwrite me b s = Inr s'" "bufs s' = bufs s" "disk s' = (disk s)(bn := view d s bn)"
    "hist s' = hist s @ [(bn, view d s bn)]" "cache_ok d s'" "view d s' = view d s"
proof -
  have v: "view d s bn = data (bufs s b)" by (rule view_cached[OF assms(1-3)])
  let ?s = "s\<lparr>disk := (disk s)(bn := view d s bn), hist := hist s @ [(bn, view d s bn)]\<rparr>"
  have c: "cached d ?s bn' x = cached d s bn' x" for bn' x by (simp add: cached_def)
  have r: "refcnt (bufs s b) \<noteq> 0"
    using cache_okD(3)[OF assms(1), of b] assms(2,4) by (auto simp: cached_def holdingsleep_def)
  have ok: "cache_ok d ?s"
    unfolding cache_ok_def c
  proof (intro conjI)
    show "\<exists>xs. lru ?s xs \<and> set xs = {0 ..< NBUF}" using cache_okD(1)[OF assms(1)] lru_links[of ?s s] by simp
    show "\<forall>bn' b1 b2. cached d s bn' b1 \<and> cached d s bn' b2 \<longrightarrow> b1 = b2"
      using cache_okD(2)[OF assms(1)] by blast
    show "\<forall>x < NBUF. locked (lock (bufs ?s x)) \<longrightarrow> refcnt (bufs ?s x) \<noteq> 0"
      using cache_okD(3)[OF assms(1)] by simp
    show "\<forall>bn' x. cached d s bn' x \<and> valid (bufs ?s x) \<and> refcnt (bufs ?s x) = 0 \<longrightarrow> data (bufs ?s x) = disk ?s bn'"
      using cache_okD(4)[OF assms(1)] cache_okD(2)[OF assms(1,2)] r by auto
  qed
  moreover have "view d ?s = view d s"
  proof
    show "view d ?s bn' = view d s bn'" for bn'
      by (rule cache_view_eqI[OF assms(1) ok]) (use c assms(2,3) in auto)
  qed
  moreover have "bwrite me b s = Inr ?s"
    using assms(2,4) v by (simp add: bwrite_def virtio_disk_rw_def cached_def Let_def)
  ultimately show thesis using that[of ?s] by simp
qed

text \<open>Locks and counters may change as long as no buffer that differs from the disk loses its last reference.\<close>

lemma relabel_ok:
  assumes "cache_ok d s" "\<exists>xs. lru s' xs \<and> set xs = {0 ..< NBUF}" "disk s' = disk s"
    "\<And>x. valid (bufs s' x) = valid (bufs s x)" "\<And>x. dev (bufs s' x) = dev (bufs s x)"
    "\<And>x. blockno (bufs s' x) = blockno (bufs s x)" "\<And>x. data (bufs s' x) = data (bufs s x)"
    "\<And>x. x < NBUF \<Longrightarrow> locked (lock (bufs s' x)) \<Longrightarrow> refcnt (bufs s' x) \<noteq> 0"
    "\<And>x bn. cached d s bn x \<Longrightarrow> valid (bufs s x) \<Longrightarrow> refcnt (bufs s' x) = 0 \<Longrightarrow> data (bufs s x) = disk s bn"
  shows "cache_ok d s'" "view d s' = view d s"
proof -
  have c: "cached d s' bn x = cached d s bn x" for bn x using assms(5,6) by (simp add: cached_def)
  show ok: "cache_ok d s'"
    unfolding cache_ok_def c using assms(2,8,9) cache_okD(2)[OF assms(1)] assms(3,4,7) by auto
  show "view d s' = view d s"
    by (rule ext, rule cache_view_eqI[OF assms(1) ok]) (use c assms(3,4,7) in auto)
qed

lemma move_first_lru:
  assumes "lru s xs" "b \<in> set xs"
  shows "\<exists>ys. lru (link_first b (unlink b s)) ys \<and> set ys = set xs"
proof -
  obtain as bs where ab: "xs = as @ b # bs" using assms(2) by (meson split_list)
  have "lru (unlink b s) (as @ bs)" using assms(1) unlink_lru ab by blast
  moreover have "b \<notin> set (HEAD # as @ bs)" using assms(1) ab by (auto simp: lru_def)
  ultimately have "lru (link_first b (unlink b s)) (b # as @ bs)" by (rule link_first_lru)
  then show ?thesis using ab by (intro exI[of _ "b # as @ bs"]) auto
qed

lemma brelse_ok:
  assumes "cache_ok d s" "b < NBUF" "holdingsleep me (lock (bufs s b))"
    "\<And>bn. cached d s bn b \<Longrightarrow> valid (bufs s b) \<Longrightarrow> refcnt (bufs s b) = 1 \<Longrightarrow> data (bufs s b) = disk s bn"
  obtains s' where "brelse me b s = Inr s'"
    "core s' = (core s)(b := (core s b)\<lparr>lock := \<lparr>locked = False, pid = 0\<rparr>, refcnt := refcnt (bufs s b) - 1\<rparr>)"
    "disk s' = disk s" "hist s' = hist s" "cache_ok d s'" "view d s' = view d s"
proof -
  define t where "t = upd b (\<lambda>x. x\<lparr>lock := \<lparr>locked = False, pid = 0\<rparr>, refcnt := refcnt x - 1\<rparr>) s"
  define s' where "s' = (if refcnt (bufs s b) = 1 then link_first b (unlink b t) else t)"
  have rel: "releasesleep lk = \<lparr>locked = False, pid = 0\<rparr>" for lk by (cases lk) (simp add: releasesleep_def)
  have t: "upd b (refcnt_update (\<lambda>r. r - 1)) (upd b (lock_update releasesleep) s) = t"
    by (cases "bufs s b") (simp add: upd_def rel t_def)
  have one: "refcnt (bufs s b) - 1 = 0 \<longleftrightarrow> refcnt (bufs s b) = 1" by simp
  then have e: "brelse me b s = Inr s'"
    using assms(3) unfolding brelse_def Let_def t by (simp add: s'_def) (simp add: t_def upd_def)
  have "core t = (core s)(b := (core s b)\<lparr>lock := \<lparr>locked = False, pid = 0\<rparr>, refcnt := refcnt (bufs s b) - 1\<rparr>)"
    by (auto simp: fun_eq_iff core_def upd_def t_def)
  then have core: "core s' = (core s)(b := (core s b)\<lparr>lock := \<lparr>locked = False, pid = 0\<rparr>, refcnt := refcnt (bufs s b) - 1\<rparr>)"
    by (simp add: s'_def)
  obtain xs where "lru s xs" and xs: "set xs = {0 ..< NBUF}" using cache_okD(1)[OF assms(1)] by blast
  then have "lru t xs" using lru_links[of t s] by (simp add: upd_def t_def)
  then have lru: "\<exists>ys. lru s' ys \<and> set ys = {0 ..< NBUF}"
    using move_first_lru[of t xs b] xs assms(2) by (auto simp: s'_def)
  have d: "disk s' = disk s" "hist s' = hist s" by (simp_all add: s'_def t_def)
  have other: "core s' x = core s x" if "x \<noteq> b" for x using that by (simp add: core)
  have at_b: "core s' b = (core s b)\<lparr>lock := \<lparr>locked = False, pid = 0\<rparr>, refcnt := refcnt (bufs s b) - 1\<rparr>"
    by (simp add: core)
  have f: "valid (bufs s' x) = valid (bufs s x)" "dev (bufs s' x) = dev (bufs s x)"
    "blockno (bufs s' x) = blockno (bufs s x)" "data (bufs s' x) = data (bufs s x)" for x
    using core_fields(1-3,6)[OF other, of x] arg_cong[OF at_b, of valid] arg_cong[OF at_b, of dev]
      arg_cong[OF at_b, of blockno] arg_cong[OF at_b, of data] by (cases "x = b"; simp add: core_def)+
  have r: "refcnt (bufs s' b) = refcnt (bufs s b) - 1" "lock (bufs s' b) = \<lparr>locked = False, pid = 0\<rparr>"
    using arg_cong[OF at_b, of refcnt] arg_cong[OF at_b, of lock] by (simp_all add: core_def)
  have l: "refcnt (bufs s' x) \<noteq> 0" if "x < NBUF" "locked (lock (bufs s' x))" for x
    using that r(2) core_fields(4,5)[OF other, of x] cache_okD(3)[OF assms(1), of x] by (cases "x = b") auto
  have c: "data (bufs s x) = disk s bn" if "cached d s bn x" "valid (bufs s x)" "refcnt (bufs s' x) = 0" for x bn
    using that r(1) one core_fields(5)[OF other, of x] cache_okD(4)[OF assms(1), of bn x] assms(4)[of bn]
    by (cases "x = b") auto
  note ok = relabel_ok[OF assms(1) lru d(1) f l c]
  show thesis by (rule that[OF e core d ok])
qed

lemma bpin_ok:
  assumes "cache_ok d s" "refcnt (bufs s b) + 1 \<noteq> 0"
  shows "cache_ok d (bpin b s)" "view d (bpin b s) = view d s"
proof -
  let ?s = "bpin b s"
  have lru: "\<exists>xs. lru ?s xs \<and> set xs = {0 ..< NBUF}"
    using cache_okD(1)[OF assms(1)] lru_links[of ?s s] by (simp add: bpin_def upd_def)
  have c: "data (bufs s x) = disk s bn" if "cached d s bn x" "valid (bufs s x)" "refcnt (bufs ?s x) = 0" for x bn
    using that assms(2) cache_okD(4)[OF assms(1), of bn x] by (cases "x = b") (auto simp: bpin_def upd_def)
  show "cache_ok d ?s" "view d ?s = view d s"
    by (rule relabel_ok[OF assms(1) lru _ _ _ _ _ _ c];
      use assms(2) cache_okD(3)[OF assms(1)] in \<open>auto simp: bpin_def upd_def\<close>)+
qed

lemma bunpin_ok:
  assumes "cache_ok d s" "refcnt (bufs s b) \<noteq> 1"
  shows "cache_ok d (bunpin b s)" "view d (bunpin b s) = view d s"
proof -
  let ?s = "bunpin b s"
  have lru: "\<exists>xs. lru ?s xs \<and> set xs = {0 ..< NBUF}"
    using cache_okD(1)[OF assms(1)] lru_links[of ?s s] by (simp add: bunpin_def upd_def)
  have c: "data (bufs s x) = disk s bn" if "cached d s bn x" "valid (bufs s x)" "refcnt (bufs ?s x) = 0" for x bn
    using that assms(2) cache_okD(4)[OF assms(1), of bn x] by (cases "x = b") (auto simp: bunpin_def upd_def)
  show "cache_ok d ?s" "view d ?s = view d s"
    by (rule relabel_ok[OF assms(1) lru _ _ _ _ _ _ c];
      use assms(2) cache_okD(3)[OF assms(1)] in \<open>auto simp: bunpin_def upd_def\<close>)+
qed

lemma pin_core:
  "core (bpin b s) = (core s)(b := (core s b)\<lparr>refcnt := refcnt (bufs s b) + 1\<rparr>)"
  "core (bunpin b s) = (core s)(b := (core s b)\<lparr>refcnt := refcnt (bufs s b) - 1\<rparr>)"
  "disk (bpin b s) = disk s" "hist (bpin b s) = hist s" "disk (bunpin b s) = disk s" "hist (bunpin b s) = hist s"
  by (auto simp: fun_eq_iff core_def bpin_def bunpin_def upd_def)

section \<open>The cache after the start\<close>

text \<open>The memory of the kernel is zero when \<open>binit\<close> runs.\<close>

definition zero_buf :: buf where
  "zero_buf = \<lparr>valid = False, dev = 0, blockno = 0, lock = \<lparr>locked = False, pid = 0\<rparr>, refcnt = 0,
     prev = 0, nxt = 0, data = replicate 256 0\<rparr>"

definition power_on :: "(blocknum \<Rightarrow> block) \<Rightarrow> store" where
  "power_on dk = \<lparr>bufs = (\<lambda>_. zero_buf), disk = dk, hist = []\<rparr>"

lemma binit_loop:
  assumes "lru s []" "n \<le> NBUF"
  shows "lru (fold binit_link [0 ..< n] s) (rev [0 ..< n])"
  using assms(2)
proof (induction n)
  case (Suc n)
  let ?s = "fold binit_link [0 ..< n] s"
  have "lru ?s (rev [0 ..< n])" using Suc by simp
  then have "lru (upd n (lock_update initsleeplock) ?s) (rev [0 ..< n])"
    using lru_links[of "upd n (lock_update initsleeplock) ?s" ?s] by (simp add: upd_def)
  then have "lru (binit_link n ?s) (n # rev [0 ..< n])"
    unfolding binit_link_def using Suc.prems by (intro link_first_lru) auto
  then show ?case by simp
qed (simp add: assms(1))

lemma binit_link_core:
  assumes "lock (core s b) = \<lparr>locked = False, pid = 0\<rparr>"
  shows "core (binit_link b s) = core s" "disk (binit_link b s) = disk s" "hist (binit_link b s) = hist s"
proof -
  have "upd b (lock_update initsleeplock) s = s"
    using assms by (cases "bufs s b") (simp add: core_def upd_def initsleeplock_def fun_upd_idem)
  then show "core (binit_link b s) = core s" "disk (binit_link b s) = disk s" "hist (binit_link b s) = hist s"
    by (simp_all add: binit_link_def)
qed

lemma binit_core:
  assumes "\<And>b. lock (core s b) = \<lparr>locked = False, pid = 0\<rparr>"
  shows "core (fold binit_link bs s) = core s \<and> disk (fold binit_link bs s) = disk s \<and> hist (fold binit_link bs s) = hist s"
  using assms
proof (induction bs arbitrary: s)
  case (Cons b bs)
  then show ?case using binit_link_core[of s b] by simp
qed simp

lemma binit_ok:
  assumes "d \<noteq> 0"
  shows "cache_ok d (binit (power_on dk))" "view d (binit (power_on dk)) = dk"
    "disk (binit (power_on dk)) = dk" "hist (binit (power_on dk)) = []"
    "refcnt (bufs (binit (power_on dk)) b) = 0" "\<not> locked (lock (bufs (binit (power_on dk)) b))"
proof -
  define s0 where "s0 = upd HEAD (nxt_update (\<lambda>_. HEAD)) (upd HEAD (prev_update (\<lambda>_. HEAD)) (power_on dk))"
  define s where "s = binit (power_on dk)"
  have s: "s = fold binit_link [0 ..< NBUF] s0"
    by (simp add: s_def binit_def s0_def)
  have c0: "core s0 = (\<lambda>_. zero_buf)" by (auto simp: fun_eq_iff core_def s0_def upd_def power_on_def zero_buf_def)
  then have core: "core s = (\<lambda>_. zero_buf)" "disk s = dk" "hist s = []"
    using binit_core[of s0 "[0 ..< NBUF]"] unfolding s c0 by (simp_all add: zero_buf_def) (simp_all add: s0_def power_on_def)
  have f: "dev (bufs s x) = 0" "refcnt (bufs s x) = 0" "\<not> locked (lock (bufs s x))" for x
    using arg_cong[OF fun_cong[OF core(1)], of dev x] arg_cong[OF fun_cong[OF core(1)], of refcnt x]
      arg_cong[OF fun_cong[OF core(1)], of lock x] by (simp_all add: core_def zero_buf_def)
  then show "refcnt (bufs (binit (power_on dk)) b) = 0" "\<not> locked (lock (bufs (binit (power_on dk)) b))"
    by (simp_all add: s_def)
  have nc: "\<not> cached d s bn x" for bn x using assms f(1)[of x] by (auto simp: cached_def)
  have "lru s0 []" by (simp add: lru_def nx_def pr_def s0_def upd_def)
  then have "lru s (rev [0 ..< NBUF])" unfolding s by (rule binit_loop) simp
  then have "\<exists>xs. lru s xs \<and> set xs = {0 ..< NBUF}" by (intro exI[of _ "rev [0 ..< NBUF]"]) simp
  then show "cache_ok d (binit (power_on dk))" using nc f(3) by (simp add: cache_ok_def s_def)
  have "view d s bn = dk bn" for bn using nc view_uncached[of d s bn] core(2) by blast
  then show "view d (binit (power_on dk)) = dk" by (auto simp: s_def)
  show "disk (binit (power_on dk)) = dk" "hist (binit (power_on dk)) = []" using core by (simp_all add: s_def)
qed

end
