(* ===== verification/Wal.thy ===== *)
theory Wal
  imports Bcache
begin

text \<open>
  The log of the xv6 file system, \<open>xv6/kernel/log.c\<close>: system calls change blocks in the buffer cache,
  the last one to end copies the changed blocks to the log area of the disk, writes the header, which
  is the commit, copies them to their places, and clears the header.
\<close>

section \<open>State\<close>

definition MAXOPBLOCKS :: int where "MAXOPBLOCKS = 10"
definition LOGBLOCKS :: int where "LOGBLOCKS = MAXOPBLOCKS * 3"
definition BSIZE :: int where "BSIZE = 1024"

record logheader =
  lh_n :: int
  lh_block :: "32 word list"

record log =
  start :: "32 word"
  outstanding :: int
  committing :: bool
  log_dev :: "32 word"
  ncommit :: int
  lh :: logheader

text \<open>The header in memory, with room for 30 block numbers, is zero at the start.\<close>

definition zero_log :: log where
  "zero_log = \<lparr>start = 0, outstanding = 0, committing = False, log_dev = 0, ncommit = 0,
     lh = \<lparr>lh_n = 0, lh_block = replicate (nat LOGBLOCKS) 0\<rparr>\<rparr>"

section \<open>Installing and the header\<close>

definition log_block :: "log \<Rightarrow> nat \<Rightarrow> blocknum" where
  "log_block lg tail = start lg + of_nat tail + 1"

definition install_step :: "nat \<Rightarrow> bool \<Rightarrow> log \<Rightarrow> nat \<Rightarrow> store \<Rightarrow> io_fault + store" where
  "install_step me recovering lg tail s =
     io_bind (bread me (log_dev lg) (log_block lg tail) s) (\<lambda>(lbuf, s).
     io_bind (bread me (log_dev lg) (lh_block (lh lg) ! tail) s) (\<lambda>(dbuf, s).
     let s = set_data dbuf (data (bufs s lbuf)) s in
     io_bind (bwrite me dbuf s) (\<lambda>s.
     let s = (if \<not> recovering then bunpin dbuf s else s) in
     io_bind (brelse me lbuf s) (\<lambda>s.
     brelse me dbuf s))))"

fun for_tail :: "(nat \<Rightarrow> store \<Rightarrow> io_fault + store) \<Rightarrow> nat list \<Rightarrow> store \<Rightarrow> io_fault + store" where
  "for_tail body [] s = Inr s"
| "for_tail body (t # ts) s = io_bind (body t s) (for_tail body ts)"

definition install_trans :: "nat \<Rightarrow> bool \<Rightarrow> log \<Rightarrow> store \<Rightarrow> io_fault + store" where
  "install_trans me recovering lg s = for_tail (install_step me recovering lg) [0 ..< nat (lh_n (lh lg))] s"

text \<open>
  The first word of the header block is the number, the block numbers follow.  A number beyond the
  array of the header in memory would be copied past its end.
\<close>

definition read_head :: "nat \<Rightarrow> log \<Rightarrow> store \<Rightarrow> io_fault + log \<times> store" where
  "read_head me lg s =
     io_bind (bread me (log_dev lg) (start lg) s) (\<lambda>(b, s).
     let h = data (bufs s b); k = sint (h ! 0) in
     if k > LOGBLOCKS then Inl Overrun
     else
       let lg = lg\<lparr>lh := \<lparr>lh_n = k, lh_block = fold (\<lambda>i bl. bl[i := h ! Suc i]) [0 ..< nat k] (lh_block (lh lg))\<rparr>\<rparr> in
       io_bind (brelse me b s) (\<lambda>s. Inr (lg, s)))"

definition write_head :: "nat \<Rightarrow> log \<Rightarrow> store \<Rightarrow> io_fault + store" where
  "write_head me lg s =
     io_bind (bread me (log_dev lg) (start lg) s) (\<lambda>(b, s).
     let h = (data (bufs s b))[0 := word_of_int (lh_n (lh lg))];
         h = fold (\<lambda>i h. h[Suc i := lh_block (lh lg) ! i]) [0 ..< nat (lh_n (lh lg))] h;
         s = set_data b h s in
     io_bind (bwrite me b s) (\<lambda>s.
     brelse me b s))"

definition recover_from_log :: "nat \<Rightarrow> log \<Rightarrow> store \<Rightarrow> io_fault + log \<times> store" where
  "recover_from_log me lg s =
     io_bind (read_head me lg s) (\<lambda>(lg, s).
     io_bind (install_trans me True lg s) (\<lambda>s.
     let lg = lg\<lparr>lh := (lh lg)\<lparr>lh_n := 0\<rparr>\<rparr> in
     io_bind (write_head me lg s) (\<lambda>s. Inr (lg, s))))"

definition initlog :: "nat \<Rightarrow> 32 word \<Rightarrow> 32 word \<Rightarrow> log \<Rightarrow> store \<Rightarrow> io_fault + log \<times> store" where
  "initlog me d logstart lg s =
     (if 4 * (1 + LOGBLOCKS) \<ge> BSIZE then Inl (Panic ''initlog: too big logheader'')
      else recover_from_log me (lg\<lparr>start := logstart, log_dev := d\<rparr>) s)"

text \<open>
  The start of the file system, \<open>readsb\<close> and \<open>fsinit\<close> of \<open>fs.c\<close>, up to the reclaiming of inodes, which is
  an ordinary use of the log.
\<close>

record superblock =
  magic :: "32 word"
  size :: "32 word"
  nblocks :: "32 word"
  ninodes :: "32 word"
  nlog :: "32 word"
  logstart :: "32 word"
  inodestart :: "32 word"
  bmapstart :: "32 word"

definition FSMAGIC :: "32 word" where "FSMAGIC = 0x10203040"

definition readsb :: "nat \<Rightarrow> 32 word \<Rightarrow> store \<Rightarrow> io_fault + superblock \<times> store" where
  "readsb me d s =
     io_bind (bread me d 1 s) (\<lambda>(bp, s).
     let w = data (bufs s bp);
         sb = \<lparr>magic = w ! 0, size = w ! 1, nblocks = w ! 2, ninodes = w ! 3, nlog = w ! 4, logstart = w ! 5,
           inodestart = w ! 6, bmapstart = w ! 7\<rparr> in
     io_bind (brelse me bp s) (\<lambda>s. Inr (sb, s)))"

definition fsinit :: "nat \<Rightarrow> 32 word \<Rightarrow> log \<Rightarrow> store \<Rightarrow> io_fault + log \<times> store" where
  "fsinit me d lg s =
     io_bind (readsb me d s) (\<lambda>(sb, s).
     if magic sb \<noteq> FSMAGIC then Inl (Panic ''invalid file system'')
     else initlog me d (logstart sb) lg s)"

section \<open>Transactions\<close>

text \<open>None: the caller goes to sleep on the log and tries again.\<close>

definition begin_op :: "log \<Rightarrow> log option" where
  "begin_op lg =
     (if committing lg then None
      else if lh_n (lh lg) + (outstanding lg + 1) * MAXOPBLOCKS > LOGBLOCKS then None
      else Some (lg\<lparr>outstanding := outstanding lg + 1\<rparr>))"

definition write_log_step :: "nat \<Rightarrow> log \<Rightarrow> nat \<Rightarrow> store \<Rightarrow> io_fault + store" where
  "write_log_step me lg tail s =
     io_bind (bread me (log_dev lg) (log_block lg tail) s) (\<lambda>(to, s).
     io_bind (bread me (log_dev lg) (lh_block (lh lg) ! tail) s) (\<lambda>(from, s).
     let s = set_data to (data (bufs s from)) s in
     io_bind (bwrite me to s) (\<lambda>s.
     io_bind (brelse me from s) (\<lambda>s.
     brelse me to s))))"

definition write_log :: "nat \<Rightarrow> log \<Rightarrow> store \<Rightarrow> io_fault + store" where
  "write_log me lg s = for_tail (write_log_step me lg) [0 ..< nat (lh_n (lh lg))] s"

definition commit :: "nat \<Rightarrow> log \<Rightarrow> store \<Rightarrow> io_fault + log \<times> store" where
  "commit me lg s =
     (if lh_n (lh lg) > 0 then
        io_bind (write_log me lg s) (\<lambda>s.
        io_bind (write_head me lg s) (\<lambda>s.
        io_bind (install_trans me False lg s) (\<lambda>s.
        let lg = lg\<lparr>lh := (lh lg)\<lparr>lh_n := 0\<rparr>\<rparr> in
        io_bind (write_head me lg s) (\<lambda>s. Inr (lg, s)))))
      else Inr (lg, s))"

text \<open>The region of \<open>end_op\<close> under the lock; the first component is \<open>do_commit\<close>.\<close>

definition end_op_lock :: "log \<Rightarrow> io_fault + bool \<times> log" where
  "end_op_lock lg =
     (let lg = lg\<lparr>outstanding := outstanding lg - 1\<rparr> in
      if committing lg then Inl (Panic ''log.committing'')
      else if outstanding lg = 0 then Inr (True, lg\<lparr>committing := True\<rparr>)
      else Inr (False, lg))"

definition end_op_done :: "log \<Rightarrow> log" where
  "end_op_done lg = lg\<lparr>committing := False, ncommit := ncommit lg + 1\<rparr>"

definition end_op :: "nat \<Rightarrow> log \<Rightarrow> store \<Rightarrow> io_fault + log \<times> store" where
  "end_op me lg s =
     io_bind (end_op_lock lg) (\<lambda>(do_commit, lg).
     if do_commit then io_bind (commit me lg s) (\<lambda>(lg, s). Inr (end_op_done lg, s))
     else Inr (lg, s))"

fun find_logged :: "32 word list \<Rightarrow> blocknum \<Rightarrow> nat \<Rightarrow> nat \<Rightarrow> nat" where
  "find_logged bl bn 0 i = i"
| "find_logged bl bn (Suc k) i = (if bl ! i = bn then i else find_logged bl bn k (Suc i))"

definition log_write :: "nat \<Rightarrow> log \<Rightarrow> store \<Rightarrow> io_fault + log \<times> store" where
  "log_write b lg s =
     (if lh_n (lh lg) \<ge> LOGBLOCKS then Inl (Panic ''too big a transaction'')
      else if outstanding lg < 1 then Inl (Panic ''log_write outside of trans'')
      else
        let bn = blockno (bufs s b);
            i = find_logged (lh_block (lh lg)) bn (nat (lh_n (lh lg))) 0;
            lg = lg\<lparr>lh := (lh lg)\<lparr>lh_block := (lh_block (lh lg))[i := bn]\<rparr>\<rparr>
        in Inr (if int i = lh_n (lh lg) then (lg\<lparr>lh := (lh lg)\<lparr>lh_n := lh_n (lh lg) + 1\<rparr>\<rparr>, bpin b s) else (lg, s)))"

text \<open>\<open>sys_sync\<close>: the commit to wait for, if any, and the wait.\<close>

definition sync_target :: "log \<Rightarrow> int option" where
  "sync_target lg = (if committing lg \<or> outstanding lg > 0 then Some (ncommit lg + 1) else None)"

definition sync_waits :: "int \<Rightarrow> log \<Rightarrow> bool" where
  "sync_waits k lg \<longleftrightarrow> ncommit lg < k"

section \<open>Blocks at rest\<close>

text \<open>No buffer of the given blocks is locked, and its counter is not at the limit.\<close>

definition avail :: "32 word \<Rightarrow> store \<Rightarrow> blocknum set \<Rightarrow> bool" where
  "avail d s A \<longleftrightarrow> (\<forall>bn \<in> A. \<forall>b. cached d s bn b \<and> refcnt (bufs s b) \<noteq> 0 \<longrightarrow>
     \<not> locked (lock (bufs s b)) \<and> refcnt (bufs s b) + 1 \<noteq> 0)"

definition free_bufs :: "store \<Rightarrow> nat set" where
  "free_bufs s = {b. b < NBUF \<and> refcnt (bufs s b) = 0}"

definition pinned :: "32 word \<Rightarrow> store \<Rightarrow> blocknum \<Rightarrow> bool" where
  "pinned d s bn \<longleftrightarrow> (\<exists>b. cached d s bn b \<and> valid (bufs s b) \<and> refcnt (bufs s b) \<noteq> 0)"

text \<open>Enough buffers to read one block and then the given one.\<close>

definition room :: "32 word \<Rightarrow> store \<Rightarrow> blocknum \<Rightarrow> bool" where
  "room d s v \<longleftrightarrow> free_bufs s \<noteq> {} \<and> (pinned d s v \<or> 2 \<le> card (free_bufs s))"

text \<open>
  What a finished use of the cache leaves: locks and counters as they were, but for the blocks of \<open>U\<close>,
  which lost a reference; a buffer that is still referenced kept its block.
\<close>

definition settles :: "32 word \<Rightarrow> blocknum set \<Rightarrow> store \<Rightarrow> store \<Rightarrow> bool" where
  "settles d U s s' \<longleftrightarrow> (\<forall>b < NBUF. locked (lock (bufs s' b)) = locked (lock (bufs s b)) \<and>
     refcnt (bufs s' b) = (if refcnt (bufs s b) \<noteq> 0 \<and> dev (bufs s b) = d \<and> blockno (bufs s b) \<in> U
       then refcnt (bufs s b) - 1 else refcnt (bufs s b)) \<and>
     (refcnt (bufs s' b) \<noteq> 0 \<longrightarrow> dev (bufs s' b) = dev (bufs s b) \<and> blockno (bufs s' b) = blockno (bufs s b) \<and>
       (valid (bufs s b) \<longrightarrow> valid (bufs s' b))))"

lemma settles_avail:
  assumes "settles d U s s'" "avail d s A"
  shows "avail d s' A"
  unfolding avail_def
proof (intro ballI allI impI)
  fix bn b assume a: "bn \<in> A" "cached d s' bn b \<and> refcnt (bufs s' b) \<noteq> 0"
  then have b: "b < NBUF" by (simp add: cached_def)
  note st = assms(1)[unfolded settles_def, rule_format, OF b]
  have r: "refcnt (bufs s b) \<noteq> 0" using st a(2) by auto
  then have "cached d s bn b" using st a(2) by (simp add: cached_def)
  then have u: "\<not> locked (lock (bufs s b))" "refcnt (bufs s b) + 1 \<noteq> 0"
    using assms(2) a(1) r by (auto simp: avail_def)
  then show "\<not> locked (lock (bufs s' b)) \<and> refcnt (bufs s' b) + 1 \<noteq> 0" using st r by auto
qed

lemma settles_free: "settles d U s s' \<Longrightarrow> free_bufs s \<subseteq> free_bufs s'"
  by (auto simp: settles_def free_bufs_def)

lemma settles_pinned:
  assumes "settles d U s s'" "pinned d s bn" "bn \<notin> U"
  shows "pinned d s' bn"
proof -
  obtain b where b: "cached d s bn b" "valid (bufs s b)" "refcnt (bufs s b) \<noteq> 0" using assms(2) by (auto simp: pinned_def)
  then have "b < NBUF" "blockno (bufs s b) \<notin> U" using assms(3) by (auto simp: cached_def)
  then have "cached d s' bn b" "valid (bufs s' b)" "refcnt (bufs s' b) \<noteq> 0"
    using b assms(1) by (auto simp: settles_def cached_def)
  then show ?thesis by (auto simp: pinned_def)
qed

lemma settles_room:
  assumes "settles d U s s'" "room d s v" "v \<notin> U"
  shows "room d s' v"
proof -
  have "finite (free_bufs s')" by (rule finite_subset[of _ "{..< NBUF}"]) (auto simp: free_bufs_def)
  then have "card (free_bufs s) \<le> card (free_bufs s')" using card_mono settles_free[OF assms(1)] by blast
  then show ?thesis using assms settles_pinned[OF assms(1)] settles_free[OF assms(1)] by (fastforce simp: room_def)
qed

lemma settles_trans:
  assumes "settles d U s s'" "settles d V s' s''" "U \<inter> V = {}"
  shows "settles d (U \<union> V) s s''"
  unfolding settles_def
proof (intro allI impI)
  fix b assume b: "b < NBUF"
  note x = assms(1)[unfolded settles_def, rule_format, OF b] and y = assms(2)[unfolded settles_def, rule_format, OF b]
  show "locked (lock (bufs s'' b)) = locked (lock (bufs s b)) \<and>
     refcnt (bufs s'' b) = (if refcnt (bufs s b) \<noteq> 0 \<and> dev (bufs s b) = d \<and> blockno (bufs s b) \<in> U \<union> V
       then refcnt (bufs s b) - 1 else refcnt (bufs s b)) \<and>
     (refcnt (bufs s'' b) \<noteq> 0 \<longrightarrow> dev (bufs s'' b) = dev (bufs s b) \<and> blockno (bufs s'' b) = blockno (bufs s b) \<and>
       (valid (bufs s b) \<longrightarrow> valid (bufs s'' b)))"
    using x y assms(3) by (cases "refcnt (bufs s' b) = 0") (auto split: if_splits)
qed

text \<open>Nobody uses the cache, and exactly the blocks of \<open>P\<close> are pinned, once.\<close>

definition exact :: "32 word \<Rightarrow> store \<Rightarrow> blocknum set \<Rightarrow> bool" where
  "exact d s P \<longleftrightarrow>
     (\<forall>b < NBUF. \<not> locked (lock (bufs s b)) \<and>
        (refcnt (bufs s b) = 0 \<or> refcnt (bufs s b) = 1 \<and> dev (bufs s b) = d \<and> blockno (bufs s b) \<in> P)) \<and>
     (\<forall>bn \<in> P. pinned d s bn)"

lemma settles_exact:
  assumes "settles d U s s'" "exact d s P"
  shows "exact d s' (P - U)"
  unfolding exact_def
proof (intro conjI allI impI)
  fix b assume b: "b < NBUF"
  note x = assms(1)[unfolded settles_def, rule_format, OF b]
  have e: "\<not> locked (lock (bufs s b))" "refcnt (bufs s b) = 0 \<or> refcnt (bufs s b) = 1 \<and> dev (bufs s b) = d \<and> blockno (bufs s b) \<in> P"
    using assms(2) b by (auto simp: exact_def)
  show "\<not> locked (lock (bufs s' b))" using x e(1) by simp
  show "refcnt (bufs s' b) = 0 \<or> refcnt (bufs s' b) = 1 \<and> dev (bufs s' b) = d \<and> blockno (bufs s' b) \<in> P - U"
    using x e(2) by (auto split: if_splits)
next
  show "\<forall>bn \<in> P - U. pinned d s' bn" using assms(2) settles_pinned[OF assms(1)] by (auto simp: exact_def)
qed

lemma exact_avail: "exact d s P \<Longrightarrow> avail d s A"
  by (auto simp: exact_def avail_def cached_def)

lemma fetched_unref:
  assumes "cache_ok d s" "fetched me d bn s b s'" "refcnt (bufs s b) = 0"
  shows "view d s bn = disk s bn"
proof (cases "cached d s bn b \<and> valid (bufs s b)")
  case True
  then show ?thesis using view_cached[OF assms(1)] cache_okD(4)[OF assms(1)] assms(3) by auto
next
  case False
  then show ?thesis using fetchedD(12)[OF assms(2)] cache_okD(2)[OF assms(1)] by (intro view_uncached) blast
qed

lemma avail_lock:
  assumes "cache_ok d s" "avail d s A" "bn \<in> A" "cached d s bn b"
  shows "\<not> locked (lock (bufs s b)) \<and> refcnt (bufs s b) + 1 \<noteq> 0"
  using assms(2-4) cache_okD(3)[OF assms(1), of b]
  by (cases "refcnt (bufs s b) = 0") (auto simp: avail_def cached_def)

lemma avail_bread:
  assumes "cache_ok d s" "avail d s A" "bn \<in> A" "free_bufs s \<noteq> {} \<or> (\<exists>b. cached d s bn b)"
  obtains b s' where "bread me d bn s = Inr (b, s')" "fetched me d bn s b s'"
  using bread_ok[OF assms(1) avail_lock[OF assms(1-3)]] assms(4) unfolding free_bufs_def by blast

text \<open>The part of a buffer that \<open>settles\<close> speaks of.\<close>

definition tag :: "store \<Rightarrow> nat \<Rightarrow> bool \<times> 32 word \<times> 32 word \<times> blocknum \<times> bool" where
  "tag s b = (locked (lock (bufs s b)), refcnt (bufs s b), dev (bufs s b), blockno (bufs s b), valid (bufs s b))"

lemma tag_core: "tag s b = (locked (lock (core s b)), refcnt (core s b), dev (core s b), blockno (core s b), valid (core s b))"
  by (simp add: tag_def core_def)

lemma tag_set_data [simp]: "tag (set_data b v s) x = tag s x"
  by (simp add: tag_def)

lemma tag_fetched:
  assumes "fetched me d bn s b s'"
  shows "tag s' = (tag s)(b := (True, refcnt (bufs s b) + 1, d, bn, True))"
  using assms by (auto simp: fun_eq_iff tag_def fetched_def)

lemma tag_bunpin: "tag (bunpin b s) = (tag s)(b := (locked (lock (bufs s b)), refcnt (bufs s b) - 1, dev (bufs s b), blockno (bufs s b), valid (bufs s b)))"
  by (auto simp: fun_eq_iff tag_def bunpin_def upd_def)

lemma tag_brelse:
  assumes "core s' = (core s)(b := (core s b)\<lparr>lock := \<lparr>locked = False, pid = 0\<rparr>, refcnt := refcnt (bufs s b) - 1\<rparr>)"
  shows "tag s' = (tag s)(b := (False, refcnt (bufs s b) - 1, dev (bufs s b), blockno (bufs s b), valid (bufs s b)))"
  by (auto simp: fun_eq_iff tag_core assms) (simp_all add: core_def)

lemma two_fetch:
  assumes "cache_ok d s" "avail d s A" "u \<in> A" "v \<in> A" "u \<noteq> v" "room d s v"
  obtains a s1 b s2 where "bread me d u s = Inr (a, s1)" "fetched me d u s a s1"
    "bread me d v s1 = Inr (b, s2)" "fetched me d v s1 b s2" "a \<noteq> b" "cache_ok d s1" "cache_ok d s2"
    "view d s1 = view d s" "view d s2 = view d s"
proof -
  have "free_bufs s \<noteq> {}" using assms(6) by (simp add: room_def)
  then obtain a s1 where a: "bread me d u s = Inr (a, s1)" "fetched me d u s a s1"
    using avail_bread[OF assms(1-3) disjI1] by metis
  note D = fetchedD[OF a(2)] and ok1 = fetched_ok[OF assms(1) a(2)]
  have av: "avail d s1 {v}"
    unfolding avail_def
  proof (intro ballI allI impI)
    fix bn x assume x: "bn \<in> {v}" "cached d s1 bn x \<and> refcnt (bufs s1 x) \<noteq> 0"
    then have "x \<noteq> a" "cached d s v x" using fetched_cached[OF a(2), of v x] assms(5) by auto
    then show "\<not> locked (lock (bufs s1 x)) \<and> refcnt (bufs s1 x) + 1 \<noteq> 0"
      using D(7)[of x] assms(2,4) x by (auto simp: avail_def)
  qed
  have "(\<exists>b. cached d s1 v b) \<or> (\<exists>b < NBUF. refcnt (bufs s1 b) = 0)"
  proof (cases "pinned d s v")
    case True
    then obtain c where c: "cached d s v c" "refcnt (bufs s c) \<noteq> 0" by (auto simp: pinned_def)
    then have "c \<noteq> a" using D(12) assms(5) by (auto simp: cached_def)
    then show ?thesis using c D(7)[of c] by (auto simp: cached_def)
  next
    case False
    then have "\<not> free_bufs s \<subseteq> {a}" using assms(6) card_mono[of "{a}" "free_bufs s"] by (auto simp: room_def)
    then obtain c where "c \<in> free_bufs s" "c \<noteq> a" by blast
    then show ?thesis using D(7)[of c] by (auto simp: free_bufs_def)
  qed
  then obtain b s2 where b: "bread me d v s1 = Inr (b, s2)" "fetched me d v s1 b s2"
    using bread_ok[OF ok1 avail_lock[OF ok1 av singletonI]] by metis
  have "a \<noteq> b"
    using fetchedD(12)[OF b(2)] D(2,14) assms(5) by (auto simp: cached_def)
  then show thesis
    using that[OF a b] ok1 fetched_ok[OF ok1 b(2)] fetched_view[OF assms(1) a(2)] fetched_view[OF ok1 b(2)] by simp
qed

lemma settlesI:
  assumes "\<And>x. x \<noteq> a \<Longrightarrow> x \<noteq> b \<Longrightarrow> tag s' x = tag s x"
    and "tag s' a = (False, refcnt (bufs s a), d, u, True)" "tag s' b = (False, refcnt (bufs s b) - k, d, v, True)"
    and "cached d s u a \<or> refcnt (bufs s a) = 0" "cached d s v b \<or> refcnt (bufs s b) = 0"
    and "\<not> locked (lock (bufs s a))" "\<not> locked (lock (bufs s b))"
    and "k = 0 \<and> U = {} \<or> k = 1 \<and> U = {v} \<and> u \<noteq> v \<and> cache_ok d s \<and> refcnt (bufs s b) \<noteq> 0"
  shows "settles d U s s'"
  unfolding settles_def
proof (intro allI impI)
  fix x assume x: "x < NBUF"
  have U: "blockno (bufs s x) \<notin> U \<or> dev (bufs s x) \<noteq> d" if "x \<noteq> b" "refcnt (bufs s x) \<noteq> 0"
  proof (rule ccontr)
    assume "\<not> ?thesis"
    then have "cached d s v x" "cache_ok d s" "cached d s v b" using assms(5,8) x by (auto simp: cached_def)
    then show False using cache_okD(2) that(1) by blast
  qed
  show "locked (lock (bufs s' x)) = locked (lock (bufs s x)) \<and>
     refcnt (bufs s' x) = (if refcnt (bufs s x) \<noteq> 0 \<and> dev (bufs s x) = d \<and> blockno (bufs s x) \<in> U
       then refcnt (bufs s x) - 1 else refcnt (bufs s x)) \<and>
     (refcnt (bufs s' x) \<noteq> 0 \<longrightarrow> dev (bufs s' x) = dev (bufs s x) \<and> blockno (bufs s' x) = blockno (bufs s x) \<and>
       (valid (bufs s x) \<longrightarrow> valid (bufs s' x)))"
  proof (cases "x = b")
    case True
    then show ?thesis using assms(3,5,7,8) by (auto simp: tag_def cached_def)
  next
    case False
    then show ?thesis using U assms(1)[of x] assms(2,4,6) by (cases "x = a") (auto simp: tag_def cached_def)
  qed
qed

lemma fetched_pair:
  assumes "fetched me d u s a s1" "fetched me d v s1 b s2" "a \<noteq> b" "view d s1 = view d s"
  shows "bufs s2 a = bufs s1 a" "bufs s1 b = bufs s b" "data (bufs s2 a) = view d s u" "data (bufs s2 b) = view d s v"
    "cached d s2 u a" "cached d s2 v b" "valid (bufs s2 a)" "valid (bufs s2 b)" "disk s2 = disk s" "hist s2 = hist s"
    "holdingsleep me (lock (bufs s2 a))" "holdingsleep me (lock (bufs s2 b))"
    "refcnt (bufs s2 a) = refcnt (bufs s a) + 1" "refcnt (bufs s2 b) = refcnt (bufs s b) + 1"
    "refcnt (bufs s2 a) \<noteq> 0" "refcnt (bufs s2 b) \<noteq> 0"
    "cached d s u a \<or> refcnt (bufs s a) = 0" "cached d s v b \<or> refcnt (bufs s b) = 0"
    "\<not> locked (lock (bufs s a))" "\<not> locked (lock (bufs s b))"
    "x \<noteq> a \<Longrightarrow> x \<noteq> b \<Longrightarrow> tag s2 x = tag s x"
proof -
  note A = fetchedD[OF assms(1)] and B = fetchedD[OF assms(2)]
  show e: "bufs s2 a = bufs s1 a" "bufs s1 b = bufs s b" using A(7)[of b] B(7)[of a] assms(3) by auto
  show "data (bufs s2 a) = view d s u" "data (bufs s2 b) = view d s v" using A(4) B(4) e assms(4) by simp_all
  show "cached d s2 u a" using A(2) e by (simp add: cached_def)
  show "cached d s2 v b" "valid (bufs s2 a)" "valid (bufs s2 b)" using A(3) B(2,3) e by simp_all
  show "disk s2 = disk s" "hist s2 = hist s" using A(8,9) B(8,9) by simp_all
  show "holdingsleep me (lock (bufs s2 a))" "holdingsleep me (lock (bufs s2 b))" using A(5) B(5) e by simp_all
  show "refcnt (bufs s2 a) = refcnt (bufs s a) + 1" "refcnt (bufs s2 b) = refcnt (bufs s b) + 1"
    "refcnt (bufs s2 a) \<noteq> 0" "refcnt (bufs s2 b) \<noteq> 0" using A(6,14) B(6,14) e by simp_all
  show "cached d s u a \<or> refcnt (bufs s a) = 0" using A(12) by blast
  show "cached d s v b \<or> refcnt (bufs s b) = 0" using B(12) e by (auto simp: cached_def)
  show "\<not> locked (lock (bufs s a))" "\<not> locked (lock (bufs s b))" using A(13) B(13) e by simp_all
  show "x \<noteq> a \<Longrightarrow> x \<noteq> b \<Longrightarrow> tag s2 x = tag s x"
    using tag_fetched[OF assms(1)] tag_fetched[OF assms(2)] by simp
qed

lemma put_block:
  assumes "cache_ok d s" "cached d s bn x" "valid (bufs s x)" "holdingsleep me (lock (bufs s x))"
  obtains s' where "bwrite me x (set_data x w s) = Inr s'" "tag s' = tag s" "\<And>y. lock (bufs s' y) = lock (bufs s y)"
    "\<And>y. data (bufs s' y) = (if y = x then w else data (bufs s y))" "disk s' = (disk s)(bn := w)"
    "hist s' = hist s @ [(bn, w)]" "cache_ok d s'" "view d s' = (view d s)(bn := w)"
proof -
  have r: "refcnt (bufs s x) \<noteq> 0"
    using cache_okD(3)[OF assms(1), of x] assms(2,4) by (auto simp: cached_def holdingsleep_def)
  have ok: "cache_ok d (set_data x w s)" and v: "view d (set_data x w s) = (view d s)(bn := w)"
    using set_data_ok[OF assms(1) r] set_data_view[OF assms(1) r assms(2,3)] by simp_all
  have b: "cached d (set_data x w s) bn x" "valid (bufs (set_data x w s) x)"
    "holdingsleep me (lock (bufs (set_data x w s) x))" using assms(2-4) by simp_all
  show thesis
  proof (rule bwrite_ok[OF ok b])
    fix s' assume s': "bwrite me x (set_data x w s) = Inr s'" "bufs s' = bufs (set_data x w s)"
      "disk s' = (disk (set_data x w s))(bn := view d (set_data x w s) bn)"
      "hist s' = hist (set_data x w s) @ [(bn, view d (set_data x w s) bn)]" "cache_ok d s'"
      "view d s' = view d (set_data x w s)"
    show thesis by (rule that[OF s'(1)]) (use s' v in \<open>simp_all add: fun_eq_iff tag_def\<close>)
  qed
qed

lemma give_back:
  assumes "cache_ok d s" "cached d s bn x" "holdingsleep me (lock (bufs s x))"
    "refcnt (bufs s x) = 1 \<Longrightarrow> data (bufs s x) = disk s bn"
  obtains s' where "brelse me x s = Inr s'" "tag s' = (tag s)(x := (False, refcnt (bufs s x) - 1, d, bn, valid (bufs s x)))"
    "\<And>y. y \<noteq> x \<Longrightarrow> lock (bufs s' y) = lock (bufs s y)" "\<And>y. data (bufs s' y) = data (bufs s y)"
    "disk s' = disk s" "hist s' = hist s" "cache_ok d s'" "view d s' = view d s"
proof -
  have x: "x < NBUF" using assms(2) by (simp add: cached_def)
  have c: "data (bufs s x) = disk s bn'" if "cached d s bn' x" "valid (bufs s x)" "refcnt (bufs s x) = 1" for bn'
    using that assms(2,4) by (simp add: cached_def)
  show thesis
  proof (rule brelse_ok[OF assms(1) x assms(3) c])
    fix s' assume s': "brelse me x s = Inr s'"
      "core s' = (core s)(x := (core s x)\<lparr>lock := \<lparr>locked = False, pid = 0\<rparr>, refcnt := refcnt (bufs s x) - 1\<rparr>)"
      "disk s' = disk s" "hist s' = hist s" "cache_ok d s'" "view d s' = view d s"
    have o: "core s' y = core s y" if "y \<noteq> x" for y using that s'(2) by simp
    have "data (core s' y) = data (core s y)" for y using s'(2) by simp
    then have dt: "data (bufs s' y) = data (bufs s y)" for y by (simp add: core_def)
    show thesis
      by (rule that[OF s'(1) _ core_fields(4)[OF o] dt s'(3-6)])
        (use tag_brelse[OF s'(2)] assms(2) in \<open>simp_all add: cached_def\<close>)
  qed
qed

lemma tag_cached:
  assumes "tag s' x = tag s x"
  shows "cached d s' bn x = cached d s bn x" "valid (bufs s' x) = valid (bufs s x)" "refcnt (bufs s' x) = refcnt (bufs s x)"
  using assms by (simp_all add: tag_def cached_def)

lemma write_log_step_ok:
  assumes "cache_ok (log_dev lg) s" "avail (log_dev lg) s A" "log_block lg t \<in> A" "lh_block (lh lg) ! t \<in> A"
    "log_block lg t \<noteq> lh_block (lh lg) ! t" "room (log_dev lg) s (lh_block (lh lg) ! t)"
  obtains s' where "write_log_step me lg t s = Inr s'" "settles (log_dev lg) {} s s'" "cache_ok (log_dev lg) s'"
    "view (log_dev lg) s' = (view (log_dev lg) s)(log_block lg t := view (log_dev lg) s (lh_block (lh lg) ! t))"
    "disk s' = (disk s)(log_block lg t := view (log_dev lg) s (lh_block (lh lg) ! t))"
    "hist s' = hist s @ [(log_block lg t, view (log_dev lg) s (lh_block (lh lg) ! t))]"
proof -
  define d u v where "d = log_dev lg" and "u = log_block lg t" and "v = lh_block (lh lg) ! t"
  note duv = d_def[symmetric] u_def[symmetric] v_def[symmetric]
  have uv: "u \<noteq> v" using assms(5) by (simp add: u_def v_def)
  obtain a s1 b s2 where r: "bread me d u s = Inr (a, s1)" "fetched me d u s a s1" "bread me d v s1 = Inr (b, s2)"
    "fetched me d v s1 b s2" "a \<noteq> b" "cache_ok d s1" "cache_ok d s2" "view d s1 = view d s" "view d s2 = view d s"
    using two_fetch[OF assms(1-6)] unfolding duv by metis
  note P = fetched_pair[OF r(2,4,5,8)]
  obtain s4 where s4: "bwrite me a (set_data a (view d s v) s2) = Inr s4" "tag s4 = tag s2" "\<And>y. lock (bufs s4 y) = lock (bufs s2 y)"
    "\<And>y. data (bufs s4 y) = (if y = a then view d s v else data (bufs s2 y))" "disk s4 = (disk s2)(u := view d s v)"
    "hist s4 = hist s2 @ [(u, view d s v)]" "cache_ok d s4" "view d s4 = (view d s2)(u := view d s v)"
    using put_block[OF r(7) P(5,7,11)] by metis
  note t4 = tag_cached[OF fun_cong[OF s4(2)]]
  have b4: "cached d s4 v b" "holdingsleep me (lock (bufs s4 b))" using P(6,12) t4 s4(3) by simp_all
  have "data (bufs s4 b) = disk s4 v" if "refcnt (bufs s4 b) = 1"
    using that P(2,4,9,14) t4(3) s4(4,5) uv r(5,8) fetched_unref[OF r(6,4)] fetchedD(8)[OF r(2)] by simp
  then obtain s5 where s5: "brelse me b s4 = Inr s5" "tag s5 = (tag s4)(b := (False, refcnt (bufs s4 b) - 1, d, v, valid (bufs s4 b)))"
    "\<And>y. y \<noteq> b \<Longrightarrow> lock (bufs s5 y) = lock (bufs s4 y)" "\<And>y. data (bufs s5 y) = data (bufs s4 y)"
    "disk s5 = disk s4" "hist s5 = hist s4" "cache_ok d s5" "view d s5 = view d s4"
    using give_back[OF s4(7) b4] by metis
  have "tag s5 a = tag s4 a" using s5(2) r(5) by simp
  note t5 = tag_cached[OF this]
  have a5: "cached d s5 u a" "holdingsleep me (lock (bufs s5 a))" using P(5,11) t4 t5 s5(3) s4(3) r(5) by simp_all
  have "data (bufs s5 a) = disk s5 u" using s5(4,5) s4(4,5) by simp
  then obtain s6 where s6: "brelse me a s5 = Inr s6" "tag s6 = (tag s5)(a := (False, refcnt (bufs s5 a) - 1, d, u, valid (bufs s5 a)))"
    "disk s6 = disk s5" "hist s6 = hist s5" "cache_ok d s6" "view d s6 = view d s5"
    using give_back[OF s5(7) a5] by metis
  have "settles d {} s s6"
  proof (rule settlesI[of a b _ _ _ u 0])
    show "tag s6 x = tag s x" if "x \<noteq> a" "x \<noteq> b" for x using that s6(2) s5(2) s4(2) P(21) by simp
    show "tag s6 a = (False, refcnt (bufs s a), d, u, True)" using s6(2) t5 t4 P(7,13) by simp
    show "tag s6 b = (False, refcnt (bufs s b) - 0, d, v, True)" using s6(2) s5(2) r(5) t4 P(8,14) by simp
  qed (use P in auto)
  moreover have "write_log_step me lg t s = Inr s6"
    unfolding write_log_step_def duv using r(1,3) P(4) s4(1) s5(1) s6(1) by (simp add: Let_def)
  ultimately show thesis
    using that[of s6] s6(3-6) s5(5,6,8) s4(5,6,8) r(9) P(9,10) unfolding duv by simp
qed

lemma install_step_ok:
  assumes "cache_ok (log_dev lg) s" "avail (log_dev lg) s A" "log_block lg t \<in> A" "lh_block (lh lg) ! t \<in> A"
    "log_block lg t \<noteq> lh_block (lh lg) ! t" "room (log_dev lg) s (lh_block (lh lg) ! t)"
    "\<not> recovering \<Longrightarrow> pinned (log_dev lg) s (lh_block (lh lg) ! t)"
  obtains s' where "install_step me recovering lg t s = Inr s'"
    "settles (log_dev lg) (if recovering then {} else {lh_block (lh lg) ! t}) s s'" "cache_ok (log_dev lg) s'"
    "view (log_dev lg) s' = (view (log_dev lg) s)(lh_block (lh lg) ! t := view (log_dev lg) s (log_block lg t))"
    "disk s' = (disk s)(lh_block (lh lg) ! t := view (log_dev lg) s (log_block lg t))"
    "hist s' = hist s @ [(lh_block (lh lg) ! t, view (log_dev lg) s (log_block lg t))]"
proof -
  define d u v where "d = log_dev lg" and "u = log_block lg t" and "v = lh_block (lh lg) ! t"
  note duv = d_def[symmetric] u_def[symmetric] v_def[symmetric]
  have uv: "u \<noteq> v" using assms(5) by (simp add: u_def v_def)
  obtain a s1 b s2 where r: "bread me d u s = Inr (a, s1)" "fetched me d u s a s1" "bread me d v s1 = Inr (b, s2)"
    "fetched me d v s1 b s2" "a \<noteq> b" "cache_ok d s1" "cache_ok d s2" "view d s1 = view d s" "view d s2 = view d s"
    using two_fetch[OF assms(1-6)] unfolding duv by metis
  note P = fetched_pair[OF r(2,4,5,8)]
  have pin: "refcnt (bufs s b) \<noteq> 0" if nr: "\<not> recovering"
  proof
    assume z: "refcnt (bufs s b) = 0"
    obtain c where c: "cached d s v c" "refcnt (bufs s c) \<noteq> 0" using assms(7)[OF nr] by (auto simp: pinned_def duv)
    have "c \<noteq> a" using c fetchedD(12)[OF r(2)] uv by (auto simp: cached_def)
    then have "cached d s1 v c" using c(1) fetchedD(7)[OF r(2)] by (simp add: cached_def)
    then have "c = b" using fetchedD(12)[OF r(4)] cache_okD(2)[OF r(6)] by blast
    then show False using z c(2) by simp
  qed
  define k :: "32 word" where "k = (if recovering then 0 else 1)"
  obtain s4 where s4: "bwrite me b (set_data b (view d s u) s2) = Inr s4" "tag s4 = tag s2" "\<And>y. lock (bufs s4 y) = lock (bufs s2 y)"
    "\<And>y. data (bufs s4 y) = (if y = b then view d s u else data (bufs s2 y))" "disk s4 = (disk s2)(v := view d s u)"
    "hist s4 = hist s2 @ [(v, view d s u)]" "cache_ok d s4" "view d s4 = (view d s2)(v := view d s u)"
    using put_block[OF r(7) P(6,8,12)] by metis
  note t4 = tag_cached[OF fun_cong[OF s4(2)]]
  define s5 where "s5 = (if \<not> recovering then bunpin b s4 else s4)"
  have b5: "bufs s5 = (bufs s4)(b := (bufs s4 b)\<lparr>refcnt := refcnt (bufs s b) + 1 - k\<rparr>)" "disk s5 = disk s4" "hist s5 = hist s4"
    using t4(3) P(14) by (auto simp: s5_def k_def bunpin_def upd_def fun_upd_idem)
  have cc: "cached d s5 bn x = cached d s4 bn x" for bn x by (simp add: b5 cached_def)
  have c5: "cache_ok d s5" "view d s5 = view d s4"
    using bunpin_ok[OF s4(7), of b] s4(7) t4(3) P(14) pin by (auto simp: s5_def)
  have a5: "cached d s5 u a" "holdingsleep me (lock (bufs s5 a))" "refcnt (bufs s5 a) = refcnt (bufs s a) + 1"
    using P(5,11,13) t4 s4(3) r(5) cc by (simp_all add: b5)
  have "data (bufs s5 a) = disk s5 u" if "refcnt (bufs s5 a) = 1"
    using that a5(3) P(3,9) r(5) uv fetched_unref[OF assms(1)[unfolded duv] r(2)] s4(4,5) by (simp add: b5)
  then obtain s6 where s6: "brelse me a s5 = Inr s6" "tag s6 = (tag s5)(a := (False, refcnt (bufs s5 a) - 1, d, u, valid (bufs s5 a)))"
    "\<And>y. y \<noteq> a \<Longrightarrow> lock (bufs s6 y) = lock (bufs s5 y)" "\<And>y. data (bufs s6 y) = data (bufs s5 y)"
    "disk s6 = disk s5" "hist s6 = hist s5" "cache_ok d s6" "view d s6 = view d s5"
    using give_back[OF c5(1) a5(1,2)] by metis
  have "tag s6 b = tag s5 b" using s6(2) r(5) by simp
  note t6 = tag_cached[OF this]
  have b6: "cached d s6 v b" "holdingsleep me (lock (bufs s6 b))" using P(6,12) t4 t6 s6(3) s4(3) r(5) cc by (simp_all add: b5)
  have "data (bufs s6 b) = disk s6 v" using s6(4,5) s4(4,5) by (simp add: b5)
  then obtain s7 where s7: "brelse me b s6 = Inr s7" "tag s7 = (tag s6)(b := (False, refcnt (bufs s6 b) - 1, d, v, valid (bufs s6 b)))"
    "disk s7 = disk s6" "hist s7 = hist s6" "cache_ok d s7" "view d s7 = view d s6"
    using give_back[OF s6(7) b6] by metis
  have "settles d (if recovering then {} else {v}) s s7"
  proof (rule settlesI[of a b _ _ _ u k])
    have "tag s5 x = tag s4 x" if "x \<noteq> b" for x using that by (simp add: tag_def b5)
    then show "tag s7 x = tag s x" if "x \<noteq> a" "x \<noteq> b" for x using that s7(2) s6(2) s4(2) P(21) by simp
    show "tag s7 a = (False, refcnt (bufs s a), d, u, True)"
      using s7(2) s6(2) r(5) a5(3) t4 P(7) by (simp add: b5)
    show "tag s7 b = (False, refcnt (bufs s b) - k, d, v, True)" using s7(2) t6 t4 P(8) by (simp add: b5)
  qed (use P pin uv assms(1) in \<open>auto simp: k_def duv\<close>)
  moreover have "install_step me recovering lg t s = Inr s7"
    unfolding install_step_def duv using r(1,3) P(3) s4(1) s6(1) s7(1) by (simp add: Let_def s5_def)
  ultimately show thesis
    using that[of s7] s7(3-6) s6(5,6,8) c5(2) s4(5,6,8) r(9) P(9,10) unfolding duv by (simp add: b5)
qed

lemma one_fetch:
  assumes "cache_ok d s" "avail d s A" "u \<in> A" "free_bufs s \<noteq> {} \<or> (\<exists>b. cached d s u b)"
  obtains a s1 where "bread me d u s = Inr (a, s1)" "fetched me d u s a s1" "cache_ok d s1" "view d s1 = view d s"
    "cached d s1 u a" "valid (bufs s1 a)" "holdingsleep me (lock (bufs s1 a))" "data (bufs s1 a) = view d s u"
    "disk s1 = disk s" "hist s1 = hist s"
proof (rule avail_bread[OF assms])
  fix a s1 assume r: "bread me d u s = Inr (a, s1)" "fetched me d u s a s1"
  note D = fetchedD[OF r(2)]
  show thesis
    by (rule that[OF r fetched_ok[OF assms(1) r(2)] fetched_view[OF assms(1) r(2)] D(2,3,5,4,8,9)])
qed

lemma settles_one:
  assumes "fetched me d u s a s1" "tag s' = (tag s1)(a := (False, refcnt (bufs s1 a) - 1, d, u, True))"
  shows "settles d {} s s'"
proof (rule settlesI[of a a _ _ _ u 0 u])
  note D = fetchedD[OF assms(1)] and t = tag_fetched[OF assms(1)]
  show "tag s' x = tag s x" if "x \<noteq> a" for x using that assms(2) t by simp
  show "tag s' a = (False, refcnt (bufs s a), d, u, True)" "tag s' a = (False, refcnt (bufs s a) - 0, d, u, True)"
    using assms(2) D(6) by simp_all
  show "cached d s u a \<or> refcnt (bufs s a) = 0" "cached d s u a \<or> refcnt (bufs s a) = 0"
    "\<not> locked (lock (bufs s a))" "\<not> locked (lock (bufs s a))" using D(12,13) by blast+
qed simp

text \<open>The header as it is written over the old content of the block, and as it is read.\<close>

definition head_words :: "logheader \<Rightarrow> block \<Rightarrow> block" where
  "head_words h old = fold (\<lambda>i w. w[Suc i := lh_block h ! i]) [0 ..< nat (lh_n h)] (old[0 := word_of_int (lh_n h)])"

definition head_of :: "block \<Rightarrow> 32 word list \<Rightarrow> logheader" where
  "head_of w bl = \<lparr>lh_n = sint (w ! 0), lh_block = fold (\<lambda>i bl. bl[i := w ! Suc i]) [0 ..< nat (sint (w ! 0))] bl\<rparr>"

lemma write_head_ok:
  assumes "cache_ok (log_dev lg) s" "avail (log_dev lg) s A" "start lg \<in> A" "free_bufs s \<noteq> {}"
  obtains s' where "write_head me lg s = Inr s'" "settles (log_dev lg) {} s s'" "cache_ok (log_dev lg) s'"
    "view (log_dev lg) s' = (view (log_dev lg) s)(start lg := head_words (lh lg) (view (log_dev lg) s (start lg)))"
    "disk s' = (disk s)(start lg := head_words (lh lg) (view (log_dev lg) s (start lg)))"
    "hist s' = hist s @ [(start lg, head_words (lh lg) (view (log_dev lg) s (start lg)))]"
proof -
  define d u w where "d = log_dev lg" and "u = start lg" and "w = head_words (lh lg) (view d s u)"
  note duv = d_def[symmetric] u_def[symmetric] w_def[symmetric]
  obtain a s1 where r: "bread me d u s = Inr (a, s1)" "fetched me d u s a s1" "cache_ok d s1" "view d s1 = view d s"
    "cached d s1 u a" "valid (bufs s1 a)" "holdingsleep me (lock (bufs s1 a))" "data (bufs s1 a) = view d s u"
    "disk s1 = disk s" "hist s1 = hist s" using one_fetch[OF assms(1-3) disjI1[OF assms(4)]] unfolding duv by metis
  obtain s2 where s2: "bwrite me a (set_data a w s1) = Inr s2" "tag s2 = tag s1" "\<And>y. lock (bufs s2 y) = lock (bufs s1 y)"
    "\<And>y. data (bufs s2 y) = (if y = a then w else data (bufs s1 y))" "disk s2 = (disk s1)(u := w)"
    "hist s2 = hist s1 @ [(u, w)]" "cache_ok d s2" "view d s2 = (view d s1)(u := w)"
    using put_block[OF r(3,5-7)] by metis
  note t2 = tag_cached[OF fun_cong[OF s2(2)]]
  have a2: "cached d s2 u a" "holdingsleep me (lock (bufs s2 a))" "data (bufs s2 a) = disk s2 u"
    using r(5,7) t2 s2(3-5) by simp_all
  obtain s3 where s3: "brelse me a s2 = Inr s3" "tag s3 = (tag s2)(a := (False, refcnt (bufs s2 a) - 1, d, u, valid (bufs s2 a)))"
    "disk s3 = disk s2" "hist s3 = hist s2" "cache_ok d s3" "view d s3 = view d s2"
    using give_back[OF s2(7) a2(1,2)] a2(3) by metis
  have "tag s3 = (tag s1)(a := (False, refcnt (bufs s1 a) - 1, d, u, True))" using s3(2) s2(2) t2 r(6) by simp
  then have "settles d {} s s3" by (rule settles_one[OF r(2)])
  moreover have "write_head me lg s = Inr s3"
    unfolding write_head_def duv using r(1,8) s2(1) s3(1) by (simp add: Let_def w_def head_words_def)
  ultimately show thesis
    using that[of s3] s3(3-6) s2(5,6,8) r(4,9,10) unfolding duv by simp
qed

lemma read_back:
  assumes "cache_ok d s" "avail d s A" "u \<in> A" "free_bufs s \<noteq> {} \<or> (\<exists>b. cached d s u b)"
  obtains a s1 s' where "bread me d u s = Inr (a, s1)" "data (bufs s1 a) = view d s u" "brelse me a s1 = Inr s'"
    "settles d {} s s'" "cache_ok d s'" "view d s' = view d s" "disk s' = disk s" "hist s' = hist s"
proof -
  obtain a s1 where r: "bread me d u s = Inr (a, s1)" "fetched me d u s a s1" "cache_ok d s1" "view d s1 = view d s"
    "cached d s1 u a" "valid (bufs s1 a)" "holdingsleep me (lock (bufs s1 a))" "data (bufs s1 a) = view d s u"
    "disk s1 = disk s" "hist s1 = hist s" using one_fetch[OF assms] by metis
  have "data (bufs s1 a) = disk s1 u" if "refcnt (bufs s1 a) = 1"
    using that r(8,9) fetchedD(6)[OF r(2)] fetched_unref[OF assms(1) r(2)] by simp
  then obtain s3 where s3: "brelse me a s1 = Inr s3" "tag s3 = (tag s1)(a := (False, refcnt (bufs s1 a) - 1, d, u, valid (bufs s1 a)))"
    "disk s3 = disk s1" "hist s3 = hist s1" "cache_ok d s3" "view d s3 = view d s1"
    using give_back[OF r(3,5,7)] by metis
  have "settles d {} s s3" using settles_one[OF r(2)] s3(2) r(6) by simp
  then show thesis using that[OF r(1,8) s3(1)] s3(3-6) r(4,9,10) by simp
qed

lemma read_head_ok:
  assumes "cache_ok (log_dev lg) s" "avail (log_dev lg) s A" "start lg \<in> A" "free_bufs s \<noteq> {}"
    "sint (view (log_dev lg) s (start lg) ! 0) \<le> LOGBLOCKS"
  obtains s' where "read_head me lg s =
      Inr (lg\<lparr>lh := head_of (view (log_dev lg) s (start lg)) (lh_block (lh lg))\<rparr>, s')"
    "settles (log_dev lg) {} s s'" "cache_ok (log_dev lg) s'" "view (log_dev lg) s' = view (log_dev lg) s"
    "disk s' = disk s" "hist s' = hist s"
proof (rule read_back[OF assms(1-3) disjI1[OF assms(4)]])
  fix a s1 s' assume r: "bread me (log_dev lg) (start lg) s = Inr (a, s1)" "data (bufs s1 a) = view (log_dev lg) s (start lg)"
    "brelse me a s1 = Inr s'" "settles (log_dev lg) {} s s'" "cache_ok (log_dev lg) s'"
    "view (log_dev lg) s' = view (log_dev lg) s" "disk s' = disk s" "hist s' = hist s"
  have "read_head me lg s = Inr (lg\<lparr>lh := head_of (view (log_dev lg) s (start lg)) (lh_block (lh lg))\<rparr>, s')"
    unfolding read_head_def using r(1-3) assms(5) by (simp add: Let_def head_of_def)
  then show thesis using r(4-8) by (rule that)
qed

lemma readsb_ok:
  assumes "cache_ok d s" "avail d s A" "1 \<in> A" "free_bufs s \<noteq> {}"
  obtains sb s' where "readsb me d s = Inr (sb, s')" "magic sb = view d s 1 ! 0" "logstart sb = view d s 1 ! 5"
    "settles d {} s s'" "cache_ok d s'" "view d s' = view d s" "disk s' = disk s" "hist s' = hist s"
proof (rule read_back[OF assms(1-3) disjI1[OF assms(4)]])
  fix a s1 s' assume r: "bread me d 1 s = Inr (a, s1)" "data (bufs s1 a) = view d s 1" "brelse me a s1 = Inr s'"
    "settles d {} s s'" "cache_ok d s'" "view d s' = view d s" "disk s' = disk s" "hist s' = hist s"
  have "\<exists>sb. readsb me d s = Inr (sb, s') \<and> magic sb = view d s 1 ! 0 \<and> logstart sb = view d s 1 ! 5"
    unfolding readsb_def using r(1-3) by (simp add: Let_def)
  then show thesis using r(4-8) that by blast
qed

end
