(* ===== verification/Wal_Crash.thy ===== *)
theory Wal_Crash
  imports Wal
begin

text \<open>
  Crashes.  A crash stops the machine between two writes to the disk; after it the kernel starts with
  an empty cache and runs \<open>initlog\<close>, which may crash again.  This theory follows the writes of a commit
  and of a recovery and compares the disk that remains with the state before and after the commit.
\<close>

section \<open>Sequences of writes\<close>

definition apply_writes :: "(blocknum \<times> block) list \<Rightarrow> (blocknum \<Rightarrow> block) \<Rightarrow> blocknum \<Rightarrow> block" where
  "apply_writes ws dk = fold (\<lambda>(bn, v) dk. dk(bn := v)) ws dk"

lemma apply_writes_simps [simp]:
  "apply_writes [] dk = dk" "apply_writes ((bn, v) # ws) dk = apply_writes ws (dk(bn := v))"
  "apply_writes (ws @ vs) dk = apply_writes vs (apply_writes ws dk)"
  by (simp_all add: apply_writes_def)

lemma apply_writes_other: "bn \<notin> fst ` set ws \<Longrightarrow> apply_writes ws dk bn = dk bn"
  by (induction ws arbitrary: dk) auto

text \<open>Only the blocks that are not written matter before the writes.\<close>

lemma apply_writes_cong:
  assumes "\<And>bn. bn \<notin> fst ` set ws \<Longrightarrow> dk bn = dk' bn"
  shows "apply_writes ws dk bn = apply_writes ws dk' bn"
  using assms
proof (induction ws arbitrary: dk dk')
  case (Cons w ws)
  obtain a v where w: "w = (a, v)" by (cases w)
  show ?case unfolding w apply_writes_simps by (rule Cons.IH) (use Cons.prems w in auto)
qed simp

lemma apply_writes_again: "apply_writes ws (apply_writes (take j ws) dk) = apply_writes ws dk"
proof
  fix bn
  have "fst ` set (take j ws) \<subseteq> fst ` set ws" by (intro image_mono set_take_subset)
  then show "apply_writes ws (apply_writes (take j ws) dk) bn = apply_writes ws dk bn"
    by (intro apply_writes_cong apply_writes_other) blast
qed

lemma apply_writes_map:
  assumes "t \<in> set ts" "inj_on f (set ts)" "distinct ts"
  shows "apply_writes (map (\<lambda>t. (f t, g t)) ts) dk (f t) = g t"
  using assms
proof (induction ts arbitrary: dk)
  case (Cons u ts)
  show ?case
  proof (cases "t = u")
    case True
    then have "f u \<notin> fst ` set (map (\<lambda>t. (f t, g t)) ts)" using Cons.prems by (auto simp: inj_on_def)
    then show ?thesis using True by (simp add: apply_writes_other)
  next
    case False
    then show ?thesis using Cons by (simp add: inj_on_def)
  qed
qed simp

section \<open>The loops\<close>

definition copies :: "log \<Rightarrow> (blocknum \<Rightarrow> block) \<Rightarrow> nat list \<Rightarrow> (blocknum \<times> block) list" where
  "copies lg vw ts = map (\<lambda>t. (log_block lg t, vw (lh_block (lh lg) ! t))) ts"

definition installs :: "log \<Rightarrow> (blocknum \<Rightarrow> block) \<Rightarrow> nat list \<Rightarrow> (blocknum \<times> block) list" where
  "installs lg vw ts = map (\<lambda>t. (lh_block (lh lg) ! t, vw (log_block lg t))) ts"

definition slots_ok :: "log \<Rightarrow> blocknum set \<Rightarrow> store \<Rightarrow> nat list \<Rightarrow> bool" where
  "slots_ok lg A s ts \<longleftrightarrow> (\<forall>t \<in> set ts. log_block lg t \<in> A \<and> lh_block (lh lg) ! t \<in> A \<and>
     room (log_dev lg) s (lh_block (lh lg) ! t) \<and> (\<forall>t' \<in> set ts. log_block lg t' \<noteq> lh_block (lh lg) ! t))"

lemma settles_refl: "settles d {} s s"
  by (simp add: settles_def)

lemma write_log_loop:
  assumes "cache_ok (log_dev lg) s" "avail (log_dev lg) s A" "slots_ok lg A s ts"
  shows "\<exists>s'. for_tail (write_log_step me lg) ts s = Inr s' \<and> settles (log_dev lg) {} s s' \<and> cache_ok (log_dev lg) s' \<and>
    view (log_dev lg) s' = apply_writes (copies lg (view (log_dev lg) s) ts) (view (log_dev lg) s) \<and>
    disk s' = apply_writes (copies lg (view (log_dev lg) s) ts) (disk s) \<and>
    hist s' = hist s @ copies lg (view (log_dev lg) s) ts"
  using assms
proof (induction ts arbitrary: s)
  case Nil
  then show ?case by (simp add: copies_def settles_refl)
next
  case (Cons t ts)
  let ?d = "log_dev lg"
  have t: "log_block lg t \<in> A" "lh_block (lh lg) ! t \<in> A" "log_block lg t \<noteq> lh_block (lh lg) ! t"
    "room ?d s (lh_block (lh lg) ! t)" using Cons.prems(3) by (auto simp: slots_ok_def)
  obtain s1 where s1: "write_log_step me lg t s = Inr s1" "settles ?d {} s s1" "cache_ok ?d s1"
    "view ?d s1 = (view ?d s)(log_block lg t := view ?d s (lh_block (lh lg) ! t))"
    "disk s1 = (disk s)(log_block lg t := view ?d s (lh_block (lh lg) ! t))"
    "hist s1 = hist s @ [(log_block lg t, view ?d s (lh_block (lh lg) ! t))]"
    by (rule write_log_step_ok[OF Cons.prems(1,2) t])
  have "slots_ok lg A s1 ts" using Cons.prems(3) settles_room[OF s1(2)] by (auto simp: slots_ok_def)
  then obtain s' where s': "for_tail (write_log_step me lg) ts s1 = Inr s'" "settles ?d {} s1 s'" "cache_ok ?d s'"
    "view ?d s' = apply_writes (copies lg (view ?d s1) ts) (view ?d s1)"
    "disk s' = apply_writes (copies lg (view ?d s1) ts) (disk s1)" "hist s' = hist s1 @ copies lg (view ?d s1) ts"
    using Cons.IH[OF s1(3) settles_avail[OF s1(2) Cons.prems(2)]] by blast
  have "view ?d s1 (lh_block (lh lg) ! t') = view ?d s (lh_block (lh lg) ! t')" if "t' \<in> set ts" for t'
    using that Cons.prems(3) s1(4) by (auto simp: slots_ok_def)
  then have c: "copies lg (view ?d s) (t # ts) = (log_block lg t, view ?d s (lh_block (lh lg) ! t)) # copies lg (view ?d s1) ts"
    by (simp add: copies_def)
  show ?case
    using s1 s' settles_trans[OF s1(2) s'(2)] unfolding c by (intro exI[of _ s']) simp
qed

lemma install_loop:
  assumes "cache_ok (log_dev lg) s" "avail (log_dev lg) s A" "slots_ok lg A s ts"
    "\<not> recovering \<Longrightarrow> (\<forall>t \<in> set ts. pinned (log_dev lg) s (lh_block (lh lg) ! t)) \<and> distinct (map ((!) (lh_block (lh lg))) ts)"
  shows "\<exists>s'. for_tail (install_step me recovering lg) ts s = Inr s' \<and>
    settles (log_dev lg) (if recovering then {} else (!) (lh_block (lh lg)) ` set ts) s s' \<and> cache_ok (log_dev lg) s' \<and>
    view (log_dev lg) s' = apply_writes (installs lg (view (log_dev lg) s) ts) (view (log_dev lg) s) \<and>
    disk s' = apply_writes (installs lg (view (log_dev lg) s) ts) (disk s) \<and>
    hist s' = hist s @ installs lg (view (log_dev lg) s) ts"
  using assms
proof (induction ts arbitrary: s)
  case Nil
  then show ?case by (simp add: installs_def settles_refl)
next
  case (Cons t ts)
  let ?d = "log_dev lg" and ?bl = "(!) (lh_block (lh lg))"
  have t: "log_block lg t \<in> A" "?bl t \<in> A" "log_block lg t \<noteq> ?bl t" "room ?d s (?bl t)"
    using Cons.prems(3) by (auto simp: slots_ok_def)
  define U where "U = (if recovering then {} else {?bl t})"
  have p: "\<not> recovering \<Longrightarrow> pinned ?d s (?bl t)" using Cons.prems(4) by simp
  obtain s1 where s1: "install_step me recovering lg t s = Inr s1" "settles ?d U s s1" "cache_ok ?d s1"
    "view ?d s1 = (view ?d s)(?bl t := view ?d s (log_block lg t))"
    "disk s1 = (disk s)(?bl t := view ?d s (log_block lg t))"
    "hist s1 = hist s @ [(?bl t, view ?d s (log_block lg t))]"
    unfolding U_def by (rule install_step_ok[OF Cons.prems(1,2) t p])
  have u: "?bl t' \<notin> U" if "t' \<in> set ts" for t'
    using imageI[OF that, of ?bl] Cons.prems(4) by (auto simp: U_def)
  have "slots_ok lg A s1 ts" using Cons.prems(3) settles_room[OF s1(2)] u by (auto simp: slots_ok_def)
  moreover have "(\<forall>t \<in> set ts. pinned ?d s1 (?bl t)) \<and> distinct (map ?bl ts)" if "\<not> recovering"
    using that Cons.prems(4) settles_pinned[OF s1(2)] u by auto
  ultimately obtain s' where s': "for_tail (install_step me recovering lg) ts s1 = Inr s'"
    "settles ?d (if recovering then {} else ?bl ` set ts) s1 s'" "cache_ok ?d s'"
    "view ?d s' = apply_writes (installs lg (view ?d s1) ts) (view ?d s1)"
    "disk s' = apply_writes (installs lg (view ?d s1) ts) (disk s1)" "hist s' = hist s1 @ installs lg (view ?d s1) ts"
    using Cons.IH[OF s1(3) settles_avail[OF s1(2) Cons.prems(2)]] by blast
  have "view ?d s1 (log_block lg t') = view ?d s (log_block lg t')" if "t' \<in> set ts" for t'
    using that Cons.prems(3) s1(4) by (auto simp: slots_ok_def)
  then have c: "installs lg (view ?d s) (t # ts) = (?bl t, view ?d s (log_block lg t)) # installs lg (view ?d s1) ts"
    by (simp add: installs_def)
  have "U \<inter> (if recovering then {} else ?bl ` set ts) = {}" using u by auto
  note tr = settles_trans[OF s1(2) s'(2) this]
  have "U \<union> (if recovering then {} else ?bl ` set ts) = (if recovering then {} else ?bl ` set (t # ts))"
    by (auto simp: U_def)
  with tr s1 s' show ?case unfolding c by (intro exI[of _ s']) simp
qed

section \<open>The header block\<close>

lemma fold_words: "length (fold (\<lambda>i w. w[Suc i := f i]) [0 ..< m] w) = length w"
  "j < length w \<Longrightarrow> fold (\<lambda>i w. w[Suc i := f i]) [0 ..< m] w ! j = (if 0 < j \<and> j \<le> m then f (j - 1) else w ! j)"
proof (induction m)
  case (Suc m)
  show "length (fold (\<lambda>i w. w[Suc i := f i]) [0 ..< Suc m] w) = length w" using Suc(1) by simp
  show "j < length w \<Longrightarrow> fold (\<lambda>i w. w[Suc i := f i]) [0 ..< Suc m] w ! j = (if 0 < j \<and> j \<le> Suc m then f (j - 1) else w ! j)"
    using Suc by (cases "j = Suc m") (auto simp: nth_list_update)
qed auto

lemma fold_blocks: "length (fold (\<lambda>i bl. bl[i := f i]) [0 ..< m] bl) = length bl"
  "j < length bl \<Longrightarrow> fold (\<lambda>i bl. bl[i := f i]) [0 ..< m] bl ! j = (if j < m then f j else bl ! j)"
proof (induction m)
  case (Suc m)
  show "length (fold (\<lambda>i bl. bl[i := f i]) [0 ..< Suc m] bl) = length bl" using Suc(1) by simp
  show "j < length bl \<Longrightarrow> fold (\<lambda>i bl. bl[i := f i]) [0 ..< Suc m] bl ! j = (if j < Suc m then f j else bl ! j)"
    using Suc by (cases "j = m") (auto simp: nth_list_update)
qed simp_all

lemma head_words_ok:
  assumes "length old = 256" "0 \<le> lh_n h" "lh_n h \<le> 30"
  shows "length (head_words h old) = 256" "sint (head_words h old ! 0) = lh_n h"
    "t < nat (lh_n h) \<Longrightarrow> head_words h old ! Suc t = lh_block h ! t"
proof -
  show "length (head_words h old) = 256" by (simp add: head_words_def fold_words(1) assms(1))
  have "head_words h old ! 0 = word_of_int (lh_n h)"
    using assms(1) by (simp add: head_words_def fold_words(2))
  moreover have "sint (word_of_int (lh_n h) :: 32 word) = lh_n h"
    using assms(2,3) by (simp add: sint_sbintrunc' signed_take_bit_int_eq_self)
  ultimately show "sint (head_words h old ! 0) = lh_n h" by simp
  show "t < nat (lh_n h) \<Longrightarrow> head_words h old ! Suc t = lh_block h ! t"
    using assms by (simp add: head_words_def fold_words(2))
qed

section \<open>Recovery\<close>

definition log_area :: "blocknum \<Rightarrow> blocknum set" where
  "log_area st = insert st ((\<lambda>t. st + of_nat t + 1) ` {0 ..< 30})"

text \<open>No file operation changes the super block or the log area.\<close>

definition reserved :: "blocknum \<Rightarrow> blocknum set" where
  "reserved st = insert 1 (log_area st)"

text \<open>The writes a recovery makes before it clears the header, and the content after it.\<close>

definition replay :: "blocknum \<Rightarrow> (blocknum \<Rightarrow> block) \<Rightarrow> (blocknum \<times> block) list" where
  "replay st dk = map (\<lambda>t. (dk st ! Suc t, dk (st + of_nat t + 1))) [0 ..< nat (sint (dk st ! 0))]"

definition good_disk :: "blocknum \<Rightarrow> (blocknum \<Rightarrow> block) \<Rightarrow> bool" where
  "good_disk st dk \<longleftrightarrow> length (dk st) = 256 \<and> sint (dk st ! 0) \<le> 30 \<and>
     (\<forall>t < nat (sint (dk st ! 0)). dk st ! Suc t \<notin> reserved st)"

lemma area_log_block: "t < 30 \<Longrightarrow> log_block lg t \<in> log_area (start lg)"
  by (auto simp: log_block_def log_area_def)

lemma log_block_start: "t < 30 \<Longrightarrow> log_block lg t \<noteq> start lg"
proof
  assume "t < 30" "log_block lg t = start lg"
  then have "(of_nat (Suc t) :: 32 word) = 0" by (simp add: log_block_def algebra_simps)
  then have "unat (of_nat (Suc t) :: 32 word) = 0" by simp
  then show False using \<open>t < 30\<close> by (simp only: unat_of_nat) simp
qed

lemma log_block_inj: "inj_on (log_block lg) {0 ..< 30}"
proof (rule inj_onI)
  fix x y assume a: "x \<in> {0 ..< 30}" "y \<in> {0 ..< 30}" "log_block lg x = log_block lg y"
  then have "(of_nat x :: 32 word) = of_nat y" by (simp add: log_block_def)
  then have "unat (of_nat x :: 32 word) = unat (of_nat y :: 32 word)" by simp
  then show "x = y" using a(1,2) by (simp only: unat_of_nat) simp
qed

lemma exact_none_room: "exact d s {} \<Longrightarrow> room d s v"
proof -
  assume "exact d s {}"
  then have "free_bufs s = {..< NBUF}" by (auto simp: exact_def free_bufs_def)
  then show ?thesis by (simp add: room_def NBUF_def lessThan_empty_iff)
qed

lemma recover_ok:
  assumes "cache_ok (log_dev lg) s" "exact (log_dev lg) s {}" "view (log_dev lg) s = disk s"
    "good_disk (start lg) (disk s)" "length (lh_block (lh lg)) = 30"
  shows "\<exists>lg' s' w. recover_from_log me lg s = Inr (lg', s') \<and> cache_ok (log_dev lg) s' \<and> exact (log_dev lg) s' {} \<and>
    view (log_dev lg) s' = disk s' \<and> hist s' = hist s @ replay (start lg) (disk s) @ [(start lg, w)] \<and>
    disk s' = apply_writes (replay (start lg) (disk s) @ [(start lg, w)]) (disk s) \<and>
    length w = 256 \<and> sint (w ! 0) = 0 \<and> lh_n (lh lg') = 0 \<and> length (lh_block (lh lg')) = 30 \<and>
    lg' = lg\<lparr>lh := lh lg'\<rparr>"
proof -
  let ?d = "log_dev lg" and ?st = "start lg"
  have k: "sint (view ?d s ?st ! 0) \<le> LOGBLOCKS" using assms(3,4) by (simp add: good_disk_def LOGBLOCKS_def MAXOPBLOCKS_def)
  define lg1 where "lg1 = lg\<lparr>lh := head_of (disk s ?st) (lh_block (lh lg))\<rparr>"
  define N where "N = nat (sint (disk s ?st ! 0))"
  have N: "N \<le> 30" using assms(4) by (auto simp: good_disk_def N_def)
  have f: "free_bufs s \<noteq> {}" using exact_none_room[OF assms(2), of 0] by (simp add: room_def)
  obtain s1 where s1: "read_head me lg s = Inr (lg1, s1)" "settles ?d {} s s1" "cache_ok ?d s1" "view ?d s1 = disk s"
    "disk s1 = disk s" "hist s1 = hist s"
    using read_head_ok[OF assms(1) exact_avail[OF assms(2), of UNIV] UNIV_I f k, of me] unfolding lg1_def assms(3) by metis
  have e1: "exact ?d s1 {}" using settles_exact[OF s1(2) assms(2)] by simp
  have l1: "log_dev lg1 = ?d" "start lg1 = ?st" "nat (lh_n (lh lg1)) = N" "length (lh_block (lh lg1)) = 30"
    "log_block lg1 t = log_block lg t" for t
    by (simp_all add: lg1_def head_of_def N_def fold_blocks(1) assms(5) log_block_def)
  have bl: "lh_block (lh lg1) ! t = disk s ?st ! Suc t" if "t < N" for t
    using that N assms(5) by (simp add: lg1_def head_of_def N_def fold_blocks(2))
  have "slots_ok lg1 UNIV s1 [0 ..< N]"
  proof -
    have "log_block lg t' \<noteq> disk s ?st ! Suc t" if "t < N" "t' < N" for t t'
      using that N area_log_block[of t' lg] assms(4) by (auto simp: good_disk_def reserved_def N_def)
    then show ?thesis using exact_none_room[OF e1] by (simp add: slots_ok_def l1 bl)
  qed
  then obtain s2 where s2: "install_trans me True lg1 s1 = Inr s2" "settles ?d {} s1 s2" "cache_ok ?d s2"
    "view ?d s2 = apply_writes (installs lg1 (disk s) [0 ..< N]) (disk s)"
    "disk s2 = apply_writes (installs lg1 (disk s) [0 ..< N]) (disk s)" "hist s2 = hist s @ installs lg1 (disk s) [0 ..< N]"
    using install_loop[of lg1 s1 UNIV "[0 ..< N]" True me] s1(3-6) exact_avail[OF e1]
    unfolding install_trans_def l1 by auto
  have i: "installs lg1 (disk s) [0 ..< N] = replay ?st (disk s)"
    using bl by (simp add: installs_def replay_def N_def[symmetric] l1 log_block_def)
  have e2: "exact ?d s2 {}" using settles_exact[OF s2(2) e1] by simp
  define lg2 where "lg2 = lg1\<lparr>lh := (lh lg1)\<lparr>lh_n := 0\<rparr>\<rparr>"
  have l2: "log_dev lg2 = ?d" "start lg2 = ?st" "lh_n (lh lg2) = 0" "length (lh_block (lh lg2)) = 30"
    by (simp_all add: lg2_def l1)
  have l3: "lg2 = lg\<lparr>lh := lh lg2\<rparr>" by (simp add: lg2_def lg1_def)
  define w where "w = head_words (lh lg2) (view ?d s2 ?st)"
  have f2: "free_bufs s2 \<noteq> {}" using exact_none_room[OF e2, of 0] by (simp add: room_def)
  obtain s3 where s3: "write_head me lg2 s2 = Inr s3" "settles ?d {} s2 s3" "cache_ok ?d s3"
    "view ?d s3 = (view ?d s2)(?st := w)" "disk s3 = (disk s2)(?st := w)" "hist s3 = hist s2 @ [(?st, w)]"
    using write_head_ok[of lg2 s2 UNIV me, unfolded l2 w_def[symmetric], OF s2(3) exact_avail[OF e2] UNIV_I f2] by metis
  have "view ?d s2 ?st = disk s ?st"
    unfolding s2(4) i by (rule apply_writes_other) (use assms(4) in \<open>auto simp: replay_def good_disk_def reserved_def log_area_def\<close>)
  then have "length w = 256" "sint (w ! 0) = 0"
    using head_words_ok(1,2)[of "view ?d s2 ?st" "lh lg2"] assms(4) l2(3) by (simp_all add: w_def good_disk_def)
  moreover have "exact ?d s3 {}" using settles_exact[OF s3(2) e2] by simp
  moreover have "recover_from_log me lg s = Inr (lg2, s3)"
    unfolding recover_from_log_def using s1(1) s2(1) s3(1) by (simp add: Let_def lg2_def[symmetric])
  ultimately show ?thesis using s3(3-6) s2(4-6) l2 l3 unfolding i
    by (intro exI[of _ lg2] exI[of _ s3] exI[of _ w] conjI) simp_all
qed

text \<open>A disk with a file system: the super block names the log area, and the header is sound.\<close>

definition fs_disk :: "blocknum \<Rightarrow> (blocknum \<Rightarrow> block) \<Rightarrow> bool" where
  "fs_disk st dk \<longleftrightarrow> dk 1 ! 0 = FSMAGIC \<and> dk 1 ! 5 = st \<and> 1 \<notin> log_area st \<and> good_disk st dk"

definition ROOTDEV :: "32 word" where "ROOTDEV = 1"

text \<open>The kernel starts with an empty cache; the first process runs \<open>fsinit\<close>.\<close>

definition boot :: "(blocknum \<Rightarrow> block) \<Rightarrow> io_fault + log \<times> store" where
  "boot dk = fsinit 1 ROOTDEV zero_log (binit (power_on dk))"

lemma boot_ok:
  assumes "fs_disk st dk"
  shows "\<exists>lg s w. boot dk = Inr (lg, s) \<and> cache_ok ROOTDEV s \<and> exact ROOTDEV s {} \<and> view ROOTDEV s = disk s \<and>
    hist s = replay st dk @ [(st, w)] \<and> disk s = apply_writes (hist s) dk \<and> length w = 256 \<and> sint (w ! 0) = 0 \<and>
    lg = \<lparr>start = st, outstanding = 0, committing = False, log_dev = ROOTDEV, ncommit = 0, lh = lh lg\<rparr> \<and>
    lh_n (lh lg) = 0 \<and> length (lh_block (lh lg)) = 30"
proof -
  define s where "s = binit (power_on dk)"
  have d: "ROOTDEV \<noteq> 0" by (simp add: ROOTDEV_def)
  note b = binit_ok[OF d, of dk, folded s_def]
  have e: "exact ROOTDEV s {}" using b(5,6) by (simp add: exact_def)
  have f: "free_bufs s \<noteq> {}" using exact_none_room[OF e, of 0] by (simp add: room_def)
  obtain sb s1 where s1: "readsb 1 ROOTDEV s = Inr (sb, s1)" "magic sb = dk 1 ! 0" "logstart sb = dk 1 ! 5"
    "settles ROOTDEV {} s s1" "cache_ok ROOTDEV s1" "view ROOTDEV s1 = dk" "disk s1 = dk" "hist s1 = []"
    using readsb_ok[OF b(1) exact_avail[OF e, of UNIV] UNIV_I f, of 1] unfolding b(2-4) by metis
  define lg where "lg = zero_log\<lparr>start := st, log_dev := ROOTDEV\<rparr>"
  have l: "log_dev lg = ROOTDEV" "start lg = st" "length (lh_block (lh lg)) = 30"
    by (simp_all add: lg_def zero_log_def LOGBLOCKS_def MAXOPBLOCKS_def)
  have "exact ROOTDEV s1 {}" using settles_exact[OF s1(4) e] by simp
  then obtain lg' s' w where r: "recover_from_log 1 lg s1 = Inr (lg', s')" "cache_ok ROOTDEV s'" "exact ROOTDEV s' {}"
    "view ROOTDEV s' = disk s'" "hist s' = replay st dk @ [(st, w)]" "disk s' = apply_writes (replay st dk @ [(st, w)]) dk"
    "length w = 256" "sint (w ! 0) = 0" "lh_n (lh lg') = 0" "length (lh_block (lh lg')) = 30" "lg' = lg\<lparr>lh := lh lg'\<rparr>"
    using recover_ok[of lg s1 1, unfolded l, OF s1(5)] s1(6-8) assms l(3) unfolding fs_disk_def by (metis append_Nil)
  have "boot dk = Inr (lg', s')"
    unfolding boot_def fsinit_def s_def[symmetric] initlog_def
    using s1(1-3) assms r(1) by (simp add: fs_disk_def lg_def LOGBLOCKS_def MAXOPBLOCKS_def BSIZE_def)
  then show ?thesis
    using r(2-11) by (intro exI[of _ lg'] exI[of _ s'] exI[of _ w] conjI) (simp_all add: lg_def zero_log_def)
qed

section \<open>Crashes during the recovery\<close>

text \<open>\<open>dk'\<close> is what is left of \<open>dk\<close> after any number of starts that crashed after some of their writes.\<close>

inductive survives :: "(blocknum \<Rightarrow> block) \<Rightarrow> (blocknum \<Rightarrow> block) \<Rightarrow> bool" for dk where
  here: "survives dk dk"
| crash: "survives dk dk' \<Longrightarrow> boot dk' = Inr (lg, s) \<Longrightarrow> survives dk (apply_writes (take j (hist s)) dk')"

text \<open>The content of the blocks after a complete recovery.\<close>

definition recovered :: "blocknum \<Rightarrow> (blocknum \<Rightarrow> block) \<Rightarrow> blocknum \<Rightarrow> block" where
  "recovered st dk = apply_writes (replay st dk) dk"

lemma replay_fst:
  assumes "good_disk st dk" "bn \<in> reserved st"
  shows "bn \<notin> fst ` set (take j (replay st dk))"
proof
  assume "bn \<in> fst ` set (take j (replay st dk))"
  then have "bn \<in> fst ` set (replay st dk)" using set_take_subset by fastforce
  then show False using assms by (auto simp: replay_def good_disk_def)
qed

lemma replay_cong:
  assumes "\<And>bn. bn \<in> log_area st \<Longrightarrow> dk' bn = dk bn" "good_disk st dk"
  shows "replay st dk' = replay st dk" "good_disk st dk'"
proof -
  have s: "dk' st = dk st" using assms(1) by (simp add: log_area_def)
  have "dk' (st + of_nat t + 1) = dk (st + of_nat t + 1)" if "t < nat (sint (dk st ! 0))" for t
  proof -
    have "t < 30" using that assms(2) by (auto simp: good_disk_def)
    then show ?thesis using assms(1) by (auto simp: log_area_def)
  qed
  then show "replay st dk' = replay st dk" by (simp add: replay_def s)
  show "good_disk st dk'" using assms(2) by (simp add: good_disk_def s)
qed

lemma crash_step:
  assumes "fs_disk st dk" "length w = 256" "sint (w ! 0) = 0"
    and dk'_def: "dk' = apply_writes (take j (replay st dk @ [(st, w)])) dk"
  shows "fs_disk st dk'" "bn \<notin> log_area st \<Longrightarrow> recovered st dk' bn = recovered st dk bn"
proof -
  have g: "good_disk st dk" using assms(1) by (simp add: fs_disk_def)
  have "fs_disk st dk' \<and> (bn \<notin> log_area st \<longrightarrow> recovered st dk' bn = recovered st dk bn)"
  proof (cases "j \<le> length (replay st dk)")
    case True
    then have dk': "dk' = apply_writes (take j (replay st dk)) dk" by (simp add: dk'_def)
    have same: "dk' bn = dk bn" if "bn \<in> reserved st" for bn
      unfolding dk' using replay_fst[OF g that] by (rule apply_writes_other)
    then have r: "replay st dk' = replay st dk" "good_disk st dk'"
      using replay_cong[of st dk' dk] g by (simp_all add: reserved_def)
    have "fs_disk st dk'" using assms(1) r(2) same[of 1] by (simp add: fs_disk_def reserved_def)
    then show ?thesis by (simp add: recovered_def r(1)) (simp add: dk' apply_writes_again)
  next
    case False
    then have dk': "dk' = (recovered st dk)(st := w)" by (simp add: dk'_def recovered_def)
    have st: "1 \<noteq> st" using assms(1) by (auto simp: fs_disk_def log_area_def)
    have "recovered st dk 1 = dk 1"
      unfolding recovered_def using replay_fst[OF g, of 1 "length (replay st dk)"] by (intro apply_writes_other) (simp add: reserved_def)
    then have "fs_disk st dk'" using assms(1-3) st by (simp add: fs_disk_def good_disk_def dk')
    moreover have "replay st dk' = []" using assms(3) by (simp add: replay_def dk')
    ultimately show ?thesis by (auto simp: recovered_def dk' log_area_def)
  qed
  then show "fs_disk st dk'" "bn \<notin> log_area st \<Longrightarrow> recovered st dk' bn = recovered st dk bn" by blast+
qed

lemma survives_recovered:
  assumes "survives dk dk'" "fs_disk st dk"
  shows "fs_disk st dk' \<and> (\<forall>bn. bn \<notin> log_area st \<longrightarrow> recovered st dk' bn = recovered st dk bn)"
  using assms(1)
proof induction
  case (crash dk' lg s j)
  then have f: "fs_disk st dk'" by blast
  obtain w where w: "hist s = replay st dk' @ [(st, w)]" "length w = 256" "sint (w ! 0) = 0"
    using boot_ok[OF f] crash(2) by auto
  show ?case using crash_step[OF f w(2,3), where j = j, OF refl] crash(3) by (simp add: w(1))
qed (simp add: assms(2))

section \<open>The writes of a commit\<close>

definition commit_writes :: "log \<Rightarrow> (blocknum \<Rightarrow> block) \<Rightarrow> (blocknum \<times> block) list" where
  "commit_writes lg vw =
     (let ts = [0 ..< nat (lh_n (lh lg))]; h = head_words (lh lg) (vw (start lg)) in
      copies lg vw ts @ [(start lg, h)] @ map (\<lambda>t. (lh_block (lh lg) ! t, vw (lh_block (lh lg) ! t))) ts @
      [(start lg, head_words ((lh lg)\<lparr>lh_n := 0\<rparr>) h)])"

text \<open>The blocks of the running transaction.\<close>

definition logged :: "log \<Rightarrow> blocknum list" where
  "logged lg = take (nat (lh_n (lh lg))) (lh_block (lh lg))"

definition log_ok :: "log \<Rightarrow> bool" where
  "log_ok lg \<longleftrightarrow> 0 \<le> lh_n (lh lg) \<and> lh_n (lh lg) \<le> 30 \<and> length (lh_block (lh lg)) = 30 \<and>
     distinct (logged lg) \<and> set (logged lg) \<inter> reserved (start lg) = {}"

lemma log_okD:
  assumes "log_ok lg"
  shows "nat (lh_n (lh lg)) \<le> 30" "t < nat (lh_n (lh lg)) \<Longrightarrow> lh_block (lh lg) ! t = logged lg ! t"
    "length (logged lg) = nat (lh_n (lh lg))" "set (logged lg) = (!) (lh_block (lh lg)) ` {0 ..< nat (lh_n (lh lg))}"
    "t < nat (lh_n (lh lg)) \<Longrightarrow> lh_block (lh lg) ! t \<notin> reserved (start lg)"
    "distinct (map ((!) (lh_block (lh lg))) [0 ..< nat (lh_n (lh lg))])"
proof -
  show n: "nat (lh_n (lh lg)) \<le> 30" using assms by (auto simp: log_ok_def)
  show l: "length (logged lg) = nat (lh_n (lh lg))" using assms n by (simp add: logged_def log_ok_def)
  show e: "t < nat (lh_n (lh lg)) \<Longrightarrow> lh_block (lh lg) ! t = logged lg ! t" for t by (simp add: logged_def)
  have m: "logged lg = map ((!) (lh_block (lh lg))) [0 ..< nat (lh_n (lh lg))]"
    by (rule nth_equalityI) (simp_all add: l e)
  show "set (logged lg) = (!) (lh_block (lh lg)) ` {0 ..< nat (lh_n (lh lg))}" unfolding m by simp
  show "distinct (map ((!) (lh_block (lh lg))) [0 ..< nat (lh_n (lh lg))])" using assms unfolding m[symmetric] by (simp add: log_ok_def)
  show "lh_block (lh lg) ! t \<notin> reserved (start lg)" if "t < nat (lh_n (lh lg))"
  proof -
    have "logged lg ! t \<in> set (logged lg)" using that l by simp
    then show ?thesis using assms e[OF that] by (auto simp: log_ok_def)
  qed
qed

text \<open>Cutting a sequence of three parts.\<close>

lemma take_parts: "take j (a @ [x] @ b @ [y]) =
    (if j \<le> length a then take j a
     else if j \<le> length a + 1 + length b then a @ [x] @ take (j - length a - 1) b
     else a @ [x] @ b @ [y])"
  by (auto simp: take_Cons' not_le)

lemma recovered_empty:
  assumes "sint (dk st ! 0) = 0" "length (dk st) = 256"
  shows "recovered st dk = dk" "good_disk st dk"
  using assms by (simp_all add: recovered_def replay_def good_disk_def)

text \<open>A disk with the header and the log blocks of the transaction recovers to the state after it.\<close>

lemma recovered_full:
  assumes "log_ok lg" "length (dk (start lg)) = 256" "sint (dk (start lg) ! 0) = lh_n (lh lg)"
    "\<And>t. t < nat (lh_n (lh lg)) \<Longrightarrow> dk (start lg) ! Suc t = lh_block (lh lg) ! t \<and> dk (log_block lg t) = vw (lh_block (lh lg) ! t)"
    "\<And>bn. bn \<notin> set (logged lg) \<Longrightarrow> bn \<notin> log_area (start lg) \<Longrightarrow> dk bn = vw bn"
  shows "good_disk (start lg) dk" "bn \<notin> log_area (start lg) \<Longrightarrow> recovered (start lg) dk bn = vw bn"
proof -
  let ?st = "start lg" and ?bl = "(!) (lh_block (lh lg))" and ?ts = "[0 ..< nat (lh_n (lh lg))]"
  note D = log_okD[OF assms(1)]
  show "good_disk ?st dk" using assms(1-4) D(5) by (simp add: good_disk_def log_ok_def)
  have r: "replay ?st dk = map (\<lambda>t. (?bl t, vw (?bl t))) ?ts"
    using assms(4) by (simp add: replay_def assms(3)) (simp add: log_block_def)
  assume bn: "bn \<notin> log_area ?st"
  show "recovered ?st dk bn = vw bn"
  proof (cases "bn \<in> set (logged lg)")
    case True
    then obtain t where t: "bn = ?bl t" "t \<in> set ?ts" using D(4) by auto
    have "inj_on ?bl (set ?ts)" using D(6) by (simp add: distinct_map)
    then show ?thesis
      unfolding recovered_def r t(1) using t(2) by (intro apply_writes_map[where g = "\<lambda>t. vw (?bl t)"]) simp_all
  next
    case False
    then have "recovered ?st dk bn = dk bn"
      unfolding recovered_def r using D(4) by (intro apply_writes_other) auto
    then show ?thesis using assms(5)[OF False bn] by simp
  qed
qed

lemma copies_area:
  assumes "log_ok lg"
  shows "fst ` set (take i (copies lg vw [0 ..< nat (lh_n (lh lg))])) \<subseteq> log_area (start lg) - {start lg}"
proof -
  have "fst ` set (take i (copies lg vw [0 ..< nat (lh_n (lh lg))])) \<subseteq> fst ` set (copies lg vw [0 ..< nat (lh_n (lh lg))])"
    by (intro image_mono set_take_subset)
  also have "\<dots> \<subseteq> log_area (start lg) - {start lg}"
    using log_okD(1)[OF assms] area_log_block[of _ lg] log_block_start[of _ lg] by (auto simp: copies_def)
  finally show ?thesis .
qed

definition homes :: "log \<Rightarrow> (blocknum \<Rightarrow> block) \<Rightarrow> (blocknum \<times> block) list" where
  "homes lg vw = map (\<lambda>t. (lh_block (lh lg) ! t, vw (lh_block (lh lg) ! t))) [0 ..< nat (lh_n (lh lg))]"

lemma homes_blocks:
  assumes "log_ok lg"
  shows "fst ` set (take i (homes lg vw)) \<subseteq> set (logged lg)" "set (logged lg) \<inter> reserved (start lg) = {}"
    "bn \<in> set (logged lg) \<Longrightarrow> apply_writes (homes lg vw) dk bn = vw bn"
proof -
  note D = log_okD[OF assms]
  have "fst ` set (take i (homes lg vw)) \<subseteq> fst ` set (homes lg vw)" by (intro image_mono set_take_subset)
  also have "\<dots> \<subseteq> set (logged lg)" using D(4) by (auto simp: homes_def)
  finally show "fst ` set (take i (homes lg vw)) \<subseteq> set (logged lg)" .
  show "set (logged lg) \<inter> reserved (start lg) = {}" using assms by (simp add: log_ok_def)
  assume "bn \<in> set (logged lg)"
  then obtain t where t: "bn = lh_block (lh lg) ! t" "t \<in> set [0 ..< nat (lh_n (lh lg))]" using D(4) by auto
  have "inj_on ((!) (lh_block (lh lg))) (set [0 ..< nat (lh_n (lh lg))])" using D(6) by (simp add: distinct_map)
  then show "apply_writes (homes lg vw) dk bn = vw bn"
    unfolding homes_def t(1) using t(2) by (intro apply_writes_map[where g = "\<lambda>t. vw (lh_block (lh lg) ! t)"]) simp_all
qed

lemma commit_crash:
  assumes "log_ok lg" "fs_disk (start lg) dk" "sint (dk (start lg) ! 0) = 0" "vw (start lg) = dk (start lg)"
    "\<And>bn. bn \<notin> set (logged lg) \<Longrightarrow> bn \<notin> log_area (start lg) \<Longrightarrow> vw bn = dk bn"
  and dk': "dk' = apply_writes (take j (commit_writes lg vw)) dk"
  shows "fs_disk (start lg) dk' \<and>
    (\<forall>bn. bn \<notin> log_area (start lg) \<longrightarrow> recovered (start lg) dk' bn = (if j \<le> nat (lh_n (lh lg)) then dk bn else vw bn))"
proof -
  let ?st = "start lg" and ?bl = "(!) (lh_block (lh lg))"
  define N where "N = nat (lh_n (lh lg))"
  define h where "h = head_words (lh lg) (vw ?st)"
  define z where "z = head_words ((lh lg)\<lparr>lh_n := 0\<rparr>) h"
  note D = log_okD[OF assms(1), folded N_def] and cp = copies_area[OF assms(1), of _ vw, folded N_def]
    and hm = homes_blocks(1)[OF assms(1), of _ vw] homes_blocks(2)[OF assms(1)] homes_blocks(3)[OF assms(1), of _ vw]
  have len: "length (dk ?st) = 256" using assms(2) by (simp add: fs_disk_def good_disk_def)
  have h: "length h = 256" "sint (h ! 0) = lh_n (lh lg)" "t < N \<Longrightarrow> h ! Suc t = ?bl t" for t
    using head_words_ok[of "vw ?st" "lh lg"] assms(1,4) len by (simp_all add: h_def N_def log_ok_def)
  have z: "length z = 256" "sint (z ! 0) = 0"
    using head_words_ok(1,2)[of h "(lh lg)\<lparr>lh_n := 0\<rparr>"] h(1) by (simp_all add: z_def)
  have st: "1 \<noteq> ?st" "1 \<notin> log_area ?st" "?st \<in> log_area ?st" "1 \<in> reserved ?st" "?st \<in> reserved ?st"
    using assms(2) by (auto simp: fs_disk_def log_area_def reserved_def)
  define dl where "dl = apply_writes (copies lg vw [0 ..< N]) dk"
  have dl: "dl (log_block lg t) = vw (?bl t)" if "t < N" for t
    unfolding dl_def copies_def
    by (rule apply_writes_map[where f = "log_block lg" and g = "\<lambda>t. vw (?bl t)"])
      (use that D(1) in \<open>auto intro: inj_on_subset[OF log_block_inj]\<close>)
  have dlo: "dl bn = dk bn" if "bn \<notin> log_area ?st" for bn
    unfolding dl_def using cp[of N] that by (intro apply_writes_other) (auto simp: copies_def)
  have cw: "commit_writes lg vw = copies lg vw [0 ..< N] @ [(?st, h)] @ homes lg vw @ [(?st, z)]"
    by (simp add: commit_writes_def Let_def N_def h_def z_def homes_def)
  have ln: "length (copies lg vw [0 ..< N]) = N" "length (homes lg vw) = N" by (simp_all add: copies_def homes_def N_def)
  consider "j \<le> N" | i where "N < j" "i = j - N - 1" "dk' = apply_writes (take i (homes lg vw)) (dl(?st := h))"
    | "N < j" "dk' = (apply_writes (homes lg vw) (dl(?st := h)))(?st := z)"
    unfolding dk' cw take_parts ln dl_def by force
  then show ?thesis
  proof cases
    case 1
    then have e: "dk' bn = dk bn" if "bn \<notin> log_area ?st \<or> bn = ?st" for bn
      unfolding dk' cw take_parts ln using cp[of j] that by (simp, intro apply_writes_other) auto
    then show ?thesis
      using 1 st assms(2,3) len recovered_empty[of dk' ?st] by (simp add: fs_disk_def N_def[symmetric])
  next
    case 2
    have e: "dk' bn = (dl(?st := h)) bn" if "bn \<notin> set (logged lg)" for bn
      unfolding 2(3) using hm(1)[of i] that by (intro apply_writes_other) auto
    have lb: "log_block lg t \<noteq> ?st" "log_block lg t \<notin> set (logged lg)" if "t < N" for t
      using that D(1) log_block_start[of t lg] area_log_block[of t lg] hm(2) by (auto simp: reserved_def)
    have b1: "dk' ?st = h" "dk' 1 = dk 1" using e[of ?st] e[of 1] hm(2) st dlo[of 1] by auto
    have "dk' bn = vw bn" if "bn \<notin> set (logged lg)" "bn \<notin> log_area ?st" for bn
      using e[OF that(1)] that st(3) dlo[OF that(2)] assms(5)[OF that] by auto
    then have "good_disk ?st dk'" "\<And>bn. bn \<notin> log_area ?st \<Longrightarrow> recovered ?st dk' bn = vw bn"
      using recovered_full[OF assms(1), of dk' vw, folded N_def] b1 h dl e lb by simp_all
    then show ?thesis using 2(1) b1 assms(2) by (simp add: fs_disk_def N_def[symmetric])
  next
    case 3
    have "dk' bn = vw bn" if "bn \<notin> log_area ?st" for bn
    proof (cases "bn \<in> set (logged lg)")
      case True
      then show ?thesis using 3(2) st(3) that hm(3)[OF True] by auto
    next
      case False
      then have "apply_writes (homes lg vw) (dl(?st := h)) bn = (dl(?st := h)) bn"
        using hm(1)[of N] ln(2) by (intro apply_writes_other) auto
      then show ?thesis using 3(2) st(3) that dlo[OF that] assms(5)[OF False that] by auto
    qed
    moreover have "dk' ?st = z" using 3(2) by simp
    moreover have "vw 1 = dk 1" using assms(5)[of 1] hm(2) st by auto
    ultimately show ?thesis using 3(1) assms(2) st z recovered_empty[of dk' ?st] by (simp add: fs_disk_def N_def[symmetric])
  qed
qed

lemma commit_ok:
  assumes "cache_ok (log_dev lg) s" "log_ok lg" "avail (log_dev lg) s (log_area (start lg) \<union> set (logged lg))"
    "free_bufs s \<noteq> {}" "\<And>bn. bn \<in> set (logged lg) \<Longrightarrow> pinned (log_dev lg) s bn" "0 < lh_n (lh lg)"
  shows "\<exists>s'. commit me lg s = Inr (lg\<lparr>lh := (lh lg)\<lparr>lh_n := 0\<rparr>\<rparr>, s') \<and>
    settles (log_dev lg) (set (logged lg)) s s' \<and> cache_ok (log_dev lg) s' \<and>
    view (log_dev lg) s' = apply_writes (commit_writes lg (view (log_dev lg) s)) (view (log_dev lg) s) \<and>
    disk s' = apply_writes (commit_writes lg (view (log_dev lg) s)) (disk s) \<and>
    hist s' = hist s @ commit_writes lg (view (log_dev lg) s)"
proof -
  define d st A ts lg0 where "d = log_dev lg" and "st = start lg" and "A = log_area st \<union> set (logged lg)"
    and "ts = [0 ..< nat (lh_n (lh lg))]" and "lg0 = lg\<lparr>lh := (lh lg)\<lparr>lh_n := 0\<rparr>\<rparr>"
  let ?bl = "(!) (lh_block (lh lg))" and ?v = "view d s"
  note D = log_okD[OF assms(2)] and F = assms[folded d_def, folded st_def, folded A_def]
  have stA: "start lg \<in> A" by (simp add: A_def st_def log_area_def)
  have ne: "log_block lg t' \<noteq> ?bl t" if "t < nat (lh_n (lh lg))" "t' < nat (lh_n (lh lg))" for t t'
    using that D(1) D(5)[of t] area_log_block[of t' lg] by (auto simp: reserved_def)
  have slots: "slots_ok lg A s' ts" if "free_bufs s' \<noteq> {}" "\<And>bn. bn \<in> set (logged lg) \<Longrightarrow> pinned d s' bn" for s'
    using that D(1,4) ne area_log_block[of _ lg] by (auto simp: slots_ok_def ts_def A_def st_def room_def d_def)
  obtain s1 where s1: "write_log me lg s = Inr s1" "settles d {} s s1" "cache_ok d s1" "view d s1 = apply_writes (copies lg ?v ts) ?v"
    "disk s1 = apply_writes (copies lg ?v ts) (disk s)" "hist s1 = hist s @ copies lg ?v ts"
    using write_log_loop[OF assms(1), folded d_def, OF F(3) slots[OF F(4,5)], of me] unfolding write_log_def ts_def[symmetric] by blast
  have a1: "avail d s1 A" "free_bufs s1 \<noteq> {}" "\<And>bn. bn \<in> set (logged lg) \<Longrightarrow> pinned d s1 bn"
    using settles_avail[OF s1(2) F(3)] settles_free[OF s1(2)] F(4) settles_pinned[OF s1(2) F(5)] by auto
  have st1: "view d s1 (start lg) = ?v (start lg)"
    unfolding s1(4) using copies_area[OF assms(2), of "length ts" ?v]
    by (intro apply_writes_other) (auto simp: ts_def copies_def)
  define h where "h = head_words (lh lg) (?v (start lg))"
  obtain s2 where s2: "write_head me lg s1 = Inr s2" "settles d {} s1 s2" "cache_ok d s2" "view d s2 = (view d s1)(start lg := h)"
    "disk s2 = (disk s1)(start lg := h)" "hist s2 = hist s1 @ [(start lg, h)]"
    using write_head_ok[of lg s1 A me, folded d_def, OF s1(3) a1(1) stA a1(2)] unfolding st1 h_def[symmetric] by metis
  have a2: "avail d s2 A" "free_bufs s2 \<noteq> {}" "\<And>bn. bn \<in> set (logged lg) \<Longrightarrow> pinned d s2 bn"
    using settles_avail[OF s2(2) a1(1)] settles_free[OF s2(2)] a1(2) settles_pinned[OF s2(2) a1(3)] by auto
  have v2: "view d s2 (log_block lg t) = ?v (?bl t)" if "t \<in> set ts" for t
  proof -
    have "t < 30" "inj_on (log_block lg) (set ts)"
      using that D(1) by (auto simp: ts_def intro: inj_on_subset[OF log_block_inj])
    then show ?thesis
      using log_block_start[of t lg] apply_writes_map[OF that, of "log_block lg" "\<lambda>t. ?v (?bl t)"]
      by (simp add: s2(4) s1(4) copies_def ts_def)
  qed
  have inst: "installs lg (view d s2) ts = homes lg ?v" using v2 by (simp add: installs_def homes_def ts_def)
  have "(\<forall>t \<in> set ts. pinned d s2 (?bl t)) \<and> distinct (map ?bl ts)" using a2(3) D(4,6) by (auto simp: ts_def)
  moreover have "?bl ` set ts = set (logged lg)" using D(4) by (simp add: ts_def)
  ultimately obtain s3 where s3: "install_trans me False lg s2 = Inr s3" "settles d (set (logged lg)) s2 s3" "cache_ok d s3"
    "view d s3 = apply_writes (homes lg ?v) (view d s2)" "disk s3 = apply_writes (homes lg ?v) (disk s2)"
    "hist s3 = hist s2 @ homes lg ?v"
    using install_loop[of lg s2 A ts False me, folded d_def, OF s2(3) a2(1) slots[OF a2(2,3)]]
    unfolding install_trans_def ts_def[symmetric] inst by auto
  have a3: "avail d s3 A" "free_bufs s3 \<noteq> {}" using settles_avail[OF s3(2) a2(1)] settles_free[OF s3(2)] a2(2) by auto
  have "view d s3 (start lg) = view d s2 (start lg)"
    unfolding s3(4) using homes_blocks(1)[OF assms(2), of "length ts" ?v] homes_blocks(2)[OF assms(2)]
    by (intro apply_writes_other) (auto simp: reserved_def log_area_def homes_def ts_def)
  then have st3: "view d s3 (start lg) = h" by (simp add: s2(4))
  have l0: "log_dev lg0 = d" "start lg0 = start lg" "lh lg0 = (lh lg)\<lparr>lh_n := 0\<rparr>" by (simp_all add: lg0_def d_def)
  define z where "z = head_words ((lh lg)\<lparr>lh_n := 0\<rparr>) h"
  obtain s4 where s4: "write_head me lg0 s3 = Inr s4" "settles d {} s3 s4" "cache_ok d s4" "view d s4 = (view d s3)(start lg := z)"
    "disk s4 = (disk s3)(start lg := z)" "hist s4 = hist s3 @ [(start lg, z)]"
    using write_head_ok[of lg0 s3 A me, unfolded l0 st3, folded z_def, OF s3(3) a3(1) stA a3(2)] by metis
  have cw: "commit_writes lg ?v = copies lg ?v ts @ [(start lg, h)] @ homes lg ?v @ [(start lg, z)]"
    by (simp add: commit_writes_def Let_def h_def z_def homes_def ts_def)
  have "settles d (set (logged lg)) s s4"
    using settles_trans[OF settles_trans[OF settles_trans[OF s1(2) s2(2)] s3(2)] s4(2)] by simp
  moreover have "commit me lg s = Inr (lg0, s4)"
    unfolding commit_def using assms(6) s1(1) s2(1) s3(1) s4(1) by (simp add: Let_def lg0_def[symmetric])
  ultimately show ?thesis
    using s4(3-6) s3(4-6) s2(4-6) s1(4-6) unfolding d_def[symmetric] lg0_def[symmetric] cw by (intro exI[of _ s4]) simp
qed

end
