(* ===== verification/Wal_Trans.thy ===== *)
theory Wal_Trans
  imports Wal_Crash
begin

text \<open>
  The file system on top of the log: concurrent operations that change blocks between \<open>begin_op\<close> and
  \<open>end_op\<close>, the commit by the last of them, and crashes.  The abstract state is the content at the last
  commit and the current content.
\<close>

section \<open>Changing a block\<close>

text \<open>
  The pattern of \<open>fs.c\<close>: read the block, change it, enter it in the log, release it.  \<open>w\<close> is the new
  content.
\<close>

definition update_block :: "nat \<Rightarrow> blocknum \<Rightarrow> block \<Rightarrow> log \<Rightarrow> store \<Rightarrow> io_fault + log \<times> store" where
  "update_block me bn w lg s =
     io_bind (bread me (log_dev lg) bn s) (\<lambda>(bp, s).
     let s = set_data bp w s in
     io_bind (log_write bp lg s) (\<lambda>(lg, s).
     io_bind (brelse me bp s) (\<lambda>s. Inr (lg, s))))"

definition bzero :: "nat \<Rightarrow> blocknum \<Rightarrow> log \<Rightarrow> store \<Rightarrow> io_fault + log \<times> store" where
  "bzero me bno lg s = update_block me bno (replicate 256 0) lg s"

definition read_block :: "nat \<Rightarrow> blocknum \<Rightarrow> log \<Rightarrow> store \<Rightarrow> io_fault + block \<times> store" where
  "read_block me bn lg s =
     io_bind (bread me (log_dev lg) bn s) (\<lambda>(bp, s).
     let w = data (bufs s bp) in
     io_bind (brelse me bp s) (\<lambda>s. Inr (w, s)))"

lemma find_logged_ok:
  "bn \<in> (!) bl ` {i ..< i + k} \<Longrightarrow> find_logged bl bn k i \<in> {i ..< i + k} \<and> bl ! find_logged bl bn k i = bn"
  "bn \<notin> (!) bl ` {i ..< i + k} \<Longrightarrow> find_logged bl bn k i = i + k"
proof (induction bl bn k i rule: find_logged.induct)
  case (2 bl bn k i)
  have e: "{i ..< i + Suc k} = insert i {Suc i ..< Suc i + k}" by auto
  show "bn \<in> (!) bl ` {i ..< i + Suc k} \<Longrightarrow> find_logged bl bn (Suc k) i \<in> {i ..< i + Suc k} \<and> bl ! find_logged bl bn (Suc k) i = bn"
    using 2 unfolding e by auto
  show "bn \<notin> (!) bl ` {i ..< i + Suc k} \<Longrightarrow> find_logged bl bn (Suc k) i = i + Suc k"
    using 2 unfolding e by auto
qed auto

lemma log_write_ok:
  assumes "log_ok lg" "lh_n (lh lg) < 30" "0 < outstanding lg" "blockno (bufs s b) = bn" "bn \<notin> reserved (start lg)"
  shows "if bn \<in> set (logged lg) then log_write b lg s = Inr (lg, s)
    else \<exists>lg'. log_write b lg s = Inr (lg', bpin b s) \<and> log_ok lg' \<and> logged lg' = logged lg @ [bn] \<and>
      lg' = lg\<lparr>lh := lh lg'\<rparr> \<and> lh_n (lh lg') = lh_n (lh lg) + 1"
proof -
  define N where "N = nat (lh_n (lh lg))"
  have N: "int N = lh_n (lh lg)" "N < 30" using assms(1,2) by (auto simp: N_def log_ok_def)
  have len: "length (lh_block (lh lg)) = 30" using assms(1) by (simp add: log_ok_def)
  note D = log_okD[OF assms(1), folded N_def]
  define i where "i = find_logged (lh_block (lh lg)) bn N 0"
  have w: "log_write b lg s = Inr (if int i = lh_n (lh lg)
      then (lg\<lparr>lh := \<lparr>lh_n = lh_n (lh lg) + 1, lh_block = (lh_block (lh lg))[i := bn]\<rparr>\<rparr>, bpin b s)
      else (lg\<lparr>lh := (lh lg)\<lparr>lh_block := (lh_block (lh lg))[i := bn]\<rparr>\<rparr>, s))"
    using assms(2-4) N by (cases "lh lg") (simp add: log_write_def Let_def i_def N_def LOGBLOCKS_def MAXOPBLOCKS_def)
  show ?thesis
  proof (cases "bn \<in> set (logged lg)")
    case True
    then have "i \<in> {0 ..< N}" "lh_block (lh lg) ! i = bn"
      using find_logged_ok(1)[of bn "lh_block (lh lg)" 0 N] D(4) by (simp_all add: i_def)
    then have "(lh_block (lh lg))[i := bn] = lh_block (lh lg)" "int i \<noteq> lh_n (lh lg)" using N by auto
    then show ?thesis using True w by simp
  next
    case False
    then have i: "i = N" using find_logged_ok(2)[of bn "lh_block (lh lg)" 0 N] D(4) by (simp add: i_def)
    define lg' where "lg' = lg\<lparr>lh := \<lparr>lh_n = lh_n (lh lg) + 1, lh_block = (lh_block (lh lg))[N := bn]\<rparr>\<rparr>"
    have n': "nat (lh_n (lh lg')) = Suc N" using N by (simp add: lg'_def)
    have l: "logged lg' = logged lg @ [bn]"
      using N(2) len unfolding logged_def n' by (simp add: lg'_def N_def[symmetric] take_Suc_conv_app_nth)
    have "log_ok lg'"
      using assms(1,2,5) False len l unfolding log_ok_def by (simp add: lg'_def)
    then show ?thesis using False w i N(1) l by (auto simp: lg'_def)
  qed
qed

lemma exact_free:
  assumes "cache_ok d s" "exact d s P" "finite P" "card P < NBUF"
  shows "free_bufs s \<noteq> {}"
proof
  assume e: "free_bufs s = {}"
  have "inj_on (\<lambda>b. blockno (bufs s b)) {..< NBUF}"
  proof (rule inj_onI)
    fix x y assume a: "x \<in> {..< NBUF}" "y \<in> {..< NBUF}" "blockno (bufs s x) = blockno (bufs s y)"
    have "refcnt (bufs s b) \<noteq> 0" if "b < NBUF" for b using e that by (auto simp: free_bufs_def)
    then have "cached d s (blockno (bufs s x)) x" "cached d s (blockno (bufs s x)) y"
      using a assms(2) by (auto simp: exact_def cached_def)
    then show "x = y" by (rule cache_okD(2)[OF assms(1)])
  qed
  moreover have "(\<lambda>b. blockno (bufs s b)) ` {..< NBUF} \<subseteq> P" using e assms(2) by (auto simp: exact_def free_bufs_def)
  ultimately have "card {..< NBUF} \<le> card P" using assms(3) by (metis card_image card_mono)
  then show False using assms(4) by simp
qed

lemma exact_update:
  assumes "cache_ok d s" "exact d s P" "fetched me d bn s b s1" "\<And>x. x \<noteq> b \<Longrightarrow> tag s' x = tag s x" "tag s' b = (False, 1, d, bn, True)"
  shows "exact d s' (insert bn P)"
  unfolding exact_def
proof (intro conjI allI impI ballI)
  have b: "b < NBUF" by (rule fetchedD(1)[OF assms(3)])
  fix x assume x: "x < NBUF"
  show "\<not> locked (lock (bufs s' x))" "refcnt (bufs s' x) = 0 \<or> refcnt (bufs s' x) = 1 \<and> dev (bufs s' x) = d \<and> blockno (bufs s' x) \<in> insert bn P"
    using assms(2,5) assms(4)[of x] x by (cases "x = b"; auto simp: exact_def tag_def)+
next
  fix v assume v: "v \<in> insert bn P"
  show "pinned d s' v"
  proof (cases "v = bn")
    case True
    then show ?thesis using assms(5) fetchedD(1)[OF assms(3)] by (auto simp: pinned_def cached_def tag_def)
  next
    case False
    then obtain c where c: "cached d s v c" "valid (bufs s c)" "refcnt (bufs s c) \<noteq> 0" using v assms(2) by (auto simp: exact_def pinned_def)
    have "c \<noteq> b" using c False fetchedD(12)[OF assms(3)] by (auto simp: cached_def)
    then have "cached d s' v c" "valid (bufs s' c)" "refcnt (bufs s' c) \<noteq> 0" using c assms(4)[of c] by (auto simp: cached_def tag_def)
    then show ?thesis by (auto simp: pinned_def)
  qed
qed

lemma bpin_same:
  "cached d (bpin b s) bn x = cached d s bn x" "valid (bufs (bpin b s) x) = valid (bufs s x)" "lock (bufs (bpin b s) x) = lock (bufs s x)"
  "disk (bpin b s) = disk s" "hist (bpin b s) = hist s" "x \<noteq> b \<Longrightarrow> tag (bpin b s) x = tag s x"
  by (simp_all add: bpin_def upd_def cached_def tag_def)

lemma update_block_ok:
  assumes "cache_ok (log_dev lg) s" "exact (log_dev lg) s (set (logged lg))" "log_ok lg" "lh_n (lh lg) < 30" "0 < outstanding lg"
    "bn \<notin> reserved (start lg)"
  shows "\<exists>lg' s'. update_block me bn w lg s = Inr (lg', s') \<and> cache_ok (log_dev lg) s' \<and> exact (log_dev lg) s' (set (logged lg')) \<and>
    log_ok lg' \<and> lg' = lg\<lparr>lh := lh lg'\<rparr> \<and> view (log_dev lg) s' = (view (log_dev lg) s)(bn := w) \<and> disk s' = disk s \<and> hist s' = hist s \<and>
    (if bn \<in> set (logged lg) then lg' = lg else logged lg' = logged lg @ [bn] \<and> lh_n (lh lg') = lh_n (lh lg) + 1)"
proof -
  define d where "d = log_dev lg"
  note F = assms(1,2)[folded d_def]
  have "card (set (logged lg)) < NBUF"
    using log_okD(3)[OF assms(3)] assms(3,4) by (simp add: distinct_card log_ok_def NBUF_def)
  then have fr: "free_bufs s \<noteq> {}" by (intro exact_free[OF F]) simp_all
  obtain b s1 where r: "bread me d bn s = Inr (b, s1)" "fetched me d bn s b s1" "cache_ok d s1" "view d s1 = view d s"
    "cached d s1 bn b" "valid (bufs s1 b)" "holdingsleep me (lock (bufs s1 b))" "data (bufs s1 b) = view d s bn"
    "disk s1 = disk s" "hist s1 = hist s" using one_fetch[OF F(1) exact_avail[OF F(2), of UNIV] UNIV_I disjI1[OF fr]] by metis
  note R = fetchedD[OF r(2)] and t1 = tag_fetched[OF r(2)]
  define s2 where "s2 = set_data b w s1"
  have s2: "cache_ok d s2" "view d s2 = (view d s)(bn := w)" "cached d s2 bn b" "valid (bufs s2 b)" "refcnt (bufs s2 b) = refcnt (bufs s b) + 1"
    "holdingsleep me (lock (bufs s2 b))" "blockno (bufs s2 b) = bn" "disk s2 = disk s" "hist s2 = hist s" "tag s2 = tag s1"
    using set_data_ok[OF r(3) R(14)] set_data_view[OF r(3) R(14) r(5,6)] r(4-7,9,10) R(6) by (auto simp: s2_def cached_def)
  note lw = log_write_ok[OF assms(3-5) s2(7) assms(6)]
  define s3 where "s3 = (if bn \<in> set (logged lg) then s2 else bpin b s2)"
  have own: "refcnt (bufs s b) = (if bn \<in> set (logged lg) then 1 else 0)"
  proof (cases "bn \<in> set (logged lg)")
    case True
    then obtain c where c: "cached d s bn c" "refcnt (bufs s c) \<noteq> 0" using F(2) by (auto simp: exact_def pinned_def)
    then have "c = b" using R(12) cache_okD(2)[OF F(1)] by blast
    then show ?thesis using c True F(2) R(1) by (auto simp: exact_def)
  next
    case False
    then show ?thesis using R(1,12) F(2) by (auto simp: exact_def cached_def)
  qed
  have r3: "refcnt (bufs s3 b) = 2" using own s2(5) by (auto simp: s3_def bpin_def upd_def)
  have s3: "cache_ok d s3" "view d s3 = view d s2" "cached d s3 bn b" "valid (bufs s3 b)" "holdingsleep me (lock (bufs s3 b))"
    "disk s3 = disk s2" "hist s3 = hist s2" "x \<noteq> b \<Longrightarrow> tag s3 x = tag s2 x" for x
    using s2(1,3,4,6) own s2(5) bpin_ok[OF s2(1), of b] by (simp_all add: s3_def bpin_same)
  have "data (bufs s3 b) = disk s3 bn" if "refcnt (bufs s3 b) = 1" using that r3 by simp
  then obtain s4 where s4: "brelse me b s3 = Inr s4" "tag s4 = (tag s3)(b := (False, refcnt (bufs s3 b) - 1, d, bn, valid (bufs s3 b)))"
    "disk s4 = disk s3" "hist s4 = hist s3" "cache_ok d s4" "view d s4 = view d s3"
    using give_back[OF s3(1,3,5)] by metis
  have "exact d s4 (insert bn (set (logged lg)))"
    by (rule exact_update[OF F r(2)]) (use s4(2) s3(4,8) s2(10) t1 r3 in auto)
  moreover obtain lg' where lg': "log_write b lg s2 = Inr (lg', s3)" "log_ok lg'" "lg' = lg\<lparr>lh := lh lg'\<rparr>"
    "set (logged lg') = insert bn (set (logged lg))"
    "if bn \<in> set (logged lg) then lg' = lg else logged lg' = logged lg @ [bn] \<and> lh_n (lh lg') = lh_n (lh lg) + 1"
    using lw assms(3) by (cases "bn \<in> set (logged lg)") (auto simp: s3_def insert_absorb)
  moreover have "update_block me bn w lg s = Inr (lg', s4)"
    unfolding update_block_def d_def[symmetric] using r(1) lg'(1) s4(1) by (simp add: Let_def s2_def)
  ultimately show ?thesis
    using s4(3-6) s3(2,6,7) s2(2,8,9) unfolding d_def[symmetric] by (intro exI[of _ lg'] exI[of _ s4] conjI) simp_all
qed

lemma read_block_ok:
  assumes "cache_ok (log_dev lg) s" "exact (log_dev lg) s P" "free_bufs s \<noteq> {} \<or> (\<exists>b. cached (log_dev lg) s bn b)"
  obtains s' where "read_block me bn lg s = Inr (view (log_dev lg) s bn, s')" "cache_ok (log_dev lg) s'" "exact (log_dev lg) s' P"
    "view (log_dev lg) s' = view (log_dev lg) s" "disk s' = disk s" "hist s' = hist s"
proof (rule read_back[OF assms(1) exact_avail[OF assms(2), of UNIV] UNIV_I assms(3)])
  fix a s1 s' assume r: "bread me (log_dev lg) bn s = Inr (a, s1)" "data (bufs s1 a) = view (log_dev lg) s bn" "brelse me a s1 = Inr s'"
    "settles (log_dev lg) {} s s'" "cache_ok (log_dev lg) s'" "view (log_dev lg) s' = view (log_dev lg) s" "disk s' = disk s" "hist s' = hist s"
  have "read_block me bn lg s = Inr (view (log_dev lg) s bn, s')"
    unfolding read_block_def using r(1-3) by (simp add: Let_def)
  then show thesis using r(5-8) settles_exact[OF r(4) assms(2)] that by simp
qed

text \<open>With thirty blocks in the log all buffers are pinned, and the commit finds none for the log block.\<close>

lemma commit_full:
  assumes "cache_ok (log_dev lg) s" "exact (log_dev lg) s (set (logged lg))" "log_ok lg" "lh_n (lh lg) = 30"
  shows "commit me lg s = Inl (Panic ''bget: no buffers'')"
proof -
  let ?d = "log_dev lg" and ?u = "log_block lg 0"
  have card: "card (set (logged lg)) = NBUF"
    using log_okD(3)[OF assms(3)] assms(3,4) by (simp add: distinct_card log_ok_def NBUF_def)
  obtain f where f: "\<And>v. v \<in> set (logged lg) \<Longrightarrow> cached ?d s v (f v) \<and> refcnt (bufs s (f v)) \<noteq> 0"
    using assms(2) unfolding exact_def pinned_def by metis
  then have inj: "inj_on f (set (logged lg))" by (auto simp: inj_on_def cached_def) metis
  have "f ` set (logged lg) \<subseteq> {..< NBUF}" using f by (auto simp: cached_def)
  then have all: "f ` set (logged lg) = {..< NBUF}" using card inj by (intro card_subset_eq) (simp_all add: card_image)
  have ref: "refcnt (bufs s b) \<noteq> 0 \<and> blockno (bufs s b) \<in> set (logged lg)" if "b < NBUF" for b
  proof -
    have "b \<in> f ` set (logged lg)" using all that by simp
    then show ?thesis using f by (auto simp: cached_def)
  qed
  have u: "?u \<notin> set (logged lg)" using area_log_block[of 0 lg] assms(3) by (auto simp: log_ok_def reserved_def)
  then have nu: "blockno (bufs s b) \<noteq> ?u" if "b < NBUF" for b using ref[OF that] by auto
  then have "\<not> cached ?d s ?u b" for b by (auto simp: cached_def)
  then have "bread me ?d ?u s = Inl (Panic ''bget: no buffers'')" using ref by (intro bread_none[OF assms(1)]) blast+
  then have "write_log_step me lg 0 s = Inl (Panic ''bget: no buffers'')" by (simp add: write_log_step_def)
  moreover have "[0 ..< nat (lh_n (lh lg))] = 0 # [1 ..< 30]" using assms(4) by (simp add: upt_rec)
  ultimately show ?thesis using assms(4) by (simp add: commit_def write_log_def)
qed

lemma commit_done:
  assumes "cache_ok (log_dev lg) s" "exact (log_dev lg) s (set (logged lg))" "log_ok lg" "lh_n (lh lg) < 30"
  shows "\<exists>s' ws. commit me lg s = Inr (lg\<lparr>lh := (lh lg)\<lparr>lh_n := 0\<rparr>\<rparr>, s') \<and> cache_ok (log_dev lg) s' \<and> exact (log_dev lg) s' {} \<and>
    view (log_dev lg) s' = apply_writes ws (view (log_dev lg) s) \<and> disk s' = apply_writes ws (disk s) \<and> hist s' = hist s @ ws \<and>
    ws = (if 0 < lh_n (lh lg) then commit_writes lg (view (log_dev lg) s) else [])"
proof (cases "0 < lh_n (lh lg)")
  case True
  have "card (set (logged lg)) < NBUF"
    using log_okD(3)[OF assms(3)] assms(3,4) by (simp add: distinct_card log_ok_def NBUF_def)
  then have fr: "free_bufs s \<noteq> {}" by (intro exact_free[OF assms(1,2)]) simp_all
  have p: "\<And>bn. bn \<in> set (logged lg) \<Longrightarrow> pinned (log_dev lg) s bn" using assms(2) by (simp add: exact_def)
  obtain s' where s': "commit me lg s = Inr (lg\<lparr>lh := (lh lg)\<lparr>lh_n := 0\<rparr>\<rparr>, s')" "settles (log_dev lg) (set (logged lg)) s s'"
    "cache_ok (log_dev lg) s'" "view (log_dev lg) s' = apply_writes (commit_writes lg (view (log_dev lg) s)) (view (log_dev lg) s)"
    "disk s' = apply_writes (commit_writes lg (view (log_dev lg) s)) (disk s)" "hist s' = hist s @ commit_writes lg (view (log_dev lg) s)"
    using commit_ok[OF assms(1,3) exact_avail[OF assms(2)] fr p True] by blast
  show ?thesis using s' settles_exact[OF s'(2) assms(2)] True by (intro exI[of _ s']) simp
next
  case False
  then have "lh_n (lh lg) = 0" using assms(3) by (simp add: log_ok_def)
  then show ?thesis using assms(1,2) by (intro exI[of _ s]) (simp add: commit_def logged_def)
qed

section \<open>Operations and crashes\<close>

text \<open>
  \<open>ops\<close> gives for each process inside an operation the number of blocks it may still add to the log;
  \<open>committed\<close> and \<open>current\<close> are the abstract state.
\<close>

record fs =
  flog :: log
  fstore :: store
  ops :: "nat \<Rightarrow> nat option"
  committed :: "blocknum \<Rightarrow> block"
  current :: "blocknum \<Rightarrow> block"

inductive fs_run :: "blocknum \<Rightarrow> fs \<Rightarrow> bool" for st where
  start: "fs_disk st dk \<Longrightarrow> boot dk = Inr (lg, s) \<Longrightarrow>
    fs_run st \<lparr>flog = lg, fstore = s, ops = (\<lambda>_. None), committed = disk s, current = disk s\<rparr>"
| op_begin: "fs_run st f \<Longrightarrow> ops f p = None \<Longrightarrow> begin_op (flog f) = Some lg \<Longrightarrow>
    fs_run st (f\<lparr>flog := lg, ops := (ops f)(p := Some (nat MAXOPBLOCKS))\<rparr>)"
| op_read: "fs_run st f \<Longrightarrow> read_block p bn (flog f) (fstore f) = Inr (w, s) \<Longrightarrow> fs_run st (f\<lparr>fstore := s\<rparr>)"
| op_update: "fs_run st f \<Longrightarrow> ops f p = Some k \<Longrightarrow> bn \<notin> reserved st \<Longrightarrow>
    (if bn \<in> set (logged (flog f)) then k' = k else k = Suc k') \<Longrightarrow>
    update_block p bn w (flog f) (fstore f) = Inr (lg, s) \<Longrightarrow>
    fs_run st (f\<lparr>flog := lg, fstore := s, ops := (ops f)(p := Some k'), current := (current f)(bn := w)\<rparr>)"
| op_end: "fs_run st f \<Longrightarrow> ops f p = Some k \<Longrightarrow> end_op p (flog f) (fstore f) = Inr (lg, s) \<Longrightarrow>
    fs_run st (f\<lparr>flog := lg, fstore := s, ops := (ops f)(p := None),
      committed := (if outstanding (flog f) = 1 then current f else committed f)\<rparr>)"

definition active :: "fs \<Rightarrow> nat set" where
  "active f = {p. ops f p \<noteq> None}"

definition rest :: "fs \<Rightarrow> nat" where
  "rest f = (\<Sum>p \<in> active f. the (ops f p))"

definition budget_ok :: "fs \<Rightarrow> bool" where
  "budget_ok f \<longleftrightarrow> finite (active f) \<and> outstanding (flog f) = int (card (active f)) \<and>
     (\<forall>p k. ops f p = Some k \<longrightarrow> k \<le> 10) \<and> lh_n (lh (flog f)) + int (rest f) \<le> 30"

definition fs_inv :: "blocknum \<Rightarrow> fs \<Rightarrow> bool" where
  "fs_inv st f \<longleftrightarrow>
     start (flog f) = st \<and> log_dev (flog f) = ROOTDEV \<and> \<not> committing (flog f) \<and> log_ok (flog f) \<and>
     cache_ok ROOTDEV (fstore f) \<and> exact ROOTDEV (fstore f) (set (logged (flog f))) \<and>
     fs_disk st (disk (fstore f)) \<and> sint (disk (fstore f) st ! 0) = 0 \<and>
     (\<forall>bn. bn \<notin> set (logged (flog f)) \<longrightarrow> view ROOTDEV (fstore f) bn = disk (fstore f) bn) \<and>
     (\<forall>bn. bn \<notin> log_area st \<longrightarrow> disk (fstore f) bn = committed f bn \<and> view ROOTDEV (fstore f) bn = current f bn)"

lemma fs_invD:
  assumes "fs_inv st f"
  shows "start (flog f) = st" "log_dev (flog f) = ROOTDEV" "\<not> committing (flog f)" "log_ok (flog f)"
    "cache_ok (log_dev (flog f)) (fstore f)" "exact (log_dev (flog f)) (fstore f) (set (logged (flog f)))"
    "fs_disk st (disk (fstore f))" "sint (disk (fstore f) st ! 0) = 0"
    "bn \<notin> set (logged (flog f)) \<Longrightarrow> view ROOTDEV (fstore f) bn = disk (fstore f) bn"
    "bn \<notin> log_area st \<Longrightarrow> disk (fstore f) bn = committed f bn"
    "bn \<notin> log_area st \<Longrightarrow> view ROOTDEV (fstore f) bn = current f bn"
  using assms by (auto simp: fs_inv_def)

lemma commit_header:
  "apply_writes (commit_writes lg vw) dk (start lg) = head_words ((lh lg)\<lparr>lh_n := 0\<rparr>) (head_words (lh lg) (vw (start lg)))"
  by (simp add: commit_writes_def Let_def)

lemma homes_in_commit:
  assumes "log_ok lg"
  shows "set (logged lg) \<subseteq> fst ` set (commit_writes lg vw)"
  using log_okD(4)[OF assms] by (force simp: commit_writes_def Let_def)

text \<open>What \<open>end_op\<close> does when it commits.\<close>

lemma fs_commit:
  assumes "fs_inv st f" "outstanding (flog f) = 1" "lh_n (lh (flog f)) < 30"
  defines "lg' \<equiv> (flog f)\<lparr>outstanding := 0, ncommit := ncommit (flog f) + 1, lh := (lh (flog f))\<lparr>lh_n := 0\<rparr>\<rparr>"
  shows "\<exists>s ws. end_op p (flog f) (fstore f) = Inr (lg', s) \<and> hist s = hist (fstore f) @ ws \<and>
    ws = (if 0 < lh_n (lh (flog f)) then commit_writes (flog f) (view ROOTDEV (fstore f)) else []) \<and>
    disk s = apply_writes ws (disk (fstore f)) \<and>
    fs_inv st (f\<lparr>flog := lg', fstore := s, ops := o', committed := current f\<rparr>)"
proof -
  note I = fs_invD[OF assms(1)]
  define lg1 where "lg1 = (flog f)\<lparr>outstanding := 0, committing := True\<rparr>"
  have same: "log_dev lg1 = ROOTDEV" "start lg1 = st" "lh lg1 = lh (flog f)" "logged lg1 = logged (flog f)"
    "commit_writes lg1 vw = commit_writes (flog f) vw" for vw
    using I(1,2) by (simp_all add: lg1_def logged_def commit_writes_def copies_def log_block_def Let_def)
  have ok1: "log_ok lg1" using I(4) by (simp add: log_ok_def same I(1))
  obtain s ws where s: "commit p lg1 (fstore f) = Inr (lg1\<lparr>lh := (lh (flog f))\<lparr>lh_n := 0\<rparr>\<rparr>, s)" "cache_ok ROOTDEV s" "exact ROOTDEV s {}"
    "view ROOTDEV s = apply_writes ws (view ROOTDEV (fstore f))" "disk s = apply_writes ws (disk (fstore f))" "hist s = hist (fstore f) @ ws"
    "ws = (if 0 < lh_n (lh (flog f)) then commit_writes (flog f) (view ROOTDEV (fstore f)) else [])"
    using commit_done[of lg1 "fstore f" p, unfolded same] I(5,6) ok1 assms(3) unfolding I(2) by blast
  have e: "end_op p (flog f) (fstore f) = Inr (lg', s)"
    using assms(2) I(3) s(1) by (simp add: end_op_def end_op_lock_def Let_def lg1_def end_op_done_def lg'_def)
  have vd: "view ROOTDEV s bn = disk s bn" for bn
    unfolding s(4,5)
  proof (rule apply_writes_cong)
    fix bn assume "bn \<notin> fst ` set ws"
    then have "bn \<notin> set (logged (flog f))"
      using homes_in_commit[OF I(4)] I(4) s(7) by (auto simp: logged_def log_ok_def split: if_splits)
    then show "view ROOTDEV (fstore f) bn = disk (fstore f) bn" by (rule I(9))
  qed
  have "fs_disk st (disk s) \<and> sint (disk s st ! 0) = 0 \<and> (\<forall>bn. bn \<notin> log_area st \<longrightarrow> disk s bn = view ROOTDEV (fstore f) bn)"
  proof (cases "0 < lh_n (lh (flog f))")
    case True
    let ?vw = "view ROOTDEV (fstore f)"
    have w: "ws = commit_writes (flog f) ?vw" using s(7) True by simp
    have vst: "?vw st = disk (fstore f) st" using I(4) I(9)[of st] I(1) by (auto simp: log_ok_def reserved_def log_area_def)
    have "disk s = apply_writes (take (length ws) (commit_writes (flog f) ?vw)) (disk (fstore f))" using s(5) w by simp
    note cc = commit_crash[OF I(4), unfolded I(1), OF I(7,8) vst I(9) this]
    have len: "length (disk (fstore f) st) = 256" using I(7) by (simp add: fs_disk_def good_disk_def)
    have h: "disk s st = head_words ((lh (flog f))\<lparr>lh_n := 0\<rparr>) (head_words (lh (flog f)) (?vw st))"
      using commit_header[of "flog f" ?vw "disk (fstore f)"] s(5) w I(1) by simp
    have l1: "length (head_words (lh (flog f)) (?vw st)) = 256"
      using head_words_ok(1)[of "?vw st" "lh (flog f)"] len I(4) by (simp add: vst log_ok_def)
    have z: "sint (disk s st ! 0) = 0" "length (disk s st) = 256"
      unfolding h using head_words_ok(1,2)[OF l1, of "(lh (flog f))\<lparr>lh_n := 0\<rparr>"] by simp_all
    have "nat (lh_n (lh (flog f))) < length ws" using w by (simp add: commit_writes_def Let_def copies_def)
    then show ?thesis using cc z recovered_empty(1)[of "disk s" st] by auto
  next
    case False
    then have "logged (flog f) = []" using I(4) by (simp add: logged_def)
    then show ?thesis using False I(7,8,9) s(5,7) by simp
  qed
  moreover have "log_ok lg'" "logged lg' = []" using I(4) by (simp_all add: log_ok_def lg'_def logged_def)
  ultimately have "fs_inv st (f\<lparr>flog := lg', fstore := s, ops := o', committed := current f\<rparr>)"
    using s(2,3) vd I(1-3,11) by (simp add: fs_inv_def lg'_def)
  then show ?thesis using e s(5-7) by blast
qed

lemma fs_begin:
  assumes "fs_inv st f" "begin_op (flog f) = Some lg"
  shows "fs_inv st (f\<lparr>flog := lg, ops := o'\<rparr>)"
proof -
  have lg: "lg = (flog f)\<lparr>outstanding := outstanding (flog f) + 1\<rparr>" using assms(2) by (simp add: begin_op_def split: if_splits)
  have "log_ok lg" "logged lg = logged (flog f)" using fs_invD(4)[OF assms(1)] by (simp_all add: lg log_ok_def logged_def)
  then show ?thesis using assms(1) by (simp add: fs_inv_def) (simp add: lg)
qed

lemma fs_update:
  assumes "fs_inv st f" "0 < outstanding (flog f)" "lh_n (lh (flog f)) < 30" "bn \<notin> reserved st"
  shows "\<exists>lg s. update_block p bn w (flog f) (fstore f) = Inr (lg, s) \<and> lg = (flog f)\<lparr>lh := lh lg\<rparr> \<and>
    lh_n (lh lg) = (if bn \<in> set (logged (flog f)) then lh_n (lh (flog f)) else lh_n (lh (flog f)) + 1) \<and>
    logged lg = (if bn \<in> set (logged (flog f)) then logged (flog f) else logged (flog f) @ [bn]) \<and>
    fs_inv st (f\<lparr>flog := lg, fstore := s, ops := o', current := (current f)(bn := w)\<rparr>)"
proof -
  note I = fs_invD[OF assms(1)]
  obtain lg s where u: "update_block p bn w (flog f) (fstore f) = Inr (lg, s)" "cache_ok ROOTDEV s" "exact ROOTDEV s (set (logged lg))"
    "log_ok lg" "lg = (flog f)\<lparr>lh := lh lg\<rparr>" "view ROOTDEV s = (view ROOTDEV (fstore f))(bn := w)" "disk s = disk (fstore f)"
    "if bn \<in> set (logged (flog f)) then lg = flog f else logged lg = logged (flog f) @ [bn] \<and> lh_n (lh lg) = lh_n (lh (flog f)) + 1"
    using update_block_ok[OF I(5,6,4) assms(3,2), unfolded I(1,2), OF assms(4), of p w] by blast
  have l: "start lg = st" "log_dev lg = ROOTDEV" "\<not> committing lg" using I(1-3) by (subst u(5), simp)+
  have lgd: "set (logged lg) = insert bn (set (logged (flog f)))" using u(8) by (auto split: if_splits)
  have "fs_inv st (f\<lparr>flog := lg, fstore := s, ops := o', current := (current f)(bn := w)\<rparr>)"
    using u(2-4,6,7) l lgd I(7-11) by (simp add: fs_inv_def)
  then show ?thesis using u(1,5,8) by (intro exI[of _ lg] exI[of _ s]) (auto split: if_splits)
qed

lemma fs_read:
  assumes "fs_inv st f" "read_block p bn (flog f) (fstore f) = Inr (w, s)"
  shows "fs_inv st (f\<lparr>fstore := s\<rparr>)" "w = view ROOTDEV (fstore f) bn"
proof -
  note I = fs_invD[OF assms(1)]
  have fr: "free_bufs (fstore f) \<noteq> {} \<or> (\<exists>b. cached (log_dev (flog f)) (fstore f) bn b)"
  proof (rule ccontr)
    assume "\<not> ?thesis"
    then have "bread p (log_dev (flog f)) bn (fstore f) = Inl (Panic ''bget: no buffers'')"
      by (intro bread_none[OF I(5)]) (auto simp: free_bufs_def)
    then show False using assms(2) by (simp add: read_block_def)
  qed
  obtain s' where s': "read_block p bn (flog f) (fstore f) = Inr (view ROOTDEV (fstore f) bn, s')" "cache_ok ROOTDEV s'"
    "exact ROOTDEV s' (set (logged (flog f)))" "view ROOTDEV s' = view ROOTDEV (fstore f)" "disk s' = disk (fstore f)"
    using read_block_ok[OF I(5,6) fr, of p] unfolding I(2) by metis
  then have "s' = s" "w = view ROOTDEV (fstore f) bn" using assms(2) by simp_all
  then show "fs_inv st (f\<lparr>fstore := s\<rparr>)" "w = view ROOTDEV (fstore f) bn"
    using s'(2-5) assms(1) by (simp_all add: fs_inv_def)
qed

lemma fs_end_more:
  assumes "fs_inv st f" "outstanding (flog f) \<noteq> 1"
  shows "end_op p (flog f) (fstore f) = Inr ((flog f)\<lparr>outstanding := outstanding (flog f) - 1\<rparr>, fstore f)"
    "fs_inv st (f\<lparr>flog := (flog f)\<lparr>outstanding := outstanding (flog f) - 1\<rparr>, ops := o'\<rparr>)"
proof -
  note I = fs_invD[OF assms(1)]
  show "end_op p (flog f) (fstore f) = Inr ((flog f)\<lparr>outstanding := outstanding (flog f) - 1\<rparr>, fstore f)"
    using assms(2) I(3) by (simp add: end_op_def end_op_lock_def Let_def)
  have "log_ok ((flog f)\<lparr>outstanding := k\<rparr>)" "logged ((flog f)\<lparr>outstanding := k\<rparr>) = logged (flog f)" for k
    using I(4) by (simp_all add: log_ok_def logged_def)
  then show "fs_inv st (f\<lparr>flog := (flog f)\<lparr>outstanding := outstanding (flog f) - 1\<rparr>, ops := o'\<rparr>)"
    using assms(1) by (simp add: fs_inv_def)
qed

lemma fs_end_full:
  assumes "fs_inv st f" "outstanding (flog f) = 1" "lh_n (lh (flog f)) = 30"
  shows "end_op p (flog f) (fstore f) = Inl (Panic ''bget: no buffers'')"
proof -
  note I = fs_invD[OF assms(1)]
  define lg1 where "lg1 = (flog f)\<lparr>outstanding := 0, committing := True\<rparr>"
  have "log_dev lg1 = log_dev (flog f)" "logged lg1 = logged (flog f)" "log_ok lg1" "lh_n (lh lg1) = 30"
    using I(4) by (simp_all add: lg1_def logged_def log_ok_def del: take_all_iff) (simp add: assms(3))
  then have "commit p lg1 (fstore f) = Inl (Panic ''bget: no buffers'')" using commit_full[of lg1 "fstore f" p] I(5,6) by simp
  then show ?thesis using assms(2) I(3) by (simp add: end_op_def end_op_lock_def Let_def lg1_def)
qed

section \<open>The space in the log\<close>

lemma budget_begin:
  assumes "budget_ok f" "ops f p = None" "begin_op (flog f) = Some lg"
  shows "budget_ok (f\<lparr>flog := lg, ops := (ops f)(p := Some 10)\<rparr>)"
proof -
  have lg: "lg = (flog f)\<lparr>outstanding := outstanding (flog f) + 1\<rparr>"
    "lh_n (lh (flog f)) + (outstanding (flog f) + 1) * 10 \<le> 30"
    using assms(3) by (simp_all add: begin_op_def MAXOPBLOCKS_def LOGBLOCKS_def split: if_splits)
  have B: "finite (active f)" "outstanding (flog f) = int (card (active f))" "\<And>p k. ops f p = Some k \<Longrightarrow> k \<le> 10"
    using assms(1) by (auto simp: budget_ok_def)
  let ?f = "f\<lparr>flog := lg, ops := (ops f)(p := Some 10)\<rparr>"
  have a: "active ?f = insert p (active f)" "p \<notin> active f" using assms(2) by (auto simp: active_def)
  have "rest f \<le> of_nat (card (active f)) * 10"
    unfolding rest_def by (rule sum_bounded_above) (use B(3) in \<open>auto simp: active_def\<close>)
  moreover have "rest ?f = 10 + (\<Sum>q \<in> active f. the (ops ?f q))"
    unfolding rest_def a(1) using a(2) B(1) by simp
  moreover have "(\<Sum>q \<in> active f. the (ops ?f q)) = rest f"
    unfolding rest_def using a(2) by (intro sum.cong) auto
  ultimately have r: "lh_n (lh (flog f)) + int (rest ?f) \<le> 30" using lg(2) B(2) by simp
  have "k \<le> 10" if "ops ?f q = Some k" for q k using that B(3) by (auto split: if_splits)
  moreover have "finite (active ?f)" "int (card (active ?f)) = outstanding (flog f) + 1" unfolding a(1) using B a(2) by simp_all
  ultimately show ?thesis unfolding budget_ok_def using r by (simp add: lg(1))
qed

lemma budget_change:
  assumes "budget_ok f" "ops f p = Some k" "lh_n (lh lg) + int k' \<le> lh_n (lh (flog f)) + int k" "k' \<le> k" "outstanding lg = outstanding (flog f)"
  shows "budget_ok (f\<lparr>flog := lg, fstore := s, ops := (ops f)(p := Some k'), current := c\<rparr>)"
proof -
  let ?f = "f\<lparr>flog := lg, fstore := s, ops := (ops f)(p := Some k'), current := c\<rparr>"
  have a: "active ?f = active f" "p \<in> active f" using assms(2) by (auto simp: active_def)
  have fin: "finite (active f)" using assms(1) by (simp add: budget_ok_def)
  have "(\<Sum>q \<in> active f - {p}. the (ops ?f q)) = (\<Sum>q \<in> active f - {p}. the (ops f q))" by (rule sum.cong) auto
  then have "rest ?f + k = rest f + k'"
    unfolding rest_def a(1) using sum.remove[OF fin a(2), of "\<lambda>q. the (ops ?f q)"] sum.remove[OF fin a(2), of "\<lambda>q. the (ops f q)"]
      assms(2) by simp
  then have r: "lh_n (lh lg) + int (rest ?f) \<le> 30" using assms(1,3) by (simp add: budget_ok_def)
  have "j \<le> 10" if "ops ?f q = Some j" for q j using that assms(1,2,4) by (fastforce simp: budget_ok_def split: if_splits)
  then show ?thesis unfolding budget_ok_def a(1) using r assms(1,5) by (simp add: budget_ok_def)
qed

lemma budget_end:
  assumes "budget_ok f" "ops f p = Some k" "lh_n (lh lg) \<le> lh_n (lh (flog f))" "outstanding lg = outstanding (flog f) - 1"
  shows "budget_ok (f\<lparr>flog := lg, fstore := s, ops := (ops f)(p := None), committed := c\<rparr>)"
proof -
  let ?f = "f\<lparr>flog := lg, fstore := s, ops := (ops f)(p := None), committed := c\<rparr>"
  have a: "active ?f = active f - {p}" "p \<in> active f" using assms(2) by (auto simp: active_def)
  have fin: "finite (active f)" using assms(1) by (simp add: budget_ok_def)
  have "rest ?f = (\<Sum>q \<in> active f - {p}. the (ops f q))" unfolding rest_def a(1) by (rule sum.cong) auto
  also have "\<dots> \<le> rest f" unfolding rest_def by (rule sum_mono2[OF fin]) auto
  finally have r: "lh_n (lh lg) + int (rest ?f) \<le> 30" using assms(1,3) by (simp add: budget_ok_def)
  have "0 < card (active f)" using a(2) fin by (auto simp: card_gt_0_iff)
  then have "int (card (active ?f)) = outstanding lg" unfolding a(1) using assms(1,4) a(2) fin
    by (simp add: budget_ok_def card_Diff_singleton)
  moreover have "j \<le> 10" if "ops ?f q = Some j" for q j using that assms(1) by (auto simp: budget_ok_def split: if_splits)
  moreover have "finite (active ?f)" using fin by (simp add: a(1))
  ultimately show ?thesis unfolding budget_ok_def using r by simp
qed

section \<open>Every reachable state\<close>

lemma fs_boot:
  assumes "fs_disk st dk" "boot dk = Inr (lg, s)"
  shows "fs_inv st \<lparr>flog = lg, fstore = s, ops = (\<lambda>_. None), committed = disk s, current = disk s\<rparr>"
    "bn \<notin> log_area st \<Longrightarrow> view ROOTDEV s bn = recovered st dk bn" "outstanding lg = 0" "lh_n (lh lg) = 0"
proof -
  obtain w where b: "cache_ok ROOTDEV s" "exact ROOTDEV s {}" "view ROOTDEV s = disk s" "hist s = replay st dk @ [(st, w)]"
    "disk s = apply_writes (hist s) dk" "length w = 256" "sint (w ! 0) = 0"
    "lg = \<lparr>start = st, outstanding = 0, committing = False, log_dev = ROOTDEV, ncommit = 0, lh = lh lg\<rparr>"
    "lh_n (lh lg) = 0" "length (lh_block (lh lg)) = 30" using boot_ok[OF assms(1)] unfolding assms(2) by blast
  have l: "start lg = st" "\<not> committing lg" "log_dev lg = ROOTDEV" "outstanding lg = 0" by (subst b(8), simp)+
  have "disk s = apply_writes (take (length (hist s)) (replay st dk @ [(st, w)])) dk" using b(4,5) by simp
  then have "fs_disk st (disk s)" by (rule crash_step(1)[OF assms(1) b(6,7)])
  moreover have w: "disk s st = w" "bn \<noteq> st \<Longrightarrow> disk s bn = recovered st dk bn" for bn using b(4,5) by (simp_all add: recovered_def)
  moreover have "log_ok lg" "logged lg = []" using b(9,10) by (simp_all add: log_ok_def logged_def)
  ultimately show "fs_inv st \<lparr>flog = lg, fstore = s, ops = (\<lambda>_. None), committed = disk s, current = disk s\<rparr>"
    using b(1-3,7) l by (simp add: fs_inv_def)
  show "bn \<notin> log_area st \<Longrightarrow> view ROOTDEV s bn = recovered st dk bn" using w(2)[of bn] b(3) by (auto simp: log_area_def)
  show "outstanding lg = 0" "lh_n (lh lg) = 0" using l(4) b(9) by simp_all
qed

lemma budget_some: "budget_ok f \<Longrightarrow> ops f p = Some k \<Longrightarrow> 0 < outstanding (flog f) \<and> lh_n (lh (flog f)) + int k \<le> 30"
proof -
  assume a: "budget_ok f" "ops f p = Some k"
  have p: "p \<in> active f" "finite (active f)" using a by (auto simp: active_def budget_ok_def)
  have "the (ops f p) \<le> rest f" unfolding rest_def by (rule member_le_sum) (use p in auto)
  moreover have "0 < card (active f)" using p by (auto simp: card_gt_0_iff)
  ultimately show ?thesis using a by (auto simp: budget_ok_def)
qed

lemma log_write_full: "30 \<le> lh_n (lh lg) \<Longrightarrow> log_write b lg s = Inl (Panic ''too big a transaction'')"
  by (simp add: log_write_def LOGBLOCKS_def MAXOPBLOCKS_def)

lemma update_full:
  assumes "30 \<le> lh_n (lh lg)"
  shows "\<exists>e. update_block p bn w lg s = Inl e"
proof (cases "bread p (log_dev lg) bn s")
  case (Inr r)
  then show ?thesis using log_write_full[OF assms] by (cases r) (simp add: update_block_def Let_def)
qed (simp add: update_block_def)

lemma fs_run_inv: "fs_run st f \<Longrightarrow> fs_inv st f \<and> budget_ok f"
proof (induction rule: fs_run.induct)
  case (start dk lg s)
  then show ?case using fs_boot(1,3,4)[OF start] by (simp add: budget_ok_def active_def rest_def)
next
  case (op_begin f p lg)
  then show ?case using fs_begin[of st f lg] budget_begin[of f p lg] by (simp add: MAXOPBLOCKS_def)
next
  case (op_read f p bn w s)
  then show ?case using fs_read(1)[of st f p bn w s] by (simp add: budget_ok_def active_def rest_def)
next
  case (op_update f p k bn k' w lg s)
  note B = budget_some[OF conjunct2[OF op_update.IH] op_update.hyps(2)]
  show ?case
  proof (cases "lh_n (lh (flog f)) < 30")
    case True
    obtain lg1 s1 where u: "update_block p bn w (flog f) (fstore f) = Inr (lg1, s1)" "lg1 = (flog f)\<lparr>lh := lh lg1\<rparr>"
      "lh_n (lh lg1) = (if bn \<in> set (logged (flog f)) then lh_n (lh (flog f)) else lh_n (lh (flog f)) + 1)"
      "fs_inv st (f\<lparr>flog := lg1, fstore := s1, ops := (ops f)(p := Some k'), current := (current f)(bn := w)\<rparr>)"
      using fs_update[OF conjunct1[OF op_update.IH] conjunct1[OF B] True op_update.hyps(3), of p w "(ops f)(p := Some k')"] by blast
    have e: "lg1 = lg" "s1 = s" using u(1) op_update.hyps(5) by simp_all
    have "outstanding lg = outstanding (flog f)" using arg_cong[OF u(2), of outstanding] unfolding e by simp
    then have "budget_ok (f\<lparr>flog := lg, fstore := s, ops := (ops f)(p := Some k'), current := (current f)(bn := w)\<rparr>)"
      using u(3) op_update.hyps(4) by (intro budget_change[OF conjunct2[OF op_update.IH] op_update.hyps(2)]) (auto simp: e split: if_splits)
    then show ?thesis using u(4) unfolding e by blast
  next
    case False
    then show ?thesis using update_full[of "flog f" p bn w "fstore f"] op_update.hyps(5) by auto
  qed
next
  case (op_end f p k lg s)
  then have I: "fs_inv st f" and b: "budget_ok f" by blast+
  have n: "lh_n (lh (flog f)) \<le> 30" using fs_invD(4)[OF I] by (simp add: log_ok_def)
  show ?case
  proof (cases "outstanding (flog f) = 1")
    case True
    then have "lh_n (lh (flog f)) < 30" using fs_end_full[OF I True, of p] op_end.hyps(3) n by force
    note c = fs_commit[OF I True this, of p "(ops f)(p := None)"]
    define lg1 where "lg1 = (flog f)\<lparr>outstanding := 0, ncommit := ncommit (flog f) + 1, lh := (lh (flog f))\<lparr>lh_n := 0\<rparr>\<rparr>"
    obtain s1 where s1: "end_op p (flog f) (fstore f) = Inr (lg1, s1)"
      "fs_inv st (f\<lparr>flog := lg1, fstore := s1, ops := (ops f)(p := None), committed := current f\<rparr>)"
      using c unfolding lg1_def by blast
    have lg: "lg = lg1" and i: "fs_inv st (f\<lparr>flog := lg, fstore := s, ops := (ops f)(p := None), committed := current f\<rparr>)"
      using s1 op_end.hyps(3) by simp_all
    have "0 \<le> lh_n (lh (flog f))" using fs_invD(4)[OF I] by (simp add: log_ok_def)
    then have "budget_ok (f\<lparr>flog := lg, fstore := s, ops := (ops f)(p := None), committed := current f\<rparr>)"
      by (intro budget_end[OF b op_end.hyps(2)]) (simp_all add: lg lg1_def True)
    then show ?thesis using i True by simp
  next
    case False
    have lg: "lg = (flog f)\<lparr>outstanding := outstanding (flog f) - 1\<rparr>" "s = fstore f" using fs_end_more(1)[OF I False, of p] op_end.hyps(3) by simp_all
    have "budget_ok (f\<lparr>flog := lg, fstore := s, ops := (ops f)(p := None), committed := committed f\<rparr>)"
      by (intro budget_end[OF b op_end.hyps(2)]) (simp_all add: lg)
    then show ?thesis using fs_end_more(2)[OF I False, of "(ops f)(p := None)"] False by (simp add: lg)
  qed
qed

text \<open>However often the machine crashes while it starts from \<open>dk\<close>, a start that completes shows the content \<open>c\<close>.\<close>

definition recovers_to :: "blocknum \<Rightarrow> (blocknum \<Rightarrow> block) \<Rightarrow> (blocknum \<Rightarrow> block) \<Rightarrow> bool" where
  "recovers_to st dk c \<longleftrightarrow> (\<forall>dk'. survives dk dk' \<longrightarrow>
     (\<exists>lg s. boot dk' = Inr (lg, s) \<and> (\<forall>bn. bn \<notin> log_area st \<longrightarrow> view ROOTDEV s bn = c bn)))"

lemma recovers_toI:
  assumes "fs_disk st dk" "\<And>bn. bn \<notin> log_area st \<Longrightarrow> recovered st dk bn = c bn"
  shows "recovers_to st dk c"
  unfolding recovers_to_def
proof (intro allI impI)
  fix dk' assume "survives dk dk'"
  then have r: "fs_disk st dk'" "\<And>bn. bn \<notin> log_area st \<Longrightarrow> recovered st dk' bn = recovered st dk bn"
    using survives_recovered[OF _ assms(1)] by blast+
  obtain lg s where b: "boot dk' = Inr (lg, s)" using boot_ok[OF r(1)] by blast
  then show "\<exists>lg s. boot dk' = Inr (lg, s) \<and> (\<forall>bn. bn \<notin> log_area st \<longrightarrow> view ROOTDEV s bn = c bn)"
    using fs_boot(2)[OF r(1) b] r(2) assms(2) by (intro exI[of _ lg] exI[of _ s]) simp
qed

lemma fs_idle_recovers:
  assumes "fs_inv st f"
  shows "recovers_to st (disk (fstore f)) (committed f)"
proof (rule recovers_toI)
  note I = fs_invD[OF assms]
  show "fs_disk st (disk (fstore f))" by (rule I(7))
  have "length (disk (fstore f) st) = 256" using I(7) by (simp add: fs_disk_def good_disk_def)
  then show "recovered st (disk (fstore f)) bn = committed f bn" if "bn \<notin> log_area st" for bn
    using recovered_empty(1)[of "disk (fstore f)" st] I(8) I(10)[OF that] by simp
qed

lemma fs_end_recovers:
  assumes "fs_inv st f" "end_op p (flog f) (fstore f) = Inr (lg, s)"
  shows "\<exists>c \<in> {committed f, current f}.
    recovers_to st (apply_writes (take j (drop (length (hist (fstore f))) (hist s))) (disk (fstore f))) c"
proof (cases "outstanding (flog f) = 1 \<and> 0 < lh_n (lh (flog f))")
  case True
  note I = fs_invD[OF assms(1)]
  let ?vw = "view ROOTDEV (fstore f)"
  have "lh_n (lh (flog f)) < 30" using fs_end_full[OF assms(1), of p] True assms(2) I(4) by (force simp: log_ok_def)
  then have h: "drop (length (hist (fstore f))) (hist s) = commit_writes (flog f) ?vw"
    using fs_commit[OF assms(1), of p] True assms(2) by auto
  have vst: "?vw st = disk (fstore f) st" using I(4) I(9)[of st] I(1) by (auto simp: log_ok_def reserved_def log_area_def)
  define dk where "dk = apply_writes (take j (commit_writes (flog f) ?vw)) (disk (fstore f))"
  note cc = commit_crash[OF I(4), unfolded I(1), OF I(7,8) vst I(9) dk_def]
  have "recovers_to st dk (if j \<le> nat (lh_n (lh (flog f))) then committed f else current f)"
    by (rule recovers_toI) (use cc I(10,11) in auto)
  then show ?thesis unfolding h dk_def[symmetric] by (auto split: if_splits)
next
  case False
  have n: "lh_n (lh (flog f)) \<noteq> 30 \<or> outstanding (flog f) \<noteq> 1" using False by auto
  have "hist s = hist (fstore f)"
  proof (cases "outstanding (flog f) = 1")
    case True
    then have "lh_n (lh (flog f)) < 30" using False by simp
    then show ?thesis using fs_commit[OF assms(1) True, of p] False True assms(2) by auto
  next
    case False
    then show ?thesis using fs_end_more(1)[OF assms(1) False, of p] assms(2) by simp
  qed
  then show ?thesis using fs_idle_recovers[OF assms(1)] by simp
qed

section \<open>An example\<close>

text \<open>A disk with the log at block 2; the operations change the blocks from 40 on.\<close>

definition example_disk :: "blocknum \<Rightarrow> block" where
  "example_disk = (\<lambda>_. replicate 256 0)(1 := (replicate 256 0)[0 := FSMAGIC, 5 := 2])"

lemma area_2: "unat v < 2 \<or> 32 < unat v \<Longrightarrow> v \<notin> log_area 2"
proof
  assume v: "unat v < 2 \<or> 32 < unat v" "v \<in> log_area 2"
  then consider "v = 2" | t where "t < 30" "v = of_nat (t + 3)" by (auto simp: log_area_def add.commute)
  then show False
  proof cases
    case 2
    then have "unat v = t + 3" by (simp only: unat_of_nat) simp
    then show ?thesis using v(1) 2(1) by simp
  qed (use v(1) in simp)
qed

lemma unat_block: "i < 30 \<Longrightarrow> unat (of_nat (40 + i) :: 32 word) = 40 + i"
  by (simp only: unat_of_nat) simp

lemma block_reserved: "i < 30 \<Longrightarrow> (of_nat (40 + i) :: 32 word) \<notin> reserved 2"
proof -
  assume u: "i < 30"
  have "(of_nat (40 + i) :: 32 word) \<noteq> 1"
  proof
    assume "(of_nat (40 + i) :: 32 word) = 1"
    then have "unat (of_nat (40 + i) :: 32 word) = 1" by (simp only: unat_1)
    then show False using unat_block[OF u] by simp
  qed
  then show ?thesis using area_2[of "of_nat (40 + i)"] unat_block[OF u] by (simp only: reserved_def) simp
qed

lemma example_disk_ok: "fs_disk 2 example_disk"
  using area_2[of 1] by (simp add: fs_disk_def good_disk_def example_disk_def)

definition blocks_upto :: "nat \<Rightarrow> blocknum list" where
  "blocks_upto m = map (\<lambda>i. of_nat (40 + i)) [0 ..< m]"

lemma example_start:
  obtains f where "fs_run 2 f" "\<And>p. ops f p = None" "logged (flog f) = []" "lh_n (lh (flog f)) = 0" "outstanding (flog f) = 0"
    "committed f 40 = replicate 256 0"
proof -
  obtain lg s where b: "boot example_disk = Inr (lg, s)" using boot_ok[OF example_disk_ok] by blast
  note B = fs_boot[OF example_disk_ok b]
  let ?f = "\<lparr>flog = lg, fstore = s, ops = (\<lambda>_. None), committed = disk s, current = disk s\<rparr>"
  have a: "(40 :: 32 word) \<notin> log_area 2" using area_2[of 40] by simp
  have "recovered 2 example_disk = example_disk" by (rule recovered_empty(1)) (simp_all add: example_disk_def)
  then have "disk s 40 = replicate 256 0" using B(2)[OF a] fs_invD(10,11)[OF B(1) a] by (simp add: example_disk_def)
  then show thesis using that[OF fs_run.start[OF example_disk_ok b]] B(3,4) by (simp add: logged_def)
qed

lemma example_begin:
  assumes "fs_run 2 f" "ops f p = None" "lh_n (lh (flog f)) + (outstanding (flog f) + 1) * 10 \<le> 30"
  shows "fs_run 2 (f\<lparr>flog := (flog f)\<lparr>outstanding := outstanding (flog f) + 1\<rparr>, ops := (ops f)(p := Some 10)\<rparr>)"
proof -
  have "\<not> committing (flog f)" using fs_run_inv[OF assms(1)] fs_invD(3) by blast
  then have "begin_op (flog f) = Some ((flog f)\<lparr>outstanding := outstanding (flog f) + 1\<rparr>)"
    using assms(3) by (simp add: begin_op_def MAXOPBLOCKS_def LOGBLOCKS_def)
  from fs_run.op_begin[OF assms(1,2) this] show ?thesis by (simp add: MAXOPBLOCKS_def)
qed

lemma example_update:
  assumes "fs_run 2 f" "ops f p = Some (Suc k)" "logged (flog f) = blocks_upto m" "m < 30"
  shows "\<exists>f'. fs_run 2 f' \<and> ops f' = (ops f)(p := Some k) \<and> logged (flog f') = blocks_upto (Suc m) \<and>
    outstanding (flog f') = outstanding (flog f) \<and> committed f' = committed f \<and> current f' (of_nat (40 + m)) = w"
proof -
  have I: "fs_inv 2 f" and b: "budget_ok f" using fs_run_inv[OF assms(1)] by blast+
  have n: "lh_n (lh (flog f)) < 30" "0 < outstanding (flog f)" using budget_some[OF b assms(2)] by simp_all
  let ?bn = "of_nat (40 + m) :: 32 word"
  have new: "?bn \<notin> set (blocks_upto m)"
  proof
    assume "?bn \<in> set (blocks_upto m)"
    then obtain i where i: "?bn = of_nat (40 + i)" "i < m" by (auto simp: blocks_upto_def)
    then show False using unat_block[of m] unat_block[of i] assms(4) by (metis add_left_cancel less_irrefl less_trans)
  qed
  obtain lg s where u: "update_block p ?bn w (flog f) (fstore f) = Inr (lg, s)" "lg = (flog f)\<lparr>lh := lh lg\<rparr>"
    "logged lg = (if ?bn \<in> set (logged (flog f)) then logged (flog f) else logged (flog f) @ [?bn])"
    using fs_update[OF I n(2,1) block_reserved[OF assms(4)], of p w "ops f"] by blast
  let ?f = "f\<lparr>flog := lg, fstore := s, ops := (ops f)(p := Some k), current := (current f)(?bn := w)\<rparr>"
  have "fs_run 2 ?f"
    by (rule fs_run.op_update[OF assms(1,2) block_reserved[OF assms(4)] _ u(1)]) (use new assms(3) in simp)
  moreover have "outstanding lg = outstanding (flog f)" using arg_cong[OF u(2), of outstanding] by simp
  moreover have "logged lg = blocks_upto (Suc m)" using u(3) new assms(3) by (simp add: blocks_upto_def)
  ultimately show ?thesis by (intro exI[of _ ?f]) simp
qed

lemma example_fill:
  assumes "fs_run 2 f" "ops f p = Some k" "logged (flog f) = blocks_upto m" "m + k \<le> 30"
  shows "\<exists>f'. fs_run 2 f' \<and> ops f' = (ops f)(p := Some 0) \<and> logged (flog f') = blocks_upto (m + k) \<and>
    outstanding (flog f') = outstanding (flog f)"
  using assms
proof (induction k arbitrary: f m)
  case 0
  then show ?case by (intro exI[of _ f]) (auto simp: fun_eq_iff)
next
  case (Suc k)
  have m: "m < 30" using Suc.prems(4) by simp
  obtain f1 where f1: "fs_run 2 f1" "ops f1 = (ops f)(p := Some k)" "logged (flog f1) = blocks_upto (Suc m)"
    "outstanding (flog f1) = outstanding (flog f)" using example_update[OF Suc.prems(1-3) m, of "[]"] by blast
  have "ops f1 p = Some k" "Suc m + k \<le> 30" using f1(2) Suc.prems(4) by simp_all
  from Suc.IH[OF f1(1) this(1) f1(3) this(2)] show ?case unfolding f1(2,4) fun_upd_upd by (simp only: add_Suc_shift)
qed

section \<open>Properties\<close>

text \<open>
  C4.  Operations are atomic with respect to crashes.  In every state that concurrent operations can
  reach: readers see the current content; a crash before the end of the last operation loses all
  changes since the last commit and nothing else; a crash after any of the disk writes of \<open>end_op\<close>
  leaves either all of these changes or none.  All of this holds also when the recovery itself
  crashes, any number of times, after any of its writes.
\<close>

theorem fs_crash_atomic:
  assumes "fs_run st f"
  shows "(bn \<notin> log_area st \<longrightarrow> view ROOTDEV (fstore f) bn = current f bn) \<and>
    recovers_to st (disk (fstore f)) (committed f) \<and>
    (end_op p (flog f) (fstore f) = Inr (lg, s) \<longrightarrow>
      recovers_to st (apply_writes (take j (drop (length (hist (fstore f))) (hist s))) (disk (fstore f))) (committed f) \<or>
      recovers_to st (apply_writes (take j (drop (length (hist (fstore f))) (hist s))) (disk (fstore f))) (current f))"
proof -
  have I: "fs_inv st f" using fs_run_inv[OF assms] by blast
  show ?thesis using fs_invD(11)[OF I] fs_idle_recovers[OF I] fs_end_recovers[OF I, of p lg s j] by auto
qed

theorem fs_crash_atomic_witness:
  "\<exists>f lg s. fs_run 2 f \<and> end_op 5 (flog f) (fstore f) = Inr (lg, s) \<and> current f 40 \<noteq> committed f 40 \<and>
    view ROOTDEV (fstore f) 40 = current f 40 \<and> recovers_to 2 (disk (fstore f)) (committed f) \<and>
    (\<exists>c. recovers_to 2 (apply_writes (take 2 (drop (length (hist (fstore f))) (hist s))) (disk (fstore f))) c)"
proof (rule example_start)
  fix f assume f: "fs_run 2 f" "\<And>p. ops f p = None" "logged (flog f) = []" "lh_n (lh (flog f)) = 0" "outstanding (flog f) = 0"
    "committed f 40 = replicate 256 0"
  let ?f1 = "f\<lparr>flog := (flog f)\<lparr>outstanding := outstanding (flog f) + 1\<rparr>, ops := (ops f)(5 := Some 10)\<rparr>"
  have r1: "fs_run 2 ?f1" by (rule example_begin[OF f(1,2)]) (simp add: f(4,5))
  have o1: "ops ?f1 5 = Some (Suc 9)" "logged (flog ?f1) = blocks_upto 0" using f(3) by (simp_all add: blocks_upto_def logged_def)
  obtain f' where f': "fs_run 2 f'" "ops f' = (ops ?f1)(5 := Some 9)" "outstanding (flog f') = outstanding (flog ?f1)"
    "logged (flog f') = blocks_upto (Suc 0)" "committed f' = committed ?f1" "current f' (of_nat (40 + 0)) = replicate 256 7"
    using example_update[OF r1 o1, of "replicate 256 7"] by auto
  have I: "fs_inv 2 f'" using fs_run_inv[OF f'(1)] by blast
  have "length (logged (flog f')) = nat (lh_n (lh (flog f')))" by (rule log_okD(3)[OF fs_invD(4)[OF I]])
  then have n: "lh_n (lh (flog f')) < 30" using f'(4) by (simp add: blocks_upto_def)
  have "outstanding (flog f') = 1" using f'(3) f(5) by simp
  then obtain lg s where e: "end_op 5 (flog f') (fstore f') = Inr (lg, s)" using fs_commit[OF I _ n, of 5 "ops f'"] by blast
  have "current f' 40 \<noteq> committed f' 40" using f'(5,6) f(6) by simp
  with f'(1) e fs_crash_atomic[OF f'(1), of 40 5 lg s 2] area_2[of 40]
  show ?thesis by (intro exI[of _ f'] exI[of _ lg] exI[of _ s]) auto
qed



text \<open>
  C23.  The limits do not fit together: three operations that each change ten blocks, which is what
  \<open>MAXOPBLOCKS\<close> and \<open>LOGBLOCKS\<close> allow, fill the log and pin all buffers, as \<open>NBUF\<close> equals \<open>LOGBLOCKS\<close>; the
  last of them panics in its commit.
\<close>

theorem full_log_panics:
  "\<exists>f p. fs_run 2 f \<and> ops f p = Some 0 \<and> end_op p (flog f) (fstore f) = Inl (Panic ''bget: no buffers'')"
proof (rule example_start)
  fix f assume f: "fs_run 2 f" "\<And>p. ops f p = None" "logged (flog f) = []" "lh_n (lh (flog f)) = 0" "outstanding (flog f) = 0"
  let ?op = "\<lambda>f p. f\<lparr>flog := (flog f)\<lparr>outstanding := outstanding (flog f) + 1\<rparr>, ops := (ops f)(p := Some 10)\<rparr>"
  have r1: "fs_run 2 (?op f 0)" by (rule example_begin[OF f(1,2)]) (simp add: f(4,5))
  have r2: "fs_run 2 (?op (?op f 0) 1)" by (rule example_begin[OF r1]) (simp_all add: f)
  have r3: "fs_run 2 (?op (?op (?op f 0) 1) 2)" by (rule example_begin[OF r2]) (simp_all add: f)
  let ?f3 = "?op (?op (?op f 0) 1) 2"
  have "logged (flog ?f3) = blocks_upto 0" using f(3) by (simp add: logged_def blocks_upto_def)
  from example_fill[OF r3 _ this, of 0 10] obtain f4 where f4: "fs_run 2 f4" "ops f4 = (ops ?f3)(0 := Some 0)"
    "logged (flog f4) = blocks_upto 10" "outstanding (flog f4) = 3" using f(5) by auto
  from example_fill[OF f4(1) _ f4(3), of 1 10] obtain f5 where f5: "fs_run 2 f5" "ops f5 = (ops f4)(1 := Some 0)"
    "logged (flog f5) = blocks_upto 20" "outstanding (flog f5) = 3" using f4(2,4) by auto
  from example_fill[OF f5(1) _ f5(3), of 2 10] obtain f6 where f6: "fs_run 2 f6" "ops f6 = (ops f5)(2 := Some 0)"
    "logged (flog f6) = blocks_upto 30" "outstanding (flog f6) = 3" using f4(2) f5(2,4) by auto
  let ?stop = "\<lambda>f p. f\<lparr>flog := (flog f)\<lparr>outstanding := outstanding (flog f) - 1\<rparr>, fstore := fstore f, ops := (ops f)(p := None),
      committed := committed f\<rparr>"
  have stop: "fs_run 2 (?stop g p)" if "fs_run 2 g" "ops g p = Some 0" "outstanding (flog g) \<noteq> 1" for g p
    using fs_run.op_end[OF that(1,2) fs_end_more(1)[OF conjunct1[OF fs_run_inv[OF that(1)]] that(3), of p]] that(3) by simp
  have r7: "fs_run 2 (?stop f6 0)" by (rule stop[OF f6(1)]) (simp_all add: f6(2,4) f5(2) f4(2))
  have r8: "fs_run 2 (?stop (?stop f6 0) 1)" by (rule stop[OF r7]) (simp_all add: f6(2,4) f5(2))
  let ?f8 = "?stop (?stop f6 0) 1"
  have I: "fs_inv 2 ?f8" using fs_run_inv[OF r8] by blast
  have "logged (flog ?f8) = blocks_upto 30" using f6(3) by (simp add: logged_def)
  then have "nat (lh_n (lh (flog ?f8))) = 30" using log_okD(3)[OF fs_invD(4)[OF I]] by (simp add: blocks_upto_def)
  then have "end_op 2 (flog ?f8) (fstore ?f8) = Inl (Panic ''bget: no buffers'')"
    by (intro fs_end_full[OF I]) (simp_all add: f6(4))
  then show ?thesis using r8 by (intro exI[of _ ?f8] exI[of _ 2]) (simp add: f6(2))
qed

end
