(* ===== verification/Spec2Isabelle.thy ===== *)
theory Spec2Isabelle
  imports Lexer Parser Redirect Jobs Job_Commands Hop Peek Locate Reveal Spy Snoop Main_Inv Mlfq_Smp Kpipe Kalloc Wal_Trans
begin

text \<open>
  \<^bold>\<open>A POSIX shell in C and an MLFQ scheduler for xv6.\<close>

  The repository holds two programs.  \<open>src/c-shell\<close> is a shell: a lexer and a parser, pipelines and
  redirections, background jobs with job control, and nine built-in commands.  \<open>src/xv6\<close> is the xv6
  kernel with a multi-level feedback queue scheduler.  This development models the shell as a
  whole, from the characters of a line to the descriptor tables of the processes it creates, and
  of the kernel the scheduling in the MLFQ build, pipes, the page allocator, the buffer cache and the
  log of the file system.

  \<^bold>\<open>The shell.\<close>  \<open>main.c\<close> reads a line, \<open>lexer.c\<close> turns it into a list of tokens, \<open>parser.c\<close> accepts or
  rejects it; a line that starts with a built-in goes to that command, every other one to
  \<open>sequence.c\<close>, which cuts it at \<open>;\<close> and \<open>&\<close> and calls the executor of \<open>command.c\<close> and
  \<open>background.c\<close> for each part.  The executor splits off redirections, opens files, makes pipes, forks
  helper processes for multiple files and the commands themselves, hands the terminal over and
  waits (\<open>terminal.c\<close>).  The table of jobs (\<open>background.c\<close>) is filled by the launchers, emptied by the
  SIGCHLD handler through a pipe of notifications, and read by \<open>activities\<close>, \<open>ping\<close>, \<open>resume\<close> and the
  end of input.

  \<^item> \<open>Shell_Prelude\<close>: strings, decimal numbers, \<open>strtol\<close>, \<open>snprintf\<close> and \<open>strtok\<close> as the code uses
    them; faults (a write outside an array, a signed overflow) as the left side of a sum with
    \<open>bind_fault\<close>; list updates at the first match and removal by the last element.
  \<^item> \<open>Lexer\<close> (\<open>lexer.c\<close>): tokens, quoting and escapes, the word buffer of 1024 bytes.  Lexing is total on
    lines of the input buffer, never leaves the word buffer, produces well-formed tokens only, and is
    a left inverse of printing.
  \<^item> \<open>Parser\<close> (\<open>parser.c\<close>): the recursive-descent routines accept exactly the grammar, which is given by
    inductive predicates.
  \<^item> \<open>Redirect\<close> (\<open>command.c\<close>): redirections, pipeline stages and the fixed arrays of 100 entries, against
    a functional split of the tokens.
  \<^item> \<open>Descriptors\<close>, \<open>Pipeline\<close>, \<open>Pipeline_Wiring\<close> (\<open>command.c\<close>): \<open>open_output_files\<close>, \<open>setup_input\<close>,
    \<open>start_output_copier\<close> and \<open>run_pipeline\<close>.  The kernel is a record: the shell's descriptor table, the
    outcomes of the next calls of \<open>open\<close>, \<open>pipe\<close> and \<open>fork\<close>, and the processes created, each with the
    table it has at \<open>execv\<close>.  Whatever calls fail, the processes cannot wait for each other in a circle;
    when they succeed, every stage is connected as written and the shell's table is restored.
  \<^item> \<open>Background_Run\<close> (\<open>background.c\<close>, \<open>command.c\<close>): \<open>run_background\<close> has the same property;
    \<open>run_pipeline_background\<close> has not, and a line that deadlocks is exhibited.
  \<^item> \<open>Jobs\<close> (\<open>background.c\<close>): the table, the handler, the notification pipe.  Every reachable table is
    well formed, and every operation is a step of an abstract map from job numbers to jobs.  The
    contract that the job commands rely on is the locale \<open>job_store\<close>.
  \<^item> \<open>Terminal\<close> (\<open>terminal.c\<close>), \<open>Job_Commands\<close> (\<open>resume.c\<close>, \<open>ping.c\<close>, \<open>activities.c\<close>): terminal ownership, the
    two foreground waits over a list of kernel events, end of input, and the three job commands.
  \<^item> \<open>Frecency\<close>, \<open>Hop\<close> (\<open>frecency.c\<close>, \<open>hop.c\<close>, \<open>user_path.c\<close>), \<open>Peek\<close>, \<open>Locate\<close> (also \<open>find_path\<close> and
    \<open>resolve_command\<close> of \<open>command.c\<close>), \<open>Reveal\<close>, \<open>Spy\<close>, \<open>Snoop\<close>: the other built-ins, each with the file
    system, \<open>/proc\<close> or \<open>ptrace\<close> as a record of functions or a list of events.
  \<^item> \<open>Executor\<close> (\<open>command.c\<close>, \<open>sequence.c\<close>): an accepted line of plain words runs as the list of its
    commands says.
  \<^item> \<open>Main_Loop\<close>, \<open>Main_Inv\<close> (\<open>main.c\<close>): all parts together.  At every prompt the job table is well formed
    and the terminal belongs to the shell; two ends of input in a row end the loop.

  \<^bold>\<open>The scheduler.\<close>
  \<^item> \<open>Proc_Queue\<close> (\<open>proc.h\<close>, \<open>proc.c\<close>): the process table and the four ready queues as pointers through
    it.  \<open>enqueue\<close> and \<open>deque\<close> implement lists; the contract is the locale \<open>fifo_queues\<close>.
  \<^item> \<open>Mlfq\<close> (\<open>proc.c\<close>, \<open>trap.c\<close>): every state change of a process in the MLFQ build, from \<open>allocproc\<close> to \<open>kwait\<close>,
    with the boost, the timer traps and the clock.  The tick counter has 32 bits.
  \<^item> \<open>Mlfq_Inv\<close>: the invariant of process table and queues and what each operation does to it.
  \<^item> \<open>Mlfq_Smp\<close>: the interleaving of several processors and the clock interrupt as a step relation whose
    steps are the regions between lock operations.  Two processors are never on the stack of one
    process, every runnable process is in exactly one place, queues are left in order; what the code
    computes undisturbed is a run of these steps.

  \<^bold>\<open>Kernel services.\<close>
  \<^item> \<open>Kpipe\<close> (\<open>pipe.c\<close>): the ring buffer and the system calls, each region under the lock a function;
    readers, writers, closers and kills interleave.  A pipe is a stream of bytes, also when the
    32-bit counters wrap; without kills no wakeup is lost, with kills one is.
  \<^item> \<open>Kalloc\<close> (\<open>kalloc.c\<close>): the free list through the pages.  Pages in use are never handed out again; the
    contract is the locale \<open>page_store\<close>.
  \<^item> \<open>Bcache\<close> (\<open>bio.c\<close>, \<open>sleeplock.c\<close>): thirty buffers in a doubly linked list, references and sleep locks.
    What each function does to the list, to the content of the blocks as readers see it, and to the
    disk; the disk keeps the sequence of its writes.
  \<^item> \<open>Wal\<close> (\<open>log.c\<close>, \<open>readsb\<close> and \<open>fsinit\<close> of \<open>fs.c\<close>): the log, over the functions of \<open>Bcache\<close>.
    \<open>Wal_Crash\<close>: the writes of a commit and of a recovery, and what is left when they are cut off.
    \<open>Wal_Trans\<close>: concurrent operations with the reservation of log space.  Every operation is atomic
    with respect to crashes, also of the recovery itself; the space suffices except for a log filled
    to its last block, where the commit panics.

  \<^bold>\<open>Conventions.\<close>  C strings are strings of characters without the terminator; a buffer is a bound on a
  length.  Outcomes of system calls are parameters: fields of an environment or lists of
  results.  A blocked wait is \<open>None\<close> or \<open>Blocked\<close>.  Loops over lists are recursive; \<open>boost_queue\<close>, which
  could run for ever on a broken queue, is a partial function proved to return.  \<open>reveal\<close> descends into
  a tree without bound and has fuel; the fuel is the depth of the tree, for which the listing is
  proved complete.

  \<^bold>\<open>Not modelled.\<close>  In the shell: what a program does after \<open>execv\<close>; the asynchronous delivery of SIGCHLD in
  the middle of a function (its handler runs while the shell waits for a line, or at the places
  the environment of \<open>resume\<close> names); signal dispositions of children; \<open>run_command_with_output\<close>, which
  nothing calls; floating-point times in \<open>snoop\<close>, which are whole nanoseconds here.  In xv6: address
  spaces, inodes, directories and files, devices, system call dispatch and assembly, which the
  modelled parts do not look at; spin locks, whose effect is the grain of the interleaving; the use
  of the buffer cache by other processes in the middle of a commit; the FIFO and round-robin builds;
  the user programs.
\<close>

end
